(* ===== verification/Prelude.thy ===== *)
theory Prelude
  imports Main "HOL-Library.Word"
begin

text \<open>
  Shared vocabulary of the development: the machine types of the LP64 target (x86-64: an
  \<^verbatim>\<open>unsigned long\<close> is 64 bits, an \<^verbatim>\<open>int\<close> 32 bits, stored little-endian), the ways a C or
  C++ computation can stop before it returns, the sequencing of computations that may stop, and
  the struct layout rule of the target ABI.
\<close>

named_theorems res_simps "rewriting of sequenced computations"
named_theorems layout_simps "sizes, offsets and magic numbers of the C structures"
named_theorems mem_simps "reads over writes of the pool memory"

type_synonym u8 = "8 word"
type_synonym u64 = "64 word"    \<comment> \<open>\<^verbatim>\<open>unsigned long\<close>\<close>
type_synonym i32 = "32 word"    \<comment> \<open>\<^verbatim>\<open>int\<close>, two's complement, read by \<open>sint\<close>\<close>

section \<open>Computations that may stop\<close>

text \<open>
  \<^theory_text>\<open>Exit_failure\<close> is \<^verbatim>\<open>exit(EXIT_FAILURE)\<close>, \<^theory_text>\<open>Assert_failed\<close> a failed
  \<^verbatim>\<open>assert\<close>, \<^theory_text>\<open>Uncaught\<close> a C++ exception that no handler catches.  The others are the
  undefined behaviours the code can run into: past such a point C gives the program no meaning,
  so the model stops there and records which one it was.
\<close>

datatype stop =
    Exit_failure
  | Assert_failed
  | Uncaught string
  | Null_deref
  | Wild_deref
  | Out_of_bounds
  | Use_after_free
  | Double_free
  | Division_by_zero
  | Signed_overflow
  | Indeterminate

type_synonym 'a res = "stop + 'a"

fun and_then :: "'a res \<Rightarrow> ('a \<Rightarrow> 'b res) \<Rightarrow> 'b res" where
  "and_then (Inl e) f = Inl e"
| "and_then (Inr x) f = f x"

lemma and_then_Inr_iff [res_simps]:
  "and_then r f = Inr y \<longleftrightarrow> (\<exists>x. r = Inr x \<and> f x = Inr y)"
  by (cases r) auto

lemma and_then_Inl_iff [res_simps]:
  "and_then r f = Inl e \<longleftrightarrow> r = Inl e \<or> (\<exists>x. r = Inr x \<and> f x = Inl e)"
  by (cases r) auto

lemma and_then_assoc:
  "and_then (and_then r f) g = and_then r (\<lambda>x. and_then (f x) g)"
  by (cases r) auto

lemma and_then_cong [fundef_cong]:
  "r = r' \<Longrightarrow> (\<And>x. r' = Inr x \<Longrightarrow> f x = g x) \<Longrightarrow> and_then r f = and_then r' g"
  by (cases r') auto

section \<open>Layout of C structures\<close>

text \<open>
  A field is its name, size and alignment.  Fields are placed in order, each at the next multiple
  of its alignment; the size of the structure is rounded up to its largest alignment.
\<close>

type_synonym cfield = "string \<times> nat \<times> nat"

definition align_up :: "nat \<Rightarrow> nat \<Rightarrow> nat" where
  "align_up n a = (n + (a - 1)) div a * a"

fun place_fields :: "nat \<Rightarrow> cfield list \<Rightarrow> (string \<times> nat) list" where
  "place_fields p [] = []"
| "place_fields p ((f, sz, al) # fs) =
     (f, align_up p al) # place_fields (align_up p al + sz) fs"

fun fields_end :: "nat \<Rightarrow> cfield list \<Rightarrow> nat" where
  "fields_end p [] = p"
| "fields_end p ((f, sz, al) # fs) = fields_end (align_up p al + sz) fs"

definition sizeof_struct :: "cfield list \<Rightarrow> nat" where
  "sizeof_struct fs = align_up (fields_end 0 fs) (foldr (\<lambda>(f, sz, al). max al) fs 1)"

definition offset_of :: "cfield list \<Rightarrow> string \<Rightarrow> nat" where
  "offset_of fs f = (case map_of (place_fields 0 fs) f of Some p \<Rightarrow> p | None \<Rightarrow> 0)"

lemmas layout_eval = align_up_def sizeof_struct_def offset_of_def

section \<open>Words\<close>

lemma unat_of_nat_small: "n < 2 ^ LENGTH('a) \<Longrightarrow> unat (of_nat n :: 'a::len word) = n"
  by (simp add: unat_of_nat take_bit_nat_eq_self)

lemma of_nat_eq_iff_small:
  "m < 2 ^ LENGTH('a) \<Longrightarrow> n < 2 ^ LENGTH('a) \<Longrightarrow>
   (of_nat m :: 'a::len word) = of_nat n \<longleftrightarrow> m = n"
  by (metis unat_of_nat_small)

lemma all_less_Suc_split: "(\<forall>i<Suc n. P i) \<longleftrightarrow> P 0 \<and> (\<forall>i<n. P (Suc i))"
  by (auto simp: less_Suc_eq_0_disj)

end
