(* ===== verification/PoolMemory.thy ===== *)
theory PoolMemory
  imports Prelude
begin

unbundle bit_operations_syntax

text \<open>
  The memory pool as bytes, and the structures \<^verbatim>\<open>memgraphlib/definitions.h\<close> lays over it.  A pool
  is a function from byte offsets to bytes; 64-bit fields are read and written little-endian, byte
  by byte, as the x86-64 code does.  The interface \<^theory_text>\<open>memory_cell\<close> states what a typed cell of
  that memory promises, and the encoding of a graph as a sequence of 64-bit words is defined here.
\<close>

type_synonym bytes = "nat \<Rightarrow> u8"

section \<open>Reading and writing cells\<close>

definition load8 :: "bytes \<Rightarrow> nat \<Rightarrow> u8" where
  "load8 m a = m a"

definition store8 :: "bytes \<Rightarrow> nat \<Rightarrow> u8 \<Rightarrow> bytes" where
  "store8 m a v = m(a := v)"

definition load64 :: "bytes \<Rightarrow> nat \<Rightarrow> u64" where
  "load64 m a = foldr (\<lambda>i w. push_bit (8 * i) (ucast (m (a + i))) OR w) [0..<8] 0"

definition store64 :: "bytes \<Rightarrow> nat \<Rightarrow> u64 \<Rightarrow> bytes" where
  "store64 m a v =
     (\<lambda>k. if a \<le> k \<and> k < a + 8 then ucast (drop_bit (8 * (k - a)) v) else m k)"

text \<open>\<^verbatim>\<open>memset\<close> and \<^verbatim>\<open>memcpy\<close> into the pool at offset 0.\<close>

definition mem_set :: "bytes \<Rightarrow> u8 \<Rightarrow> nat \<Rightarrow> bytes" where
  "mem_set m v n = (\<lambda>k. if k < n then v else m k)"

definition mem_copy :: "bytes \<Rightarrow> bytes \<Rightarrow> nat \<Rightarrow> bytes" where
  "mem_copy m src n = (\<lambda>k. if k < n then src k else m k)"

lemma bit_foldr_OR:
  "bit (foldr (\<lambda>i w. f i OR w) xs (0 :: 'a::len word)) n \<longleftrightarrow> (\<exists>i\<in>set xs. bit (f i) n)"
  by (induction xs) (auto simp: bit_simps)

lemma bit_u8_bound: "bit (w :: u8) j \<Longrightarrow> j < 8"
  by (drule bit_imp_le_length) simp

lemma bit_shifted_byte:
  "bit (push_bit (8 * i) (ucast (w :: u8)) :: u64) n \<longleftrightarrow>
     n < 64 \<and> 8 * i \<le> n \<and> n - 8 * i < 8 \<and> bit w (n - 8 * i)"
  using bit_u8_bound [of w "n - 8 * i"] by (auto simp: bit_simps)

lemma bit_load64: "bit (load64 m a) n \<longleftrightarrow> n < 64 \<and> bit (m (a + n div 8)) (n mod 8)"
proof -
  have "bit (load64 m a) n \<longleftrightarrow>
      (\<exists>i<8. n < 64 \<and> 8 * i \<le> n \<and> n - 8 * i < 8 \<and> bit (m (a + i)) (n - 8 * i))"
    unfolding load64_def bit_foldr_OR bit_shifted_byte
    by (simp only: set_upt atLeast0LessThan lessThan_iff Bex_def)
  also have "\<dots> \<longleftrightarrow> n < 64 \<and> bit (m (a + n div 8)) (n mod 8)"
  proof (intro iffI)
    assume "\<exists>i<8. n < 64 \<and> 8 * i \<le> n \<and> n - 8 * i < 8 \<and> bit (m (a + i)) (n - 8 * i)"
    then obtain i where i: "n < 64" "8 * i \<le> n" "n - 8 * i < 8" "bit (m (a + i)) (n - 8 * i)"
      by blast
    from i(2,3) obtain r where "n = 8 * i + r" "r < 8"
      by (metis le_add_diff_inverse)
    with i(1,4) show "n < 64 \<and> bit (m (a + n div 8)) (n mod 8)" by simp
  next
    assume "n < 64 \<and> bit (m (a + n div 8)) (n mod 8)"
    then show "\<exists>i<8. n < 64 \<and> 8 * i \<le> n \<and> n - 8 * i < 8 \<and> bit (m (a + i)) (n - 8 * i)"
      by (intro exI [of _ "n div 8"]) (auto simp: minus_mult_div_eq_mod)
  qed
  finally show ?thesis .
qed

section \<open>The interface of a memory cell\<close>

locale memory_cell =
  fixes load :: "bytes \<Rightarrow> nat \<Rightarrow> 'v"
    and store :: "bytes \<Rightarrow> nat \<Rightarrow> 'v \<Rightarrow> bytes"
    and width :: nat
  assumes load_store: "load (store m a v) a = v"
    and store_frame: "k < a \<or> a + width \<le> k \<Longrightarrow> store m a v k = m k"
    and load_cong: "(\<And>k. a \<le> k \<Longrightarrow> k < a + width \<Longrightarrow> m k = m' k) \<Longrightarrow> load m a = load m' a"
begin

lemma load_frame:
  assumes "\<And>k. b \<le> k \<Longrightarrow> k < b + width \<Longrightarrow> k < a \<or> c \<le> k"
    and "\<And>k. k < a \<or> c \<le> k \<Longrightarrow> m' k = m k"
  shows "load m' b = load m b"
  by (rule load_cong) (use assms in blast)

lemma load_store_apart:
  "b + width \<le> a \<or> a + width \<le> b \<Longrightarrow> load (store m a v) b = load m b"
  by (rule load_cong) (auto intro: store_frame)

lemma load_mem_copy: "a + width \<le> n \<Longrightarrow> load (mem_copy m src n) a = load src a"
  by (rule load_cong) (simp add: mem_copy_def)

lemma load_mem_copy_above: "n \<le> a \<Longrightarrow> load (mem_copy m src n) a = load m a"
  by (rule load_cong) (simp add: mem_copy_def)

lemma load_store_same_addr: "a = b \<Longrightarrow> load (store m a v) b = v"
  by (simp add: load_store)

end

interpretation cell64: memory_cell load64 store64 8
proof
  fix m :: bytes and a :: nat and v :: u64
  show "load64 (store64 m a v) a = v"
    by (rule bit_word_eqI) (auto simp: bit_load64 store64_def bit_simps)
next
  fix m :: bytes and k a :: nat and v :: u64
  assume "k < a \<or> a + 8 \<le> k"
  then show "store64 m a v k = m k" by (auto simp: store64_def)
next
  fix a :: nat and m m' :: bytes
  assume "\<And>k. a \<le> k \<Longrightarrow> k < a + 8 \<Longrightarrow> m k = m' k"
  then show "load64 m a = load64 m' a" by (intro bit_word_eqI) (auto simp: bit_load64)
qed

interpretation cell8: memory_cell load8 store8 1
  by unfold_locales (auto simp: load8_def store8_def)

lemmas cell_simps [mem_simps] =
  cell64.load_store cell64.load_store_apart cell8.load_store cell8.load_store_apart
  cell64.load_mem_copy cell8.load_mem_copy

text \<open>A byte cell and a word cell that do not overlap.\<close>

lemma load64_store8_apart [mem_simps]:
  "b + 8 \<le> a \<or> a < b \<Longrightarrow> load64 (store8 m a v) b = load64 m b"
  by (rule cell64.load_cong) (auto simp: store8_def)

lemma load8_store64_apart [mem_simps]:
  "b < a \<or> a + 8 \<le> b \<Longrightarrow> load8 (store64 m a v) b = load8 m b"
  by (auto simp: load8_def store64_def)

lemma load64_zero [mem_simps]: "load64 (\<lambda>_. 0) a = 0"
  by (rule bit_word_eqI) (simp add: bit_load64)

lemma load8_zero [mem_simps]: "load8 (\<lambda>_. 0) a = 0"
  by (simp add: load8_def)

end
