(* ===== verification/MemGraph.thy ===== *)
theory MemGraph
  imports PoolMemory
begin

text \<open>
  \<^verbatim>\<open>kernel/e0256-sandboxing/memgraphlib\<close>: the constants and structures of \<^verbatim>\<open>definitions.h\<close> and
  \<^verbatim>\<open>export/memgraph.h\<close>, the build-dependent macros of \<^verbatim>\<open>utils.h\<close>, and every function of
  \<^verbatim>\<open>memgraph.c\<close> over the module's static variables.
\<close>

section \<open>Constants and structures (definitions.h, memgraph.h)\<close>

definition MEMORY_POOL_SIZE :: nat where [layout_simps]: "MEMORY_POOL_SIZE = 1024 * 1024"
definition GRAPH_META_MAGIC_NUMBER :: u64 where "GRAPH_META_MAGIC_NUMBER = 0xDEADBEEF"
definition NODE_MAGIC_NUMBER :: u64 where "NODE_MAGIC_NUMBER = 0xCAFEBABE"
definition EDGE_MAGIC_NUMBER :: u64 where "EDGE_MAGIC_NUMBER = 0xBAADF00D"
definition MEMPOOL_VERSION :: u64 where "MEMPOOL_VERSION = 1"
definition DEFAULT_NUMBER_OF_NODESLISTINGS :: u64 where
  "DEFAULT_NUMBER_OF_NODESLISTINGS = 4 * 1024"

lemmas magic_defs = GRAPH_META_MAGIC_NUMBER_def NODE_MAGIC_NUMBER_def EDGE_MAGIC_NUMBER_def

definition ERROR_INVALID_GRAPH :: i32 where "ERROR_INVALID_GRAPH = - 1"
definition ERROR_INVALID_NODE :: i32 where "ERROR_INVALID_NODE = - 2"
definition ERROR_INVALID_EDGE :: i32 where "ERROR_INVALID_EDGE = - 3"
definition ERROR_INVALID_STATE :: i32 where "ERROR_INVALID_STATE = - 5"

lemmas error_defs =
  ERROR_INVALID_GRAPH_def ERROR_INVALID_NODE_def ERROR_INVALID_EDGE_def ERROR_INVALID_STATE_def

definition graph_metadata :: "cfield list" where
  "graph_metadata =
    [(''magic'', 8, 8), (''version'', 8, 8), (''checksum'', 8, 8), (''total_size'', 8, 8),
     (''graph_finalized'', 1, 1), (''reserved0'', 15, 1), (''reserved1'', 16, 1),
     (''num_nodes'', 8, 8), (''nodes_table_offset'', 8, 8), (''nodes_table_size'', 8, 8)]"

definition libcalls :: "cfield list" where
  "libcalls = [(''magic'', 8, 8), (''libcallid'', 8, 8), (''next_progstate'', 8, 8)]"

definition abstract_progstate :: "cfield list" where
  "abstract_progstate = [(''magic'', 8, 8), (''id'', 8, 8), (''num_libcalls'', 8, 8)]"

definition NODE_TABLE_OFFSET :: nat where
  "NODE_TABLE_OFFSET = sizeof_struct graph_metadata"

lemma sizes [layout_simps]:
  "NODE_TABLE_OFFSET = 88" "sizeof_struct graph_metadata = 88"
  "sizeof_struct libcalls = 24" "sizeof_struct abstract_progstate = 24"
  by (simp_all add: NODE_TABLE_OFFSET_def graph_metadata_def libcalls_def abstract_progstate_def
      layout_eval)

lemma offsets [layout_simps]:
  "offset_of graph_metadata ''magic'' = 0" "offset_of graph_metadata ''version'' = 8"
  "offset_of graph_metadata ''total_size'' = 24"
  "offset_of graph_metadata ''graph_finalized'' = 32"
  "offset_of graph_metadata ''num_nodes'' = 64"
  "offset_of graph_metadata ''nodes_table_offset'' = 72"
  "offset_of libcalls ''magic'' = 0" "offset_of libcalls ''libcallid'' = 8"
  "offset_of libcalls ''next_progstate'' = 16"
  "offset_of abstract_progstate ''magic'' = 0" "offset_of abstract_progstate ''id'' = 8"
  "offset_of abstract_progstate ''num_libcalls'' = 16"
  by (simp_all add: graph_metadata_def libcalls_def abstract_progstate_def layout_eval)

section \<open>The build and the environment (utils.h)\<close>

text \<open>
  The library is compiled twice: in the kernel \<^verbatim>\<open>PRINT_ERROR_AND_EXIT\<close> returns from the (void)
  function that uses it and \<^verbatim>\<open>MALLOC\<close> is \<^verbatim>\<open>kzalloc\<close>; in user space it ends the process and
  \<^verbatim>\<open>MALLOC\<close> is \<^verbatim>\<open>malloc\<close>.  The environment decides which allocation requests succeed: the
  \<open>k\<close>-th request of the module, for \<open>n\<close> bytes.
\<close>

datatype build = Kernel | User

record env =
  env_build :: build
  env_alloc :: "nat \<Rightarrow> u64 \<Rightarrow> bool"

definition PRINT_ERROR_AND_EXIT :: "env \<Rightarrow> 's \<Rightarrow> 's res" where
  "PRINT_ERROR_AND_EXIT e s = (case env_build e of Kernel \<Rightarrow> Inr s | User \<Rightarrow> Inl Exit_failure)"

section \<open>Pointers and the module's static variables\<close>

text \<open>
  A pointer is null, an indeterminate or foreign address, or an offset into the pool of a given
  generation (each \<^verbatim>\<open>create_pool\<close> starts a new one, so that a pointer kept across
  \<^verbatim>\<open>destroy_pool\<close> is recognised as dangling).
\<close>

datatype ptr = NullP | WildP | PoolP nat nat

fun ptr_add :: "ptr \<Rightarrow> nat \<Rightarrow> ptr" where
  "ptr_add NullP n = (if n = 0 then NullP else WildP)"
| "ptr_add WildP n = WildP"
| "ptr_add (PoolP g k) n = PoolP g (k + n)"

record node_table =
  tbl_cap :: nat
  tbl_slot :: "nat \<Rightarrow> ptr"

record memgraph =
  pool :: "bytes option"
  pool_gen :: nat
  pool_edge :: ptr
  nodes :: "node_table option"
  num_nodes_listings :: u64
  current_progstate :: u64
  start_node :: ptr
  requests :: nat

definition memgraph_init :: memgraph where
  "memgraph_init =
     \<lparr>pool = None, pool_gen = 0, pool_edge = NullP, nodes = None, num_nodes_listings = 0,
      current_progstate = 0, start_node = NullP, requests = 0\<rparr>"

text \<open>Access to a structure field of \<open>w\<close> bytes at offset \<open>k\<close> from a pointer.\<close>

definition deref :: "memgraph \<Rightarrow> ptr \<Rightarrow> nat \<Rightarrow> nat \<Rightarrow> (bytes \<times> nat) res" where
  "deref s p k w =
     (case p of
        NullP \<Rightarrow> Inl Null_deref
      | WildP \<Rightarrow> Inl Wild_deref
      | PoolP g a \<Rightarrow>
          (case pool s of
             None \<Rightarrow> Inl Use_after_free
           | Some m \<Rightarrow>
               if g \<noteq> pool_gen s then Inl Use_after_free
               else if a + k + w \<le> MEMORY_POOL_SIZE then Inr (m, a + k)
               else Inl Out_of_bounds))"

definition ptr_load :: "memgraph \<Rightarrow> ptr \<Rightarrow> nat \<Rightarrow> u64 res" where
  "ptr_load s p k = and_then (deref s p k 8) (\<lambda>(m, a). Inr (load64 m a))"

definition ptr_store :: "memgraph \<Rightarrow> ptr \<Rightarrow> nat \<Rightarrow> u64 \<Rightarrow> memgraph res" where
  "ptr_store s p k v = and_then (deref s p k 8) (\<lambda>(m, a). Inr (s\<lparr>pool := Some (store64 m a v)\<rparr>))"

text \<open>Access to \<^verbatim>\<open>pool->metadata\<close>, through the static variable \<^verbatim>\<open>pool\<close>.\<close>

definition meta_load :: "memgraph \<Rightarrow> string \<Rightarrow> u64 res" where
  "meta_load s f =
     (case pool s of None \<Rightarrow> Inl Null_deref
      | Some m \<Rightarrow> Inr (load64 m (offset_of graph_metadata f)))"

definition meta_store :: "memgraph \<Rightarrow> string \<Rightarrow> u64 \<Rightarrow> memgraph res" where
  "meta_store s f v =
     (case pool s of None \<Rightarrow> Inl Null_deref
      | Some m \<Rightarrow> Inr (s\<lparr>pool := Some (store64 m (offset_of graph_metadata f) v)\<rparr>))"

text \<open>The element \<^verbatim>\<open>nodes[i]\<close> of the lookup table.\<close>

definition get_slot :: "memgraph \<Rightarrow> nat \<Rightarrow> ptr res" where
  "get_slot s i =
     (case nodes s of None \<Rightarrow> Inl Null_deref
      | Some t \<Rightarrow> if i < tbl_cap t then Inr (tbl_slot t i) else Inl Out_of_bounds)"

definition set_slot :: "memgraph \<Rightarrow> nat \<Rightarrow> ptr \<Rightarrow> memgraph res" where
  "set_slot s i p =
     (case nodes s of None \<Rightarrow> Inl Null_deref
      | Some t \<Rightarrow>
          if i < tbl_cap t
          then Inr (s\<lparr>nodes := Some (t\<lparr>tbl_slot := (tbl_slot t)(i := p)\<rparr>)\<rparr>)
          else Inl Out_of_bounds)"

text \<open>
  \<^verbatim>\<open>MALLOC\<close> and \<^verbatim>\<open>REALLOC\<close> of the lookup table, for \<open>sz\<close> bytes (eight per entry).  The
  entries of a fresh \<^verbatim>\<open>kzalloc\<close> block are null, those of a \<^verbatim>\<open>malloc\<close> block indeterminate.
\<close>

definition fresh_slot :: "env \<Rightarrow> ptr" where
  "fresh_slot e = (case env_build e of Kernel \<Rightarrow> NullP | User \<Rightarrow> WildP)"

definition malloc_nodes :: "env \<Rightarrow> u64 \<Rightarrow> memgraph \<Rightarrow> memgraph" where
  "malloc_nodes e sz s =
     s\<lparr>nodes := (if env_alloc e (requests s) sz
                 then Some \<lparr>tbl_cap = unat sz div 8, tbl_slot = (\<lambda>_. fresh_slot e)\<rparr>
                 else None),
       requests := Suc (requests s)\<rparr>"

definition realloc_nodes :: "env \<Rightarrow> node_table \<Rightarrow> u64 \<Rightarrow> memgraph \<Rightarrow> memgraph" where
  "realloc_nodes e t sz s =
     s\<lparr>nodes := (if env_alloc e (requests s) sz
                 then Some \<lparr>tbl_cap = unat sz div 8,
                            tbl_slot = (\<lambda>i. if i < tbl_cap t then tbl_slot t i else WildP)\<rparr>
                 else None),
       requests := Suc (requests s)\<rparr>"

section \<open>Pool allocator\<close>

text \<open>
  The pool is created once, zeroed and given its metadata.  The contents of the fresh block are
  overwritten by the \<^verbatim>\<open>MEMSET\<close> before anything reads them, so the model starts from zeros.
\<close>

definition create_pool :: "env \<Rightarrow> memgraph \<Rightarrow> memgraph res" where
  "create_pool e s =
     (if env_alloc e (requests s) (of_nat MEMORY_POOL_SIZE) then
        let s1 = s\<lparr>requests := Suc (requests s), pool_gen := Suc (pool_gen s),
                   pool_edge := PoolP (Suc (pool_gen s)) NODE_TABLE_OFFSET,
                   pool := Some (mem_set (\<lambda>_. 0) 0 MEMORY_POOL_SIZE)\<rparr>
        in and_then (meta_store s1 ''total_size'' (of_nat MEMORY_POOL_SIZE)) (\<lambda>s2.
           and_then (meta_store s2 ''version'' MEMPOOL_VERSION) (\<lambda>s3.
           and_then (meta_store s3 ''magic'' GRAPH_META_MAGIC_NUMBER) (\<lambda>s4.
           and_then (meta_store s4 ''nodes_table_offset'' (of_nat NODE_TABLE_OFFSET)) (\<lambda>s5.
           meta_store s5 ''num_nodes'' 0))))
      else PRINT_ERROR_AND_EXIT e (s\<lparr>requests := Suc (requests s), pool := None\<rparr>))"

definition destroy_pool :: "memgraph \<Rightarrow> memgraph" where
  "destroy_pool s = (case pool s of None \<Rightarrow> s | Some _ \<Rightarrow> s\<lparr>pool := None\<rparr>)"

definition get_graph :: "memgraph \<Rightarrow> ptr" where
  "get_graph s = (case pool s of None \<Rightarrow> NullP | Some _ \<Rightarrow> PoolP (pool_gen s) 0)"

section \<open>Verification\<close>

text \<open>
  The edge loop of \<^verbatim>\<open>verify_graph\<close>: \<open>r\<close> edges are left, \<open>j\<close> is the index of the next;
  \<open>None\<close> is the early return \<^verbatim>\<open>ERROR_INVALID_EDGE\<close>, otherwise the advanced \<^verbatim>\<open>start_node\<close>.
\<close>

fun verify_edges :: "memgraph \<Rightarrow> ptr \<Rightarrow> nat \<Rightarrow> nat \<Rightarrow> ptr \<Rightarrow> ptr option res" where
  "verify_edges s libs 0 j start = Inr (Some start)"
| "verify_edges s libs (Suc r) j start =
     and_then (ptr_load s libs (j * sizeof_struct libcalls + offset_of libcalls ''magic'')) (\<lambda>mg.
       if mg \<noteq> EDGE_MAGIC_NUMBER then Inr None
       else verify_edges s libs r (Suc j) (ptr_add start (sizeof_struct libcalls)))"

text \<open>The node loop: \<open>r\<close> nodes are left, \<open>i\<close> is the index of the next.\<close>

fun verify_nodes :: "nat \<Rightarrow> nat \<Rightarrow> ptr \<Rightarrow> memgraph \<Rightarrow> (i32 \<times> memgraph) res" where
  "verify_nodes 0 i start s = Inr (1, s)"
| "verify_nodes (Suc r) i start s =
     and_then (set_slot s i start) (\<lambda>s1.
     and_then (ptr_load s1 start (offset_of abstract_progstate ''magic'')) (\<lambda>mg.
       if mg \<noteq> NODE_MAGIC_NUMBER then Inr (ERROR_INVALID_NODE, s1)
       else
         let libs = ptr_add start (sizeof_struct abstract_progstate) in
         and_then (ptr_load s1 start (offset_of abstract_progstate ''num_libcalls'')) (\<lambda>n.
         and_then (verify_edges s1 libs (unat n) 0 libs) (\<lambda>next.
           case next of
             None \<Rightarrow> Inr (ERROR_INVALID_EDGE, s1)
           | Some start' \<Rightarrow> verify_nodes r (Suc i) start' s1))))"

definition verify_graph :: "env \<Rightarrow> memgraph \<Rightarrow> (i32 \<times> memgraph) res" where
  "verify_graph e s =
     (case pool s of
        None \<Rightarrow> Inr (ERROR_INVALID_GRAPH, s)
      | Some m \<Rightarrow>
          if load8 m (offset_of graph_metadata ''graph_finalized'') = 0
          then Inr (ERROR_INVALID_STATE, s)
          else if load64 m (offset_of graph_metadata ''magic'') \<noteq> GRAPH_META_MAGIC_NUMBER
          then Inr (ERROR_INVALID_GRAPH, s)
          else
            let n = load64 m (offset_of graph_metadata ''num_nodes'');
                s1 = (if nodes s = None then malloc_nodes e (8 * n) s else s);
                off = load64 m (offset_of graph_metadata ''nodes_table_offset'')
            in verify_nodes (unat n) 0 (ptr_add (PoolP (pool_gen s) 0) (unat off)) s1)"

section \<open>Initialisation, destruction\<close>

text \<open>A caller's buffer: its length and its bytes; a null pointer is \<open>None\<close>.\<close>

record buffer =
  buf_len :: nat
  buf_bytes :: bytes

definition initialize_graph :: "env \<Rightarrow> buffer option \<Rightarrow> u64 \<Rightarrow> memgraph \<Rightarrow> memgraph res" where
  "initialize_graph e data sz s =
     and_then (if pool s = None then create_pool e s else Inr s) (\<lambda>s1.
     and_then
       (case pool s1 of
          None \<Rightarrow> if sz = 0 then Inr s1 else Inl Null_deref
        | Some m \<Rightarrow>
            if unat sz \<le> MEMORY_POOL_SIZE
            then Inr (s1\<lparr>pool := Some (mem_set m 0 (unat sz))\<rparr>) else Inl Out_of_bounds) (\<lambda>s2.
       if unat sz > MEMORY_POOL_SIZE then PRINT_ERROR_AND_EXIT e s2
       else case (data, pool s2) of
         (Some d, Some m) \<Rightarrow>
           if sz > 0 then
             if unat sz \<le> buf_len d then
               and_then (verify_graph e (s2\<lparr>pool := Some (mem_copy m (buf_bytes d) (unat sz))\<rparr>))
                 (\<lambda>(rc, s3). if rc \<noteq> 1 then PRINT_ERROR_AND_EXIT e s3 else Inr s3)
             else Inl Out_of_bounds
           else Inr (s2\<lparr>nodes := None\<rparr>)
       | _ \<Rightarrow> Inr (s2\<lparr>nodes := None\<rparr>)))"

definition destroy_graph :: "memgraph \<Rightarrow> memgraph" where
  "destroy_graph s =
     (let s1 = destroy_pool s
      in case nodes s1 of None \<Rightarrow> s1 | Some _ \<Rightarrow> s1\<lparr>nodes := None\<rparr>)"

section \<open>Graph construction (user space)\<close>

text \<open>
  The edge loop of \<^verbatim>\<open>alloc_node\<close>: \<open>r\<close> edges are left, \<open>i\<close> is the index of the next.  The two
  arrays are the caller's; an index past the end of one is an out-of-bounds read.
\<close>

fun write_edges :: "ptr \<Rightarrow> u64 list \<Rightarrow> u64 list \<Rightarrow> nat \<Rightarrow> nat \<Rightarrow> memgraph \<Rightarrow> memgraph res" where
  "write_edges libs succs calls 0 i s = Inr s"
| "write_edges libs succs calls (Suc r) i s =
     (let at = (\<lambda>f. i * sizeof_struct libcalls + offset_of libcalls f) in
      and_then (ptr_store s libs (at ''magic'') EDGE_MAGIC_NUMBER) (\<lambda>s1.
      and_then (if i < length calls then Inr (calls ! i) else Inl Out_of_bounds) (\<lambda>c.
      and_then (ptr_store s1 libs (at ''libcallid'') c) (\<lambda>s2.
      and_then (if i < length succs then Inr (succs ! i) else Inl Out_of_bounds) (\<lambda>n.
      and_then (ptr_store s2 libs (at ''next_progstate'') n) (\<lambda>s3.
      write_edges libs succs calls r (Suc i) s3))))))"

text \<open>Growing the lookup table before a node is written.\<close>

definition grow_nodes :: "env \<Rightarrow> memgraph \<Rightarrow> memgraph res" where
  "grow_nodes e s =
     (case nodes s of
        None \<Rightarrow> Inr (malloc_nodes e (8 * DEFAULT_NUMBER_OF_NODESLISTINGS) s)
      | Some t \<Rightarrow>
          and_then (meta_load s ''num_nodes'') (\<lambda>n.
            if n \<ge> num_nodes_listings s then
              let k = num_nodes_listings s + DEFAULT_NUMBER_OF_NODESLISTINGS
              in Inr (realloc_nodes e t (8 * k) (s\<lparr>num_nodes_listings := k\<rparr>))
            else Inr s))"

definition alloc_node ::
    "env \<Rightarrow> u64 \<Rightarrow> i32 \<Rightarrow> u64 list \<Rightarrow> u64 list \<Rightarrow> memgraph \<Rightarrow> (ptr \<times> memgraph) res" where
  "alloc_node e node_id num_successors successor_node_list libcall_list s =
     (let node = pool_edge s;
          s1 = s\<lparr>pool_edge := ptr_add node (sizeof_struct abstract_progstate)\<rparr>
      in and_then (grow_nodes e s1) (\<lambda>s2.
         and_then (ptr_store s2 node (offset_of abstract_progstate ''magic'') NODE_MAGIC_NUMBER) (\<lambda>s3.
         and_then (ptr_store s3 node (offset_of abstract_progstate ''id'') node_id) (\<lambda>s4.
         and_then (ptr_store s4 node (offset_of abstract_progstate ''num_libcalls'')
                     (scast num_successors)) (\<lambda>s5.
         and_then (set_slot s5 (unat node_id) node) (\<lambda>s6.
         and_then
           (if 0 < sint num_successors then
              let libs = pool_edge s6; n = nat (sint num_successors) in
              write_edges libs successor_node_list libcall_list n 0
                (s6\<lparr>pool_edge := ptr_add libs (n * sizeof_struct libcalls)\<rparr>)
            else Inr s6) (\<lambda>s7.
         and_then (meta_load s7 ''num_nodes'') (\<lambda>n.
         and_then (meta_store s7 ''num_nodes'' (n + 1)) (\<lambda>s8. Inr (node, s8))))))))))"

definition finalize_graph :: "memgraph \<Rightarrow> memgraph res" where
  "finalize_graph s =
     (case pool s of None \<Rightarrow> Inl Null_deref
      | Some m \<Rightarrow>
          Inr (s\<lparr>pool := Some (store8 m (offset_of graph_metadata ''graph_finalized'') 1)\<rparr>))"

section \<open>Files (user space)\<close>

text \<open>
  A file is its length and its bytes.  The file system decides which names can be opened for
  writing or reading and how many of the bytes given to \<^verbatim>\<open>fwrite\<close> it takes.
\<close>

record filesys =
  files :: "string \<Rightarrow> buffer option"
  can_write :: "string \<Rightarrow> bool"
  accepts :: "string \<Rightarrow> nat"

definition store_graph :: "env \<Rightarrow> string \<Rightarrow> memgraph \<Rightarrow> filesys \<Rightarrow> filesys res" where
  "store_graph e filename s fs =
     (if \<not> can_write fs filename then PRINT_ERROR_AND_EXIT e fs
      else case pool s of
        None \<Rightarrow> Inl Null_deref
      | Some m \<Rightarrow>
          let written = min MEMORY_POOL_SIZE (accepts fs filename);
              fs1 = fs\<lparr>files := (files fs)(filename \<mapsto> \<lparr>buf_len = written, buf_bytes = m\<rparr>)\<rparr>
          in if written \<noteq> MEMORY_POOL_SIZE then PRINT_ERROR_AND_EXIT e fs1 else Inr fs1)"

definition load_graph :: "env \<Rightarrow> string \<Rightarrow> filesys \<Rightarrow> memgraph \<Rightarrow> memgraph res" where
  "load_graph e filename fs s =
     (case files fs filename of
        None \<Rightarrow> PRINT_ERROR_AND_EXIT e s
      | Some f \<Rightarrow>
          and_then (if pool s = None then create_pool e s else Inr s) (\<lambda>s1.
          case pool s1 of
            None \<Rightarrow> Inl Null_deref
          | Some m \<Rightarrow>
              let n = min MEMORY_POOL_SIZE (buf_len f);
                  s2 = s1\<lparr>pool := Some (mem_copy m (buf_bytes f) n)\<rparr>
              in if n \<noteq> MEMORY_POOL_SIZE then PRINT_ERROR_AND_EXIT e s2
                 else and_then (verify_graph e s2) (\<lambda>(rc, s3).
                   if rc \<noteq> 1 then PRINT_ERROR_AND_EXIT e s3 else Inr s3)))"

section \<open>Querying\<close>

definition reset_progstate :: "memgraph \<Rightarrow> memgraph res" where
  "reset_progstate s =
     and_then (get_slot s 0) (\<lambda>p. Inr (s\<lparr>current_progstate := 0, start_node := p\<rparr>))"

text \<open>
  The search loop of \<^verbatim>\<open>is_state_transition_valid\<close>: the \<^verbatim>\<open>unsigned long\<close> successor is returned
  as an \<^verbatim>\<open>int\<close>, so only its low 32 bits are kept.
\<close>

fun find_transition :: "memgraph \<Rightarrow> ptr \<Rightarrow> u64 \<Rightarrow> nat \<Rightarrow> nat \<Rightarrow> i32 res" where
  "find_transition s libs libccall 0 i = Inr 0"
| "find_transition s libs libccall (Suc r) i =
     and_then (ptr_load s libs (i * sizeof_struct libcalls + offset_of libcalls ''libcallid'')) (\<lambda>c.
       if c = libccall then
         and_then (ptr_load s libs (i * sizeof_struct libcalls + offset_of libcalls ''next_progstate''))
           (\<lambda>n. Inr (ucast n))
       else find_transition s libs libccall r (Suc i))"

definition is_state_transition_valid :: "memgraph \<Rightarrow> u64 \<Rightarrow> i32 res" where
  "is_state_transition_valid s libccall =
     (let node = start_node s; libs = ptr_add node (sizeof_struct abstract_progstate) in
      and_then (ptr_load s node (offset_of abstract_progstate ''magic'')) (\<lambda>mg.
        if mg \<noteq> NODE_MAGIC_NUMBER then Inr 0
        else and_then (ptr_load s libs (offset_of libcalls ''magic'')) (\<lambda>mg'.
          if mg' \<noteq> EDGE_MAGIC_NUMBER then Inr 0
          else and_then (ptr_load s node (offset_of abstract_progstate ''num_libcalls'')) (\<lambda>n.
            find_transition s libs libccall (unat n) 0))))"

definition transition_to_state :: "memgraph \<Rightarrow> u64 \<Rightarrow> (i32 \<times> memgraph) res" where
  "transition_to_state s libccall =
     and_then (meta_load s ''num_nodes'') (\<lambda>n.
       if current_progstate s \<ge> n then Inr (ERROR_INVALID_STATE, s)
       else and_then (is_state_transition_valid s libccall) (\<lambda>r.
         let temp = scast r :: u64 in
         if temp \<noteq> 0 then
           and_then (get_slot s (unat temp)) (\<lambda>p.
             Inr (ucast temp, s\<lparr>current_progstate := temp, start_node := p\<rparr>))
         else Inr (ERROR_INVALID_STATE, s)))"

end
