(* ===== verification/Automaton.thy ===== *)
theory Automaton
  imports MemGraph
begin

text \<open>
  What the library is for: the library-call automaton of a program.  A state has an identifier
  and a list of outgoing edges, each a library call and the position of the next state.  This
  theory defines the automaton and its runs, the encoding of a graph as the 64-bit words that
  \<^verbatim>\<open>alloc_node\<close> writes, the decoder of a byte pool, and the interface of a monitor that enforces
  an automaton.
\<close>

section \<open>The automaton\<close>

record progstate =
  ps_id :: u64
  ps_edges :: "(u64 \<times> u64) list"

type_synonym graph = "progstate list"

text \<open>
  A call is allowed when the first edge for it leads to a state other than the entry state:
  the code uses 0 both for the entry state and for "no such transition".
\<close>

definition astep :: "graph \<Rightarrow> nat \<Rightarrow> u64 \<Rightarrow> nat option" where
  "astep g q c =
     (case map_of (ps_edges (g ! q)) c of
        None \<Rightarrow> None
      | Some t \<Rightarrow> if t = 0 then None else Some (unat t))"

fun arun :: "('q \<Rightarrow> 'c \<Rightarrow> 'q option) \<Rightarrow> 'q \<Rightarrow> 'c list \<Rightarrow> 'q option" where
  "arun step q [] = Some q"
| "arun step q (c # cs) = (case step q c of None \<Rightarrow> None | Some q' \<Rightarrow> arun step q' cs)"

definition wf_graph :: "graph \<Rightarrow> bool" where
  "wf_graph g \<longleftrightarrow> (\<forall>n\<in>set g. \<forall>(c, t)\<in>set (ps_edges n). unat t < length g)"

lemma astep_bound:
  assumes "wf_graph g" "q < length g" "astep g q c = Some q'"
  shows "q' < length g" "0 < q'"
proof -
  from assms(3) obtain t where t: "map_of (ps_edges (g ! q)) c = Some t" "t \<noteq> 0" "q' = unat t"
    by (auto simp: astep_def split: option.splits if_splits)
  then have "(c, t) \<in> set (ps_edges (g ! q))" by (auto dest: map_of_SomeD)
  with assms(1,2) have "unat t < length g" by (auto simp: wf_graph_def dest: nth_mem)
  with t show "q' < length g" "0 < q'" by (auto simp: unat_gt_0)
qed

lemma arun_append:
  "arun step q (xs @ ys) = (case arun step q xs of None \<Rightarrow> None | Some q' \<Rightarrow> arun step q' ys)"
  by (induction xs arbitrary: q) (auto split: option.splits)

section \<open>Encoding\<close>

fun edge_words :: "u64 \<times> u64 \<Rightarrow> u64 list" where
  "edge_words (c, t) = [EDGE_MAGIC_NUMBER, c, t]"

definition edges_words :: "(u64 \<times> u64) list \<Rightarrow> u64 list" where
  "edges_words es = concat (map edge_words es)"

definition node_words :: "progstate \<Rightarrow> u64 list" where
  "node_words n =
     [NODE_MAGIC_NUMBER, ps_id n, of_nat (length (ps_edges n))] @ edges_words (ps_edges n)"

definition graph_words :: "graph \<Rightarrow> u64 list" where
  "graph_words g = concat (map node_words g)"

definition node_size :: "progstate \<Rightarrow> nat" where
  "node_size n = 24 + 24 * length (ps_edges n)"

definition graph_size :: "graph \<Rightarrow> nat" where
  "graph_size g = sum_list (map node_size g)"

definition node_pos :: "nat \<Rightarrow> graph \<Rightarrow> nat \<Rightarrow> nat" where
  "node_pos b g i = b + graph_size (take i g)"

lemma edges_words_simps [simp]:
  "edges_words [] = []" "edges_words (e # es) = edge_words e @ edges_words es"
  "edges_words (es @ fs) = edges_words es @ edges_words fs"
  by (simp_all add: edges_words_def)

lemma length_edges_words [simp]: "length (edges_words es) = 3 * length es"
  by (induction es) (auto simp: edges_words_def)

lemma length_node_words [simp]: "8 * length (node_words n) = node_size n"
  by (simp add: node_words_def node_size_def)

lemma graph_words_simps [simp]:
  "graph_words [] = []" "graph_words (n # g) = node_words n @ graph_words g"
  "graph_words (g @ h) = graph_words g @ graph_words h"
  by (simp_all add: graph_words_def)

lemma graph_size_simps [simp]:
  "graph_size [] = 0" "graph_size (n # g) = node_size n + graph_size g"
  "graph_size (g @ h) = graph_size g + graph_size h"
  by (simp_all add: graph_size_def)

lemma length_graph_words [simp]: "8 * length (graph_words g) = graph_size g"
  by (induction g) (simp_all add: add_mult_distrib2)

lemma node_size_ge: "24 \<le> node_size n"
  by (simp add: node_size_def)

lemma graph_size_ge: "24 * length g \<le> graph_size g"
  by (induction g) (use node_size_ge in \<open>auto intro: add_mono\<close>)

lemma node_pos_simps [simp]:
  "node_pos b g 0 = b" "node_pos b (n # g) (Suc i) = node_pos (b + node_size n) g i"
  by (simp_all add: node_pos_def)

lemma graph_size_split:
  "q < length g \<Longrightarrow>
     graph_size g = graph_size (take q g) + node_size (g ! q) + graph_size (drop (Suc q) g)"
  by (metis add.assoc append_take_drop_id Cons_nth_drop_Suc graph_size_simps(2,3))

section \<open>Words in memory\<close>

fun words_at :: "bytes \<Rightarrow> nat \<Rightarrow> u64 list \<Rightarrow> bool" where
  "words_at m a [] = True"
| "words_at m a (w # ws) = (load64 m a = w \<and> words_at m (a + 8) ws)"

lemma words_at_append [simp]:
  "words_at m a (xs @ ys) \<longleftrightarrow> words_at m a xs \<and> words_at m (a + 8 * length xs) ys"
  by (induction xs arbitrary: a) (auto simp: algebra_simps)

lemma words_at_cong:
  "(\<And>k. a \<le> k \<Longrightarrow> k < a + 8 * length ws \<Longrightarrow> m k = m' k) \<Longrightarrow>
     words_at m a ws = words_at m' a ws"
proof (induction ws arbitrary: a)
  case (Cons w ws)
  have "load64 m a = load64 m' a"
    by (rule cell64.load_cong) (use Cons.prems in auto)
  moreover have "words_at m (a + 8) ws = words_at m' (a + 8) ws"
    by (rule Cons.IH) (use Cons.prems in auto)
  ultimately show ?case by simp
qed simp

lemma words_at_store64_above [mem_simps]:
  "a + 8 * length ws \<le> k \<Longrightarrow> words_at (store64 m k v) a ws = words_at m a ws"
  by (rule words_at_cong) (auto simp: store64_def)

lemma words_at_store64_below [mem_simps]:
  "k + 8 \<le> a \<Longrightarrow> words_at (store64 m k v) a ws = words_at m a ws"
  by (rule words_at_cong) (auto simp: store64_def)

lemma words_at_store8_below [mem_simps]:
  "k < a \<Longrightarrow> words_at (store8 m k v) a ws = words_at m a ws"
  by (rule words_at_cong) (auto simp: store8_def)

lemma words_at_mem_copy [mem_simps]:
  "a + 8 * length ws \<le> n \<Longrightarrow> words_at (mem_copy m src n) a ws = words_at src a ws"
  by (rule words_at_cong) (auto simp: mem_copy_def)

lemma words_at_edge:
  "words_at m a (edges_words es) \<Longrightarrow> i < length es \<Longrightarrow>
     load64 m (a + i * 24) = EDGE_MAGIC_NUMBER \<and> load64 m (a + i * 24 + 8) = fst (es ! i) \<and>
     load64 m (a + i * 24 + 16) = snd (es ! i)"
proof (induction es arbitrary: a i)
  case (Cons e es)
  then show ?case
    by (cases e; cases i) (auto simp: algebra_simps dest!: Cons.IH [of "a + 24"])
qed simp

lemma words_at_node:
  assumes "words_at m a (node_words n)"
  shows "load64 m a = NODE_MAGIC_NUMBER" "load64 m (a + 8) = ps_id n"
    "load64 m (a + 16) = of_nat (length (ps_edges n))"
    "words_at m (a + 24) (edges_words (ps_edges n))"
  using assms by (simp_all add: node_words_def add.assoc)

lemma words_at_graph_nth:
  assumes "words_at m b (graph_words g)" "q < length g"
  shows "words_at m (node_pos b g q) (node_words (g ! q))"
proof -
  have "graph_words g = graph_words (take q g) @ node_words (g ! q) @ graph_words (drop (Suc q) g)"
    by (metis assms(2) append_take_drop_id Cons_nth_drop_Suc graph_words_simps(2,3))
  with assms(1) show ?thesis by (simp add: node_pos_def)
qed

section \<open>Decoding\<close>

definition decode_edges :: "bytes \<Rightarrow> nat \<Rightarrow> nat \<Rightarrow> (u64 \<times> u64) list" where
  "decode_edges m a r = map (\<lambda>k. (load64 m (a + k * 24 + 8), load64 m (a + k * 24 + 16))) [0..<r]"

definition decode_node :: "bytes \<Rightarrow> nat \<Rightarrow> progstate" where
  "decode_node m a =
     \<lparr>ps_id = load64 m (a + 8), ps_edges = decode_edges m (a + 24) (unat (load64 m (a + 16)))\<rparr>"

fun decode_graph :: "bytes \<Rightarrow> nat \<Rightarrow> nat \<Rightarrow> graph" where
  "decode_graph m a 0 = []"
| "decode_graph m a (Suc n) =
     decode_node m a # decode_graph m (a + node_size (decode_node m a)) n"

lemma length_decode [simp]:
  "length (decode_edges m a r) = r" "length (decode_graph m a n) = n"
  by (simp_all add: decode_edges_def) (induction n arbitrary: a, auto)

lemma words_at_decode_edges:
  "words_at m a (edges_words (decode_edges m a r)) \<longleftrightarrow>
     (\<forall>k<r. load64 m (a + k * 24) = EDGE_MAGIC_NUMBER)"
proof (induction r)
  case (Suc r)
  have "decode_edges m a (Suc r) =
      decode_edges m a r @ [(load64 m (a + r * 24 + 8), load64 m (a + r * 24 + 16))]"
    by (simp add: decode_edges_def)
  with Suc show ?case by (auto simp: less_Suc_eq algebra_simps)
qed (simp add: decode_edges_def)

lemma decode_edges_words:
  assumes "words_at m a (edges_words es)"
  shows "decode_edges m a (length es) = es"
  by (rule nth_equalityI) (use words_at_edge [OF assms] in \<open>auto simp: decode_edges_def\<close>)

lemma decode_node_words:
  assumes "words_at m a (node_words n)" "length (ps_edges n) < 2 ^ 64"
  shows "decode_node m a = n"
  using words_at_node [OF assms(1)] assms(2) decode_edges_words [of m "a + 24" "ps_edges n"]
  by (simp add: decode_node_def unat_of_nat_small)

lemma decode_graph_words:
  assumes "words_at m a (graph_words g)" "graph_size g < 2 ^ 64"
  shows "decode_graph m a (length g) = g"
  using assms
proof (induction g arbitrary: a)
  case (Cons n g)
  then have "decode_node m a = n"
    by (intro decode_node_words) (auto simp: node_size_def)
  with Cons show ?case by simp
qed simp

section \<open>The interface of a monitor\<close>

text \<open>
  A monitor processes one call at a time and answers whether it is allowed.  A sequence of calls
  is processed up to the first call that is refused.
\<close>

fun run_calls :: "('s \<Rightarrow> 'c \<Rightarrow> (bool \<times> 's) res) \<Rightarrow> 's \<Rightarrow> 'c list \<Rightarrow> (bool \<times> 's) res" where
  "run_calls step s [] = Inr (True, s)"
| "run_calls step s (c # cs) =
     and_then (step s c) (\<lambda>(ok, s'). if ok then run_calls step s' cs else Inr (False, s'))"

locale monitor =
  fixes step :: "'s \<Rightarrow> 'c \<Rightarrow> (bool \<times> 's) res"
    and spec :: "'q \<Rightarrow> 'c \<Rightarrow> 'q option"
    and rel :: "'s \<Rightarrow> 'q \<Rightarrow> bool"
  assumes allowed:
    "rel s q \<Longrightarrow> spec q c = Some q' \<Longrightarrow> \<exists>s'. step s c = Inr (True, s') \<and> rel s' q'"
  and refused:
    "rel s q \<Longrightarrow> spec q c = None \<Longrightarrow> \<exists>s'. step s c = Inr (False, s') \<and> rel s' q"
begin

lemma never_stops: "rel s q \<Longrightarrow> \<exists>ok s'. step s c = Inr (ok, s')"
  using allowed [of s q c] refused [of s q c] by (cases "spec q c") blast+

lemma run_keeps:
  "rel s q \<Longrightarrow> \<exists>s' q'. run_calls step s cs = Inr (arun spec q cs \<noteq> None, s') \<and> rel s' q'"
proof (induction cs arbitrary: s q)
  case (Cons c cs)
  show ?case
  proof (cases "spec q c")
    case None
    with refused [OF Cons.prems, of c] show ?thesis by force
  next
    case (Some q1)
    from allowed [OF Cons.prems Some] obtain s1 where "step s c = Inr (True, s1)" "rel s1 q1" by blast
    with Cons.IH [OF this(2)] Some show ?thesis by auto
  qed
qed auto

lemma run_exact:
  assumes "rel s q"
  shows "\<exists>s'. run_calls step s cs = Inr (arun spec q cs \<noteq> None, s')"
  using run_keeps [OF assms] by blast

end

end
