(* ===== verification/GraphQuery.thy ===== *)
theory GraphQuery
  imports Automaton
begin

text \<open>
  The query half of \<^verbatim>\<open>memgraph.c\<close> (\<^verbatim>\<open>reset_progstate\<close>, \<^verbatim>\<open>is_state_transition_valid\<close>,
  \<^verbatim>\<open>transition_to_state\<close>) against the automaton: on a module state that holds a graph, each
  operation does what the automaton says.
\<close>

section \<open>Access through pool pointers\<close>

lemma deref_PoolP [res_simps]:
  "pool s = Some m \<Longrightarrow> a + k + w \<le> MEMORY_POOL_SIZE \<Longrightarrow>
     deref s (PoolP (pool_gen s) a) k w = Inr (m, a + k)"
  by (simp add: deref_def)

lemma ptr_load_PoolP [res_simps]:
  "pool s = Some m \<Longrightarrow> a + k + 8 \<le> MEMORY_POOL_SIZE \<Longrightarrow>
     ptr_load s (PoolP (pool_gen s) a) k = Inr (load64 m (a + k))"
  by (simp add: ptr_load_def deref_PoolP)

lemma ptr_load_Inr:
  "ptr_load s p k = Inr v \<Longrightarrow>
     \<exists>m a. pool s = Some m \<and> p = PoolP (pool_gen s) a \<and> a + k + 8 \<le> MEMORY_POOL_SIZE \<and>
           v = load64 m (a + k)"
  by (auto simp: ptr_load_def deref_def res_simps split: ptr.splits option.splits if_splits)

section \<open>The states that hold a graph\<close>

text \<open>
  \<open>holds b g s\<close>: the pool holds the encoding of \<open>g\<close> at offset \<open>b\<close> and the lookup table
  points to its nodes.  The eight bytes after the last node are inside the pool, because the
  query code reads the magic number of a node's first edge even when the node has none.
\<close>

definition holds :: "nat \<Rightarrow> graph \<Rightarrow> memgraph \<Rightarrow> bool" where
  "holds b g s \<longleftrightarrow>
     (\<exists>m t. pool s = Some m \<and> nodes s = Some t \<and>
        load64 m (offset_of graph_metadata ''num_nodes'') = of_nat (length g) \<and>
        words_at m b (graph_words g) \<and> b + graph_size g + 8 \<le> MEMORY_POOL_SIZE \<and>
        length g \<le> tbl_cap t \<and>
        (\<forall>i<length g. tbl_slot t i = PoolP (pool_gen s) (node_pos b g i)))"

definition at_state :: "nat \<Rightarrow> graph \<Rightarrow> memgraph \<Rightarrow> nat \<Rightarrow> bool" where
  "at_state b g s q \<longleftrightarrow>
     wf_graph g \<and> holds b g s \<and> q < length g \<and> current_progstate s = of_nat q \<and>
     start_node s = PoolP (pool_gen s) (node_pos b g q)"

lemma holds_length:
  assumes "holds b g s"
  shows "length g < 43691"
proof -
  from assms have "graph_size g \<le> MEMORY_POOL_SIZE" by (auto simp: holds_def)
  with graph_size_ge [of g] show ?thesis by (simp add: layout_simps)
qed

lemma holds_get_slot:
  "holds b g s \<Longrightarrow> q < length g \<Longrightarrow> get_slot s q = Inr (PoolP (pool_gen s) (node_pos b g q))"
  by (auto simp: holds_def get_slot_def)

lemma holds_meta:
  "holds b g s \<Longrightarrow> meta_load s ''num_nodes'' = Inr (of_nat (length g))"
  by (auto simp: holds_def meta_load_def)

lemma holds_cong:
  "pool s' = pool s \<Longrightarrow> nodes s' = nodes s \<Longrightarrow> pool_gen s' = pool_gen s \<Longrightarrow>
     holds b g s' = holds b g s"
  by (simp add: holds_def)

lemma holds_node:
  assumes "holds b g s" "q < length g"
  obtains m where "pool s = Some m"
    "words_at m (node_pos b g q) (node_words (g ! q))"
    "node_pos b g q + node_size (g ! q) + 8 \<le> MEMORY_POOL_SIZE"
proof -
  from assms(1) obtain m where m: "pool s = Some m" "words_at m b (graph_words g)"
    "b + graph_size g + 8 \<le> MEMORY_POOL_SIZE"
    by (auto simp: holds_def)
  from m(3) graph_size_split [OF assms(2)]
  have "node_pos b g q + node_size (g ! q) + 8 \<le> MEMORY_POOL_SIZE"
    by (simp add: node_pos_def)
  with that m(1) words_at_graph_nth [OF m(2) assms(2)] show thesis by blast
qed

section \<open>Searching the edges of a node\<close>

lemma find_transition_spec:
  assumes "pool s = Some m" "words_at m a (edges_words es)"
    "a + 24 * length es \<le> MEMORY_POOL_SIZE" "i + r = length es"
  shows "find_transition s (PoolP (pool_gen s) a) c r i =
    Inr (case map_of (drop i es) c of None \<Rightarrow> 0 | Some t \<Rightarrow> ucast t)"
  using assms(4)
proof (induction r arbitrary: i)
  case (Suc r)
  then have i: "i < length es" by simp
  note e = words_at_edge [OF assms(2) i]
  have d: "drop i es = es ! i # drop (Suc i) es" by (simp add: Cons_nth_drop_Suc i)
  have le: "a + (i * 24 + 16) + 8 \<le> MEMORY_POOL_SIZE" using assms(3) i by simp
  have "ptr_load s (PoolP (pool_gen s) a) (i * 24 + 8) = Inr (fst (es ! i))"
    "ptr_load s (PoolP (pool_gen s) a) (i * 24 + 16) = Inr (snd (es ! i))"
    using e le by (simp_all add: ptr_load_PoolP [OF assms(1)] add.assoc)
  with Suc.IH [of "Suc i"] Suc.prems show ?case
    by (cases "es ! i") (simp add: d layout_simps)
qed simp

lemma valid_spec:
  assumes "holds b g s" "q < length g" "start_node s = PoolP (pool_gen s) (node_pos b g q)"
  shows "is_state_transition_valid s c =
    Inr (case map_of (ps_edges (g ! q)) c of None \<Rightarrow> 0 | Some t \<Rightarrow> ucast t)"
proof -
  let ?p = "node_pos b g q" and ?es = "ps_edges (g ! q)"
  obtain m where m: "pool s = Some m" "words_at m ?p (node_words (g ! q))"
    "?p + node_size (g ! q) + 8 \<le> MEMORY_POOL_SIZE"
    using holds_node [OF assms(1,2)] .
  note w = words_at_node [OF m(2)]
  have fits: "?p + 32 \<le> MEMORY_POOL_SIZE" "?p + 24 + 24 * length ?es \<le> MEMORY_POOL_SIZE"
    using m(3) by (simp_all add: node_size_def)
  then have len: "length ?es < 2 ^ 64" by (simp add: layout_simps)
  have l: "ptr_load s (PoolP (pool_gen s) ?p) 0 = Inr NODE_MAGIC_NUMBER"
    "ptr_load s (PoolP (pool_gen s) (?p + 24)) 0 = Inr (load64 m (?p + 24))"
    "ptr_load s (PoolP (pool_gen s) ?p) 16 = Inr (of_nat (length ?es))"
    using fits w by (simp_all add: ptr_load_PoolP [OF m(1)])
  have f: "find_transition s (PoolP (pool_gen s) (?p + 24)) c (length ?es) 0 =
      Inr (case map_of ?es c of None \<Rightarrow> 0 | Some t \<Rightarrow> ucast t)"
    using find_transition_spec [OF m(1) w(4) fits(2), of 0] by simp
  show ?thesis
  proof (cases ?es)
    case Nil
    then show ?thesis using l f
      by (simp add: is_state_transition_valid_def assms(3) layout_simps Let_def)
  next
    case (Cons e es)
    then have "load64 m (?p + 24) = EDGE_MAGIC_NUMBER"
      using words_at_edge [OF w(4), of 0] by simp
    then show ?thesis using l f len
      by (simp add: is_state_transition_valid_def assms(3) layout_simps Let_def
          unat_of_nat_small)
  qed
qed

section \<open>Resetting and stepping\<close>

lemma reset_spec:
  assumes "wf_graph g" "holds b g s" "g \<noteq> []"
  obtains s' where "reset_progstate s = Inr s'" "at_state b g s' 0"
    "pool s' = pool s" "nodes s' = nodes s"
proof -
  let ?s = "s\<lparr>current_progstate := 0, start_node := PoolP (pool_gen s) (node_pos b g 0)\<rparr>"
  have "reset_progstate s = Inr ?s"
    using assms by (simp add: reset_progstate_def holds_get_slot [OF assms(2)])
  moreover have "holds b g ?s" using assms(2) by (simp add: holds_def)
  with assms have "at_state b g ?s 0" by (simp add: at_state_def)
  ultimately show thesis using that [of ?s] by simp
qed

lemma small_index_casts:
  assumes "unat (t :: u64) < 43691"
  shows "scast (ucast t :: i32) = t" "(ucast t :: i32) = 0 \<longleftrightarrow> t = 0"
    "(ucast t :: i32) = of_nat (unat t)"
proof -
  have "t = of_nat (unat t)" by simp
  then obtain n where t: "t = of_nat n" "n < 43691" using assms by metis
  have u: "(ucast t :: i32) = of_nat n"
    using t(2) by (simp add: t(1) unsigned_of_nat take_bit_nat_eq_self)
  show "scast (ucast t :: i32) = t"
    unfolding u using t(2) by (simp add: t(1) signed_of_nat signed_take_bit_int_eq_self)
  then show "(ucast t :: i32) = 0 \<longleftrightarrow> t = 0" by auto
  show "(ucast t :: i32) = of_nat (unat t)" using u t by (simp add: unat_of_nat_small)
qed


lemma transition_allowed:
  assumes "at_state b g s q" "astep g q c = Some q'"
  shows "is_state_transition_valid s c = Inr (of_nat q') \<and> (of_nat q' :: i32) \<noteq> 0 \<and>
    transition_to_state s c =
      Inr (of_nat q', s\<lparr>current_progstate := of_nat q',
                       start_node := PoolP (pool_gen s) (node_pos b g q')\<rparr>)"
proof -
  from assms(1) have a: "wf_graph g" "holds b g s" "q < length g"
    "current_progstate s = of_nat q" "start_node s = PoolP (pool_gen s) (node_pos b g q)"
    by (simp_all add: at_state_def)
  obtain t where t: "map_of (ps_edges (g ! q)) c = Some t" "t \<noteq> 0" "unat t = q'"
    using assms(2) by (auto simp: astep_def split: option.splits if_splits)
  have q': "q' < length g" using astep_bound [OF a(1,3) assms(2)] by simp
  note len = holds_length [OF a(2)]
  have c: "scast (ucast t :: i32) = t" "(ucast t :: i32) \<noteq> 0" "(ucast t :: i32) = of_nat q'"
    using small_index_casts [of t] t(2,3) q' len by auto
  have v: "is_state_transition_valid s c = Inr (ucast t)"
    using valid_spec [OF a(2,3,5)] t(1) by simp
  have "\<not> of_nat (length g) \<le> current_progstate s"
    using a(3,4) len by (simp add: word_le_nat_alt unat_of_nat_small)
  then have "transition_to_state s c =
      Inr (ucast t, s\<lparr>current_progstate := t, start_node := PoolP (pool_gen s) (node_pos b g q')\<rparr>)"
    using v c t(2,3) holds_get_slot [OF a(2) q']
    by (simp add: transition_to_state_def holds_meta [OF a(2)] Let_def)
  moreover have "t = of_nat q'" using t(3) by auto
  ultimately show ?thesis using v c by simp
qed

lemma transition_refused:
  assumes "at_state b g s q" "astep g q c = None"
  shows "is_state_transition_valid s c = Inr 0 \<and>
    transition_to_state s c = Inr (ERROR_INVALID_STATE, s)"
proof -
  from assms(1) have a: "wf_graph g" "holds b g s" "q < length g"
    "current_progstate s = of_nat q" "start_node s = PoolP (pool_gen s) (node_pos b g q)"
    by (simp_all add: at_state_def)
  have v: "is_state_transition_valid s c = Inr 0"
    using valid_spec [OF a(2,3,5), of c] assms(2) by (auto simp: astep_def split: option.splits if_splits)
  have "\<not> of_nat (length g) \<le> current_progstate s"
    using a(3,4) holds_length [OF a(2)] by (simp add: word_le_nat_alt unat_of_nat_small)
  with v show ?thesis
    by (simp add: transition_to_state_def holds_meta [OF a(2)] Let_def)
qed

lemma at_state_step:
  assumes "at_state b g s q" "q' < length g"
  shows "at_state b g (s\<lparr>current_progstate := of_nat q',
                        start_node := PoolP (pool_gen s) (node_pos b g q')\<rparr>) q'"
  using assms by (simp add: at_state_def holds_def)

section \<open>The test driver's monitor\<close>

text \<open>
  The traversal loop of \<^verbatim>\<open>tests/test_memgraph.cc\<close>: a call is tried with
  \<^verbatim>\<open>is_state_transition_valid\<close> and taken with \<^verbatim>\<open>transition_to_state\<close>.
\<close>

definition try_call :: "memgraph \<Rightarrow> u64 \<Rightarrow> (bool \<times> memgraph) res" where
  "try_call s libcall =
     and_then (is_state_transition_valid s libcall) (\<lambda>v.
       if v \<noteq> 0 then and_then (transition_to_state s libcall) (\<lambda>(_, s'). Inr (True, s'))
       else Inr (False, s))"

interpretation driver: monitor try_call "astep g" "at_state b g" for b g
proof
  fix s q c q'
  assume a: "at_state b g s q" and st: "astep g q c = Some q'"
  then have "q' < length g" using astep_bound [of g q c q'] by (auto simp: at_state_def)
  with transition_allowed [OF a st] at_state_step [OF a]
  show "\<exists>s'. try_call s c = Inr (True, s') \<and> at_state b g s' q'"
    by (auto simp: try_call_def)
next
  fix s q c
  assume "at_state b g s q" and "astep g q c = None"
  with transition_refused show "\<exists>s'. try_call s c = Inr (False, s') \<and> at_state b g s' q"
    by (simp add: try_call_def)
qed

end
