(* ===== verification/GraphVerify.thy ===== *)
theory GraphVerify
  imports GraphQuery
begin

text \<open>
  \<^verbatim>\<open>verify_graph\<close>: it accepts every finished pool that encodes a graph and then points the lookup
  table at the nodes; what it accepts decodes to a graph; it never writes the pool.
\<close>

section \<open>The edge loop\<close>

lemma verify_edges_complete:
  assumes "pool s = Some m" "words_at m a (edges_words es)"
    "a + 24 * length es \<le> MEMORY_POOL_SIZE" "j + r = length es"
  shows "verify_edges s (PoolP (pool_gen s) a) r j (PoolP g k) = Inr (Some (PoolP g (k + 24 * r)))"
  using assms(4)
proof (induction r arbitrary: j k)
  case (Suc r)
  then have j: "j < length es" by simp
  have "a + j * 24 + 8 \<le> MEMORY_POOL_SIZE" using assms(3) j by simp
  with words_at_edge [OF assms(2) j]
  have "ptr_load s (PoolP (pool_gen s) a) (j * 24) = Inr EDGE_MAGIC_NUMBER"
    by (simp add: ptr_load_PoolP [OF assms(1)])
  with Suc.IH [of "Suc j" "k + 24"] Suc.prems show ?case
    by (simp add: layout_simps algebra_simps)
qed simp

lemma verify_edges_sound:
  assumes "verify_edges s (PoolP g a) r j (PoolP h k) = Inr (Some p)"
    "pool s = Some m"
  shows "p = PoolP h (k + 24 * r) \<and>
    (\<forall>x<r. load64 m (a + (j + x) * 24) = EDGE_MAGIC_NUMBER \<and>
           a + (j + x) * 24 + 8 \<le> MEMORY_POOL_SIZE)"
  using assms(1)
proof (induction r arbitrary: j k)
  case (Suc r)
  then have l: "ptr_load s (PoolP g a) (j * 24) = Inr EDGE_MAGIC_NUMBER"
    and r: "verify_edges s (PoolP g a) r (Suc j) (PoolP h (k + 24)) = Inr (Some p)"
    by (auto simp: res_simps layout_simps split: if_splits)
  from ptr_load_Inr [OF l] assms(2)
  have "load64 m (a + j * 24) = EDGE_MAGIC_NUMBER" "a + j * 24 + 8 \<le> MEMORY_POOL_SIZE"
    by auto
  with Suc.IH [OF r] show ?case
    by (auto simp: all_less_Suc_split algebra_simps)
qed simp

section \<open>The node loop\<close>

definition filled :: "node_table \<Rightarrow> nat \<Rightarrow> nat \<Rightarrow> (nat \<Rightarrow> ptr) \<Rightarrow> node_table" where
  "filled t i r f =
     t\<lparr>tbl_slot := (\<lambda>k. if i \<le> k \<and> k < i + r then f (k - i) else tbl_slot t k)\<rparr>"

lemma filled_0 [simp]: "filled t i 0 f = t"
proof -
  have "(\<lambda>k. if i \<le> k \<and> k < i then f (k - i) else tbl_slot t k) = tbl_slot t"
    by (rule ext) auto
  then have "filled t i 0 f = t\<lparr>tbl_slot := tbl_slot t\<rparr>"
    by (simp only: filled_def add_0_right)
  then show ?thesis by simp
qed

lemma verify_nodes_prefix:
  assumes "pool s = Some m" "words_at m a (graph_words g)"
    "a + graph_size g \<le> MEMORY_POOL_SIZE" "nodes s = Some t" "i + length g \<le> tbl_cap t"
  shows "verify_nodes (length g + r) i (PoolP (pool_gen s) a) s =
    verify_nodes r (i + length g) (PoolP (pool_gen s) (a + graph_size g))
      (s\<lparr>nodes := Some (filled t i (length g) (\<lambda>k. PoolP (pool_gen s) (node_pos a g k)))\<rparr>)"
  using assms
proof (induction g arbitrary: a i s t)
  case Nil
  then show ?case by (cases s) simp
next
  case (Cons n g)
  let ?P = "PoolP (pool_gen s)" and ?es = "ps_edges n"
  define t1 where "t1 = t\<lparr>tbl_slot := (tbl_slot t)(i := ?P a)\<rparr>"
  define s1 where "s1 = s\<lparr>nodes := Some t1\<rparr>"
  from Cons.prems have w: "words_at m a (node_words n)"
    "words_at m (a + node_size n) (graph_words g)" by simp_all
  note nd = words_at_node [OF w(1)]
  have fits: "a + 24 + 24 * length ?es \<le> MEMORY_POOL_SIZE" "a + 24 \<le> MEMORY_POOL_SIZE"
    using Cons.prems(3) by (simp_all add: node_size_def)
  then have len: "length ?es < 2 ^ 64" by (simp add: layout_simps)
  have s1: "pool s1 = Some m" "pool_gen s1 = pool_gen s" "nodes s1 = Some t1"
    using Cons.prems(1) by (simp_all add: s1_def)
  have l: "ptr_load s1 (?P a) 0 = Inr NODE_MAGIC_NUMBER"
    "ptr_load s1 (?P a) 16 = Inr (of_nat (length ?es))"
    using fits(2) nd ptr_load_PoolP [OF s1(1)] by (simp_all add: s1(2))
  have e: "verify_edges s1 (?P (a + 24)) (length ?es) 0 (?P (a + 24)) =
      Inr (Some (?P (a + node_size n)))"
    using verify_edges_complete [OF s1(1) nd(4) fits(1), of 0] by (simp add: s1(2) node_size_def)
  have slot: "set_slot s i (?P a) = Inr s1"
    using Cons.prems(4,5) by (simp add: set_slot_def s1_def t1_def)
  have cap: "Suc i + length g \<le> tbl_cap t1" using Cons.prems(5) by (simp add: t1_def)
  have fit': "a + node_size n + graph_size g \<le> MEMORY_POOL_SIZE" using Cons.prems(3) by simp
  have "filled t1 (Suc i) (length g) (\<lambda>k. ?P (node_pos (a + node_size n) g k)) =
      filled t i (Suc (length g)) (\<lambda>k. ?P (node_pos a (n # g) k))"
    by (auto simp: filled_def t1_def fun_eq_iff Suc_diff_le less_Suc_eq_le simp flip: Suc_diff_Suc)
  with Cons.IH [OF s1(1) w(2) fit' s1(3) cap] slot l e len show ?case
    by (simp add: layout_simps Let_def unat_of_nat_small s1(2))
      (simp add: s1_def add.assoc)
qed

lemma verify_nodes_complete:
  assumes "pool s = Some m" "words_at m a (graph_words g)"
    "a + graph_size g \<le> MEMORY_POOL_SIZE" "nodes s = Some t" "i + length g \<le> tbl_cap t"
  shows "verify_nodes (length g) i (PoolP (pool_gen s) a) s =
    Inr (1, s\<lparr>nodes := Some (filled t i (length g) (\<lambda>k. PoolP (pool_gen s) (node_pos a g k)))\<rparr>)"
  using verify_nodes_prefix [OF assms, of 0] by simp

text \<open>The first node whose magic number is wrong, and the first edge.\<close>

lemma verify_nodes_bad_node:
  assumes "pool s = Some m" "nodes s = Some t" "i < tbl_cap t"
    "load64 m a \<noteq> NODE_MAGIC_NUMBER" "a + 8 \<le> MEMORY_POOL_SIZE" "0 < r"
  shows "\<exists>s'. verify_nodes r i (PoolP (pool_gen s) a) s = Inr (ERROR_INVALID_NODE, s')"
proof -
  from assms(6) obtain r' where r: "r = Suc r'" by (cases r) auto
  let ?s = "s\<lparr>nodes := Some (t\<lparr>tbl_slot := (tbl_slot t)(i := PoolP (pool_gen s) a)\<rparr>)\<rparr>"
  have "ptr_load ?s (PoolP (pool_gen ?s) a) 0 = Inr (load64 m (a + 0))"
    by (rule ptr_load_PoolP) (use assms in auto)
  with assms show ?thesis by (simp add: r set_slot_def layout_simps)
qed

lemma verify_edges_bad:
  assumes "pool s = Some m" "k < r" "load64 m (a + (j + k) * 24) \<noteq> EDGE_MAGIC_NUMBER"
    "a + (j + k) * 24 + 8 \<le> MEMORY_POOL_SIZE"
    "\<forall>x<k. load64 m (a + (j + x) * 24) = EDGE_MAGIC_NUMBER"
  shows "verify_edges s (PoolP (pool_gen s) a) r j st = Inr None"
  using assms(2-5)
proof (induction r arbitrary: j k st)
  case (Suc r)
  have "a + j * 24 + 8 \<le> MEMORY_POOL_SIZE" using Suc.prems(3) by (simp add: algebra_simps)
  then have l: "ptr_load s (PoolP (pool_gen s) a) (j * 24) = Inr (load64 m (a + j * 24))"
    by (simp add: ptr_load_PoolP [OF assms(1)])
  show ?case
  proof (cases k)
    case 0
    with Suc.prems l show ?thesis by (simp add: layout_simps)
  next
    case (Suc k')
    with Suc.prems(4) have "load64 m (a + j * 24) = EDGE_MAGIC_NUMBER" by auto
    moreover have "verify_edges s (PoolP (pool_gen s) a) r (Suc j) st' = Inr None" for st'
      by (rule Suc.IH [of k']) (use Suc.prems Suc in \<open>auto simp: all_less_Suc_split ac_simps\<close>)
    ultimately show ?thesis using l by (simp add: layout_simps)
  qed
qed simp

lemma verify_nodes_frame:
  "verify_nodes r i p s = Inr (rc, s') \<Longrightarrow>
     \<exists>nd. s' = s\<lparr>nodes := nd\<rparr> \<and> (rc = 1 \<or> rc = ERROR_INVALID_NODE \<or> rc = ERROR_INVALID_EDGE)"
proof (induction r arbitrary: i p s)
  case 0
  then show ?case by (auto intro: exI [of _ "nodes s"])
next
  case (Suc r)
  from Suc.prems obtain s1 where s1: "set_slot s i p = Inr s1"
    by (auto simp: res_simps)
  then obtain nd where "s1 = s\<lparr>nodes := nd\<rparr>"
    by (auto simp: set_slot_def split: option.splits if_splits)
  with Suc.prems s1 show ?case
    by (fastforce simp: Let_def res_simps split: if_splits option.splits dest: Suc.IH)
qed

lemma verify_nodes_sound:
  assumes "verify_nodes r i (PoolP g a) s = Inr (1, s')" "pool s = Some m"
  shows "words_at m a (graph_words (decode_graph m a r)) \<and>
    (0 < r \<longrightarrow> a + graph_size (decode_graph m a r) \<le> MEMORY_POOL_SIZE + 16)"
  using assms
proof (induction r arbitrary: i a s)
  case (Suc r)
  let ?n = "decode_node m a" and ?libs = "PoolP g (a + 24)"
  from Suc.prems(1) obtain s1 where s1: "set_slot s i (PoolP g a) = Inr s1"
    by (auto simp: res_simps)
  then have p1: "pool s1 = Some m"
    using Suc.prems(2) by (auto simp: set_slot_def split: option.splits if_splits)
  from Suc.prems(1) s1 obtain n where l: "ptr_load s1 (PoolP g a) 0 = Inr NODE_MAGIC_NUMBER"
    "ptr_load s1 (PoolP g a) 16 = Inr n"
    by (auto simp: res_simps layout_simps Let_def error_defs split: if_splits)
  with Suc.prems(1) s1 obtain p where p: "verify_edges s1 ?libs (unat n) 0 ?libs = Inr (Some p)"
    "verify_nodes r (Suc i) p s1 = Inr (1, s')"
    by (auto simp: res_simps layout_simps Let_def error_defs split: if_splits option.splits)
  from verify_edges_sound [OF p(1) p1]
  have e: "p = PoolP g (a + 24 + 24 * unat n)"
    "\<forall>x<unat n. load64 m (a + 24 + x * 24) = EDGE_MAGIC_NUMBER \<and>
                a + 24 + x * 24 + 8 \<le> MEMORY_POOL_SIZE" by auto
  have n: "load64 m a = NODE_MAGIC_NUMBER" "n = load64 m (a + 16)" "a + 24 \<le> MEMORY_POOL_SIZE"
    using ptr_load_Inr [OF l(1)] ptr_load_Inr [OF l(2)] p1 by auto
  have sz: "node_size ?n = 24 + 24 * unat n" by (simp add: decode_node_def node_size_def n(2))
  have w: "words_at m a (node_words ?n)"
    using n e(2) by (simp add: node_words_def decode_node_def words_at_decode_edges add.assoc)
  have last: "a + node_size ?n \<le> MEMORY_POOL_SIZE + 16"
  proof (cases "unat n")
    case (Suc x)
    with e(2) have "a + 24 + x * 24 + 8 \<le> MEMORY_POOL_SIZE" by simp
    with Suc show ?thesis by (simp add: sz)
  qed (use n(3) sz in simp)
  have "words_at m (a + node_size ?n) (graph_words (decode_graph m (a + node_size ?n) r)) \<and>
      (0 < r \<longrightarrow> a + node_size ?n + graph_size (decode_graph m (a + node_size ?n) r)
                 \<le> MEMORY_POOL_SIZE + 16)"
    using Suc.IH [of "Suc i" "a + node_size ?n" s1] p(2) p1 by (simp add: e(1) sz add.assoc)
  with w last show ?case by (cases r) (simp_all add: add.assoc)
qed simp

section \<open>The whole function\<close>

text \<open>
  \<open>encodes m g\<close>: the metadata and the node table that building \<open>g\<close> leaves in a pool;
  \<open>sealed m g\<close>: the same, marked as finished.
\<close>

definition encodes :: "bytes \<Rightarrow> graph \<Rightarrow> bool" where
  "encodes m g \<longleftrightarrow>
     load64 m (offset_of graph_metadata ''magic'') = GRAPH_META_MAGIC_NUMBER \<and>
     load64 m (offset_of graph_metadata ''num_nodes'') = of_nat (length g) \<and>
     load64 m (offset_of graph_metadata ''nodes_table_offset'') = of_nat NODE_TABLE_OFFSET \<and>
     words_at m NODE_TABLE_OFFSET (graph_words g)"

definition sealed :: "bytes \<Rightarrow> graph \<Rightarrow> bool" where
  "sealed m g \<longleftrightarrow> encodes m g \<and> load8 m (offset_of graph_metadata ''graph_finalized'') \<noteq> 0"

text \<open>The graph fits, with the eight bytes the query code may read behind the last node.\<close>

definition fits :: "graph \<Rightarrow> bool" where
  "fits g \<longleftrightarrow> NODE_TABLE_OFFSET + graph_size g + 8 \<le> MEMORY_POOL_SIZE"

text \<open>The lookup table is absent and can be allocated, or is large enough.\<close>

definition table_ready :: "env \<Rightarrow> memgraph \<Rightarrow> nat \<Rightarrow> bool" where
  "table_ready e s n \<longleftrightarrow>
     (case nodes s of None \<Rightarrow> env_alloc e (requests s) (8 * of_nat n) | Some t \<Rightarrow> n \<le> tbl_cap t)"

lemma fits_length: "fits g \<Longrightarrow> length g < 43691"
  using graph_size_ge [of g] by (simp add: fits_def layout_simps)

lemma table_ready_get:
  assumes "table_ready e s n" "n < 43691"
  shows "\<exists>t q. (if nodes s = None then malloc_nodes e (8 * of_nat n) s else s) =
      s\<lparr>nodes := Some t, requests := q\<rparr> \<and> n \<le> tbl_cap (t :: node_table)"
proof (cases "nodes s")
  case None
  have "unat (8 * of_nat n :: u64) = 8 * n"
    using assms(2) by (simp add: unat_word_ariths unat_of_nat_small)
  with None assms(1) show ?thesis
    by (auto simp: table_ready_def malloc_nodes_def intro!: exI)
next
  case (Some t)
  with assms(1) have "s = s\<lparr>nodes := Some t, requests := requests s\<rparr> \<and> n \<le> tbl_cap t"
    by (simp add: table_ready_def)
  with Some show ?thesis by (metis option.distinct(1))
qed

lemma verify_complete:
  assumes "pool s = Some m" "sealed m g" "fits g" "table_ready e s (length g)"
  obtains s' and t :: node_table and q
    where "verify_graph e s = Inr (1, s')" "holds NODE_TABLE_OFFSET g s'"
    "s' = s\<lparr>nodes := Some t, requests := q\<rparr>"
proof -
  obtain t q where t: "(if nodes s = None then malloc_nodes e (8 * of_nat (length g)) s else s) =
      s\<lparr>nodes := Some t, requests := q\<rparr>" "length g \<le> tbl_cap t"
    using table_ready_get [OF assms(4) fits_length [OF assms(3)]] by blast
  let ?u = "filled t 0 (length g) (\<lambda>k. PoolP (pool_gen s) (node_pos NODE_TABLE_OFFSET g k))"
  let ?s = "s\<lparr>nodes := Some t, requests := q\<rparr>"
  have len: "length g < 2 ^ 64" using fits_length [OF assms(3)] by simp
  have a: "words_at m 88 (graph_words g)" "88 + graph_size g \<le> MEMORY_POOL_SIZE"
    using assms(2,3) by (simp_all add: sealed_def encodes_def fits_def layout_simps)
  have "verify_nodes (length g) 0 (PoolP (pool_gen s) 88) ?s =
      Inr (1, ?s\<lparr>nodes := Some ?u\<rparr>)"
    using verify_nodes_complete [of ?s m 88 g t 0] assms(1) a t(2) by (simp add: layout_simps)
  then have "verify_graph e s = Inr (1, ?s\<lparr>nodes := Some ?u\<rparr>)"
    using assms(1,2) len t(1)
    by (simp add: verify_graph_def sealed_def encodes_def Let_def layout_simps unat_of_nat_small)
  moreover have "holds NODE_TABLE_OFFSET g (?s\<lparr>nodes := Some ?u\<rparr>)"
    using assms t(2) by (simp add: holds_def sealed_def encodes_def fits_def filled_def)
  moreover have "?s\<lparr>nodes := Some ?u\<rparr> = s\<lparr>nodes := Some ?u, requests := q\<rparr>" by simp
  ultimately show thesis by (rule that)
qed

lemma verify_sound:
  assumes "verify_graph e s = Inr (1, s')"
  obtains m where "pool s = Some m"
    "load8 m (offset_of graph_metadata ''graph_finalized'') \<noteq> 0"
    "load64 m (offset_of graph_metadata ''magic'') = GRAPH_META_MAGIC_NUMBER"
    "words_at m (unat (load64 m (offset_of graph_metadata ''nodes_table_offset'')))
       (graph_words (decode_graph m (unat (load64 m (offset_of graph_metadata ''nodes_table_offset'')))
         (unat (load64 m (offset_of graph_metadata ''num_nodes'')))))"
proof -
  from assms obtain m where m: "pool s = Some m"
    "load8 m (offset_of graph_metadata ''graph_finalized'') \<noteq> 0"
    "load64 m (offset_of graph_metadata ''magic'') = GRAPH_META_MAGIC_NUMBER"
    by (auto simp: verify_graph_def error_defs split: option.splits if_splits)
  let ?n = "load64 m (offset_of graph_metadata ''num_nodes'')"
    and ?o = "load64 m (offset_of graph_metadata ''nodes_table_offset'')"
  let ?s = "if nodes s = None then malloc_nodes e (8 * ?n) s else s"
  have "verify_nodes (unat ?n) 0 (PoolP (pool_gen s) (unat ?o)) ?s = Inr (1, s')"
    using assms m by (simp add: verify_graph_def Let_def)
  moreover have "pool ?s = Some m" using m by (simp add: malloc_nodes_def)
  ultimately show thesis using verify_nodes_sound that m by blast
qed

lemma verify_frame:
  assumes "verify_graph e s = Inr (rc, s')"
  shows "\<exists>nd q. s' = s\<lparr>nodes := nd, requests := q\<rparr>"
proof -
  have same: "\<exists>nd q. s = s\<lparr>nodes := nd, requests := q\<rparr>"
    by (intro exI [of _ "nodes s"] exI [of _ "requests s"]) simp
  have alloc: "\<exists>nd q. (if nodes s = None then malloc_nodes e z s else s) =
      s\<lparr>nodes := nd, requests := q\<rparr>" for z
    using same by (auto simp: malloc_nodes_def)
  show ?thesis
  proof (cases "s' = s")
    case False
    with assms obtain n z p where
      "verify_nodes n 0 p (if nodes s = None then malloc_nodes e z s else s) = Inr (rc, s')"
      by (auto simp: verify_graph_def Let_def split: option.splits if_splits)
    then obtain nd where "s' = (if nodes s = None then malloc_nodes e z s else s)\<lparr>nodes := nd\<rparr>"
      by (blast dest: verify_nodes_frame)
    moreover obtain nd' q where "(if nodes s = None then malloc_nodes e z s else s) =
        s\<lparr>nodes := nd', requests := q\<rparr>"
      using alloc by blast
    ultimately have "s' = s\<lparr>nodes := nd, requests := q\<rparr>" by simp
    then show ?thesis by blast
  qed (use same in simp)
qed

end
