(* ===== verification/GraphBuild.thy ===== *)
theory GraphBuild
  imports GraphVerify
begin

text \<open>
  The building half of \<^verbatim>\<open>memgraph.c\<close>: \<^verbatim>\<open>initialize_graph\<close>, \<^verbatim>\<open>alloc_node\<close>,
  \<^verbatim>\<open>finalize_graph\<close>, and the ways a finished pool travels (\<^verbatim>\<open>store_graph\<close> and
  \<^verbatim>\<open>load_graph\<close>, a buffer given to \<^verbatim>\<open>initialize_graph\<close>).
\<close>

section \<open>The interface of a graph builder\<close>

text \<open>
  A builder represents a graph under construction and can append a node it has room for;
  appending many nodes is then appending them one by one.
\<close>

fun add_all :: "('n \<Rightarrow> 's \<Rightarrow> 's res) \<Rightarrow> 'n list \<Rightarrow> 's \<Rightarrow> 's res" where
  "add_all add [] s = Inr s"
| "add_all add (n # ns) s = and_then (add n s) (\<lambda>s'. add_all add ns s')"

locale builder =
  fixes add :: "'n \<Rightarrow> 's \<Rightarrow> 's res"
    and rep :: "'s \<Rightarrow> 'n list \<Rightarrow> bool"
    and room :: "'n list \<Rightarrow> bool"
  assumes add_node: "rep s g \<Longrightarrow> room (g @ [n]) \<Longrightarrow> \<exists>s'. add n s = Inr s' \<and> rep s' (g @ [n])"
    and room_prefix: "room (g @ h) \<Longrightarrow> room g"
begin

lemma add_all_nodes:
  "rep s g \<Longrightarrow> room (g @ ns) \<Longrightarrow> \<exists>s'. add_all add ns s = Inr s' \<and> rep s' (g @ ns)"
proof (induction ns arbitrary: s g)
  case (Cons n ns)
  from Cons.prems(2) have "room (g @ [n])" using room_prefix [of "g @ [n]" ns] by simp
  from add_node [OF Cons.prems(1) this] obtain s1 where "add n s = Inr s1" "rep s1 (g @ [n])"
    by blast
  with Cons.IH [of s1 "g @ [n]"] Cons.prems(2) show ?case by simp
qed simp

end

section \<open>Writing the edges of a node\<close>

lemma ptr_store_PoolP [res_simps]:
  "pool s = Some m \<Longrightarrow> a + k + 8 \<le> MEMORY_POOL_SIZE \<Longrightarrow>
     ptr_store s (PoolP (pool_gen s) a) k v = Inr (s\<lparr>pool := Some (store64 m (a + k) v)\<rparr>)"
  by (simp add: ptr_store_def deref_PoolP)

definition same_outside :: "bytes \<Rightarrow> bytes \<Rightarrow> nat \<Rightarrow> nat \<Rightarrow> bool" where
  "same_outside m m' lo hi \<longleftrightarrow> (\<forall>k. k < lo \<or> hi \<le> k \<longrightarrow> m' k = m k)"

lemma same_outside_load64:
  "same_outside m m' lo hi \<Longrightarrow> a + 8 \<le> lo \<or> hi \<le> a \<Longrightarrow> load64 m' a = load64 m a"
  by (rule cell64.load_cong) (auto simp: same_outside_def)

lemma same_outside_words_at:
  "same_outside m m' lo hi \<Longrightarrow> a + 8 * length ws \<le> lo \<Longrightarrow> words_at m' a ws = words_at m a ws"
  by (rule words_at_cong) (auto simp: same_outside_def)

lemma write_edges_spec:
  assumes "pool s = Some m" "a + 24 * (i + r) \<le> MEMORY_POOL_SIZE"
    "i + r \<le> length calls" "i + r \<le> length succs"
  shows "\<exists>m'. write_edges (PoolP (pool_gen s) a) succs calls r i s = Inr (s\<lparr>pool := Some m'\<rparr>) \<and>
    words_at m' (a + 24 * i) (edges_words (zip (take r (drop i calls)) (take r (drop i succs)))) \<and>
    same_outside m m' (a + 24 * i) (a + 24 * (i + r))"
  using assms
proof (induction r arbitrary: i s m)
  case 0
  then show ?case by (auto simp: same_outside_def intro: exI [of _ m])
next
  case (Suc r)
  let ?a = "a + i * 24" and ?c = "calls ! i" and ?n = "succs ! i"
  let ?m1 = "store64 m ?a EDGE_MAGIC_NUMBER"
  let ?m2 = "store64 ?m1 (?a + 8) ?c"
  let ?m3 = "store64 ?m2 (?a + 16) ?n"
  let ?s = "\<lambda>m. s\<lparr>pool := Some m\<rparr>"
  have le: "?a + 24 \<le> MEMORY_POOL_SIZE" using Suc.prems(2) by simp
  have st: "ptr_store s (PoolP (pool_gen s) a) (i * 24) EDGE_MAGIC_NUMBER = Inr (?s ?m1)"
    "ptr_store (?s ?m1) (PoolP (pool_gen s) a) (i * 24 + 8) ?c = Inr (?s ?m2)"
    "ptr_store (?s ?m2) (PoolP (pool_gen s) a) (i * 24 + 16) ?n = Inr (?s ?m3)"
    using le Suc.prems(1) ptr_store_PoolP [of s m a "i * 24"]
      ptr_store_PoolP [of "?s ?m1" ?m1 a "i * 24 + 8"]
      ptr_store_PoolP [of "?s ?m2" ?m2 a "i * 24 + 16"]
    by (simp_all add: add.assoc)
  from Suc.IH [of "?s ?m3" ?m3 "Suc i"] Suc.prems obtain m' where
    w: "write_edges (PoolP (pool_gen s) a) succs calls r (Suc i) (?s ?m3) = Inr (?s m')" and
    rest: "words_at m' (?a + 24)
      (edges_words (zip (take r (drop (Suc i) calls)) (take r (drop (Suc i) succs))))" and
    out: "same_outside ?m3 m' (?a + 24) (a + 24 * (i + Suc r))"
    by (auto simp: algebra_simps)
  have first: "load64 m' ?a = EDGE_MAGIC_NUMBER" "load64 m' (?a + 8) = ?c"
    "load64 m' (?a + 16) = ?n"
    using same_outside_load64 [OF out] by (simp_all add: mem_simps)
  have d: "take (Suc r) (drop i calls) = ?c # take r (drop (Suc i) calls)"
    "take (Suc r) (drop i succs) = ?n # take r (drop (Suc i) succs)"
    using Suc.prems(3,4) by (simp_all flip: Cons_nth_drop_Suc)
  have "same_outside m m' ?a (a + 24 * (i + Suc r))"
    using out by (auto simp: same_outside_def store64_def)
  with w rest first d st Suc.prems(3,4) show ?case
    by (auto simp: layout_simps Let_def add.assoc mult.commute [of 24] intro!: exI [of _ m'])
qed

section \<open>The lookup table while building\<close>

text \<open>
  The relation the code keeps between the number of nodes, the capacity of the lookup table and
  \<^verbatim>\<open>num_nodes_listings\<close>, which grows by 4096 entries when it is full.  The first allocation makes 4096 entries without recording them, which
  the second allocation repairs.
\<close>

definition table_inv :: "memgraph \<Rightarrow> nat \<Rightarrow> bool" where
  "table_inv s n \<longleftrightarrow>
     (case nodes s of
        None \<Rightarrow> n = 0 \<and> (num_nodes_listings s = 0 \<or> num_nodes_listings s = 4096)
      | Some t \<Rightarrow>
          tbl_cap t = 4096 \<and> num_nodes_listings s = 0 \<and> n \<le> 1 \<or>
          tbl_cap t = unat (num_nodes_listings s) \<and> n \<le> tbl_cap t \<and> 4096 \<le> tbl_cap t \<and>
          tbl_cap t < n + 4096 \<and> 4096 dvd tbl_cap t)"

lemma table_inv_cong:
  "nodes s' = nodes s \<Longrightarrow> num_nodes_listings s' = num_nodes_listings s \<Longrightarrow>
     table_inv s' n = table_inv s n"
  by (simp add: table_inv_def cong: option.case_cong)

definition ample :: "env \<Rightarrow> bool" where
  "ample e \<longleftrightarrow> (\<forall>k z. env_alloc e k z)"

lemma unat_plus_4096: "unat (x :: u64) \<le> 2 ^ 20 \<Longrightarrow> unat (x + 4096) = unat x + 4096"
  by (simp add: unat_word_ariths)

lemma grow_nodes_spec:
  assumes "ample e" "table_inv s n" "meta_load s ''num_nodes'' = Inr (of_nat n)" "n < 43691"
  obtains s' t where "grow_nodes e s = Inr s'" "nodes s' = Some t" "4096 \<le> tbl_cap t" "n < tbl_cap t"
    "table_inv s' (Suc n)" "pool s' = pool s" "pool_gen s' = pool_gen s" "pool_edge s' = pool_edge s"
proof (cases "nodes s")
  case None
  with assms(1,2) show thesis
    by (intro that [of "malloc_nodes e (8 * DEFAULT_NUMBER_OF_NODESLISTINGS) s"
          "\<lparr>tbl_cap = 4096, tbl_slot = (\<lambda>_. fresh_slot e)\<rparr>"])
      (auto simp: grow_nodes_def malloc_nodes_def table_inv_def ample_def
        DEFAULT_NUMBER_OF_NODESLISTINGS_def)
next
  case (Some t)
  show thesis
  proof (cases "of_nat n \<ge> num_nodes_listings s")
    case True
    define k where "k = num_nodes_listings s + 4096"
    define s1 where "s1 = realloc_nodes e t (8 * k) (s\<lparr>num_nodes_listings := k\<rparr>)"
    have le: "unat (num_nodes_listings s) \<le> n"
      using True assms(4) by (simp add: word_le_nat_alt unat_of_nat_small)
    then have k: "unat k = unat (num_nodes_listings s) + 4096"
      unfolding k_def using assms(4) by (intro unat_plus_4096) simp
    then have "unat (8 * k) = 8 * unat k"
      using le assms(4) by (simp add: unat_word_ariths)
    then have c: "nodes s1 = Some \<lparr>tbl_cap = unat k,
        tbl_slot = (\<lambda>i. if i < tbl_cap t then tbl_slot t i else WildP)\<rparr>"
      "num_nodes_listings s1 = k"
      using assms(1) by (simp_all add: s1_def realloc_nodes_def ample_def)
    have "n \<le> unat (num_nodes_listings s) \<or> n \<le> 1 \<and> num_nodes_listings s = 0"
      using assms(2) Some by (auto simp: table_inv_def)
    moreover have "4096 dvd unat k"
      using assms(2) Some by (auto simp: table_inv_def k)
    ultimately have "n < unat k" "table_inv s1 (Suc n)" "4096 \<le> unat k"
      using k le by (auto simp: table_inv_def c)
    moreover have "grow_nodes e s = Inr s1"
      using Some True assms(3)
      by (simp add: grow_nodes_def Let_def DEFAULT_NUMBER_OF_NODESLISTINGS_def s1_def k_def)
    ultimately show thesis
      by (intro that [OF _ c(1)]) (simp_all add: s1_def realloc_nodes_def)
  next
    case False
    then have lt: "n < unat (num_nodes_listings s)"
      using assms(4) by (simp add: word_le_nat_alt unat_of_nat_small)
    with Some False assms(2,3) show thesis
      by (intro that [of s t]) (auto simp: grow_nodes_def table_inv_def)
  qed
qed

section \<open>Appending a node\<close>

text \<open>\<open>building s g\<close>: the nodes \<open>g\<close> have been written and the next one goes behind them.\<close>

definition building :: "memgraph \<Rightarrow> graph \<Rightarrow> bool" where
  "building s g \<longleftrightarrow>
     (\<exists>m. pool s = Some m \<and> encodes m g \<and>
        pool_edge s = PoolP (pool_gen s) (NODE_TABLE_OFFSET + graph_size g) \<and>
        table_inv s (length g))"

text \<open>
  There is room for a graph when it fits the pool and every node's identifier, which indexes the
  lookup table, is below its initial capacity or at most the node's position.
\<close>

definition room_for :: "graph \<Rightarrow> bool" where
  "room_for g \<longleftrightarrow> NODE_TABLE_OFFSET + graph_size g \<le> MEMORY_POOL_SIZE \<and>
     (\<forall>i<length g. unat (ps_id (g ! i)) < 4096 \<or> unat (ps_id (g ! i)) \<le> i)"

lemma room_for_prefix:
  assumes "room_for (g @ h)"
  shows "room_for g"
proof -
  have "unat (ps_id (g ! i)) < 4096 \<or> unat (ps_id (g ! i)) \<le> i" if "i < length g" for i
  proof -
    from that have "i < length (g @ h)" "(g @ h) ! i = g ! i" by (simp_all add: nth_append)
    with assms show ?thesis unfolding room_for_def by metis
  qed
  with assms show ?thesis by (simp add: room_for_def)
qed

lemma sint_of_nat_small: "n < 2 ^ 31 \<Longrightarrow> sint (of_nat n :: i32) = int n"
  by (simp add: signed_of_nat signed_take_bit_int_eq_self)

lemma scast_of_nat_small: "n < 2 ^ 31 \<Longrightarrow> (scast (of_nat n :: i32) :: u64) = of_nat n"
  by (simp add: signed_of_nat signed_take_bit_int_eq_self)

lemma encodes_append:
  assumes "encodes m g" "same_outside m m1 (NODE_TABLE_OFFSET + graph_size g) hi"
    "words_at m1 (NODE_TABLE_OFFSET + graph_size g) (node_words n)"
  shows "encodes (store64 m1 (offset_of graph_metadata ''num_nodes'') (of_nat (Suc (length g)))) (g @ [n])"
proof -
  have "words_at m1 88 (graph_words g)"
    using assms same_outside_words_at [OF assms(2), of 88 "graph_words g"]
    by (simp add: encodes_def layout_simps)
  then show ?thesis
    using assms same_outside_load64 [OF assms(2)]
    by (simp add: encodes_def layout_simps mem_simps)
qed

text \<open>
  \<open>node_of nid k succs calls\<close> is the node that \<^verbatim>\<open>alloc_node(nid, k, succs, calls)\<close> appends.
\<close>

definition node_of :: "u64 \<Rightarrow> nat \<Rightarrow> u64 list \<Rightarrow> u64 list \<Rightarrow> progstate" where
  "node_of nid k succs calls = \<lparr>ps_id = nid, ps_edges = zip (take k calls) (take k succs)\<rparr>"

lemma pool_update_self: "s = s\<lparr>pool := p\<rparr> \<Longrightarrow> pool s = p"
  by (drule arg_cong [where f = pool]) simp

lemma node_of_simps:
  "k \<le> length calls \<Longrightarrow> k \<le> length succs \<Longrightarrow> length (ps_edges (node_of nid k succs calls)) = k"
  "ps_id (node_of nid k succs calls) = nid"
  "ps_edges (node_of nid k succs calls) = zip (take k calls) (take k succs)"
  by (simp_all add: node_of_def)

text \<open>The effect of \<^verbatim>\<open>alloc_node\<close> on the memory, once the lookup table is large enough.\<close>

lemma alloc_node_run:
  assumes pe: "pool_edge s = PoolP G a"
    and grow: "grow_nodes e (s\<lparr>pool_edge := PoolP G (a + 24)\<rparr>) = Inr s2"
    and s2: "nodes s2 = Some t" "unat nid < tbl_cap t" "pool s2 = Some m" "pool_gen s2 = G"
      "pool_edge s2 = PoolP G (a + 24)"
    and fit: "a + 24 + 24 * k \<le> MEMORY_POOL_SIZE" "88 \<le> a"
    and len: "k \<le> length calls" "k \<le> length succs"
  shows "\<exists>m'. alloc_node e nid (of_nat k) succs calls s =
      Inr (PoolP G a, s2\<lparr>pool := Some (store64 m' 64 (load64 m 64 + 1)),
        nodes := Some (t\<lparr>tbl_slot := (tbl_slot t)(unat nid := PoolP G a)\<rparr>),
        pool_edge := PoolP G (a + 24 + k * 24)\<rparr>) \<and>
    words_at m' a (node_words (node_of nid k succs calls)) \<and>
    same_outside m m' a (a + 24 + 24 * k)"
proof -
  let ?s = "\<lambda>m. s2\<lparr>pool := Some m\<rparr>" and ?n = "node_of nid k succs calls"
  let ?m3 = "store64 m a NODE_MAGIC_NUMBER"
  let ?m4 = "store64 ?m3 (a + 8) nid"
  let ?m5 = "store64 ?m4 (a + 16) (of_nat k)"
  let ?t = "t\<lparr>tbl_slot := (tbl_slot t)(unat nid := PoolP G a)\<rparr>"
  let ?s6 = "s2\<lparr>pool := Some ?m5, nodes := Some ?t\<rparr>"
  let ?s7 = "?s6\<lparr>pool_edge := PoolP G (a + 24 + k * 24)\<rparr>"
  have k: "k < 2 ^ 31" using fit by (simp add: layout_simps)
  have st: "ptr_store s2 (PoolP G a) 0 NODE_MAGIC_NUMBER = Inr (?s ?m3)"
    "ptr_store (?s ?m3) (PoolP G a) 8 nid = Inr (?s ?m4)"
    "ptr_store (?s ?m4) (PoolP G a) 16 (of_nat k) = Inr (?s ?m5)"
    using fit s2(3,4) ptr_store_PoolP [of s2 m a 0] ptr_store_PoolP [of "?s ?m3" ?m3 a 8]
      ptr_store_PoolP [of "?s ?m4" ?m4 a 16] by simp_all
  have slot: "set_slot (?s ?m5) (unat nid) (PoolP G a) = Inr ?s6"
    using s2(1,2) by (simp add: set_slot_def)
  obtain m' where m': "write_edges (PoolP G (a + 24)) succs calls k 0 ?s7 = Inr (?s7\<lparr>pool := Some m'\<rparr>)"
    "words_at m' (a + 24) (edges_words (ps_edges ?n))"
    "same_outside ?m5 m' (a + 24) (a + 24 + 24 * k)"
    using write_edges_spec [of ?s7 ?m5 "a + 24" 0 k calls succs] fit(1) len s2(4)
    by (auto simp: node_of_simps)
  have old: "load64 m' 64 = load64 m 64"
    using same_outside_load64 [OF m'(3), of 64] fit(2) by (simp add: mem_simps)
  have "alloc_node e nid (of_nat k) succs calls s =
      Inr (PoolP G a, ?s7\<lparr>pool := Some (store64 m' 64 (load64 m 64 + 1))\<rparr>)"
  proof (cases "k = 0")
    case True
    then have "pool ?s7 = Some m'"
      using m'(1) by (intro pool_update_self) (simp only: write_edges.simps sum.inject)
    then have "m' = ?m5" by simp
    with True show ?thesis
      using pe grow s2 st slot old
      by (simp add: alloc_node_def Let_def layout_simps meta_load_def meta_store_def)
  next
    case False
    with k show ?thesis
      using pe grow s2 st slot old m'(1)
      by (simp add: alloc_node_def Let_def layout_simps meta_load_def meta_store_def
          sint_of_nat_small scast_of_nat_small)
  qed
  moreover have "words_at m' a (node_words ?n)"
    using m'(2) same_outside_load64 [OF m'(3)] node_of_simps(1) [OF len]
    by (simp add: node_words_def node_of_simps(2) mem_simps add.assoc)
  moreover have "same_outside m m' a (a + 24 + 24 * k)"
    using m'(3) by (auto simp: same_outside_def store64_def)
  ultimately show ?thesis by (intro exI [of _ m'] conjI) simp_all
qed

text \<open>What is in the pool afterwards, however large the lookup table is.\<close>

lemma alloc_node_encodes:
  assumes m: "pool s = Some m" "encodes m g" "pool_edge s = PoolP (pool_gen s) (NODE_TABLE_OFFSET + graph_size g)"
    and grow: "grow_nodes e (s\<lparr>pool_edge := PoolP (pool_gen s) (NODE_TABLE_OFFSET + graph_size g + 24)\<rparr>) = Inr s2"
    and s2: "nodes s2 = Some t" "unat nid < tbl_cap t" "pool s2 = Some m" "pool_gen s2 = pool_gen s"
      "pool_edge s2 = PoolP (pool_gen s) (NODE_TABLE_OFFSET + graph_size g + 24)"
    and fit: "NODE_TABLE_OFFSET + graph_size (g @ [node_of nid k succs calls]) \<le> MEMORY_POOL_SIZE"
    and len: "k \<le> length calls" "k \<le> length succs"
  shows "\<exists>s' m' t'. alloc_node e nid (of_nat k) succs calls s =
      Inr (PoolP (pool_gen s) (NODE_TABLE_OFFSET + graph_size g), s') \<and>
    pool s' = Some m' \<and> encodes m' (g @ [node_of nid k succs calls]) \<and> pool_gen s' = pool_gen s \<and>
    pool_edge s' = PoolP (pool_gen s) (NODE_TABLE_OFFSET + graph_size (g @ [node_of nid k succs calls])) \<and>
    nodes s' = Some t' \<and> tbl_cap t' = tbl_cap t \<and> num_nodes_listings s' = num_nodes_listings s2"
proof -
  let ?n = "node_of nid k succs calls" and ?a = "NODE_TABLE_OFFSET + graph_size g"
  note es = node_of_simps(1) [OF len]
  have "?a + 24 + 24 * k \<le> MEMORY_POOL_SIZE" "88 \<le> ?a"
    using fit by (simp_all add: node_size_def es layout_simps)
  from alloc_node_run [OF m(3) grow s2 this len] obtain m' where
    r: "alloc_node e nid (of_nat k) succs calls s = Inr (PoolP (pool_gen s) ?a,
        s2\<lparr>pool := Some (store64 m' 64 (load64 m 64 + 1)),
           nodes := Some (t\<lparr>tbl_slot := (tbl_slot t)(unat nid := PoolP (pool_gen s) ?a)\<rparr>),
           pool_edge := PoolP (pool_gen s) (?a + 24 + k * 24)\<rparr>)"
      (is "_ = Inr (_, ?s')")
    and w: "words_at m' ?a (node_words ?n)" "same_outside m m' ?a (?a + 24 + 24 * k)"
    by auto
  let ?m = "store64 m' 64 (load64 m 64 + 1)"
  let ?t = "t\<lparr>tbl_slot := (tbl_slot t)(unat nid := PoolP (pool_gen s) ?a)\<rparr>"
  have "load64 m 64 = of_nat (length g)" using m(2) by (simp add: encodes_def layout_simps)
  then have "encodes (store64 m' 64 (load64 m 64 + 1)) (g @ [?n])"
    using encodes_append [OF m(2) w(2,1)] by (simp add: layout_simps add.commute)
  with r s2(4) es show ?thesis
    by (intro exI [of _ ?s'] exI [of _ ?m] exI [of _ ?t]) (simp add: node_size_def layout_simps)
qed

lemma alloc_node_gen:
  assumes "building s g" "ample e" "room_for (g @ [node_of nid k succs calls])"
    "k \<le> length calls" "k \<le> length succs"
  shows "\<exists>s'. alloc_node e nid (of_nat k) succs calls s =
      Inr (PoolP (pool_gen s) (NODE_TABLE_OFFSET + graph_size g), s') \<and>
    building s' (g @ [node_of nid k succs calls]) \<and> pool_gen s' = pool_gen s"
proof -
  let ?n = "node_of nid k succs calls" and ?a = "NODE_TABLE_OFFSET + graph_size g"
  from assms(1) obtain m where m: "pool s = Some m" "encodes m g"
    "pool_edge s = PoolP (pool_gen s) ?a" "table_inv s (length g)"
    by (auto simp: building_def)
  have fit: "NODE_TABLE_OFFSET + graph_size (g @ [?n]) \<le> MEMORY_POOL_SIZE"
    using assms(3) unfolding room_for_def by blast
  with graph_size_ge [of g] have len: "length g < 43691" by (simp add: layout_simps)
  have nid: "unat nid < 4096 \<or> unat nid \<le> length g"
    using assms(3)
    by (auto simp: room_for_def node_of_simps(2) nth_append dest!: spec [of _ "length g"])
  let ?s1 = "s\<lparr>pool_edge := PoolP (pool_gen s) (?a + 24)\<rparr>"
  have "meta_load ?s1 ''num_nodes'' = Inr (of_nat (length g))"
    using m(1,2) by (simp add: meta_load_def encodes_def layout_simps)
  moreover have "table_inv ?s1 (length g)" using m(4) table_inv_cong [of ?s1 s] by simp
  ultimately obtain s2 t where s2: "grow_nodes e ?s1 = Inr s2" "nodes s2 = Some t"
    "4096 \<le> tbl_cap t" "length g < tbl_cap t" "table_inv s2 (Suc (length g))" "pool s2 = pool ?s1"
    "pool_gen s2 = pool_gen ?s1" "pool_edge s2 = pool_edge ?s1"
    using grow_nodes_spec [OF assms(2) _ _ len] by blast
  with nid m(1) have "unat nid < tbl_cap t" "pool s2 = Some m" "pool_gen s2 = pool_gen s"
    "pool_edge s2 = PoolP (pool_gen s) (?a + 24)" by auto
  from alloc_node_encodes [OF m(1-3) s2(1,2) this fit assms(4,5)] obtain s' m' t' where
    r: "alloc_node e nid (of_nat k) succs calls s = Inr (PoolP (pool_gen s) ?a, s')"
    "pool s' = Some m'" "encodes m' (g @ [?n])" "pool_gen s' = pool_gen s"
    "pool_edge s' = PoolP (pool_gen s) (NODE_TABLE_OFFSET + graph_size (g @ [?n]))"
    "nodes s' = Some t'" "tbl_cap t' = tbl_cap t" "num_nodes_listings s' = num_nodes_listings s2" by blast
  then have "building s' (g @ [?n])"
    using s2(2,5) by (simp add: building_def table_inv_def)
  with r(1,4) show ?thesis by blast
qed

lemma alloc_node_spec:
  assumes "building s g" "ample e" "room_for (g @ [node_of nid k succs calls])"
    "k \<le> length calls" "k \<le> length succs"
  shows "\<exists>s'. alloc_node e nid (of_nat k) succs calls s =
      Inr (PoolP (pool_gen s) (NODE_TABLE_OFFSET + graph_size g), s') \<and>
    building s' (g @ [node_of nid k succs calls])"
  using alloc_node_gen [OF assms] by blast

section \<open>Building a whole graph\<close>

text \<open>Appending a node record, with its edges split into the two arrays of the call.\<close>

definition alloc_progstate :: "env \<Rightarrow> progstate \<Rightarrow> memgraph \<Rightarrow> memgraph res" where
  "alloc_progstate e n s =
     and_then (alloc_node e (ps_id n) (of_nat (length (ps_edges n)))
                 (map snd (ps_edges n)) (map fst (ps_edges n)) s) (\<lambda>(_, s'). Inr s')"

lemma node_of_progstate:
  "node_of (ps_id n) (length (ps_edges n)) (map snd (ps_edges n)) (map fst (ps_edges n)) = n"
  by (simp add: node_of_def zip_map_fst_snd)

lemma alloc_progstate_spec:
  assumes "building s g" "ample e" "room_for (g @ [n])"
  shows "\<exists>s'. alloc_progstate e n s = Inr s' \<and> building s' (g @ [n])"
  using alloc_node_spec [of s g e "ps_id n" "length (ps_edges n)" "map snd (ps_edges n)"
      "map fst (ps_edges n)"] assms
  by (auto simp: alloc_progstate_def node_of_progstate)

text \<open>The environment in which every allocation request succeeds.\<close>

definition ample_env :: "build \<Rightarrow> env" where
  "ample_env b = \<lparr>env_build = b, env_alloc = (\<lambda>_ _. True)\<rparr>"

lemma ample_ample_env [simp]: "ample (ample_env b)"
  by (simp add: ample_def ample_env_def)

interpretation pool_builder:
  builder "alloc_progstate e" "\<lambda>s g. building s g \<and> ample e" room_for for e
  by unfold_locales (auto dest: alloc_progstate_spec intro: room_for_prefix)

end
