(* ===== verification/GraphTransfer.thy ===== *)
theory GraphTransfer
  imports GraphBuild
begin

text \<open>
  How a graph comes into being and travels: creating and initialising the pool, finishing the
  graph, taking over a pool from a buffer, and storing it to and loading it from a file.
\<close>

section \<open>Creating and initialising the pool\<close>

definition fresh_pool :: bytes where
  "fresh_pool =
     store64 (store64 (store64 (store64 (store64 (mem_set (\<lambda>_. 0) 0 MEMORY_POOL_SIZE)
       24 (of_nat MEMORY_POOL_SIZE)) 8 MEMPOOL_VERSION) 0 GRAPH_META_MAGIC_NUMBER)
       72 (of_nat NODE_TABLE_OFFSET)) 64 0"

lemma mem_set_zero: "mem_set (\<lambda>_. 0) 0 n = (\<lambda>_. 0)"
  by (simp add: mem_set_def)

lemma create_pool_spec:
  "env_alloc e (requests s) (of_nat MEMORY_POOL_SIZE) \<Longrightarrow>
     create_pool e s = Inr (s\<lparr>requests := Suc (requests s), pool_gen := Suc (pool_gen s),
       pool_edge := PoolP (Suc (pool_gen s)) NODE_TABLE_OFFSET, pool := Some fresh_pool\<rparr>)"
  by (simp add: create_pool_def meta_store_def fresh_pool_def Let_def offsets)

lemma fresh_pool_loads:
  "load64 fresh_pool 0 = GRAPH_META_MAGIC_NUMBER" "load64 fresh_pool 8 = MEMPOOL_VERSION"
  "load64 fresh_pool 24 = of_nat MEMORY_POOL_SIZE" "load64 fresh_pool 64 = 0"
  "load64 fresh_pool 72 = of_nat NODE_TABLE_OFFSET" "load8 fresh_pool 32 = 0"
  by (simp_all add: fresh_pool_def mem_set_zero mem_simps)

lemma encodes_fresh_pool: "encodes fresh_pool []"
  by (simp add: encodes_def layout_simps fresh_pool_loads)

text \<open>\<^verbatim>\<open>initialize_graph(NULL, 0)\<close> on a module without a pool starts an empty graph.\<close>

lemma initialize_empty:
  assumes "pool s = None" "env_alloc e (requests s) (of_nat MEMORY_POOL_SIZE)"
    "num_nodes_listings s = 0 \<or> num_nodes_listings s = 4096"
  obtains s' where "initialize_graph e None 0 s = Inr s'" "building s' []"
    "pool s' = Some fresh_pool" "num_nodes_listings s' = num_nodes_listings s"
proof -
  let ?s = "s\<lparr>requests := Suc (requests s), pool_gen := Suc (pool_gen s),
       pool_edge := PoolP (Suc (pool_gen s)) NODE_TABLE_OFFSET, pool := Some fresh_pool,
       nodes := None\<rparr>"
  have "mem_set fresh_pool 0 0 = fresh_pool" by (simp add: mem_set_def)
  then have "initialize_graph e None 0 s = Inr ?s"
    using assms(1) create_pool_spec [OF assms(2)] by (simp add: initialize_graph_def)
  moreover have "building ?s []"
    using assms(3) by (simp add: building_def encodes_fresh_pool table_inv_def)
  ultimately show thesis using that by simp
qed

section \<open>Finishing the graph\<close>

lemma load8_finalized [mem_simps]: "load8 (store8 m k v) k = v"
  by (simp add: mem_simps)

lemma encodes_store_flag: "encodes (store8 m 32 v) g = encodes m g"
  by (simp add: encodes_def layout_simps mem_simps)

lemma finalize_spec:
  assumes "building s g"
  obtains s' m where "finalize_graph s = Inr s'" "pool s' = Some m" "sealed m g"
    "nodes s' = nodes s" "pool_gen s' = pool_gen s" "table_inv s' (length g)"
proof -
  from assms obtain m where m: "pool s = Some m" "encodes m g" "table_inv s (length g)"
    by (auto simp: building_def)
  let ?m = "store8 m 32 1"
  have "finalize_graph s = Inr (s\<lparr>pool := Some ?m\<rparr>)"
    using m(1) by (simp add: finalize_graph_def layout_simps)
  moreover have "sealed ?m g"
    using m(2) by (simp add: sealed_def encodes_store_flag layout_simps mem_simps)
  moreover have "table_inv (s\<lparr>pool := Some ?m\<rparr>) (length g)"
    using m(3) table_inv_cong [of "s\<lparr>pool := Some ?m\<rparr>" s] by simp
  ultimately show thesis using that by simp
qed

lemma table_inv_ready: "table_inv s n \<Longrightarrow> ample e \<Longrightarrow> table_ready e s n"
  by (auto simp: table_inv_def table_ready_def ample_def split: option.splits)

section \<open>Taking over a pool from a buffer\<close>

lemma sealed_mem_copy:
  assumes "sealed b g" "NODE_TABLE_OFFSET + graph_size g \<le> n"
  shows "sealed (mem_copy m b n) g"
  using assms by (simp add: sealed_def encodes_def layout_simps mem_simps)

definition table_large :: "memgraph \<Rightarrow> nat \<Rightarrow> bool" where
  "table_large s n \<longleftrightarrow> (case nodes s of None \<Rightarrow> True | Some t \<Rightarrow> n \<le> tbl_cap t)"

lemma table_large_ready: "ample e \<Longrightarrow> table_large s n \<Longrightarrow> table_ready e s n"
  by (auto simp: table_large_def table_ready_def ample_def split: option.splits)

text \<open>The pool as it is before the copy: created if there was none, its first bytes zeroed.\<close>

lemma prepared_pool:
  assumes "ample e"
  obtains m s1 where
    "(if pool s = None then create_pool e s else Inr s) = Inr s1" "pool s1 = Some m"
    "nodes s1 = nodes s" "pool_gen s \<le> pool_gen s1"
proof (cases "pool s")
  case None
  with assms that show thesis by (simp add: create_pool_spec ample_def)
next
  case (Some m)
  then show thesis using that [of s m] by simp
qed

lemma initialize_buffer:
  assumes "ample e" "table_large s (length g)" "sealed (buf_bytes d) g" "fits g"
    "NODE_TABLE_OFFSET + graph_size g \<le> unat sz" "unat sz \<le> buf_len d"
    "unat sz \<le> MEMORY_POOL_SIZE"
  obtains s' m where "initialize_graph e (Some d) sz s = Inr s'" "holds NODE_TABLE_OFFSET g s'"
    "pool s' = Some m" "\<forall>k<unat sz. m k = buf_bytes d k"
proof -
  obtain m s1 where s1: "(if pool s = None then create_pool e s else Inr s) = Inr s1"
    "pool s1 = Some m" "nodes s1 = nodes s"
    using prepared_pool [OF assms(1)] by metis
  let ?m = "mem_copy (mem_set m 0 (unat sz)) (buf_bytes d) (unat sz)"
  let ?s2 = "s1\<lparr>pool := Some ?m\<rparr>"
  have "table_large ?s2 (length g)" using assms(2) s1(3) by (simp add: table_large_def)
  then have "table_ready e ?s2 (length g)" by (rule table_large_ready [OF assms(1)])
  moreover have "pool ?s2 = Some ?m" "sealed ?m g"
    using sealed_mem_copy [OF assms(3,5)] by simp_all
  ultimately obtain s' t q where
    s': "verify_graph e ?s2 = Inr (1, s')" "holds NODE_TABLE_OFFSET g s'"
      "s' = ?s2\<lparr>nodes := Some t, requests := q\<rparr>"
    using verify_complete [OF _ _ assms(4)] by blast
  have "0 < sz" using assms(5) by (auto simp: layout_simps word_gt_0)
  with assms(6,7) s1 s'(1) have "initialize_graph e (Some d) sz s = Inr s'"
    by (simp add: initialize_graph_def)
  moreover have "pool s' = Some ?m" using s'(3) by simp
  ultimately show thesis using that s'(2) by (simp add: mem_copy_def)
qed

text \<open>The size check comes after the \<^verbatim>\<open>MEMSET\<close> of that size.\<close>

lemma initialize_too_big:
  assumes "ample e" "MEMORY_POOL_SIZE < unat sz"
  shows "initialize_graph e data sz s = Inl Out_of_bounds"
proof -
  obtain m s1 where "(if pool s = None then create_pool e s else Inr s) = Inr s1"
    "pool s1 = Some m"
    using prepared_pool [OF assms(1)] by metis
  with assms(2) show ?thesis by (simp add: initialize_graph_def)
qed

section \<open>Storing and loading\<close>

lemma store_spec:
  assumes "can_write fs f" "MEMORY_POOL_SIZE \<le> accepts fs f" "pool s = Some m"
  shows "store_graph e f s fs =
    Inr (fs\<lparr>files := (files fs)(f \<mapsto> \<lparr>buf_len = MEMORY_POOL_SIZE, buf_bytes = m\<rparr>)\<rparr>)"
  using assms by (simp add: store_graph_def Let_def min_absorb1)

lemma load_spec:
  assumes "ample e" "table_large s (length g)" "sealed b g" "fits g"
    "files fs f = Some \<lparr>buf_len = MEMORY_POOL_SIZE, buf_bytes = b\<rparr>"
  obtains s' m where "load_graph e f fs s = Inr s'" "holds NODE_TABLE_OFFSET g s'"
    "pool s' = Some m" "\<forall>k<MEMORY_POOL_SIZE. m k = b k"
proof -
  obtain m s1 where s1: "(if pool s = None then create_pool e s else Inr s) = Inr s1"
    "pool s1 = Some m" "nodes s1 = nodes s"
    using prepared_pool [OF assms(1)] by metis
  let ?m = "mem_copy m b MEMORY_POOL_SIZE"
  let ?s2 = "s1\<lparr>pool := Some ?m\<rparr>"
  have "table_large ?s2 (length g)" using assms(2) s1(3) by (simp add: table_large_def)
  then have "table_ready e ?s2 (length g)" by (rule table_large_ready [OF assms(1)])
  moreover have "pool ?s2 = Some ?m" "sealed ?m g"
    using sealed_mem_copy [OF assms(3)] assms(4) by (simp_all add: fits_def)
  ultimately obtain s' t q where
    s': "verify_graph e ?s2 = Inr (1, s')" "holds NODE_TABLE_OFFSET g s'"
      "s' = ?s2\<lparr>nodes := Some t, requests := q\<rparr>"
    using verify_complete [OF _ _ assms(4)] by blast
  have "load_graph e f fs s = Inr s'"
    using s1 s'(1) assms(5) by (simp add: load_graph_def Let_def)
  moreover have "pool s' = Some ?m" using s'(3) by simp
  ultimately show thesis using that s'(2) by (simp add: mem_copy_def)
qed

end
