(* ===== verification/Sandboxing.thy ===== *)
theory Sandboxing
  imports GraphTransfer
begin

text \<open>
  \<^verbatim>\<open>kernel/e0256-sandboxing/sandboxing.c\<close>: the three system calls, over the one module-wide
  graph state and the buffer pointer \<^verbatim>\<open>kernel_buffer\<close>, which all processes share.
\<close>

section \<open>State\<close>

text \<open>The pointer \<^verbatim>\<open>kernel_buffer\<close>: null, a live allocation, or a freed one.\<close>

datatype kbuffer = KNull | KLive buffer | KFreed

fun kfree :: "kbuffer \<Rightarrow> kbuffer res" where
  "kfree KNull = Inr KNull"
| "kfree (KLive b) = Inr KFreed"
| "kfree KFreed = Inl Double_free"

record ksys =
  ks_graph :: memgraph
  kernel_buffer :: kbuffer

definition ksys_init :: ksys where
  "ksys_init = \<lparr>ks_graph = memgraph_init, kernel_buffer = KNull\<rparr>"

definition kernel_env :: "(nat \<Rightarrow> u64 \<Rightarrow> bool) \<Rightarrow> env" where
  "kernel_env al = \<lparr>env_build = Kernel, env_alloc = al\<rparr>"

definition EINVAL :: u64 where "EINVAL = 22"
definition ENOMEM :: u64 where "ENOMEM = 12"
definition EFAULT :: u64 where "EFAULT = 14"
definition ENOSYS :: u64 where "ENOSYS = 38"

text \<open>What a system call does to its caller.\<close>

datatype sysres = Returned u64 | Killed

section \<open>The system calls\<close>

text \<open>
  \<open>cfg\<close> is \<^verbatim>\<open>CONFIG_E0_256_SANDBOX_PROJECT\<close>.  \<^verbatim>\<open>copy_from_user\<close> leaves bytes uncopied when the
  caller's buffer is not readable over the whole length.  The diagnostic loop reads twenty bytes
  of the kernel's copy whatever its size.
\<close>

definition print_data :: "buffer \<Rightarrow> unit res" where
  "print_data b = (if buf_len b < 20 then Inl Out_of_bounds else Inr ())"

definition sandbox_init ::
    "bool \<Rightarrow> (nat \<Rightarrow> u64 \<Rightarrow> bool) \<Rightarrow> buffer option \<Rightarrow> u64 \<Rightarrow> ksys \<Rightarrow> (sysres \<times> ksys) res" where
  "sandbox_init cfg al data sz k =
     (if \<not> cfg then Inr (Returned (- ENOSYS), k)
      else case data of
        None \<Rightarrow> Inr (Returned (- EINVAL), k)
      | Some d \<Rightarrow>
          if sz = 0 then Inr (Returned (- EINVAL), k)
          else and_then (if kernel_buffer k \<noteq> KNull then kfree (kernel_buffer k) else Inr KNull) (\<lambda>_.
            let g = ks_graph k;
                g1 = g\<lparr>requests := Suc (requests g)\<rparr>
            in if \<not> al (requests g) sz
               then Inr (Returned (- ENOMEM), k\<lparr>ks_graph := g1, kernel_buffer := KNull\<rparr>)
               else
                 let b = \<lparr>buf_len = unat sz, buf_bytes = buf_bytes d\<rparr>
                 in if buf_len d < unat sz
                    then and_then (kfree (KLive b)) (\<lambda>kb.
                      Inr (Returned (- EFAULT), k\<lparr>ks_graph := g1, kernel_buffer := kb\<rparr>))
                    else and_then (print_data b) (\<lambda>_.
                         and_then (initialize_graph (kernel_env al) (Some b) sz g1) (\<lambda>g2.
                         and_then (reset_progstate g2) (\<lambda>g3.
                         Inr (Returned 0, k\<lparr>ks_graph := g3, kernel_buffer := KLive b\<rparr>))))))"

definition sandbox_cleanup :: "bool \<Rightarrow> ksys \<Rightarrow> (sysres \<times> ksys) res" where
  "sandbox_cleanup cfg k =
     (if \<not> cfg then Inr (Returned (- ENOSYS), k)
      else and_then (kfree (kernel_buffer k)) (\<lambda>kb. Inr (Returned 0, k\<lparr>kernel_buffer := kb\<rparr>)))"

definition sandbox_dummycall :: "bool \<Rightarrow> u64 \<Rightarrow> ksys \<Rightarrow> (sysres \<times> ksys) res" where
  "sandbox_dummycall cfg number k =
     (if \<not> cfg then Inr (Returned 0, k)
      else and_then (is_state_transition_valid (ks_graph k) number) (\<lambda>v.
        if v \<noteq> 0 then
          and_then (transition_to_state (ks_graph k) number) (\<lambda>(r, g).
            Inr (Returned (scast r), k\<lparr>ks_graph := g\<rparr>))
        else Inr (Killed, k)))"

datatype syscall =
    Sandbox_init "buffer option" u64
  | Sandbox_cleanup
  | Sandbox_dummycall u64

fun do_syscall :: "bool \<Rightarrow> (nat \<Rightarrow> u64 \<Rightarrow> bool) \<Rightarrow> syscall \<Rightarrow> ksys \<Rightarrow> (sysres \<times> ksys) res" where
  "do_syscall cfg al (Sandbox_init data sz) k = sandbox_init cfg al data sz k"
| "do_syscall cfg al Sandbox_cleanup k = sandbox_cleanup cfg k"
| "do_syscall cfg al (Sandbox_dummycall n) k = sandbox_dummycall cfg n k"

section \<open>The kernel as a monitor\<close>

text \<open>One instrumented call of a process: it goes on, or is killed.\<close>

definition guard_call :: "ksys \<Rightarrow> u64 \<Rightarrow> (bool \<times> ksys) res" where
  "guard_call k n = and_then (sandbox_dummycall True n k) (\<lambda>(r, k'). Inr (r \<noteq> Killed, k'))"

definition enforces :: "graph \<Rightarrow> ksys \<Rightarrow> nat \<Rightarrow> bool" where
  "enforces g k q \<longleftrightarrow> at_state NODE_TABLE_OFFSET g (ks_graph k) q"

lemma dummycall_allowed:
  assumes "enforces g k q" "astep g q c = Some q'"
  obtains k' where "sandbox_dummycall True c k = Inr (Returned (of_nat q'), k')"
    "enforces g k' q'" "kernel_buffer k' = kernel_buffer k"
proof -
  let ?g = "ks_graph k"
  let ?g' = "?g\<lparr>current_progstate := of_nat q',
               start_node := PoolP (pool_gen ?g) (node_pos NODE_TABLE_OFFSET g q')\<rparr>"
  from assms(1) have a: "at_state NODE_TABLE_OFFSET g ?g q" by (simp add: enforces_def)
  then have q': "q' < length g" and len: "length g < 43691"
    using astep_bound [of g q c q'] assms(2) holds_length by (auto simp: at_state_def)
  from transition_allowed [OF a assms(2)] q' len
  have "sandbox_dummycall True c k = Inr (Returned (of_nat q'), k\<lparr>ks_graph := ?g'\<rparr>)"
    by (simp add: sandbox_dummycall_def scast_of_nat_small)
  moreover have "enforces g (k\<lparr>ks_graph := ?g'\<rparr>) q'"
    using at_state_step [OF a q'] by (simp add: enforces_def)
  ultimately show thesis using that by simp
qed

lemma dummycall_refused:
  "enforces g k q \<Longrightarrow> astep g q c = None \<Longrightarrow> sandbox_dummycall True c k = Inr (Killed, k)"
  using transition_refused [of NODE_TABLE_OFFSET g "ks_graph k" q c]
  by (simp add: enforces_def sandbox_dummycall_def)

interpretation kernel_guard: monitor guard_call "astep g" "enforces g" for g
proof
  fix k q c q'
  assume "enforces g k q" "astep g q c = Some q'"
  then obtain k' where "sandbox_dummycall True c k = Inr (Returned (of_nat q'), k')" "enforces g k' q'"
    by (rule dummycall_allowed)
  then show "\<exists>k'. guard_call k c = Inr (True, k') \<and> enforces g k' q'"
    by (simp add: guard_call_def)
next
  fix k q c
  assume "enforces g k q" "astep g q c = None"
  then show "\<exists>k'. guard_call k c = Inr (False, k') \<and> enforces g k' q"
    by (simp add: guard_call_def dummycall_refused)
qed

section \<open>Installing a graph\<close>

lemma ample_kernel_env: "ample (kernel_env al) \<longleftrightarrow> (\<forall>k z. al k z)"
  by (simp add: ample_def kernel_env_def)

text \<open>A caller's buffer that carries a finished graph, and a kernel that can take it.\<close>

definition carries :: "buffer \<Rightarrow> u64 \<Rightarrow> graph \<Rightarrow> bool" where
  "carries d sz g \<longleftrightarrow>
     sealed (buf_bytes d) g \<and> wf_graph g \<and> g \<noteq> [] \<and> fits g \<and>
     NODE_TABLE_OFFSET + graph_size g \<le> unat sz \<and> unat sz \<le> buf_len d \<and>
     unat sz \<le> MEMORY_POOL_SIZE"

lemma init_installs:
  assumes "\<forall>k z. al k z" "carries d sz g" "table_large (ks_graph k) (length g)"
    "kernel_buffer k \<noteq> KFreed"
  obtains k' where "sandbox_init True al (Some d) sz k = Inr (Returned 0, k')" "enforces g k' 0"
    "kernel_buffer k' = KLive \<lparr>buf_len = unat sz, buf_bytes = buf_bytes d\<rparr>"
proof -
  let ?g1 = "(ks_graph k)\<lparr>requests := Suc (requests (ks_graph k))\<rparr>"
  let ?b = "\<lparr>buf_len = unat sz, buf_bytes = buf_bytes d\<rparr>"
  have "table_large ?g1 (length g)" using assms(3) by (simp add: table_large_def)
  moreover have am: "ample (kernel_env al)" using assms(1) by (simp add: ample_kernel_env)
  ultimately obtain g2 where g2: "initialize_graph (kernel_env al) (Some ?b) sz ?g1 = Inr g2"
    "holds NODE_TABLE_OFFSET g g2"
    using initialize_buffer [of "kernel_env al" ?g1 g ?b sz] assms(2) by (auto simp: carries_def)
  obtain g3 where g3: "reset_progstate g2 = Inr g3" "at_state NODE_TABLE_OFFSET g g3 0"
    using reset_spec [OF _ g2(2)] assms(2) by (auto simp: carries_def)
  have fr: "\<exists>kb. (if kernel_buffer k \<noteq> KNull then kfree (kernel_buffer k) else Inr KNull) = Inr kb"
    using assms(4) by (cases "kernel_buffer k") auto
  have sz: "sz \<noteq> 0" "20 \<le> unat sz" "unat sz \<le> buf_len d"
    using assms(2) by (auto simp: carries_def layout_simps)
  have "sandbox_init True al (Some d) sz k =
      Inr (Returned 0, k\<lparr>ks_graph := g3, kernel_buffer := KLive ?b\<rparr>)"
    using fr sz g2(1) g3(1) assms(1)
    by (auto simp: sandbox_init_def Let_def print_data_def split: if_splits)
  with g3(2) that show thesis by (simp add: enforces_def)
qed

end
