(* ===== verification/GraphFaults.thy ===== *)
theory GraphFaults
  imports Sandboxing
begin

text \<open>
  What happens on bad data: a corrupted magic number is found where it is, a graph with more
  states than the lookup table overflows it, a pool that is not finalised is refused, and how
  \<^verbatim>\<open>sandbox_init\<close> passes these outcomes on.
\<close>

section \<open>Reaching a node\<close>

text \<open>
  Verification of a pool whose first \<open>q\<close> nodes are intact arrives at node \<open>q\<close>.  The metadata
  is as written by the library.
\<close>

definition headed :: "bytes \<Rightarrow> nat \<Rightarrow> bool" where
  "headed m n \<longleftrightarrow>
     load8 m (offset_of graph_metadata ''graph_finalized'') \<noteq> 0 \<and>
     load64 m (offset_of graph_metadata ''magic'') = GRAPH_META_MAGIC_NUMBER \<and>
     load64 m (offset_of graph_metadata ''num_nodes'') = of_nat n \<and>
     load64 m (offset_of graph_metadata ''nodes_table_offset'') = of_nat NODE_TABLE_OFFSET"

lemma sealed_headed: "sealed m g \<Longrightarrow> headed m (length g)"
  by (simp add: sealed_def encodes_def headed_def)

lemma headed_store64: "88 \<le> a \<Longrightarrow> headed (store64 m a w) n = headed m n"
  by (simp add: headed_def layout_simps mem_simps)

lemma node_pos_bounds:
  "q < length g \<Longrightarrow> node_pos b g q + node_size (g ! q) \<le> b + graph_size g" "b \<le> node_pos b g q"
  using graph_size_split [of q g] by (simp_all add: node_pos_def)

lemma verify_reaches:
  assumes "pool s = Some m" "headed m n" "n < 2 ^ 64" "length g \<le> n"
    "words_at m 88 (graph_words g)" "88 + graph_size g \<le> MEMORY_POOL_SIZE"
    "(if nodes s = None then malloc_nodes e (8 * of_nat n) s else s) = s\<lparr>nodes := Some t, requests := z\<rparr>"
    "length g \<le> tbl_cap t"
  shows "\<exists>t'. tbl_cap t' = tbl_cap t \<and>
    verify_graph e s =
      verify_nodes (n - length g) (length g) (PoolP (pool_gen s) (node_pos 88 g (length g)))
        (s\<lparr>nodes := Some t', requests := z\<rparr>)"
proof -
  let ?s = "s\<lparr>nodes := Some t, requests := z\<rparr>"
  let ?t = "filled t 0 (length g) (\<lambda>k. PoolP (pool_gen s) (node_pos 88 g k))"
  have "verify_graph e s = verify_nodes n 0 (PoolP (pool_gen s) 88) ?s"
    using assms(1-3,7)
    by (simp add: verify_graph_def headed_def Let_def layout_simps unat_of_nat_small)
  also have "\<dots> = verify_nodes (length g + (n - length g)) 0 (PoolP (pool_gen ?s) 88) ?s"
    using assms(4) by simp
  also have "\<dots> = verify_nodes (n - length g) (0 + length g)
      (PoolP (pool_gen ?s) (88 + graph_size g)) (?s\<lparr>nodes := Some ?t\<rparr>)"
    using verify_nodes_prefix [of ?s m 88 g t 0 "n - length g"] assms(1,5,6,8) by simp
  also have "?s\<lparr>nodes := Some ?t\<rparr> = s\<lparr>nodes := Some ?t, requests := z\<rparr>" by simp
  finally show ?thesis by (intro exI [of _ ?t]) (simp add: filled_def node_pos_def)
qed

section \<open>Corrupted magic numbers\<close>

lemma words_at_take:
  assumes "words_at m b (graph_words g)"
  shows "words_at m b (graph_words (take q g))"
proof -
  have "graph_words g = graph_words (take q g) @ graph_words (drop q g)"
    by (metis append_take_drop_id graph_words_simps(3))
  with assms show ?thesis by simp
qed

lemma sealed_prefix:
  assumes "sealed m g" "fits g" "q < length g" "node_pos 88 g q \<le> a"
  shows "words_at (store64 m a w) 88 (graph_words (take q g))" "headed (store64 m a w) (length g)"
    "88 + graph_size (take q g) \<le> MEMORY_POOL_SIZE"
proof -
  have "words_at m 88 (graph_words g)" using assms(1) by (simp add: sealed_def encodes_def layout_simps)
  then have "words_at m 88 (graph_words (take q g))" by (rule words_at_take)
  moreover have "88 + graph_size (take q g) \<le> a" using assms(4) by (simp add: node_pos_def)
  ultimately show "words_at (store64 m a w) 88 (graph_words (take q g))"
    by (simp add: words_at_store64_above)
  have "88 \<le> a" using assms(4) node_pos_bounds(2) [of 88 g q] by simp
  with sealed_headed [OF assms(1)] show "headed (store64 m a w) (length g)" by (simp add: headed_store64)
  show "88 + graph_size (take q g) \<le> MEMORY_POOL_SIZE"
    using graph_size_split [OF assms(3)] assms(2) by (simp add: fits_def layout_simps)
qed

lemma corrupted_node:
  assumes "pool s = Some (store64 m (node_pos 88 g q) w)" "sealed m g" "fits g" "q < length g"
    "w \<noteq> NODE_MAGIC_NUMBER" "table_ready e s (length g)"
  shows "\<exists>s'. verify_graph e s = Inr (ERROR_INVALID_NODE, s')"
proof -
  let ?a = "node_pos 88 g q" and ?g = "take q g"
  note p = sealed_prefix(1,2) [OF assms(2-4) order_refl, of w]
    sealed_prefix(3) [OF assms(2-4) order_refl]
  have n: "length g < 2 ^ 64" using fits_length [OF assms(3)] by simp
  obtain t z where t: "(if nodes s = None then malloc_nodes e (8 * of_nat (length g)) s else s) =
      s\<lparr>nodes := Some t, requests := z\<rparr>" "length g \<le> tbl_cap t"
    using table_ready_get [OF assms(6) fits_length [OF assms(3)]] by blast
  have lg: "length ?g = q" using assms(4) by simp
  then have "length ?g \<le> length g" "length ?g \<le> tbl_cap t" using assms(4) t(2) by simp_all
  from verify_reaches [OF assms(1) p(2) n this(1) p(1,3) t(1) this(2)] obtain t' where
    t': "tbl_cap t' = tbl_cap t" "verify_graph e s =
      verify_nodes (length g - q) q (PoolP (pool_gen s) ?a) (s\<lparr>nodes := Some t', requests := z\<rparr>)"
    by (auto simp: node_pos_def min_absorb2 [OF less_imp_le [OF assms(4)]])
  have "?a + 8 \<le> MEMORY_POOL_SIZE"
    using node_pos_bounds(1) [OF assms(4), of 88] assms(3) node_size_ge [of "g ! q"]
    by (simp add: fits_def layout_simps)
  then show ?thesis
    using verify_nodes_bad_node [of "s\<lparr>nodes := Some t', requests := z\<rparr>" _ t' q ?a "length g - q"]
      assms(1,4,5) t(2) t' by (simp add: mem_simps)
qed

lemma corrupted_edge:
  assumes "pool s = Some (store64 m (node_pos 88 g q + 24 + 24 * j) w)" "sealed m g" "fits g"
    "q < length g" "j < length (ps_edges (g ! q))" "w \<noteq> EDGE_MAGIC_NUMBER" "table_ready e s (length g)"
  shows "\<exists>s'. verify_graph e s = Inr (ERROR_INVALID_EDGE, s')"
proof -
  let ?a = "node_pos 88 g q" and ?g = "take q g" and ?n = "length (ps_edges (g ! q))"
  let ?m = "store64 m (?a + 24 + 24 * j) w"
  have le: "?a \<le> ?a + 24 + 24 * j" by simp
  note p = sealed_prefix(1,2) [OF assms(2-4) le, of w] sealed_prefix(3) [OF assms(2-4) le]
  have n: "length g < 2 ^ 64" using fits_length [OF assms(3)] by simp
  obtain t z where t: "(if nodes s = None then malloc_nodes e (8 * of_nat (length g)) s else s) =
      s\<lparr>nodes := Some t, requests := z\<rparr>" "length g \<le> tbl_cap t"
    using table_ready_get [OF assms(7) fits_length [OF assms(3)]] by blast
  have lg: "length ?g = q" using assms(4) by simp
  then have "length ?g \<le> length g" "length ?g \<le> tbl_cap t" using assms(4) t(2) by simp_all
  from verify_reaches [OF assms(1) p(2) n this(1) p(1,3) t(1) this(2)] obtain t' where
    t': "tbl_cap t' = tbl_cap t" "verify_graph e s =
      verify_nodes (length g - q) q (PoolP (pool_gen s) ?a) (s\<lparr>nodes := Some t', requests := z\<rparr>)"
    by (auto simp: node_pos_def min_absorb2 [OF less_imp_le [OF assms(4)]])
  define s1 where "s1 = s\<lparr>nodes := Some (t'\<lparr>tbl_slot := (tbl_slot t')(q := PoolP (pool_gen s) ?a)\<rparr>), requests := z\<rparr>"
  have s1: "pool s1 = Some ?m" "pool_gen s1 = pool_gen s" using assms(1) by (simp_all add: s1_def)
  have fit: "?a + 24 + 24 * ?n + 8 \<le> MEMORY_POOL_SIZE"
    using node_pos_bounds(1) [OF assms(4), of 88] assms(3)
    by (simp add: fits_def layout_simps node_size_def)
  have w: "words_at m ?a (node_words (g ! q))"
    using words_at_graph_nth [of m 88 g q] assms(2,4) by (simp add: sealed_def encodes_def layout_simps)
  note nd = words_at_node [OF w]
  have len: "?n < 2 ^ 64" using fit by (simp add: layout_simps)
  have l: "ptr_load s1 (PoolP (pool_gen s) ?a) 0 = Inr NODE_MAGIC_NUMBER"
    "ptr_load s1 (PoolP (pool_gen s) ?a) 16 = Inr (of_nat ?n)"
    using ptr_load_PoolP [OF s1(1), of ?a] nd fit by (simp_all add: s1(2) mem_simps)
  have bad: "verify_edges s1 (PoolP (pool_gen s1) (?a + 24)) ?n 0 (PoolP (pool_gen s1) (?a + 24)) = Inr None"
  proof (rule verify_edges_bad [OF s1(1) assms(5)])
    show "load64 ?m (?a + 24 + (0 + j) * 24) \<noteq> EDGE_MAGIC_NUMBER"
      using assms(6) by (simp add: mult.commute mem_simps)
    show "?a + 24 + (0 + j) * 24 + 8 \<le> MEMORY_POOL_SIZE" using assms(5) fit by simp
    show "\<forall>x<j. load64 ?m (?a + 24 + (0 + x) * 24) = EDGE_MAGIC_NUMBER"
      using words_at_edge [OF nd(4)] assms(5) by (auto simp: mem_simps)
  qed
  obtain r where r: "length g - q = Suc r" using assms(4) by (metis Suc_diff_Suc)
  have slot: "set_slot (s\<lparr>nodes := Some t', requests := z\<rparr>) q (PoolP (pool_gen s) ?a) = Inr s1"
    using assms(4) t(2) t'(1) by (simp add: set_slot_def s1_def)
  show ?thesis
    unfolding t'(2) r using slot l bad len s1(2)
    by (simp add: layout_simps Let_def unat_of_nat_small)
qed

section \<open>A lookup table that is too small\<close>

lemma verify_overflow:
  assumes "pool s = Some m" "sealed m g" "fits g" "nodes s = Some t" "tbl_cap t < length g"
  shows "verify_graph e s = Inl Out_of_bounds"
proof -
  let ?g = "take (tbl_cap t) g"
  have lg: "length ?g = tbl_cap t" using assms(5) by simp
  have n: "length g < 2 ^ 64" using fits_length [OF assms(3)] by simp
  have w: "words_at m 88 (graph_words ?g)"
    using words_at_take assms(2) by (simp add: sealed_def encodes_def layout_simps)
  have f: "88 + graph_size ?g \<le> MEMORY_POOL_SIZE"
    using graph_size_split [OF assms(5)] assms(3) by (simp add: fits_def layout_simps)
  have tb: "(if nodes s = None then malloc_nodes e (8 * of_nat (length g)) s else s) =
      s\<lparr>nodes := Some t, requests := requests s\<rparr>"
    using assms(4) by simp
  obtain t' where "tbl_cap t' = tbl_cap t" "verify_graph e s =
      verify_nodes (length g - tbl_cap t) (tbl_cap t) (PoolP (pool_gen s) (node_pos 88 ?g (tbl_cap t)))
        (s\<lparr>nodes := Some t', requests := requests s\<rparr>)"
    using verify_reaches [OF assms(1) sealed_headed [OF assms(2)] n _ w f tb] lg assms(5) by auto
  moreover obtain r where "length g - tbl_cap t = Suc r" using assms(5) by (metis Suc_diff_Suc)
  ultimately show ?thesis by (simp add: set_slot_def)
qed

section \<open>Data that is not finalised\<close>

lemma verify_not_final:
  "pool s = Some m \<Longrightarrow> load8 m (offset_of graph_metadata ''graph_finalized'') = 0 \<Longrightarrow>
     verify_graph e s = Inr (ERROR_INVALID_STATE, s)"
  by (simp add: verify_graph_def)

lemma initialize_run:
  assumes "ample e" "sz \<noteq> 0" "unat sz \<le> MEMORY_POOL_SIZE" "unat sz \<le> buf_len d"
  obtains m s1 where "pool s1 = Some m" "nodes s1 = nodes s"
    "initialize_graph e (Some d) sz s =
       and_then (verify_graph e (s1\<lparr>pool := Some (mem_copy m (buf_bytes d) (unat sz))\<rparr>))
         (\<lambda>(rc, s3). if rc \<noteq> 1 then PRINT_ERROR_AND_EXIT e s3 else Inr s3)"
proof (cases "pool s")
  case None
  have "env_alloc e (requests s) (of_nat MEMORY_POOL_SIZE)" using assms(1) by (simp add: ample_def)
  note c = create_pool_spec [OF this]
  show thesis
    by (rule that [of "(s\<lparr>requests := Suc (requests s), pool_gen := Suc (pool_gen s),
       pool_edge := PoolP (Suc (pool_gen s)) NODE_TABLE_OFFSET,
       pool := Some (mem_set fresh_pool 0 (unat sz))\<rparr>)" "mem_set fresh_pool 0 (unat sz)"])
      (use assms None c in \<open>auto simp: initialize_graph_def word_gt_0\<close>)
next
  case (Some m)
  show thesis
    by (rule that [of "s\<lparr>pool := Some (mem_set m 0 (unat sz))\<rparr>" "mem_set m 0 (unat sz)"])
      (use assms Some in \<open>auto simp: initialize_graph_def word_gt_0\<close>)
qed

text \<open>What remains of \<^verbatim>\<open>sandbox_init\<close> once the data is in the kernel.\<close>

lemma sandbox_init_run:
  assumes "\<forall>j z. al j z" "sz \<noteq> 0" "20 \<le> unat sz" "unat sz \<le> buf_len d" "kernel_buffer k \<noteq> KFreed"
  shows "sandbox_init True al (Some d) sz k =
    and_then (initialize_graph (kernel_env al) (Some \<lparr>buf_len = unat sz, buf_bytes = buf_bytes d\<rparr>) sz
       ((ks_graph k)\<lparr>requests := Suc (requests (ks_graph k))\<rparr>)) (\<lambda>g2.
    and_then (reset_progstate g2) (\<lambda>g3.
    Inr (Returned 0, k\<lparr>ks_graph := g3,
           kernel_buffer := KLive \<lparr>buf_len = unat sz, buf_bytes = buf_bytes d\<rparr>\<rparr>)))"
proof -
  have "\<exists>kb. (if kernel_buffer k \<noteq> KNull then kfree (kernel_buffer k) else Inr KNull) = Inr kb"
    using assms(5) by (cases "kernel_buffer k") auto
  with assms show ?thesis by (auto simp: sandbox_init_def Let_def print_data_def)
qed

lemma init_overflow:
  assumes "\<forall>j z. al j z" "carries d sz g" "nodes (ks_graph k) = Some t" "tbl_cap t < length g"
    "kernel_buffer k \<noteq> KFreed"
  shows "sandbox_init True al (Some d) sz k = Inl Out_of_bounds"
proof -
  have c: "sealed (buf_bytes d) g" "fits g" "NODE_TABLE_OFFSET + graph_size g \<le> unat sz"
    "unat sz \<le> buf_len d" "unat sz \<le> MEMORY_POOL_SIZE" "sz \<noteq> 0" "20 \<le> unat sz"
    using assms(2) by (auto simp: carries_def layout_simps)
  have "ample (kernel_env al)" using assms(1) by (simp add: ample_kernel_env)
  let ?d = "\<lparr>buf_len = unat sz, buf_bytes = buf_bytes d\<rparr>"
    and ?g = "(ks_graph k)\<lparr>requests := Suc (requests (ks_graph k))\<rparr>"
  have "unat sz \<le> buf_len ?d" by simp
  with \<open>ample (kernel_env al)\<close> obtain m s1 where s1: "pool s1 = Some m" "nodes s1 = nodes ?g"
    "initialize_graph (kernel_env al) (Some ?d) sz ?g =
     and_then (verify_graph (kernel_env al) (s1\<lparr>pool := Some (mem_copy m (buf_bytes ?d) (unat sz))\<rparr>))
       (\<lambda>(rc, s3). if rc \<noteq> 1 then PRINT_ERROR_AND_EXIT (kernel_env al) s3 else Inr s3)"
    by (rule initialize_run [OF _ c(6,5)])
  have "verify_graph (kernel_env al) (s1\<lparr>pool := Some (mem_copy m (buf_bytes d) (unat sz))\<rparr>) =
      Inl Out_of_bounds"
    using verify_overflow [OF _ sealed_mem_copy [OF c(1,3)] c(2) _ assms(4)] s1(2) assms(3) by simp
  with sandbox_init_run [OF assms(1) c(6,7,4) assms(5)] s1(3) show ?thesis by simp
qed

lemma init_not_final:
  assumes "\<forall>j z. al j z" "32 < unat sz" "unat sz \<le> MEMORY_POOL_SIZE" "unat sz \<le> buf_len d"
    "buf_bytes d 32 = 0" "kernel_buffer k \<noteq> KFreed"
  shows "(nodes (ks_graph k) = None \<longrightarrow> sandbox_init True al (Some d) sz k = Inl Null_deref) \<and>
    (\<forall>t. nodes (ks_graph k) = Some t \<longrightarrow> 0 < tbl_cap t \<longrightarrow>
       (\<exists>k'. sandbox_init True al (Some d) sz k = Inr (Returned 0, k') \<and>
          verify_graph (kernel_env al) (ks_graph k') = Inr (ERROR_INVALID_STATE, ks_graph k')))"
proof -
  let ?d = "\<lparr>buf_len = unat sz, buf_bytes = buf_bytes d\<rparr>"
  have sz: "sz \<noteq> 0" using assms(2) by auto
  have am: "ample (kernel_env al)" using assms(1) by (simp add: ample_kernel_env)
  have le: "unat sz \<le> buf_len ?d" by simp
  obtain m s1 where s1: "pool s1 = Some m"
    "nodes s1 = nodes ((ks_graph k)\<lparr>requests := Suc (requests (ks_graph k))\<rparr>)"
    "initialize_graph (kernel_env al) (Some ?d) sz
       ((ks_graph k)\<lparr>requests := Suc (requests (ks_graph k))\<rparr>) =
     and_then (verify_graph (kernel_env al) (s1\<lparr>pool := Some (mem_copy m (buf_bytes ?d) (unat sz))\<rparr>))
       (\<lambda>(rc, s3). if rc \<noteq> 1 then PRINT_ERROR_AND_EXIT (kernel_env al) s3 else Inr s3)"
    by (rule initialize_run [OF am sz assms(3) le])
  let ?m = "mem_copy m (buf_bytes d) (unat sz)"
  let ?s = "s1\<lparr>pool := Some ?m\<rparr>"
  have nf: "load8 ?m (offset_of graph_metadata ''graph_finalized'') = 0"
    using assms(2,5) by (simp add: layout_simps load8_def mem_copy_def)
  then have "verify_graph (kernel_env al) ?s = Inr (ERROR_INVALID_STATE, ?s)"
    by (intro verify_not_final) simp_all
  then have i: "initialize_graph (kernel_env al) (Some ?d) sz
       ((ks_graph k)\<lparr>requests := Suc (requests (ks_graph k))\<rparr>) = Inr ?s"
    using s1(3) by (simp add: error_defs PRINT_ERROR_AND_EXIT_def kernel_env_def)
  have n20: "20 \<le> unat sz" using assms(2) by simp
  note run = sandbox_init_run [OF assms(1) sz n20 assms(4,6), unfolded i]
  show ?thesis
  proof (intro conjI impI allI)
    show "sandbox_init True al (Some d) sz k = Inl Null_deref" if "nodes (ks_graph k) = None"
      unfolding run using that s1(2) by (simp add: reset_progstate_def get_slot_def)
    show "\<exists>k'. sandbox_init True al (Some d) sz k = Inr (Returned 0, k') \<and>
        verify_graph (kernel_env al) (ks_graph k') = Inr (ERROR_INVALID_STATE, ks_graph k')"
      if "nodes (ks_graph k) = Some t" "0 < tbl_cap t" for t
      unfolding run using that s1(2) nf verify_not_final [of _ ?m]
      by (simp add: reset_progstate_def get_slot_def)
  qed
qed

section \<open>The size of the first lookup table\<close>

text \<open>
  A module without a lookup table gets one with exactly as many entries as the graph has states,
  and nothing ever enlarges it in the kernel.
\<close>

lemma verify_first_table:
  assumes "pool s = Some m" "sealed m g" "fits g" "nodes s = None" "env_alloc e (requests s) (8 * of_nat (length g))"
  shows "\<exists>s' t. verify_graph e s = Inr (1, s') \<and> nodes s' = Some t \<and> tbl_cap t = length g"
proof -
  let ?t = "\<lparr>tbl_cap = length g, tbl_slot = (\<lambda>_. fresh_slot e)\<rparr>"
  have len: "length g < 43691" using fits_length [OF assms(3)] .
  have u: "unat (8 * of_nat (length g) :: u64) = 8 * length g"
    using len by (simp add: unat_word_ariths unat_of_nat_small)
  have t: "(if nodes s = None then malloc_nodes e (8 * of_nat (length g)) s else s) =
      s\<lparr>nodes := Some ?t, requests := Suc (requests s)\<rparr>"
    using assms(4,5) u by (simp add: malloc_nodes_def)
  have w: "words_at m 88 (graph_words g)" "88 + graph_size g \<le> MEMORY_POOL_SIZE"
    using assms(2,3) by (simp_all add: sealed_def encodes_def fits_def layout_simps)
  obtain t' where "tbl_cap t' = length g" "verify_graph e s =
      verify_nodes (length g - length g) (length g) (PoolP (pool_gen s) (node_pos 88 g (length g)))
        (s\<lparr>nodes := Some t', requests := Suc (requests s)\<rparr>)"
    using verify_reaches [OF assms(1) sealed_headed [OF assms(2)] _ order_refl w t] len by auto
  then show ?thesis by simp
qed

lemma first_init_table:
  assumes "\<forall>j z. al j z" "carries d sz g" "nodes (ks_graph k) = None" "kernel_buffer k \<noteq> KFreed"
  obtains k' t where "sandbox_init True al (Some d) sz k = Inr (Returned 0, k')" "enforces g k' 0"
    "kernel_buffer k' \<noteq> KFreed" "nodes (ks_graph k') = Some t" "tbl_cap t = length g"
proof -
  have c: "sealed (buf_bytes d) g" "fits g" "NODE_TABLE_OFFSET + graph_size g \<le> unat sz"
    "unat sz \<le> buf_len d" "unat sz \<le> MEMORY_POOL_SIZE" "sz \<noteq> 0" "20 \<le> unat sz"
    using assms(2) by (auto simp: carries_def layout_simps)
  have al: "ample (kernel_env al)" using assms(1) by (simp add: ample_kernel_env)
  let ?d = "\<lparr>buf_len = unat sz, buf_bytes = buf_bytes d\<rparr>"
    and ?g = "(ks_graph k)\<lparr>requests := Suc (requests (ks_graph k))\<rparr>"
  have "unat sz \<le> buf_len ?d" by simp
  then obtain m s1 where s1: "pool s1 = Some m" "nodes s1 = nodes ?g"
    "initialize_graph (kernel_env al) (Some ?d) sz ?g =
     and_then (verify_graph (kernel_env al) (s1\<lparr>pool := Some (mem_copy m (buf_bytes ?d) (unat sz))\<rparr>))
       (\<lambda>(rc, s3). if rc \<noteq> 1 then PRINT_ERROR_AND_EXIT (kernel_env al) s3 else Inr s3)"
    by (rule initialize_run [OF al c(6,5)])
  let ?s = "s1\<lparr>pool := Some (mem_copy m (buf_bytes d) (unat sz))\<rparr>"
  have "env_alloc (kernel_env al) z q" for z q using al by (simp add: ample_def)
  then obtain s2 t where s2: "verify_graph (kernel_env al) ?s = Inr (1, s2)" "nodes s2 = Some t"
    "tbl_cap t = length g"
    using verify_first_table [of ?s _ g "kernel_env al"] sealed_mem_copy [OF c(1,3)] c(2) s1(2) assms(3)
    by auto
  have "table_large (ks_graph k) (length g)" using assms(3) by (simp add: table_large_def)
  then obtain k' where k': "sandbox_init True al (Some d) sz k = Inr (Returned 0, k')" "enforces g k' 0"
    "kernel_buffer k' = KLive ?d"
    using init_installs [OF assms(1,2) _ assms(4)] by blast
  obtain p where "ks_graph k' = s2\<lparr>current_progstate := 0, start_node := p\<rparr>"
    using k'(1) sandbox_init_run [OF assms(1) c(6,7,4) assms(4)] s1(3) s2(1)
    by (auto simp: res_simps reset_progstate_def)
  then have "nodes (ks_graph k') = Some t" using s2(2) by simp
  with that k' s2(3) show thesis by simp
qed

section \<open>Finished graphs that are not automata\<close>

text \<open>
  Verification looks at the magic numbers only, so a finished pool is installed whatever its
  identifiers and successors are.  The first call is then looked up in the first node.
\<close>

lemma sealed_cong:
  assumes "sealed m g" "\<And>i. i < NODE_TABLE_OFFSET + graph_size g \<Longrightarrow> m' i = m i"
  shows "sealed m' g"
proof -
  have "load64 m' a = load64 m a" if "a + 8 \<le> NODE_TABLE_OFFSET" for a
    by (rule cell64.load_cong) (use assms(2) that in auto)
  moreover have "load8 m' 32 = load8 m 32" using assms(2) by (simp add: load8_def layout_simps)
  moreover have "words_at m' NODE_TABLE_OFFSET (graph_words g) = words_at m NODE_TABLE_OFFSET (graph_words g)"
    by (rule words_at_cong) (use assms(2) in auto)
  ultimately show ?thesis using assms(1) by (simp add: sealed_def encodes_def layout_simps)
qed

lemma init_any_graph:
  assumes "\<forall>j z. al j z" "sealed (buf_bytes d) g" "fits g" "g \<noteq> []"
    "NODE_TABLE_OFFSET + graph_size g \<le> unat sz" "unat sz \<le> buf_len d" "unat sz \<le> MEMORY_POOL_SIZE"
    "table_large (ks_graph k) (length g)" "kernel_buffer k \<noteq> KFreed"
  obtains k' where "sandbox_init True al (Some d) sz k = Inr (Returned 0, k')"
    "kernel_buffer k' = KLive \<lparr>buf_len = unat sz, buf_bytes = buf_bytes d\<rparr>"
    "\<And>c k''. map_of (ps_edges (g ! 0)) c = None \<Longrightarrow> ks_graph k'' = ks_graph k' \<Longrightarrow>
       sandbox_dummycall True c k'' = Inr (Killed, k'')"
proof -
  let ?g1 = "(ks_graph k)\<lparr>requests := Suc (requests (ks_graph k))\<rparr>"
  let ?b = "\<lparr>buf_len = unat sz, buf_bytes = buf_bytes d\<rparr>"
  have "table_large ?g1 (length g)" using assms(8) by (simp add: table_large_def)
  moreover have "ample (kernel_env al)" using assms(1) by (simp add: ample_kernel_env)
  ultimately obtain g2 where g2: "initialize_graph (kernel_env al) (Some ?b) sz ?g1 = Inr g2"
    "holds NODE_TABLE_OFFSET g g2"
    using initialize_buffer [of "kernel_env al" ?g1 g ?b sz] assms(2-7) by auto
  let ?p = "PoolP (pool_gen g2) (node_pos NODE_TABLE_OFFSET g 0)"
  let ?g3 = "g2\<lparr>current_progstate := 0, start_node := ?p\<rparr>"
  have pos: "0 < length g" using assms(4) by simp
  have "reset_progstate g2 = Inr ?g3"
    using holds_get_slot [OF g2(2) pos] by (simp add: reset_progstate_def)
  moreover have "sz \<noteq> 0" "20 \<le> unat sz" using assms(5) by (auto simp: layout_simps)
  ultimately have "sandbox_init True al (Some d) sz k = Inr (Returned 0, k\<lparr>ks_graph := ?g3, kernel_buffer := KLive ?b\<rparr>)"
    using sandbox_init_run [OF assms(1) _ _ assms(6,9)] g2(1) by simp
  moreover have "sandbox_dummycall True c k' = Inr (Killed, k')"
    if "map_of (ps_edges (g ! 0)) c = None" "ks_graph k' = ?g3" for c k'
  proof -
    have "holds NODE_TABLE_OFFSET g ?g3" using g2(2) by (simp add: holds_def)
    from valid_spec [OF this pos] that show ?thesis by (simp add: sandbox_dummycall_def)
  qed
  ultimately show thesis using that by simp
qed

end
