(* ===== verification/Applet.thy ===== *)
theory Applet
  imports GraphFaults
begin

text \<open>
  The busybox applet \<^verbatim>\<open>syscalltest\<close> (\<^verbatim>\<open>busybox/miscutils\<close>): a client of the three system calls
  that hands the kernel a text instead of a graph and then makes the calls 1 to 19.
\<close>

section \<open>The data\<close>

definition sandbox_text :: string where
  "sandbox_text = ''This is some data in sandbox_init_data, to test if it works''"

definition sandbox_init_data_size :: u64 where
  "sandbox_init_data_size = of_nat (length sandbox_text + 1)"

definition sandbox_data :: buffer where
  "sandbox_data = \<lparr>buf_len = length sandbox_text + 1,
     buf_bytes = (\<lambda>i. if i < length sandbox_text then of_char (sandbox_text ! i) else 0)\<rparr>"

section \<open>The applet\<close>

text \<open>
  The library's \<^verbatim>\<open>syscall\<close> turns the results from -4095 to -1 into -1; the result is kept in an
  \<^verbatim>\<open>int\<close>.  The applet ends by \<^verbatim>\<open>return\<close> or is killed in a system call; what it prints is the list of
  results.
\<close>

definition syscall_result :: "u64 \<Rightarrow> int" where
  "syscall_result v = (if - 4095 \<le> v then - 1 else sint (ucast v :: i32))"

datatype applet_end = Exited int | Died

fun issue_calls ::
    "bool \<Rightarrow> nat \<Rightarrow> nat \<Rightarrow> int \<Rightarrow> ksys \<Rightarrow> (applet_end \<times> int list \<times> ksys) res" where
  "issue_calls cfg 0 i ret k = Inr (Exited 0, [ret], k)"
| "issue_calls cfg (Suc n) i ret k =
     and_then (sandbox_dummycall cfg (of_nat i) k) (\<lambda>(r, k1).
       case r of
         Killed \<Rightarrow> Inr (Died, [], k1)
       | Returned v \<Rightarrow>
           if syscall_result v < 0 then Inr (Exited 1, [], k1)
           else and_then (issue_calls cfg n (Suc i) (syscall_result v) k1) (\<lambda>(e, out, k2).
                Inr (e, syscall_result v # out, k2)))"

definition syscalltest_main ::
    "bool \<Rightarrow> (nat \<Rightarrow> u64 \<Rightarrow> bool) \<Rightarrow> ksys \<Rightarrow> (applet_end \<times> int list \<times> ksys) res" where
  "syscalltest_main cfg al k =
     and_then (sandbox_init cfg al (Some sandbox_data) sandbox_init_data_size k) (\<lambda>(r, k1).
       case r of
         Killed \<Rightarrow> Inr (Died, [], k1)
       | Returned v \<Rightarrow> issue_calls cfg 19 1 (syscall_result v) k1)"

section \<open>The text is not a graph\<close>

lemma sandbox_data_size:
  "unat sandbox_init_data_size = 60" "buf_len sandbox_data = 60" "sandbox_init_data_size \<noteq> 0"
  by (simp_all add: sandbox_init_data_size_def sandbox_data_def sandbox_text_def)

lemma sandbox_data_magic: "load64 (buf_bytes sandbox_data) 0 \<noteq> GRAPH_META_MAGIC_NUMBER"
proof
  assume "load64 (buf_bytes sandbox_data) 0 = GRAPH_META_MAGIC_NUMBER"
  then have "bit (load64 (buf_bytes sandbox_data) 0) 0 = bit GRAPH_META_MAGIC_NUMBER 0" by simp
  moreover have "buf_bytes sandbox_data 0 = of_char CHR ''T''"
    by (simp add: sandbox_data_def sandbox_text_def)
  then have "\<not> bit (load64 (buf_bytes sandbox_data) 0) 0" by (simp add: bit_load64)
  moreover have "bit GRAPH_META_MAGIC_NUMBER 0" by (simp add: GRAPH_META_MAGIC_NUMBER_def bit_0)
  ultimately show False by simp
qed

text \<open>Verification of the text stops at the magic number and touches nothing.\<close>

lemma verify_bad_magic:
  "pool s = Some m \<Longrightarrow> load64 m 0 \<noteq> GRAPH_META_MAGIC_NUMBER \<Longrightarrow>
     \<exists>rc. rc \<noteq> 1 \<and> verify_graph e s = Inr (rc, s)"
  by (auto simp: verify_graph_def error_defs layout_simps)

lemma text_refused:
  assumes "\<forall>j z. al j z"
  obtains m s1 where "pool s1 = Some m" "nodes s1 = nodes s"
    "\<forall>m0. pool s = Some m0 \<longrightarrow> pool_gen s1 = pool_gen s \<and> (\<forall>i\<ge>60. m i = m0 i)"
    "initialize_graph (kernel_env al) (Some \<lparr>buf_len = 60, buf_bytes = buf_bytes sandbox_data\<rparr>)
       sandbox_init_data_size s = Inr s1"
proof -
  have le: "unat sandbox_init_data_size \<le> MEMORY_POOL_SIZE" by (simp add: sandbox_data_size layout_simps)
  have magic: "load64 (mem_copy m0 (buf_bytes sandbox_data) 60) 0 \<noteq> GRAPH_META_MAGIC_NUMBER" for m0
    using sandbox_data_magic by (simp add: cell64.load_mem_copy)
  have ok: "and_then (verify_graph (kernel_env al) s1)
      (\<lambda>(rc, s3). if rc \<noteq> 1 then PRINT_ERROR_AND_EXIT (kernel_env al) s3 else Inr s3) = Inr s1"
    if "pool s1 = Some (mem_copy m0 (buf_bytes sandbox_data) 60)" for s1 m0
    using verify_bad_magic [OF that magic, of "kernel_env al"]
    by (auto simp: PRINT_ERROR_AND_EXIT_def kernel_env_def)
  show thesis
  proof (cases "pool s")
    case None
    have am: "ample (kernel_env al)" using assms by (simp add: ample_kernel_env)
    have "unat sandbox_init_data_size \<le> buf_len \<lparr>buf_len = 60, buf_bytes = buf_bytes sandbox_data\<rparr>"
      by (simp add: sandbox_data_size)
    with am obtain m s1 where s1: "pool s1 = Some m" "nodes s1 = nodes s"
      "initialize_graph (kernel_env al) (Some \<lparr>buf_len = 60, buf_bytes = buf_bytes sandbox_data\<rparr>)
         sandbox_init_data_size s =
       and_then (verify_graph (kernel_env al) (s1\<lparr>pool := Some (mem_copy m (buf_bytes
           \<lparr>buf_len = 60, buf_bytes = buf_bytes sandbox_data\<rparr>) (unat sandbox_init_data_size))\<rparr>))
         (\<lambda>(rc, s3). if rc \<noteq> 1 then PRINT_ERROR_AND_EXIT (kernel_env al) s3 else Inr s3)"
      by (rule initialize_run [OF _ sandbox_data_size(3) le])
    let ?s1 = "s1\<lparr>pool := Some (mem_copy m (buf_bytes sandbox_data) 60)\<rparr>"
    have "pool ?s1 = Some (mem_copy m (buf_bytes sandbox_data) 60)" by simp
    from that [OF this] ok [OF this] s1 None show thesis by (simp add: sandbox_data_size)
  next
    case (Some m)
    let ?m = "mem_copy (mem_set m 0 60) (buf_bytes sandbox_data) 60"
    have p: "pool (s\<lparr>pool := Some ?m\<rparr>) = Some ?m" by simp
    have "initialize_graph (kernel_env al) (Some \<lparr>buf_len = 60, buf_bytes = buf_bytes sandbox_data\<rparr>)
        sandbox_init_data_size s = Inr (s\<lparr>pool := Some ?m\<rparr>)"
      using ok [OF p] Some sandbox_data_size le
      by (simp add: initialize_graph_def word_gt_0 layout_simps)
    with that [OF p] Some show thesis by (simp add: mem_copy_def mem_set_def)
  qed
qed

lemma text_init:
  assumes "\<forall>j z. al j z" "kernel_buffer k \<noteq> KFreed"
  shows "sandbox_init True al (Some sandbox_data) sandbox_init_data_size k =
    and_then (initialize_graph (kernel_env al) (Some \<lparr>buf_len = 60, buf_bytes = buf_bytes sandbox_data\<rparr>)
      sandbox_init_data_size ((ks_graph k)\<lparr>requests := Suc (requests (ks_graph k))\<rparr>)) (\<lambda>g2.
    and_then (reset_progstate g2) (\<lambda>g3.
    Inr (Returned 0, k\<lparr>ks_graph := g3,
      kernel_buffer := KLive \<lparr>buf_len = 60, buf_bytes = buf_bytes sandbox_data\<rparr>\<rparr>)))"
proof -
  have "20 \<le> unat sandbox_init_data_size" "unat sandbox_init_data_size \<le> buf_len sandbox_data"
    unfolding sandbox_data_size by simp_all
  from sandbox_init_run [OF assms(1) sandbox_data_size(3) this assms(2)] show ?thesis
    unfolding sandbox_data_size(1) .
qed

lemma text_init_fresh:
  assumes "\<forall>j z. al j z" "kernel_buffer k \<noteq> KFreed" "nodes (ks_graph k) = None"
  shows "sandbox_init True al (Some sandbox_data) sandbox_init_data_size k = Inl Null_deref"
proof -
  let ?g = "(ks_graph k)\<lparr>requests := Suc (requests (ks_graph k))\<rparr>"
  obtain m s1 where s1: "pool s1 = Some m" "nodes s1 = nodes ?g"
    "\<forall>m0. pool ?g = Some m0 \<longrightarrow> pool_gen s1 = pool_gen ?g \<and> (\<forall>i\<ge>60. m i = m0 i)"
    "initialize_graph (kernel_env al) (Some \<lparr>buf_len = 60, buf_bytes = buf_bytes sandbox_data\<rparr>)
       sandbox_init_data_size ?g = Inr s1"
    by (rule text_refused [OF assms(1), of ?g])
  from s1(2,4) assms(3) show ?thesis
    unfolding text_init [OF assms(1,2)] by (simp add: reset_progstate_def get_slot_def)
qed

text \<open>The sixty bytes end before the number of nodes: the graph that was there stays in force.\<close>

lemma text_init_old:
  assumes "\<forall>j z. al j z" "kernel_buffer k \<noteq> KFreed" "enforces g k q"
  obtains k' where "sandbox_init True al (Some sandbox_data) sandbox_init_data_size k = Inr (Returned 0, k')"
    "enforces g k' 0"
proof -
  let ?g = "(ks_graph k)\<lparr>requests := Suc (requests (ks_graph k))\<rparr>"
  from assms(3) have a: "wf_graph g" "holds NODE_TABLE_OFFSET g (ks_graph k)" "q < length g"
    by (simp_all add: enforces_def at_state_def)
  then obtain m t where h: "pool (ks_graph k) = Some m" "nodes (ks_graph k) = Some t"
    "load64 m 64 = of_nat (length g)" "words_at m NODE_TABLE_OFFSET (graph_words g)"
    "NODE_TABLE_OFFSET + graph_size g + 8 \<le> MEMORY_POOL_SIZE" "length g \<le> tbl_cap t"
    "\<forall>i<length g. tbl_slot t i = PoolP (pool_gen (ks_graph k)) (node_pos NODE_TABLE_OFFSET g i)"
    by (auto simp: holds_def layout_simps)
  have "pool ?g = Some m" using h(1) by simp
  then obtain m' s1 where s1: "pool s1 = Some m'" "nodes s1 = nodes ?g" "pool_gen s1 = pool_gen ?g"
    "\<forall>i\<ge>60. m' i = m i"
    "initialize_graph (kernel_env al) (Some \<lparr>buf_len = 60, buf_bytes = buf_bytes sandbox_data\<rparr>)
       sandbox_init_data_size ?g = Inr s1"
    using text_refused [OF assms(1), of ?g] by metis
  have "load64 m' 64 = load64 m 64" by (rule cell64.load_cong) (use s1(4) in auto)
  moreover have "words_at m' NODE_TABLE_OFFSET (graph_words g)"
    using h(4) words_at_cong [of NODE_TABLE_OFFSET "graph_words g" m' m] s1(4) by (auto simp: layout_simps)
  ultimately have hold: "holds NODE_TABLE_OFFSET g s1"
    using h s1(1-3) by (auto simp: holds_def layout_simps)
  have pos: "0 < length g" using a(3) by linarith
  let ?s2 = "s1\<lparr>current_progstate := 0, start_node := PoolP (pool_gen s1) (node_pos NODE_TABLE_OFFSET g 0)\<rparr>"
  have r: "reset_progstate s1 = Inr ?s2" using holds_get_slot [OF hold pos] by (simp add: reset_progstate_def)
  have "holds NODE_TABLE_OFFSET g ?s2" using hold by (simp add: holds_def)
  with a(1) pos have "at_state NODE_TABLE_OFFSET g ?s2 0" by (simp add: at_state_def)
  with that text_init [OF assms(1,2)] s1(5) r show thesis by (simp add: enforces_def)
qed

section \<open>The calls\<close>

text \<open>What the applet prints under an automaton: the states it passes, the last one twice.\<close>

fun applet_run :: "graph \<Rightarrow> nat \<Rightarrow> nat \<Rightarrow> nat \<Rightarrow> nat \<Rightarrow> applet_end \<times> int list" where
  "applet_run g q 0 i prev = (Exited 0, [int prev])"
| "applet_run g q (Suc n) i prev =
     (case astep g q (of_nat i) of
        None \<Rightarrow> (Died, [])
      | Some q' \<Rightarrow> let (e, out) = applet_run g q' n (Suc i) q' in (e, int q' # out))"

lemma syscall_result_small: "n < 2 ^ 31 \<Longrightarrow> syscall_result (of_nat n) = int n"
proof -
  assume n: "n < 2 ^ 31"
  have "unat (of_nat n :: u64) = n" using n by (simp add: unat_of_nat_small)
  moreover have "unat (- 4095 :: u64) = 2 ^ 64 - 4095" by simp
  ultimately have "\<not> (- 4095 :: u64) \<le> of_nat n" using n by (simp add: word_le_nat_alt)
  moreover have "sint (ucast (of_nat n :: u64) :: i32) = int n"
    using n by (simp add: unsigned_of_nat take_bit_nat_eq_self sint_of_nat_small)
  ultimately show ?thesis by (simp add: syscall_result_def)
qed

lemma issue_calls_run:
  "enforces g k q \<Longrightarrow> \<exists>k'. issue_calls True n i (int prev) k =
     Inr (fst (applet_run g q n i prev), snd (applet_run g q n i prev), k')"
proof (induction n arbitrary: k q i prev)
  case (Suc n)
  show ?case
  proof (cases "astep g q (of_nat i)")
    case None
    with dummycall_refused [OF Suc.prems] show ?thesis by simp
  next
    case (Some q')
    from dummycall_allowed [OF Suc.prems Some] obtain k1 where
      k1: "sandbox_dummycall True (of_nat i) k = Inr (Returned (of_nat q'), k1)" "enforces g k1 q'" by blast
    have "q' < 2 ^ 31"
      using k1(2) holds_length [of NODE_TABLE_OFFSET g "ks_graph k1"] by (auto simp: enforces_def at_state_def)
    note r = syscall_result_small [OF this]
    from Suc.IH [OF k1(2), of "Suc i" q'] obtain k' where "issue_calls True n (Suc i) (int q') k1 =
      Inr (fst (applet_run g q' n (Suc i) q'), snd (applet_run g q' n (Suc i) q'), k')" by blast
    with k1(1) r Some show ?thesis by (simp add: case_prod_beta Let_def)
  qed
qed simp

lemma issue_calls_off: "issue_calls False n i ret k = Inr (Exited 0, replicate n 0 @ [if n = 0 then ret else 0], k)"
  by (induction n arbitrary: i ret) (simp_all add: sandbox_dummycall_def syscall_result_def)

end
