(* ===== verification/GraphBounds.thy ===== *)
theory GraphBounds
  imports GraphTransfer
begin

text \<open>
  What \<^verbatim>\<open>alloc_node\<close> does beyond its bounds: it checks neither the end of the pool nor the
  capacity of the lookup table, and \<^verbatim>\<open>destroy_graph\<close> frees the table but keeps the recorded capacity.
\<close>

section \<open>Stores past the end of the pool\<close>

lemma ptr_store_cases:
  assumes "pool s = Some m" "pool_gen s = G"
  shows "ptr_store s (PoolP G a) k v =
    (if a + k + 8 \<le> MEMORY_POOL_SIZE then Inr (s\<lparr>pool := Some (store64 m (a + k) v)\<rparr>)
     else Inl Out_of_bounds)"
  using assms by (simp add: ptr_store_def deref_def)

lemma write_edges_overflow:
  assumes "pool s = Some m" "pool_gen s = G" "a + 24 * i \<le> MEMORY_POOL_SIZE"
    "MEMORY_POOL_SIZE < a + 24 * (i + r)" "i + r \<le> length calls" "i + r \<le> length succs"
  shows "write_edges (PoolP G a) succs calls r i s = Inl Out_of_bounds"
  using assms
proof (induction r arbitrary: i s m)
  case (Suc r)
  show ?case
  proof (cases "a + 24 * Suc i \<le> MEMORY_POOL_SIZE")
    case True
    let ?m = "store64 (store64 (store64 m (a + i * 24) EDGE_MAGIC_NUMBER) (a + (i * 24 + 8)) (calls ! i))
      (a + (i * 24 + 16)) (succs ! i)"
    have "write_edges (PoolP G a) succs calls r (Suc i) (s\<lparr>pool := Some ?m\<rparr>) = Inl Out_of_bounds"
      by (rule Suc.IH) (use Suc.prems True in simp_all)
    with True Suc.prems show ?thesis by (simp add: ptr_store_cases layout_simps Let_def)
  next
    case False
    with Suc.prems show ?thesis by (simp add: ptr_store_cases layout_simps Let_def)
  qed
qed simp

section \<open>No room\<close>

text \<open>The identifier that the lookup table has no place for, and the node the pool has no room for.\<close>

lemma alloc_node_no_room:
  assumes pe: "pool_edge s = PoolP G a"
    and grow: "grow_nodes e (s\<lparr>pool_edge := PoolP G (a + 24)\<rparr>) = Inr s2"
    and s2: "nodes s2 = Some t" "pool s2 = Some m" "pool_gen s2 = G" "pool_edge s2 = PoolP G (a + 24)"
    and len: "k < 2 ^ 31" "k \<le> length calls" "k \<le> length succs"
    and bad: "MEMORY_POOL_SIZE < a + 24 + 24 * k \<or> tbl_cap t \<le> unat nid"
  shows "alloc_node e nid (of_nat k) succs calls s = Inl Out_of_bounds"
proof (cases "a + 24 \<le> MEMORY_POOL_SIZE \<and> unat nid < tbl_cap t")
  case False
  then show ?thesis
    using pe grow s2
    by (auto simp: alloc_node_def Let_def layout_simps ptr_store_cases set_slot_def)
next
  case True
  with bad have over: "MEMORY_POOL_SIZE < a + 24 + 24 * k" by simp
  then have k: "0 < k" using True by (cases k) simp_all
  let ?m5 = "store64 (store64 (store64 m a NODE_MAGIC_NUMBER) (a + 8) nid) (a + 16) (of_nat k)"
  let ?s6 = "s2\<lparr>pool := Some ?m5, nodes := Some (t\<lparr>tbl_slot := (tbl_slot t)(unat nid := PoolP G a)\<rparr>)\<rparr>"
  let ?s7 = "?s6\<lparr>pool_edge := PoolP G (a + 24 + k * 24)\<rparr>"
  have "write_edges (PoolP G (a + 24)) succs calls k 0 ?s7 = Inl Out_of_bounds"
    using True over s2(3) len by (intro write_edges_overflow) simp_all
  then show ?thesis
    using True pe grow s2 len(1) k
    by (simp add: alloc_node_def Let_def layout_simps ptr_store_cases set_slot_def
        sint_of_nat_small scast_of_nat_small)
qed

lemma alloc_node_overflow:
  assumes "building s g" "ample e" "room_for g" "k < 2 ^ 31" "k \<le> length calls" "k \<le> length succs"
    and bad: "MEMORY_POOL_SIZE < NODE_TABLE_OFFSET + graph_size (g @ [node_of nid k succs calls]) \<or>
      length g + 4096 < unat nid"
  shows "alloc_node e nid (of_nat k) succs calls s = Inl Out_of_bounds"
proof -
  let ?a = "88 + graph_size g"
  from assms(1) obtain m where m: "pool s = Some m" "encodes m g"
    "pool_edge s = PoolP (pool_gen s) ?a" "table_inv s (length g)"
    by (auto simp: building_def layout_simps)
  have len: "length g < 43691"
    using assms(3) graph_size_ge [of g] by (simp add: room_for_def layout_simps)
  let ?s1 = "s\<lparr>pool_edge := PoolP (pool_gen s) (?a + 24)\<rparr>"
  have "load64 m 64 = of_nat (length g)" using m(2) by (simp add: encodes_def layout_simps)
  then have "meta_load ?s1 ''num_nodes'' = Inr (of_nat (length g))"
    using m(1) by (simp add: meta_load_def layout_simps)
  moreover have "table_inv ?s1 (length g)" using m(4) table_inv_cong [of ?s1 s] by simp
  ultimately obtain s2 t where s2: "grow_nodes e ?s1 = Inr s2" "nodes s2 = Some t"
    "table_inv s2 (Suc (length g))" "pool s2 = pool ?s1" "pool_gen s2 = pool_gen ?s1"
    "pool_edge s2 = pool_edge ?s1"
    using grow_nodes_spec [OF assms(2) _ _ len] by metis
  have "tbl_cap t \<le> length g + 4097" using s2(2,3) by (auto simp: table_inv_def)
  with bad have "MEMORY_POOL_SIZE < ?a + 24 + 24 * k \<or> tbl_cap t \<le> unat nid"
    by (auto simp: node_size_def node_of_simps(1) [OF assms(5,6)] layout_simps)
  with alloc_node_no_room [OF m(3) s2(1,2) _ _ _ assms(4-6)] s2(4-6) m(1) show ?thesis by simp
qed

section \<open>The recorded capacity\<close>

text \<open>
  Building a graph over a capacity \<^verbatim>\<open>num_nodes_listings\<close> left by an earlier graph of more than 4096
  nodes: the new table has 4096 entries and is never grown before that capacity is reached.
\<close>

definition stale :: "memgraph \<Rightarrow> graph \<Rightarrow> bool" where
  "stale s g \<longleftrightarrow>
     (\<exists>m. pool s = Some m \<and> encodes m g \<and>
        pool_edge s = PoolP (pool_gen s) (NODE_TABLE_OFFSET + graph_size g) \<and>
        4096 < unat (num_nodes_listings s) \<and>
        (case nodes s of None \<Rightarrow> g = [] | Some t \<Rightarrow> tbl_cap t = 4096))"

lemma stale_grow:
  assumes "ample e" "4096 < unat (num_nodes_listings s)" "meta_load s ''num_nodes'' = Inr (of_nat n)" "n \<le> 4096"
    "case nodes s of None \<Rightarrow> n = 0 | Some t \<Rightarrow> tbl_cap t = 4096"
  obtains s' t where "grow_nodes e s = Inr s'" "nodes s' = Some t" "tbl_cap t = 4096" "pool s' = pool s"
    "pool_gen s' = pool_gen s" "pool_edge s' = pool_edge s" "num_nodes_listings s' = num_nodes_listings s"
proof (cases "nodes s")
  case None
  with assms(1) show thesis
    by (intro that [of "malloc_nodes e (8 * DEFAULT_NUMBER_OF_NODESLISTINGS) s"
          "\<lparr>tbl_cap = 4096, tbl_slot = (\<lambda>_. fresh_slot e)\<rparr>"])
      (auto simp: grow_nodes_def malloc_nodes_def ample_def DEFAULT_NUMBER_OF_NODESLISTINGS_def)
next
  case (Some t)
  have "\<not> num_nodes_listings s \<le> of_nat n"
    using assms(2,4) by (simp add: word_le_nat_alt unat_of_nat_small)
  with Some assms(3,5) show thesis
    by (intro that [of s t]) (simp_all add: grow_nodes_def)
qed

lemma stale_alloc:
  assumes "stale s g" "ample e" "length g \<le> 4096" "k \<le> length calls" "k \<le> length succs"
    "NODE_TABLE_OFFSET + graph_size (g @ [node_of nid k succs calls]) \<le> MEMORY_POOL_SIZE"
  shows "if unat nid < 4096
    then \<exists>p s'. alloc_node e nid (of_nat k) succs calls s = Inr (p, s') \<and> stale s' (g @ [node_of nid k succs calls])
    else alloc_node e nid (of_nat k) succs calls s = Inl Out_of_bounds"
proof -
  let ?a = "NODE_TABLE_OFFSET + graph_size g"
  from assms(1) obtain m where m: "pool s = Some m" "encodes m g" "pool_edge s = PoolP (pool_gen s) ?a"
    and old: "4096 < unat (num_nodes_listings s)" "case nodes s of None \<Rightarrow> g = [] | Some t \<Rightarrow> tbl_cap t = 4096"
    by (auto simp: stale_def)
  let ?s1 = "s\<lparr>pool_edge := PoolP (pool_gen s) (?a + 24)\<rparr>"
  have "meta_load ?s1 ''num_nodes'' = Inr (of_nat (length g))"
    using m(1,2) by (simp add: meta_load_def encodes_def layout_simps)
  moreover have "case nodes ?s1 of None \<Rightarrow> length g = 0 | Some t \<Rightarrow> tbl_cap t = 4096"
    using old(2) by (simp split: option.splits)
  ultimately obtain s2 t where s2: "grow_nodes e ?s1 = Inr s2" "nodes s2 = Some t" "tbl_cap t = 4096"
    "pool s2 = pool ?s1" "pool_gen s2 = pool_gen ?s1" "pool_edge s2 = pool_edge ?s1"
    "num_nodes_listings s2 = num_nodes_listings ?s1"
    using stale_grow [OF assms(2), of ?s1 "length g"] old(1) assms(3) by auto
  then have s2': "pool s2 = Some m" "pool_gen s2 = pool_gen s" "pool_edge s2 = PoolP (pool_gen s) (?a + 24)"
    using m(1) by simp_all
  show ?thesis
  proof (cases "unat nid < 4096")
    case True
    with s2(3) have "unat nid < tbl_cap t" by simp
    from alloc_node_encodes [OF m s2(1,2) this s2' assms(6,4,5)] s2(3,7) old(1) True show ?thesis
      by (auto simp: stale_def)
  next
    case False
    have "k < 2 ^ 31"
      using assms(6) by (simp add: node_size_def node_of_simps(1) [OF assms(4,5)] layout_simps)
    with alloc_node_no_room [OF m(3) s2(1,2) s2' _ assms(4,5)] s2(3) False show ?thesis by simp
  qed
qed

text \<open>A second client of the builder interface: small graphs over a stale capacity.\<close>

interpretation stale_builder:
  builder "alloc_progstate e" "\<lambda>s g. stale s g \<and> ample e"
    "\<lambda>g. room_for g \<and> length g \<le> 4096" for e
proof
  fix s g n assume "stale s g \<and> ample e" "room_for (g @ [n]) \<and> length (g @ [n]) \<le> 4096"
  then have a: "stale s g" "ample e" "room_for (g @ [n])" "length g < 4096" by simp_all
  then have "unat (ps_id n) < 4096"
    by (auto simp: room_for_def nth_append dest!: spec [of _ "length g"])
  with a stale_alloc [OF a(1,2), of "length (ps_edges n)" "map fst (ps_edges n)" "map snd (ps_edges n)" "ps_id n"]
  show "\<exists>s'. alloc_progstate e n s = Inr s' \<and> stale s' (g @ [n]) \<and> ample e"
    by (auto simp: node_of_progstate alloc_progstate_def room_for_def)
qed (auto intro: room_for_prefix)

lemma stale_start:
  assumes "building s h" "4096 < length h" "ample e"
  obtains s1 where "initialize_graph e None 0 (destroy_graph s) = Inr s1" "stale s1 []"
proof -
  obtain t where "nodes s = Some t" "tbl_cap t = unat (num_nodes_listings s)" "length h \<le> tbl_cap t"
    using assms(1,2) by (auto simp: building_def table_inv_def split: option.splits)
  with assms(2) have L: "4096 < unat (num_nodes_listings s)" by simp
  from assms(1) obtain m where p: "pool s = Some m" by (auto simp: building_def)
  let ?d = "destroy_graph s"
  have d: "pool ?d = None" "nodes ?d = None" "num_nodes_listings ?d = num_nodes_listings s"
    using p by (auto simp: destroy_graph_def destroy_pool_def Let_def split: option.splits)
  let ?s = "?d\<lparr>requests := Suc (requests ?d), pool_gen := Suc (pool_gen ?d),
       pool_edge := PoolP (Suc (pool_gen ?d)) NODE_TABLE_OFFSET, pool := Some fresh_pool, nodes := None\<rparr>"
  have "env_alloc e (requests ?d) (of_nat MEMORY_POOL_SIZE)" using assms(3) by (simp add: ample_def)
  moreover have "mem_set fresh_pool 0 0 = fresh_pool" by (simp add: mem_set_def)
  ultimately have "initialize_graph e None 0 ?d = Inr ?s"
    using d(1) create_pool_spec [of e ?d] by (simp add: initialize_graph_def)
  moreover have "stale ?s []" using L d(3) by (simp add: stale_def encodes_fresh_pool)
  ultimately show thesis by (rule that)
qed

lemma stale_overflow:
  assumes "building s h" "4096 < length h" "ample e" "length g = 4096"
    "room_for (g @ [node_of nid k succs calls])" "k \<le> length calls" "k \<le> length succs" "unat nid = 4096"
  shows "\<exists>s1 s2. initialize_graph e None 0 (destroy_graph s) = Inr s1 \<and>
    add_all (alloc_progstate e) g s1 = Inr s2 \<and>
    alloc_node e nid (of_nat k) succs calls s2 = Inl Out_of_bounds"
proof -
  obtain s1 where s1: "initialize_graph e None 0 (destroy_graph s) = Inr s1" "stale s1 []"
    using stale_start [OF assms(1-3)] .
  have "room_for ([] @ g) \<and> length ([] @ g) \<le> 4096"
    using assms(4) room_for_prefix [OF assms(5)] by simp
  from stale_builder.add_all_nodes [OF _ this] s1(2) assms(3) obtain s2 where
    s2: "add_all (alloc_progstate e) g s1 = Inr s2" "stale s2 g" by auto
  have "NODE_TABLE_OFFSET + graph_size (g @ [node_of nid k succs calls]) \<le> MEMORY_POOL_SIZE"
    using assms(5) unfolding room_for_def by blast
  from stale_alloc [OF s2(2) assms(3) _ assms(6,7) this] assms(4,8) s1(1) s2(1) show ?thesis by auto
qed

end
