(* ===== verification/Graaf.thy ===== *)
theory Graaf
  imports Prelude
begin

text \<open>
  The interface of the third-party library graaf, whose \<^verbatim>\<open>directed_graph<std::string, std::string>\<close>
  \<^verbatim>\<open>GraphLib\<close> wraps.  The library is not part of the repository: it is a parameter of the
  model, a record of the member functions the repository calls, together with the documented
  behaviour the repository relies on, stated as the locale \<open>graaf_lib\<close>.  Where the documentation
  leaves a choice (the iteration order of the unordered containers, whether adding an edge that
  exists replaces its label) the laws leave it too.
\<close>

type_synonym vertex_id = nat
type_synonym edge_id = "vertex_id \<times> vertex_id"

section \<open>The member functions\<close>

text \<open>
  A function that may throw returns a \<open>res\<close>.  \<open>gr_vertices\<close>, \<open>gr_edges\<close> and \<open>gr_neighbors\<close>
  are the elements in the order a range-based \<^verbatim>\<open>for\<close> visits them.  An edge that is inserted while
  such a loop runs over the edges is in front of the iterator or behind it: \<open>gr_reached\<close> gives its
  place among the edges still to come, if it has one.  It is any function, no law restricts it.
\<close>

record 'g graaf =
  gr_empty :: 'g
  gr_add_vertex :: "'g \<Rightarrow> string \<Rightarrow> vertex_id \<times> 'g"
  gr_add_edge :: "'g \<Rightarrow> vertex_id \<Rightarrow> vertex_id \<Rightarrow> string \<Rightarrow> 'g res"
  gr_remove_edge :: "'g \<Rightarrow> vertex_id \<Rightarrow> vertex_id \<Rightarrow> 'g res"
  gr_remove_vertex :: "'g \<Rightarrow> vertex_id \<Rightarrow> 'g res"
  gr_vertices :: "'g \<Rightarrow> (vertex_id \<times> string) list"
  gr_edges :: "'g \<Rightarrow> (edge_id \<times> string) list"
  gr_neighbors :: "'g \<Rightarrow> vertex_id \<Rightarrow> vertex_id list res"
  gr_vertex :: "'g \<Rightarrow> vertex_id \<Rightarrow> string res"
  gr_edge :: "'g \<Rightarrow> vertex_id \<Rightarrow> vertex_id \<Rightarrow> string res"
  gr_reached :: "'g \<Rightarrow> edge_id list \<Rightarrow> edge_id \<Rightarrow> nat option"

text \<open>What a graph contains, as the library's own accessors report it.\<close>

definition vmap :: "'g graaf \<Rightarrow> 'g \<Rightarrow> vertex_id \<rightharpoonup> string" where
  "vmap L g = map_of (gr_vertices L g)"

definition emap :: "'g graaf \<Rightarrow> 'g \<Rightarrow> edge_id \<rightharpoonup> string" where
  "emap L g = map_of (gr_edges L g)"

section \<open>The documented behaviour\<close>

locale graaf_lib =
  fixes L :: "'g graaf" and ok :: "'g \<Rightarrow> bool"
  assumes empty: "ok (gr_empty L)" "vmap L (gr_empty L) = Map.empty" "emap L (gr_empty L) = Map.empty"
    and listed: "ok g \<Longrightarrow> distinct (map fst (gr_vertices L g))"
      "ok g \<Longrightarrow> distinct (map fst (gr_edges L g))"
    and endpoints: "ok g \<Longrightarrow> emap L g (a, b) = Some l \<Longrightarrow> a \<in> dom (vmap L g) \<and> b \<in> dom (vmap L g)"
    and add_vertex: "ok g \<Longrightarrow> gr_add_vertex L g v = (a, g') \<Longrightarrow>
      ok g' \<and> vmap L g a = None \<and> vmap L g' = (vmap L g)(a \<mapsto> v) \<and> emap L g' = emap L g"
    and add_edge: "ok g \<Longrightarrow> a \<in> dom (vmap L g) \<Longrightarrow> b \<in> dom (vmap L g) \<Longrightarrow>
      \<exists>g'. gr_add_edge L g a b l = Inr g' \<and> ok g' \<and> vmap L g' = vmap L g \<and>
           (emap L g' = (emap L g)((a, b) \<mapsto> l) \<or>
            (a, b) \<in> dom (emap L g) \<and> emap L g' = emap L g)"
    and remove_edge: "ok g \<Longrightarrow> a \<in> dom (vmap L g) \<Longrightarrow> b \<in> dom (vmap L g) \<Longrightarrow>
      \<exists>g'. gr_remove_edge L g a b = Inr g' \<and> ok g' \<and> vmap L g' = vmap L g \<and>
           emap L g' = (emap L g)((a, b) := None)"
    and remove_vertex: "ok g \<Longrightarrow> a \<in> dom (vmap L g) \<Longrightarrow>
      \<exists>g'. gr_remove_vertex L g a = Inr g' \<and> ok g' \<and> vmap L g' = (vmap L g)(a := None) \<and>
           emap L g' = (\<lambda>(x, y). if x = a \<or> y = a then None else emap L g (x, y))"
    and neighbors: "ok g \<Longrightarrow> a \<in> dom (vmap L g) \<Longrightarrow>
      \<exists>ns. gr_neighbors L g a = Inr ns \<and> distinct ns \<and> set ns = {b. (a, b) \<in> dom (emap L g)}"
    and vertex: "ok g \<Longrightarrow> vmap L g a = Some v \<Longrightarrow> gr_vertex L g a = Inr v"
    and edge: "ok g \<Longrightarrow> emap L g (a, b) = Some l \<Longrightarrow> gr_edge L g a b = Inr l"
begin

lemma edges_listed: "ok g \<Longrightarrow> ((a, b), l) \<in> set (gr_edges L g) \<longleftrightarrow> emap L g (a, b) = Some l"
  by (simp add: emap_def listed(2))

lemma vertices_listed: "ok g \<Longrightarrow> (a, v) \<in> set (gr_vertices L g) \<longleftrightarrow> vmap L g a = Some v"
  by (simp add: vmap_def listed(1))

lemma finite_vertices: "finite (dom (vmap L g))"
  by (simp add: vmap_def finite_dom_map_of)

end

section \<open>An instance\<close>

text \<open>
  Association lists in insertion order satisfy the laws, so they can be met; the instance also
  lets the functions of the model be evaluated.  Adding an edge that exists keeps its label.
\<close>

record agraph =
  ag_next :: nat
  ag_verts :: "(vertex_id \<times> string) list"
  ag_edges :: "(edge_id \<times> string) list"

definition ag_has :: "agraph \<Rightarrow> vertex_id \<Rightarrow> bool" where
  "ag_has g a \<longleftrightarrow> a \<in> set (map fst (ag_verts g))"

definition ag_ok :: "agraph \<Rightarrow> bool" where
  "ag_ok g \<longleftrightarrow>
     distinct (map fst (ag_verts g)) \<and> distinct (map fst (ag_edges g)) \<and>
     (\<forall>(a, v)\<in>set (ag_verts g). a < ag_next g) \<and>
     (\<forall>((a, b), l)\<in>set (ag_edges g). ag_has g a \<and> ag_has g b)"

definition assoc_graaf :: "agraph graaf" where
  "assoc_graaf = \<lparr>
     gr_empty = \<lparr>ag_next = 0, ag_verts = [], ag_edges = []\<rparr>,
     gr_add_vertex = (\<lambda>g v. (ag_next g,
       g\<lparr>ag_next := Suc (ag_next g), ag_verts := ag_verts g @ [(ag_next g, v)]\<rparr>)),
     gr_add_edge = (\<lambda>g a b l.
       if \<not> ag_has g a \<or> \<not> ag_has g b then Inl (Uncaught ''invalid_argument'')
       else if (a, b) \<in> set (map fst (ag_edges g)) then Inr g
       else Inr (g\<lparr>ag_edges := ag_edges g @ [((a, b), l)]\<rparr>)),
     gr_remove_edge = (\<lambda>g a b. Inr (g\<lparr>ag_edges := filter (\<lambda>(e, l). e \<noteq> (a, b)) (ag_edges g)\<rparr>)),
     gr_remove_vertex = (\<lambda>g a. Inr (g\<lparr>
       ag_verts := filter (\<lambda>(x, v). x \<noteq> a) (ag_verts g),
       ag_edges := filter (\<lambda>((x, y), l). x \<noteq> a \<and> y \<noteq> a) (ag_edges g)\<rparr>)),
     gr_vertices = ag_verts,
     gr_edges = ag_edges,
     gr_neighbors = (\<lambda>g a. Inr (map (\<lambda>((x, y), l). y) (filter (\<lambda>((x, y), l). x = a) (ag_edges g)))),
     gr_vertex = (\<lambda>g a. case map_of (ag_verts g) a of
       None \<Rightarrow> Inl (Uncaught ''out_of_range'') | Some v \<Rightarrow> Inr v),
     gr_edge = (\<lambda>g a b. case map_of (ag_edges g) (a, b) of
       None \<Rightarrow> Inl (Uncaught ''out_of_range'') | Some l \<Rightarrow> Inr l),
     gr_reached = (\<lambda>g ks k. Some (length ks)) \<rparr>"

lemma map_of_filter_key:
  "map_of (filter (\<lambda>(k, v). P k) xs) = (\<lambda>k. if P k then map_of xs k else None)"
  by (induction xs) (auto simp: fun_eq_iff)

lemma distinct_map_filter: "distinct (map f xs) \<Longrightarrow> distinct (map f (filter P xs))"
  by (induction xs) auto

lemma ag_has_iff: "ag_has g a \<longleftrightarrow> a \<in> dom (map_of (ag_verts g))"
  by (simp add: ag_has_def dom_map_of_conv_image_fst)

lemmas ag_simps = assoc_graaf_def vmap_def emap_def

lemma ag_okD:
  assumes "ag_ok g"
  shows "distinct (map fst (ag_verts g))" "distinct (map fst (ag_edges g))"
    "map_of (ag_verts g) (ag_next g) = None"
    "map_of (ag_edges g) (a, b) = Some l \<Longrightarrow> ag_has g a \<and> ag_has g b"
  using assms by (fastforce simp: ag_ok_def map_of_eq_None_iff dest!: map_of_SomeD)+

lemma ag_ok_add_vertex:
  assumes "ag_ok g"
  shows "ag_ok (g\<lparr>ag_next := Suc (ag_next g), ag_verts := ag_verts g @ [(ag_next g, v)]\<rparr>)"
proof -
  have "ag_next g \<notin> fst ` set (ag_verts g)" using assms by (fastforce simp: ag_ok_def)
  with assms show ?thesis by (fastforce simp: ag_ok_def ag_has_def)
qed

lemma ag_ok_add_edge:
  assumes "ag_ok g" "ag_has g a" "ag_has g b" "(a, b) \<notin> fst ` set (ag_edges g)"
  shows "ag_ok (g\<lparr>ag_edges := ag_edges g @ [((a, b), l)]\<rparr>)"
  using assms by (fastforce simp: ag_ok_def ag_has_def)

lemma ag_ok_remove_edge: "ag_ok g \<Longrightarrow> ag_ok (g\<lparr>ag_edges := filter P (ag_edges g)\<rparr>)"
  by (fastforce simp: ag_ok_def ag_has_def intro: distinct_map_filter)

lemma ag_ok_remove_vertex:
  "ag_ok g \<Longrightarrow> ag_ok (g\<lparr>ag_verts := filter (\<lambda>(x, v). x \<noteq> a) (ag_verts g),
     ag_edges := filter (\<lambda>((x, y), l). x \<noteq> a \<and> y \<noteq> a) (ag_edges g)\<rparr>)"
  by (fastforce simp: ag_ok_def ag_has_def intro: distinct_map_filter)

lemma map_of_snoc: "map_of xs k = None \<Longrightarrow> map_of (xs @ [(k, v)]) = (map_of xs)(k \<mapsto> v)"
  by (auto simp: map_add_def fun_eq_iff split: option.splits)

lemma ag_neighbors:
  assumes "distinct (map fst es)"
  shows "distinct (map (\<lambda>((x, y), l). y) (filter (\<lambda>((x, y), l). x = a) es))"
    "set (map (\<lambda>((x, y), l). y) (filter (\<lambda>((x, y), l). x = a) es)) = {b. (a, b) \<in> dom (map_of es)}"
proof -
  show "distinct (map (\<lambda>((x, y), l). y) (filter (\<lambda>((x, y), l). x = a) es))"
    using assms by (induction es) (auto simp: image_iff)
  show "set (map (\<lambda>((x, y), l). y) (filter (\<lambda>((x, y), l). x = a) es)) = {b. (a, b) \<in> dom (map_of es)}"
    by (induction es) auto
qed

lemma map_of_remove_edge:
  "map_of (filter (\<lambda>(e, l). e \<noteq> k) es) = (map_of es)(k := None)"
  by (induction es) (auto simp: fun_eq_iff)

lemma map_of_remove_vertex:
  "map_of (filter (\<lambda>(x, v). x \<noteq> a) vs) = (map_of vs)(a := None)"
  "map_of (filter (\<lambda>((x, y), l). x \<noteq> a \<and> y \<noteq> a) es) =
     (\<lambda>(x, y). if x = a \<or> y = a then None else map_of es (x, y))"
  subgoal by (induction vs) (auto simp: fun_eq_iff)
  subgoal by (induction es) (auto simp: fun_eq_iff)
  done

interpretation assoc: graaf_lib assoc_graaf ag_ok
proof (unfold_locales, goal_cases)
  case 6
  then show ?case
    by (auto simp: ag_simps ag_has_iff dest: ag_okD(4))
next
  case (7 g v a g')
  then have "map_of (ag_verts g) (ag_next g) = None" by (simp add: ag_okD)
  with 7 show ?case
    by (auto simp: ag_simps map_of_snoc ag_ok_add_vertex simp del: map_of_append)
next
  case (8 g a b l)
  then show ?case
    by (auto simp: ag_simps ag_has_iff map_of_eq_None_iff map_of_snoc simp del: map_of_append
        intro!: ag_ok_add_edge dest: weak_map_of_SomeI)
next
  case (9 g a b)
  then show ?case by (simp add: ag_simps ag_ok_remove_edge map_of_remove_edge)
next
  case (10 g a)
  then show ?case
    by (simp add: ag_simps ag_ok_remove_vertex map_of_remove_vertex fun_eq_iff)
next
  case (11 g a)
  then show ?case using ag_neighbors [OF ag_okD(2)] by (simp add: ag_simps)
qed (auto simp: ag_simps ag_ok_def split: option.splits)

end
