(* ===== verification/Listing.thy ===== *)
theory Listing
  imports Prelude
begin

text \<open>
  The listing of the library functions: \<^verbatim>\<open>LibcListGen/LibcFuncDump.cpp\<close> writes one line
  \<^verbatim>\<open>index:name\<close> per function symbol of a shared library, and the class \<^verbatim>\<open>FileToMapReader\<close> of
  \<^verbatim>\<open>LLVM/LibcCallGraphUtils.h\<close> reads the file back into a map from names to numbers.
\<close>

section \<open>Numbers and lines\<close>

definition newline :: char where "newline = CHR 0x0A"

text \<open>\<^verbatim>\<open>operator<<\<close> and \<^verbatim>\<open>std::to_string\<close> of a number that is not negative.\<close>

fun nat_string :: "nat \<Rightarrow> string" where
  "nat_string n =
     (if n < 10 then [char_of (48 + n)] else nat_string (n div 10) @ [char_of (48 + n mod 10)])"

declare nat_string.simps [simp del]

definition is_digit :: "char \<Rightarrow> bool" where
  "is_digit c \<longleftrightarrow> 48 \<le> (of_char c :: nat) \<and> (of_char c :: nat) \<le> 57"

definition is_space :: "char \<Rightarrow> bool" where
  "is_space c \<longleftrightarrow> (of_char c :: nat) = 32 \<or> 9 \<le> (of_char c :: nat) \<and> (of_char c :: nat) \<le> 13"

definition digits_value :: "string \<Rightarrow> nat" where
  "digits_value ds = foldl (\<lambda>n c. 10 * n + (of_char c - 48)) 0 ds"

text \<open>
  \<^verbatim>\<open>std::stoi\<close>: leading white space, an optional sign, then digits; what follows is ignored.  It
  throws when there is no digit and when the value is not an \<^verbatim>\<open>int\<close>.
\<close>

definition stoi :: "string \<Rightarrow> int res" where
  "stoi s =
     (let t = dropWhile is_space s;
          neg = (t \<noteq> [] \<and> hd t = CHR ''-'');
          u = (if t \<noteq> [] \<and> (hd t = CHR ''-'' \<or> hd t = CHR ''+'') then tl t else t);
          ds = takeWhile is_digit u;
          v = (if neg then - int (digits_value ds) else int (digits_value ds))
      in if ds = [] then Inl (Uncaught ''invalid_argument'')
         else if v < - (2 ^ 31) \<or> 2 ^ 31 \<le> v then Inl (Uncaught ''out_of_range'')
         else Inr v)"

text \<open>The lines that repeated \<^verbatim>\<open>std::getline\<close> returns.\<close>

lemma dropWhile_shorter: "s \<noteq> [] \<Longrightarrow> length (dropWhile P s) - Suc 0 < length s"
proof -
  assume "s \<noteq> []"
  then have "0 < length s" by simp
  with length_dropWhile_le [of P s] show ?thesis by linarith
qed

function getlines :: "string \<Rightarrow> string list" where
  "getlines s =
     (if s = [] then []
      else takeWhile (\<lambda>c. c \<noteq> newline) s # getlines (tl (dropWhile (\<lambda>c. c \<noteq> newline) s)))"
  by pat_completeness auto
termination
  by (relation "measure length") (simp_all add: dropWhile_shorter)

declare getlines.simps [simp del]

section \<open>Writing the listing\<close>

text \<open>
  What libelf reports of the library: whether it could be initialised, the file opened and
  recognised, its sections with their types and sizes, and the symbols and strings of the first
  symbol table.
\<close>

record elf_section =
  sh_type :: nat
  sh_size :: "64 word"
  sh_entsize :: "64 word"

record libelf =
  version_known :: bool
  lib_opens :: bool
  elf_begins :: bool
  elf_sections :: "elf_section list"
  has_data :: "elf_section \<Rightarrow> bool"
  sym_info :: "nat \<Rightarrow> 8 word"
  sym_string :: "nat \<Rightarrow> string option"

definition SHT_SYMTAB :: nat where "SHT_SYMTAB = 2"
definition SHT_DYNSYM :: nat where "SHT_DYNSYM = 11"
definition STT_FUNC :: "8 word" where "STT_FUNC = 2"

definition GELF_ST_TYPE :: "8 word \<Rightarrow> 8 word" where
  "GELF_ST_TYPE info = and info 0xF"

text \<open>The loop over the symbols: \<open>r\<close> are left, \<open>i\<close> is the index of the next.\<close>

fun write_symbols :: "libelf \<Rightarrow> nat \<Rightarrow> nat \<Rightarrow> string" where
  "write_symbols E i 0 = []"
| "write_symbols E i (Suc r) =
     (if GELF_ST_TYPE (sym_info E i) = STT_FUNC
      then case sym_string E i of
             None \<Rightarrow> []
           | Some name \<Rightarrow> nat_string i @ '':'' @ name @ [newline]
      else []) @ write_symbols E (Suc i) r"

text \<open>The result is the output file, \<open>None\<close> when none is opened.\<close>

definition extractFunctionNames :: "libelf \<Rightarrow> bool \<Rightarrow> string option res" where
  "extractFunctionNames E out_opens =
     (if \<not> version_known E \<or> \<not> lib_opens E \<or> \<not> elf_begins E then Inr None
      else case find (\<lambda>s. sh_type s = SHT_SYMTAB \<or> sh_type s = SHT_DYNSYM) (elf_sections E) of
             None \<Rightarrow> Inr None
           | Some shdr \<Rightarrow>
               if \<not> has_data E shdr \<or> \<not> out_opens then Inr None
               else if sh_entsize shdr = 0 then Inl Division_by_zero
               else
                 let count = (ucast (sh_size shdr div sh_entsize shdr) :: 32 word)
                 in Inr (Some (write_symbols E 0 (nat (sint count)))))"

definition dump_main :: "string list \<Rightarrow> libelf \<Rightarrow> bool \<Rightarrow> (int \<times> string option) res" where
  "dump_main argv E out_opens =
     (if length argv \<noteq> 3 then Inr (1, None)
      else and_then (extractFunctionNames E out_opens) (\<lambda>f. Inr (0, f)))"

section \<open>Reading the listing\<close>

record file_map_reader =
  stringMap :: "string \<rightharpoonup> int"
  loaded :: bool

definition reader_init :: file_map_reader where
  "reader_init = \<lparr>stringMap = Map.empty, loaded = False\<rparr>"

definition isLoaded :: "file_map_reader \<Rightarrow> bool" where
  "isLoaded r = loaded r"

definition read_line :: "string \<Rightarrow> (string \<rightharpoonup> int) \<Rightarrow> (string \<rightharpoonup> int) res" where
  "read_line line m =
     (if CHR '':'' \<in> set line then
        let key = tl (dropWhile (\<lambda>c. c \<noteq> CHR '':'') line)
        in and_then (stoi (takeWhile (\<lambda>c. c \<noteq> CHR '':'') line)) (\<lambda>value. Inr (m(key \<mapsto> value)))
      else Inr m)"

fun read_lines :: "string list \<Rightarrow> (string \<rightharpoonup> int) \<Rightarrow> (string \<rightharpoonup> int) res" where
  "read_lines [] m = Inr m"
| "read_lines (l # ls) m = and_then (read_line l m) (\<lambda>m'. read_lines ls m')"

definition readFileToMap :: "string option \<Rightarrow> file_map_reader \<Rightarrow> (bool \<times> file_map_reader) res" where
  "readFileToMap file r =
     (let r1 = r\<lparr>loaded := False\<rparr>
      in case file of
           None \<Rightarrow> Inr (False, r1)
         | Some content \<Rightarrow>
             and_then (read_lines (getlines content) (stringMap r1)) (\<lambda>m.
               Inr (True, r1\<lparr>stringMap := m, loaded := True\<rparr>)))"

definition isStringInMap :: "file_map_reader \<Rightarrow> string \<Rightarrow> bool" where
  "isStringInMap r s = (if \<not> loaded r then False else stringMap r s \<noteq> None)"

definition getValueFromMap :: "file_map_reader \<Rightarrow> string \<Rightarrow> int" where
  "getValueFromMap r s = (case stringMap r s of Some v \<Rightarrow> v | None \<Rightarrow> - 1)"

section \<open>Decimal round trip\<close>

lemma digit_char: "n < 10 \<Longrightarrow> (of_char (char_of (48 + n) :: char) :: nat) = 48 + n"
  by simp

lemma is_digit_char: "n < 10 \<Longrightarrow> is_digit (char_of (48 + n :: nat))"
  using digit_char [of n] by (simp add: is_digit_def)

lemma digits_value_snoc: "digits_value (ds @ [c]) = 10 * digits_value ds + (of_char c - 48)"
  by (simp add: digits_value_def)

lemma nat_string_spec:
  "nat_string n \<noteq> [] \<and> list_all is_digit (nat_string n) \<and> digits_value (nat_string n) = n"
proof (induction n rule: nat_string.induct)
  case (1 n)
  show ?case
  proof (cases "n < 10")
    case True
    then show ?thesis
      using digits_value_snoc [of "[]" "char_of (48 + n)"]
      by (simp add: nat_string.simps [of n] is_digit_char digit_char digits_value_def)
  next
    case False
    have "n mod 10 < 10" by simp
    with 1 False show ?thesis
      by (simp add: nat_string.simps [of n] is_digit_char digit_char digits_value_snoc)
  qed
qed

lemma digit_not_special:
  "is_digit c \<Longrightarrow> \<not> is_space c \<and> c \<noteq> CHR ''-'' \<and> c \<noteq> CHR ''+'' \<and> c \<noteq> CHR '':'' \<and> c \<noteq> newline"
  by (auto simp: is_digit_def is_space_def newline_def)

lemma stoi_nat_string:
  assumes "n < 2 ^ 31"
  shows "stoi (nat_string n) = Inr (int n)"
proof -
  obtain c cs where s: "nat_string n = c # cs" using nat_string_spec [of n] by (cases "nat_string n") auto
  with nat_string_spec [of n] have d: "is_digit c" "list_all is_digit (c # cs)"
    "digits_value (c # cs) = n" by simp_all
  with digit_not_special [OF d(1)] assms show ?thesis
    by (simp add: stoi_def s Let_def list_all_iff takeWhile_eq_all_conv [THEN iffD2])
qed

section \<open>Reading what was written\<close>

lemma getlines_line:
  "newline \<notin> set l \<Longrightarrow> getlines (l @ newline # s) = l # getlines s"
  by (simp add: getlines.simps [of "l @ newline # s"] takeWhile_append2 dropWhile_append2)
    (auto simp: takeWhile_append dropWhile_append)

text \<open>The function symbols with an index in a range, in order, and the map they give.\<close>

definition func_name :: "libelf \<Rightarrow> nat \<Rightarrow> string option" where
  "func_name E i = (if GELF_ST_TYPE (sym_info E i) = STT_FUNC then sym_string E i else None)"

fun listing_map :: "libelf \<Rightarrow> nat \<Rightarrow> nat \<Rightarrow> (string \<rightharpoonup> int) \<Rightarrow> (string \<rightharpoonup> int)" where
  "listing_map E i 0 m = m"
| "listing_map E i (Suc r) m =
     listing_map E (Suc i) r (case func_name E i of None \<Rightarrow> m | Some name \<Rightarrow> m(name \<mapsto> int i))"

lemma write_symbols_Suc:
  "write_symbols E i (Suc r) =
     (case func_name E i of
        None \<Rightarrow> [] | Some name \<Rightarrow> (nat_string i @ '':'' @ name) @ [newline]) @ write_symbols E (Suc i) r"
  by (simp add: func_name_def split: option.split)

lemma nat_string_chars:
  "newline \<notin> set (nat_string i)" "CHR '':'' \<notin> set (nat_string i)"
  using nat_string_spec [of i] digit_not_special by (auto simp: list_all_iff)

lemma read_line_entry:
  assumes "i < 2 ^ 31"
  shows "read_line (nat_string i @ '':'' @ name) m = Inr (m(name \<mapsto> int i))"
proof -
  have n: "x \<in> set (nat_string i) \<Longrightarrow> x \<noteq> CHR '':''" for x using nat_string_chars by metis
  have "takeWhile (\<lambda>c. c \<noteq> CHR '':'') (nat_string i @ CHR '':'' # name) = nat_string i"
    "dropWhile (\<lambda>c. c \<noteq> CHR '':'') (nat_string i @ CHR '':'' # name) = CHR '':'' # name"
    using n by (simp_all add: takeWhile_append dropWhile_append)
  then show ?thesis by (simp add: read_line_def stoi_nat_string [OF assms])
qed

lemma read_written:
  assumes "\<forall>j name. func_name E j = Some name \<longrightarrow> newline \<notin> set name" "i + r \<le> 2 ^ 31"
  shows "read_lines (getlines (write_symbols E i r)) m = Inr (listing_map E i r m)"
  using assms(2)
proof (induction r arbitrary: i m)
  case 0
  then show ?case by (simp add: getlines.simps)
next
  case (Suc r)
  show ?case
  proof (cases "func_name E i")
    case None
    with Suc show ?thesis by (simp add: write_symbols_Suc del: write_symbols.simps)
  next
    case (Some name)
    then have "newline \<notin> set (nat_string i @ '':'' @ name)"
      using assms(1) nat_string_chars by (auto simp: newline_def)
    from getlines_line [OF this] read_line_entry [of i name m] Suc Some show ?thesis
      by (simp add: write_symbols_Suc fun_upd_def del: write_symbols.simps)
  qed
qed

text \<open>The last symbol of a name wins.\<close>

lemma listing_map_none:
  "\<forall>k. i \<le> k \<longrightarrow> k < i + r \<longrightarrow> func_name E k \<noteq> Some name \<Longrightarrow> listing_map E i r m name = m name"
  by (induction r arbitrary: i m) (auto split: option.split)

lemma listing_map_last:
  assumes "func_name E j = Some name" "i \<le> j" "j < i + r"
    "\<forall>k. j < k \<longrightarrow> k < i + r \<longrightarrow> func_name E k \<noteq> Some name"
  shows "listing_map E i r m name = Some (int j)"
  using assms
proof (induction r arbitrary: i m)
  case (Suc r)
  show ?case
  proof (cases "i = j")
    case True
    with Suc.prems listing_map_none [of "Suc i" r] show ?thesis by auto
  next
    case False
    with Suc show ?thesis by simp
  qed
qed simp

lemma listing_map_defined:
  "listing_map E i r m name \<noteq> None \<longleftrightarrow>
     m name \<noteq> None \<or> (\<exists>k. i \<le> k \<and> k < i + r \<and> func_name E k = Some name)"
proof (induction r arbitrary: i m)
  case (Suc r)
  have "(\<exists>k. i \<le> k \<and> k < i + Suc r \<and> func_name E k = Some name) \<longleftrightarrow>
      func_name E i = Some name \<or> (\<exists>k. Suc i \<le> k \<and> k < Suc i + r \<and> func_name E k = Some name)"
  proof (intro iffI)
    assume "\<exists>k. i \<le> k \<and> k < i + Suc r \<and> func_name E k = Some name"
    then obtain k where k: "i \<le> k" "k < i + Suc r" "func_name E k = Some name" by blast
    show "func_name E i = Some name \<or> (\<exists>k. Suc i \<le> k \<and> k < Suc i + r \<and> func_name E k = Some name)"
    proof (cases "k = i")
      case False
      with k have "Suc i \<le> k" "k < Suc i + r" by simp_all
      with k(3) show ?thesis by blast
    qed (use k in simp)
  next
    assume "func_name E i = Some name \<or> (\<exists>k. Suc i \<le> k \<and> k < Suc i + r \<and> func_name E k = Some name)"
    then show "\<exists>k. i \<le> k \<and> k < i + Suc r \<and> func_name E k = Some name"
    proof
      assume "func_name E i = Some name"
      then show ?thesis by (intro exI [of _ i]) simp
    next
      assume "\<exists>k. Suc i \<le> k \<and> k < Suc i + r \<and> func_name E k = Some name"
      then obtain k where "Suc i \<le> k" "k < Suc i + r" "func_name E k = Some name" by blast
      then show ?thesis by (intro exI [of _ k]) simp
    qed
  qed
  then show ?case using Suc.IH [of "Suc i"] by (auto split: option.split)
qed (auto simp: not_le)

lemma extract_count:
  assumes "extractFunctionNames E out = Inr (Some content)"
  obtains n where "content = write_symbols E 0 n" "n < 2 ^ 31"
proof -
  obtain shdr :: elf_section where
    "content = write_symbols E 0 (nat (sint (ucast (sh_size shdr div sh_entsize shdr) :: 32 word)))"
    using assms by (auto simp: extractFunctionNames_def Let_def split: if_splits option.splits)
  moreover have "nat (sint (x :: 32 word)) < 2 ^ 31" for x
    using sint_lt [of x] by simp
  ultimately show thesis using that by blast
qed

text \<open>A line that does not begin with a number.\<close>

lemma stoi_no_digit:
  assumes "\<forall>c\<in>set s. \<not> is_digit c"
  shows "stoi s = Inl (Uncaught ''invalid_argument'')"
proof -
  have "takeWhile is_digit t = []" if "set t \<subseteq> set s" for t
    using that assms by (cases t) auto
  moreover have "set (dropWhile is_space s) \<subseteq> set s" using set_dropWhileD by fastforce
  moreover have "set (tl (dropWhile is_space s)) \<subseteq> set s"
    using set_dropWhileD list.set_sel(2) by (metis (no_types, lifting) list.sel(2) subsetI)
  ultimately show ?thesis by (simp add: stoi_def Let_def)
qed

lemma read_line_no_number:
  assumes "\<forall>c\<in>set pre. \<not> is_digit c \<and> c \<noteq> CHR '':''"
  shows "read_line (pre @ '':'' @ key) m = Inl (Uncaught ''invalid_argument'')"
proof -
  have "takeWhile (\<lambda>c. c \<noteq> CHR '':'') (pre @ CHR '':'' # key) = pre"
    using assms by (simp add: takeWhile_append)
  with assms show ?thesis by (simp add: read_line_def stoi_no_digit)
qed

end
