(* ===== verification/LlvmIR.thy ===== *)
theory LlvmIR
  imports Listing
begin

text \<open>
  The part of LLVM's IR the pass looks at and changes, the classification of the calls of a
  basic block (\<^verbatim>\<open>getLibraryCalls\<close> of \<^verbatim>\<open>LLVM/LibcCallGraphUtils.h\<close>) and the three kinds of system
  calls the pass injects (\<^verbatim>\<open>LLVM/LibcCallGraphGen.cpp\<close>).
\<close>

section \<open>Functions, blocks, instructions\<close>

text \<open>
  A called function is its name and whether it is an intrinsic or only declared; an indirect call
  has none.  Operands and instructions the pass does not look into are opaque (\<open>'i\<close>).  The
  successors of a block are the indices of blocks in the function; \<open>bb_operand\<close> is what
  \<^verbatim>\<open>printAsOperand\<close> prints for the block.
\<close>

record callee =
  fn_name :: string
  fn_intrinsic :: bool
  fn_declaration :: bool

datatype 'i operand = Int64 "64 word" | BufferPtr | Opaque 'i

datatype 'i inst =
    CallInst "callee option" "'i operand list"
  | ReturnInst 'i
  | OtherInst 'i

record 'i basic_block =
  bb_operand :: string
  bb_name :: string
  bb_insts :: "'i inst list"
  bb_succs :: "nat list"

record 'i ir_function =
  f_name :: string
  f_declaration :: bool
  f_blocks :: "'i basic_block list"

text \<open>A module: its functions and its global byte arrays, with name, section and contents.\<close>

record 'i ir_module =
  m_functions :: "'i ir_function list"
  m_globals :: "(string \<times> string \<times> 8 word list) list"

fun is_return :: "'i inst \<Rightarrow> bool" where
  "is_return (ReturnInst _) = True"
| "is_return _ = False"

text \<open>\<^verbatim>\<open>s.find(p) == 0\<close>: \<open>p\<close> is a prefix of \<open>s\<close>.\<close>

definition starts_with :: "string \<Rightarrow> string \<Rightarrow> bool" where
  "starts_with p s \<longleftrightarrow> take (length p) s = p"

section \<open>Names of blocks\<close>

text \<open>
  \<^verbatim>\<open>setName\<close> is LLVM's: \<open>uniq taken n\<close> is the name a value gets that asks for \<open>n\<close> when the names
  \<open>taken\<close> are in use.
\<close>

fun name_blocks ::
    "(string list \<Rightarrow> string \<Rightarrow> string) \<Rightarrow> string \<Rightarrow> string list \<Rightarrow>
     'i basic_block list \<Rightarrow> 'i basic_block list" where
  "name_blocks uniq fname taken [] = []"
| "name_blocks uniq fname taken (bb # bbs) =
     (let n = uniq taken (''['' @ fname @ '']'' @ bb_operand bb)
      in bb\<lparr>bb_name := n\<rparr> # name_blocks uniq fname (n # taken) bbs)"

definition nameBasicBlocks ::
    "(string list \<Rightarrow> string \<Rightarrow> string) \<Rightarrow> 'i ir_function \<Rightarrow> 'i ir_function" where
  "nameBasicBlocks uniq f = f\<lparr>f_blocks := name_blocks uniq (f_name f) [] (f_blocks f)\<rparr>"

section \<open>The calls of a block\<close>

fun call_label :: "file_map_reader \<Rightarrow> 'i inst \<Rightarrow> string list" where
  "call_label r (CallInst (Some c) _) =
     (if isStringInMap r (fn_name c) then [''libc:'' @ fn_name c]
      else if fn_intrinsic c then [''llvm:'' @ fn_name c]
      else if fn_declaration c then [''decl:'' @ fn_name c]
      else [''user:'' @ fn_name c])"
| "call_label r (CallInst None _) = []"
| "call_label r (ReturnInst _) = []"
| "call_label r (OtherInst _) = []"

definition getLibraryCalls :: "file_map_reader \<Rightarrow> 'i basic_block \<Rightarrow> string list" where
  "getLibraryCalls r bb = concat (map (call_label r) (bb_insts bb))"

section \<open>Injected system calls\<close>

text \<open>
  The function \<^verbatim>\<open>DummySyscallF\<close> that \<^verbatim>\<open>setupDummySyscall\<close> looks up.  Where the module does not have it, LLVM
  inserts its declaration; the functions of the model's module are left as they are, since a
  declaration has no blocks and is skipped by every loop of the pass.
\<close>

definition syscall_callee :: callee where
  "syscall_callee = \<lparr>fn_name = ''syscall'', fn_intrinsic = False, fn_declaration = True\<rparr>"

definition dummy_call :: "int \<Rightarrow> 'i inst" where
  "dummy_call n = CallInst (Some syscall_callee) [Int64 336, Int64 (of_int n)]"

definition init_call :: "64 word \<Rightarrow> 'i inst" where
  "init_call sz = CallInst (Some syscall_callee) [Int64 337, BufferPtr, Int64 sz]"

definition cleanup_call :: "'i inst" where
  "cleanup_call = CallInst (Some syscall_callee) [Int64 338]"

text \<open>The injection loop of \<^verbatim>\<open>runOnModule\<close>: the call is inserted before the instruction.\<close>

fun injectDummySyscall :: "file_map_reader \<Rightarrow> 'i inst list \<Rightarrow> 'i inst list" where
  "injectDummySyscall r [] = []"
| "injectDummySyscall r (CallInst (Some c) args # is) =
     (if isStringInMap r (fn_name c)
      then dummy_call (getValueFromMap r (fn_name c)) # CallInst (Some c) args # injectDummySyscall r is
      else CallInst (Some c) args # injectDummySyscall r is)"
| "injectDummySyscall r (i # is) = i # injectDummySyscall r is"

definition inject_function :: "file_map_reader \<Rightarrow> 'i ir_function \<Rightarrow> 'i ir_function" where
  "inject_function r f =
     f\<lparr>f_blocks := map (\<lambda>bb. bb\<lparr>bb_insts := injectDummySyscall r (bb_insts bb)\<rparr>) (f_blocks f)\<rparr>"

text \<open>Whether anything was injected (\<^verbatim>\<open>InsertedAtLeastOnePrintf\<close>).\<close>

definition has_library_call :: "file_map_reader \<Rightarrow> 'i ir_function \<Rightarrow> bool" where
  "has_library_call r f \<longleftrightarrow>
     (\<exists>bb\<in>set (f_blocks f). \<exists>i\<in>set (bb_insts bb).
        case i of CallInst (Some c) _ \<Rightarrow> isStringInMap r (fn_name c) | _ \<Rightarrow> False)"

text \<open>
  \<^verbatim>\<open>SectionAddressHandler\<close>: the data becomes a global array, and every defined function whose
  name begins with \<^verbatim>\<open>main\<close> calls the init system call at the start of its entry block.
\<close>

fun insert_first :: "'i inst \<Rightarrow> 'i basic_block list \<Rightarrow> 'i basic_block list" where
  "insert_first i [] = []"
| "insert_first i (bb # bbs) = bb\<lparr>bb_insts := i # bb_insts bb\<rparr> # bbs"

definition is_main :: "'i ir_function \<Rightarrow> bool" where
  "is_main f \<longleftrightarrow> \<not> f_declaration f \<and> starts_with ''main'' (f_name f)"

definition SectionAddressHandler :: "8 word list \<Rightarrow> 'i ir_module \<Rightarrow> 'i ir_module" where
  "SectionAddressHandler data M =
     M\<lparr>m_globals := m_globals M @ [(''SanboxInitData'', ''sandbox_init_data_section'', data)],
       m_functions := map (\<lambda>f.
         if is_main f
         then f\<lparr>f_blocks := insert_first (init_call (of_nat (length data))) (f_blocks f)\<rparr>
         else f) (m_functions M)\<rparr>"

text \<open>
  \<^verbatim>\<open>MemoryCleanupHandler\<close>: \<^verbatim>\<open>lastInst\<close> is the last instruction, in the order of the blocks,
  that comes before the return instruction of its block; it stays null when there is none.
\<close>

fun last_inst :: "nat \<Rightarrow> 'i basic_block list \<Rightarrow> (nat \<times> nat) option \<Rightarrow> (nat \<times> nat) option" where
  "last_inst b [] found = found"
| "last_inst b (bb # bbs) found =
     (let pre = takeWhile (\<lambda>i. \<not> is_return i) (bb_insts bb)
      in last_inst (Suc b) bbs (if pre = [] then found else Some (b, length pre - 1)))"

definition insert_at :: "nat \<Rightarrow> 'a \<Rightarrow> 'a list \<Rightarrow> 'a list" where
  "insert_at k x xs = take k xs @ x # drop k xs"

definition cleanup_function :: "'i ir_function \<Rightarrow> 'i ir_function res" where
  "cleanup_function f =
     (if \<not> is_main f then Inr f
      else case last_inst 0 (f_blocks f) None of
             None \<Rightarrow> Inl Null_deref
           | Some (b, k) \<Rightarrow>
               let bb = f_blocks f ! b
               in Inr (f\<lparr>f_blocks := (f_blocks f)[b := bb\<lparr>bb_insts := insert_at k cleanup_call (bb_insts bb)\<rparr>]\<rparr>))"

fun cleanup_functions :: "'i ir_function list \<Rightarrow> 'i ir_function list res" where
  "cleanup_functions [] = Inr []"
| "cleanup_functions (f # fs) =
     and_then (cleanup_function f) (\<lambda>f'.
     and_then (cleanup_functions fs) (\<lambda>fs'. Inr (f' # fs')))"

definition MemoryCleanupHandler :: "'i ir_module \<Rightarrow> 'i ir_module res" where
  "MemoryCleanupHandler M =
     and_then (cleanup_functions (m_functions M)) (\<lambda>fs. Inr (M\<lparr>m_functions := fs\<rparr>))"

section \<open>Guards and labels agree\<close>

text \<open>The numbers a list of instructions passes to the dummy system call.\<close>

fun guard_number :: "'i inst \<Rightarrow> 64 word list" where
  "guard_number (CallInst (Some c) [Int64 k, Int64 n]) =
     (if fn_name c = ''syscall'' \<and> k = 336 then [n] else [])"
| "guard_number _ = []"

definition guard_numbers :: "'i inst list \<Rightarrow> 64 word list" where
  "guard_numbers is = concat (map guard_number is)"

text \<open>The number the pass gives to the label of an edge (\<^verbatim>\<open>GenerateInMemoryGraph\<close>).\<close>

definition edge_number :: "file_map_reader \<Rightarrow> string \<Rightarrow> 64 word" where
  "edge_number r edge =
     of_int (getValueFromMap r (if starts_with ''libc:'' edge then drop 5 edge else edge))"

lemma guard_dummy_call: "guard_number (dummy_call n) = [of_int n]"
  by (simp add: dummy_call_def syscall_callee_def)

lemma injected_numbers:
  assumes "guard_numbers is = []"
  shows "guard_numbers (injectDummySyscall r is) =
    map (edge_number r) (filter (starts_with ''libc:'') (concat (map (call_label r) is)))"
  using assms
  by (induction r "is" rule: injectDummySyscall.induct)
    (auto simp: guard_numbers_def guard_dummy_call edge_number_def starts_with_def)

text \<open>Without a listing there are neither guards nor labels of library calls.\<close>

lemma inject_unlisted:
  assumes "\<And>n. \<not> isStringInMap r n"
  shows "injectDummySyscall r is = is"
  using assms by (induction r "is" rule: injectDummySyscall.induct) simp_all

lemma unlisted_label:
  assumes "\<And>n. \<not> isStringInMap r n"
  shows "filter (starts_with ''libc:'') (call_label r i) = []"
  using assms by (induction r i rule: call_label.induct) (auto simp: starts_with_def)

lemma last_inst_found: "last_inst b bbs (Some x) \<noteq> None"
  by (induction bbs arbitrary: b x) (auto simp: Let_def)

lemma cleanup_after_insert:
  assumes "\<not> is_return i" "f_blocks f \<noteq> []"
  shows "\<exists>f'. cleanup_function (f\<lparr>f_blocks := insert_first i (f_blocks f)\<rparr>) = Inr f'"
proof -
  from assms(2) obtain bb bbs where b: "f_blocks f = bb # bbs" by (cases "f_blocks f") auto
  have "last_inst 0 (insert_first i (f_blocks f)) None \<noteq> None"
    using assms(1) last_inst_found by (simp add: b Let_def)
  then show ?thesis by (auto simp: cleanup_function_def Let_def split: option.split)
qed

lemma cleanup_functions_ok:
  "(\<And>f. f \<in> set fs \<Longrightarrow> \<exists>f'. cleanup_function f = Inr f') \<Longrightarrow> \<exists>fs'. cleanup_functions fs = Inr fs'"
proof (induction fs)
  case (Cons f fs)
  then obtain f' fs' where "cleanup_function f = Inr f'" "cleanup_functions fs = Inr fs'"
    by (metis list.set_intros)
  then show ?case by simp
qed simp

end
