(* ===== verification/CallGraph.thy ===== *)
theory CallGraph
  imports Graaf LlvmIR
begin

text \<open>
  \<^verbatim>\<open>GraphLib/GraphLib.cpp\<close>: the class \<^verbatim>\<open>LibcCallgraph\<close>, a graaf graph together with two maps
  from vertex names to vertex identifiers and to a flag.  Every member function is a definition
  over the graaf record \<open>L\<close>.
\<close>

section \<open>The class\<close>

record 'g callgraph =
  cg_graph :: 'g
  vertex_id_map :: "string \<rightharpoonup> vertex_id"
  func_call_map :: "string \<rightharpoonup> bool"

definition cg_empty :: "'g graaf \<Rightarrow> 'g callgraph" where
  "cg_empty L = \<lparr>cg_graph = gr_empty L, vertex_id_map = Map.empty, func_call_map = Map.empty\<rparr>"

definition add_vertex ::
    "'g graaf \<Rightarrow> string \<Rightarrow> bool \<Rightarrow> 'g callgraph \<Rightarrow> vertex_id \<times> 'g callgraph" where
  "add_vertex L v has_func_call cg =
     (case vertex_id_map cg v of
        Some i \<Rightarrow> (i, cg)
      | None \<Rightarrow>
          let (i, g) = gr_add_vertex L (cg_graph cg) v
          in (i, cg\<lparr>cg_graph := g, vertex_id_map := (vertex_id_map cg)(v \<mapsto> i),
                   func_call_map := (func_call_map cg)(v \<mapsto> has_func_call)\<rparr>))"

text \<open>Running a graph operation that may throw on the wrapped graph.\<close>

definition on_graph :: "'g callgraph \<Rightarrow> 'g res \<Rightarrow> 'g callgraph res" where
  "on_graph cg r = and_then r (\<lambda>g. Inr (cg\<lparr>cg_graph := g\<rparr>))"

definition add_edge ::
    "'g graaf \<Rightarrow> string \<Rightarrow> string \<Rightarrow> string \<Rightarrow> 'g callgraph \<Rightarrow> 'g callgraph res" where
  "add_edge L lhs rhs e cg =
     (case (vertex_id_map cg lhs, vertex_id_map cg rhs) of
        (Some a, Some b) \<Rightarrow> on_graph cg (gr_add_edge L (cg_graph cg) a b e)
      | _ \<Rightarrow> Inr cg)"

definition remove_edge ::
    "'g graaf \<Rightarrow> string \<Rightarrow> string \<Rightarrow> 'g callgraph \<Rightarrow> 'g callgraph res" where
  "remove_edge L lhs rhs cg =
     (case (vertex_id_map cg lhs, vertex_id_map cg rhs) of
        (Some a, Some b) \<Rightarrow> on_graph cg (gr_remove_edge L (cg_graph cg) a b)
      | _ \<Rightarrow> Inr cg)"

definition remove_vertex :: "'g graaf \<Rightarrow> string \<Rightarrow> 'g callgraph \<Rightarrow> 'g callgraph res" where
  "remove_vertex L v cg =
     (case vertex_id_map cg v of
        None \<Rightarrow> Inr cg
      | Some a \<Rightarrow>
          and_then (gr_remove_vertex L (cg_graph cg) a) (\<lambda>g.
            Inr (cg\<lparr>cg_graph := g, vertex_id_map := (vertex_id_map cg)(v := None),
                    func_call_map := (func_call_map cg)(v := None)\<rparr>)))"

text \<open>
  The loop of \<^verbatim>\<open>combine_vertex\<close> over the edges, which inserts into the map it runs over: \<open>ks\<close> are the
  edges still to come, and one that is inserted joins them where the library comes to it.  An edge
  out of \<open>r\<close> is repeated from \<open>l\<close>, an edge into \<open>r\<close> is repeated into \<open>l\<close> unless it comes from \<open>l\<close>, with
  the label it has when the loop is there.  Only edges of \<open>r\<close> insert others, and what they insert
  weighs less than they do, so the loop ends.
\<close>

definition add_visited ::
    "'g graaf \<Rightarrow> edge_id \<Rightarrow> string \<Rightarrow> edge_id \<Rightarrow> edge_id list \<times> 'g \<Rightarrow> (edge_id list \<times> 'g) res" where
  "add_visited L k e here st =
     and_then (gr_add_edge L (snd st) (fst k) (snd k) e) (\<lambda>g.
       Inr (if k = here \<or> k \<in> set (map fst (gr_edges L (snd st))) then fst st
            else (case gr_reached L (snd st) (fst st) k of
                    None \<Rightarrow> fst st
                  | Some i \<Rightarrow> take i (fst st) @ k # drop i (fst st)), g))"

definition move_weight :: "vertex_id \<Rightarrow> vertex_id \<Rightarrow> edge_id \<Rightarrow> nat" where
  "move_weight l r k =
     (if fst k = r then (if snd k = r then 4 else 2) else if snd k = r \<and> fst k \<noteq> l then 2 else 1)"

lemma add_visited_weight:
  assumes "add_visited L k e here st = Inr st'"
  shows "sum_list (map (move_weight l r) (fst st')) \<le>
    sum_list (map (move_weight l r) (fst st)) + (if k = here then 0 else move_weight l r k)"
proof -
  have "sum_list (map w (take i ks @ k # drop i ks)) = sum_list (map w ks) + w k"
    for w :: "edge_id \<Rightarrow> nat" and i ks
  proof -
    have "sum_list (map w ks) = sum_list (map w (take i ks)) + sum_list (map w (drop i ks))"
      by (metis append_take_drop_id map_append sum_list_append)
    then show ?thesis by simp
  qed
  then show ?thesis using assms by (auto simp: add_visited_def res_simps split: option.splits if_splits)
qed

function combine_edges ::
    "'g graaf \<Rightarrow> vertex_id \<Rightarrow> vertex_id \<Rightarrow> edge_id list \<Rightarrow> 'g \<Rightarrow> 'g res" where
  "combine_edges L l r [] g = Inr g"
| "combine_edges L l r ((a, b) # ks) g =
     and_then (gr_edge L g a b) (\<lambda>e.
     and_then (if a = r then add_visited L (l, b) e (a, b) (ks, g) else Inr (ks, g)) (\<lambda>st.
     and_then (if b = r then (if a = l then Inr st else add_visited L (a, l) e (a, b) st) else Inr st) (\<lambda>st'.
     combine_edges L l r (fst st') (snd st'))))"
  by pat_completeness auto
termination
proof (relation "measure (\<lambda>(L, l, r, ks, g). sum_list (map (move_weight l r) ks))", goal_cases)
  case (2 L l r a b ks g e st st')
  let ?w = "\<lambda>ks. sum_list (map (move_weight l r) ks)"
  have "?w (fst st) \<le> ?w ks + (if a = r \<and> (l, b) \<noteq> (a, b) then move_weight l r (l, b) else 0)"
    using 2(2) add_visited_weight [of L "(l, b)" e "(a, b)" "(ks, g)" st l r] by (auto split: if_splits)
  moreover have "?w (fst st') \<le> ?w (fst st) +
      (if b = r \<and> a \<noteq> l \<and> (a, l) \<noteq> (a, b) then move_weight l r (a, l) else 0)"
    using 2(3) add_visited_weight [of L "(a, l)" e "(a, b)" st st' l r] by (auto split: if_splits)
  ultimately show ?case by (cases st') (auto simp: move_weight_def split: if_splits)
qed simp

definition combine_vertex ::
    "'g graaf \<Rightarrow> string \<Rightarrow> string \<Rightarrow> 'g callgraph \<Rightarrow> 'g callgraph res" where
  "combine_vertex L lhs rhs cg =
     (case (vertex_id_map cg lhs, vertex_id_map cg rhs) of
        (Some l, Some r) \<Rightarrow>
          and_then (combine_edges L l r (map fst (gr_edges L (cg_graph cg))) (cg_graph cg)) (\<lambda>g1.
          and_then (gr_remove_vertex L g1 r) (\<lambda>g2.
          Inr (cg\<lparr>cg_graph := g2, vertex_id_map := (vertex_id_map cg)(rhs := None),
                  func_call_map := (func_call_map cg)(rhs := None)\<rparr>)))
      | _ \<Rightarrow> Inr cg)"

section \<open>Queries\<close>

fun map_res :: "('a \<Rightarrow> 'b res) \<Rightarrow> 'a list \<Rightarrow> 'b list res" where
  "map_res f [] = Inr []"
| "map_res f (x # xs) = and_then (f x) (\<lambda>y. and_then (map_res f xs) (\<lambda>ys. Inr (y # ys)))"

definition get_outgoing_edges :: "'g graaf \<Rightarrow> string \<Rightarrow> 'g callgraph \<Rightarrow> string list res" where
  "get_outgoing_edges L v cg =
     (case vertex_id_map cg v of
        None \<Rightarrow> Inr []
      | Some a \<Rightarrow>
          and_then (gr_neighbors L (cg_graph cg) a) (map_res (gr_edge L (cg_graph cg) a)))"

definition get_neighbors :: "'g graaf \<Rightarrow> string \<Rightarrow> 'g callgraph \<Rightarrow> string list res" where
  "get_neighbors L v cg =
     (case vertex_id_map cg v of
        None \<Rightarrow> Inr []
      | Some a \<Rightarrow> and_then (gr_neighbors L (cg_graph cg) a) (map_res (gr_vertex L (cg_graph cg))))"

text \<open>The neighbours behind the edges whose label satisfies \<open>P\<close>, in iteration order.\<close>

fun select_neighbors ::
    "'g graaf \<Rightarrow> (string \<Rightarrow> bool) \<Rightarrow> 'g \<Rightarrow> vertex_id \<Rightarrow> vertex_id list \<Rightarrow> string list res" where
  "select_neighbors L P g a [] = Inr []"
| "select_neighbors L P g a (b # bs) =
     and_then (gr_edge L g a b) (\<lambda>e.
     and_then (if P e then and_then (gr_vertex L g b) (\<lambda>v. Inr [v]) else Inr []) (\<lambda>vs.
     and_then (select_neighbors L P g a bs) (\<lambda>ws. Inr (vs @ ws))))"

definition labelled_neighbors ::
    "'g graaf \<Rightarrow> (string \<Rightarrow> bool) \<Rightarrow> string \<Rightarrow> 'g callgraph \<Rightarrow> string list res" where
  "labelled_neighbors L P v cg =
     (case vertex_id_map cg v of
        None \<Rightarrow> Inr []
      | Some a \<Rightarrow> and_then (gr_neighbors L (cg_graph cg) a) (select_neighbors L P (cg_graph cg) a))"

definition is_control :: "string \<Rightarrow> bool" where
  "is_control e \<longleftrightarrow> e = ''control''"

definition is_user :: "string \<Rightarrow> bool" where
  "is_user e \<longleftrightarrow> starts_with ''user:'' e"

definition get_control_edge_neighbors :: "'g graaf \<Rightarrow> string \<Rightarrow> 'g callgraph \<Rightarrow> string list res" where
  "get_control_edge_neighbors L = labelled_neighbors L is_control"

definition get_user_edge_neighbors :: "'g graaf \<Rightarrow> string \<Rightarrow> 'g callgraph \<Rightarrow> string list res" where
  "get_user_edge_neighbors L = labelled_neighbors L is_user"

definition get_vertices :: "'g graaf \<Rightarrow> 'g callgraph \<Rightarrow> string list" where
  "get_vertices L cg = rev (map snd (gr_vertices L (cg_graph cg)))"

section \<open>Inserting another graph\<close>

text \<open>\<^verbatim>\<open>func_call_map.at\<close> throws when the key is missing.\<close>

fun insert_vertices ::
    "'g graaf \<Rightarrow> (string \<rightharpoonup> bool) \<Rightarrow> (vertex_id \<times> string) list \<Rightarrow> 'g callgraph \<Rightarrow> 'g callgraph res" where
  "insert_vertices L flags [] cg = Inr cg"
| "insert_vertices L flags ((a, v) # vs) cg =
     (case flags v of
        None \<Rightarrow> Inl (Uncaught ''out_of_range'')
      | Some b \<Rightarrow> insert_vertices L flags vs (snd (add_vertex L v b cg)))"

fun insert_edges ::
    "'g graaf \<Rightarrow> 'g \<Rightarrow> (edge_id \<times> string) list \<Rightarrow> 'g callgraph \<Rightarrow> 'g callgraph res" where
  "insert_edges L h [] cg = Inr cg"
| "insert_edges L h (((a, b), e) # es) cg =
     and_then (gr_vertex L h a) (\<lambda>u.
     and_then (gr_vertex L h b) (\<lambda>v.
     and_then (add_edge L u v e cg) (insert_edges L h es)))"

definition insert_graph :: "'g graaf \<Rightarrow> 'g callgraph \<Rightarrow> 'g callgraph \<Rightarrow> 'g callgraph res" where
  "insert_graph L other cg =
     and_then (insert_vertices L (func_call_map other) (gr_vertices L (cg_graph other)) cg)
       (insert_edges L (cg_graph other) (gr_edges L (cg_graph other)))"

end
