(* ===== verification/CallGraphSpec.thy ===== *)
theory CallGraphSpec
  imports CallGraph
begin

text \<open>
  What \<^verbatim>\<open>LibcCallgraph\<close> promises, stated over names: the vertices with their flags and the
  labelled edges between them.  Every member function keeps the class invariant \<open>cg_inv\<close> and
  never throws; all lemmas are proved in the locale \<open>graaf_lib\<close>, from the library's documented
  behaviour alone.
\<close>

section \<open>Names instead of identifiers\<close>

text \<open>The labelled edges between vertex names, and the invariant of the class.\<close>

definition cg_edges :: "'g graaf \<Rightarrow> 'g callgraph \<Rightarrow> (string \<times> string) \<rightharpoonup> string" where
  "cg_edges L cg = (\<lambda>(u, v).
     Option.bind (vertex_id_map cg u) (\<lambda>a.
     Option.bind (vertex_id_map cg v) (\<lambda>b. emap L (cg_graph cg) (a, b))))"

definition cg_inv :: "'g graaf \<Rightarrow> ('g \<Rightarrow> bool) \<Rightarrow> 'g callgraph \<Rightarrow> bool" where
  "cg_inv L ok cg \<longleftrightarrow>
     ok (cg_graph cg) \<and>
     (\<forall>u a. vertex_id_map cg u = Some a \<longleftrightarrow> vmap L (cg_graph cg) a = Some u) \<and>
     dom (func_call_map cg) = dom (vertex_id_map cg)"

lemma vertex_id_map_cong:
  "vertex_id_map cg' = vertex_id_map cg \<Longrightarrow> emap L (cg_graph cg') = emap L (cg_graph cg) \<Longrightarrow>
     cg_edges L cg' = cg_edges L cg"
  by (simp add: cg_edges_def)

context graaf_lib
begin

lemma inv_ids:
  assumes "cg_inv L ok cg"
  shows "ok (cg_graph cg)" "vertex_id_map cg u = Some a \<longleftrightarrow> vmap L (cg_graph cg) a = Some u"
    "dom (func_call_map cg) = dom (vertex_id_map cg)"
    "vertex_id_map cg u = Some a \<Longrightarrow> vertex_id_map cg v = Some a \<Longrightarrow> u = v"
    "vertex_id_map cg u = Some a \<Longrightarrow> a \<in> dom (vmap L (cg_graph cg))"
  using assms by (auto simp: cg_inv_def)

lemma edges_iff:
  assumes "cg_inv L ok cg"
  shows "cg_edges L cg (u, v) = Some e \<longleftrightarrow>
    (\<exists>a b. vertex_id_map cg u = Some a \<and> vertex_id_map cg v = Some b \<and>
           emap L (cg_graph cg) (a, b) = Some e)"
  by (auto simp: cg_edges_def bind_eq_Some_conv)

lemma edge_ends:
  "cg_inv L ok cg \<Longrightarrow> cg_edges L cg (u, v) = Some e \<Longrightarrow>
     u \<in> dom (vertex_id_map cg) \<and> v \<in> dom (vertex_id_map cg)"
  by (auto simp: edges_iff)

lemma inv_update:
  assumes "cg_inv L ok cg" "ok g'" "vmap L g' = vmap L (cg_graph cg)"
  shows "cg_inv L ok (cg\<lparr>cg_graph := g'\<rparr>)"
  using assms by (simp add: cg_inv_def)

lemma empty_inv: "cg_inv L ok (cg_empty L)" "cg_edges L (cg_empty L) = Map.empty"
  by (auto simp: cg_inv_def cg_empty_def cg_edges_def empty fun_eq_iff)

lemma add_vertex_inv:
  assumes "cg_inv L ok cg" "CallGraph.add_vertex L v f cg = (i, cg')"
  shows "cg_inv L ok cg' \<and> vertex_id_map cg' v = Some i \<and>
    func_call_map cg' = (if v \<in> dom (func_call_map cg) then func_call_map cg
                         else (func_call_map cg)(v \<mapsto> f)) \<and>
    cg_edges L cg' = cg_edges L cg"
proof (cases "vertex_id_map cg v")
  case (Some a)
  with assms inv_ids(3) [OF assms(1)] show ?thesis by (auto simp: CallGraph.add_vertex_def)
next
  case None
  obtain j g where g: "gr_add_vertex L (cg_graph cg) v = (j, g)" by (metis surj_pair)
  note a = add_vertex [OF inv_ids(1) [OF assms(1)] g]
  have cg': "i = j" "cg' = cg\<lparr>cg_graph := g, vertex_id_map := (vertex_id_map cg)(v \<mapsto> j),
      func_call_map := (func_call_map cg)(v \<mapsto> f)\<rparr>"
    using assms(2) None g by (auto simp: CallGraph.add_vertex_def)
  have "cg_inv L ok cg'"
    using assms(1) a None by (auto simp: cg_inv_def cg')
  moreover have "emap L (cg_graph cg) (x, y) = None" if "x = j \<or> y = j" for x y
    using a endpoints [OF inv_ids(1) [OF assms(1)], of x y] that
    by (cases "emap L (cg_graph cg) (x, y)") auto
  then have "cg_edges L cg' = cg_edges L cg"
    using a None by (auto simp: cg_edges_def cg' fun_eq_iff split: Option.bind_split)
  ultimately show ?thesis
    using inv_ids(3) [OF assms(1)] None cg' by auto
qed

lemma add_edge_inv:
  assumes "cg_inv L ok cg"
  shows "\<exists>cg'. CallGraph.add_edge L u v e cg = Inr cg' \<and> cg_inv L ok cg' \<and>
    vertex_id_map cg' = vertex_id_map cg \<and> func_call_map cg' = func_call_map cg \<and>
    (if u \<in> dom (vertex_id_map cg) \<and> v \<in> dom (vertex_id_map cg)
     then cg_edges L cg' = (cg_edges L cg)((u, v) \<mapsto> e) \<or>
          (u, v) \<in> dom (cg_edges L cg) \<and> cg_edges L cg' = cg_edges L cg
     else cg' = cg)"
proof (cases "u \<in> dom (vertex_id_map cg) \<and> v \<in> dom (vertex_id_map cg)")
  case False
  then show ?thesis using assms by (auto simp: CallGraph.add_edge_def split: option.splits)
next
  case True
  then obtain a b where ab: "vertex_id_map cg u = Some a" "vertex_id_map cg v = Some b" by auto
  note i = inv_ids [OF assms]
  from add_edge [OF i(1) i(5) [OF ab(1)] i(5) [OF ab(2)], of e] obtain g where
    g: "gr_add_edge L (cg_graph cg) a b e = Inr g" "ok g" "vmap L g = vmap L (cg_graph cg)"
    "emap L g = (emap L (cg_graph cg))((a, b) \<mapsto> e) \<or>
     (a, b) \<in> dom (emap L (cg_graph cg)) \<and> emap L g = emap L (cg_graph cg)" by blast
  have "cg_edges L (cg\<lparr>cg_graph := g\<rparr>) = (cg_edges L cg)((u, v) \<mapsto> e) \<or>
     (u, v) \<in> dom (cg_edges L cg) \<and> cg_edges L (cg\<lparr>cg_graph := g\<rparr>) = cg_edges L cg"
    using g(4)
  proof
    assume "emap L g = (emap L (cg_graph cg))((a, b) \<mapsto> e)"
    then have "cg_edges L (cg\<lparr>cg_graph := g\<rparr>) = (cg_edges L cg)((u, v) \<mapsto> e)"
      using ab i(4) by (auto simp: cg_edges_def fun_eq_iff split: Option.bind_split)
    then show ?thesis ..
  next
    assume "(a, b) \<in> dom (emap L (cg_graph cg)) \<and> emap L g = emap L (cg_graph cg)"
    then show ?thesis using ab by (auto simp: cg_edges_def)
  qed
  with True ab g inv_update [OF assms g(2,3)] show ?thesis
    by (simp add: CallGraph.add_edge_def on_graph_def)
qed

lemma remove_edge_inv:
  assumes "cg_inv L ok cg"
  shows "\<exists>cg'. CallGraph.remove_edge L u v cg = Inr cg' \<and> cg_inv L ok cg' \<and>
    vertex_id_map cg' = vertex_id_map cg \<and> func_call_map cg' = func_call_map cg \<and>
    cg_edges L cg' = (cg_edges L cg)((u, v) := None)"
proof (cases "u \<in> dom (vertex_id_map cg) \<and> v \<in> dom (vertex_id_map cg)")
  case False
  then have "cg_edges L cg (u, v) = None"
    using edge_ends [OF assms] by (cases "cg_edges L cg (u, v)") auto
  then have "(cg_edges L cg)((u, v) := None) = cg_edges L cg" by (simp add: fun_upd_idem)
  with False show ?thesis
    using assms by (auto simp: CallGraph.remove_edge_def split: option.splits)
next
  case True
  then obtain a b where ab: "vertex_id_map cg u = Some a" "vertex_id_map cg v = Some b" by auto
  note i = inv_ids [OF assms]
  from remove_edge [OF i(1) i(5) [OF ab(1)] i(5) [OF ab(2)]] obtain g where
    g: "gr_remove_edge L (cg_graph cg) a b = Inr g" "ok g" "vmap L g = vmap L (cg_graph cg)"
    "emap L g = (emap L (cg_graph cg))((a, b) := None)" by blast
  have "cg_edges L (cg\<lparr>cg_graph := g\<rparr>) = (cg_edges L cg)((u, v) := None)"
    using g(4) ab i(4) by (auto simp: cg_edges_def fun_eq_iff split: Option.bind_split)
  with ab g inv_update [OF assms g(2,3)] show ?thesis
    by (simp add: CallGraph.remove_edge_def on_graph_def)
qed

lemma removed_inv:
  assumes "cg_inv L ok cg" "vertex_id_map cg v = Some a" "ok g"
    "vmap L g = (vmap L (cg_graph cg))(a := None)"
    "emap L g = (\<lambda>(x, y). if x = a \<or> y = a then None else emap L (cg_graph cg) (x, y))"
  shows "cg_inv L ok (cg\<lparr>cg_graph := g, vertex_id_map := (vertex_id_map cg)(v := None),
      func_call_map := (func_call_map cg)(v := None)\<rparr>)"
    "cg_edges L (cg\<lparr>cg_graph := g, vertex_id_map := (vertex_id_map cg)(v := None),
      func_call_map := (func_call_map cg)(v := None)\<rparr>) =
     (\<lambda>(x, y). if x = v \<or> y = v then None else cg_edges L cg (x, y))"
proof -
  note i = inv_ids [OF assms(1)]
  have u: "vertex_id_map cg x = Some a \<longleftrightarrow> x = v" for x using assms(2) i(4) by blast
  then have w: "vmap L (cg_graph cg) a = Some x \<longleftrightarrow> x = v" for x using i(2) by blast
  have w': "vmap L (cg_graph cg) x = Some v \<longleftrightarrow> x = a" for x
    using i(2) [of v x] assms(2) by auto
  show "cg_inv L ok (cg\<lparr>cg_graph := g, vertex_id_map := (vertex_id_map cg)(v := None),
      func_call_map := (func_call_map cg)(v := None)\<rparr>)"
    using assms(1,3,4) u w w' by (auto simp: cg_inv_def)
  show "cg_edges L (cg\<lparr>cg_graph := g, vertex_id_map := (vertex_id_map cg)(v := None),
      func_call_map := (func_call_map cg)(v := None)\<rparr>) =
     (\<lambda>(x, y). if x = v \<or> y = v then None else cg_edges L cg (x, y))"
    using assms(5) u by (auto simp: cg_edges_def fun_eq_iff split: Option.bind_split)
qed

lemma remove_vertex_inv:
  assumes "cg_inv L ok cg"
  shows "\<exists>cg'. CallGraph.remove_vertex L v cg = Inr cg' \<and> cg_inv L ok cg' \<and>
    func_call_map cg' = (func_call_map cg)(v := None) \<and>
    cg_edges L cg' = (\<lambda>(x, y). if x = v \<or> y = v then None else cg_edges L cg (x, y))"
proof (cases "vertex_id_map cg v")
  case None
  then have n: "func_call_map cg v = None" using inv_ids(3) [OF assms] by blast
  have "cg_edges L cg (x, y) = None" if "x = v \<or> y = v" for x y
    using None that by (auto simp: cg_edges_def)
  then have "cg_edges L cg = (\<lambda>(x, y). if x = v \<or> y = v then None else cg_edges L cg (x, y))"
    by (auto simp: fun_eq_iff)
  with None n assms show ?thesis by (simp add: CallGraph.remove_vertex_def fun_upd_idem)
next
  case (Some a)
  note i = inv_ids [OF assms]
  from remove_vertex [OF i(1) i(5) [OF Some]] obtain g where
    g: "gr_remove_vertex L (cg_graph cg) a = Inr g" "ok g"
    "vmap L g = (vmap L (cg_graph cg))(a := None)"
    "emap L g = (\<lambda>(x, y). if x = a \<or> y = a then None else emap L (cg_graph cg) (x, y))" by blast
  show ?thesis
    using removed_inv [OF assms Some g(2-4)] g(1) Some by (simp add: CallGraph.remove_vertex_def)
qed

end

section \<open>Combining two vertices\<close>

text \<open>The edges after \<open>v\<close> was combined into \<open>u\<close>: which there are, and where their labels come from.\<close>

definition merged_keys :: "'a \<Rightarrow> 'a \<Rightarrow> ('a \<times> 'a) set \<Rightarrow> ('a \<times> 'a) set" where
  "merged_keys u v E =
     {(x, y). x \<noteq> v \<and> y \<noteq> v \<and>
        ((x, y) \<in> E \<or> x = u \<and> (v, y) \<in> E \<or> y = u \<and> x \<noteq> u \<and> (x, v) \<in> E)}"

definition merged_label :: "'a \<Rightarrow> 'a \<Rightarrow> ('a \<times> 'a \<rightharpoonup> 'l) \<Rightarrow> 'a \<times> 'a \<Rightarrow> 'l \<Rightarrow> bool" where
  "merged_label u v E k e \<longleftrightarrow>
     (case k of (x, y) \<Rightarrow> E (x, y) = Some e \<or> x = u \<and> E (v, y) = Some e \<or>
        y = u \<and> x \<noteq> u \<and> E (x, v) = Some e)"

text \<open>
  An edge from \<open>v\<close> to itself is repeated as one from \<open>v\<close> to \<open>u\<close>; when the loop comes to that one too,
  there is an edge from \<open>u\<close> to itself.
\<close>

definition loop_key :: "'a \<Rightarrow> 'a \<Rightarrow> ('a \<times> 'a) set \<Rightarrow> ('a \<times> 'a) set" where
  "loop_key u v E = (if (v, v) \<in> E \<and> u \<noteq> v then {(u, u)} else {})"

definition moved_label :: "'a \<Rightarrow> 'a \<Rightarrow> ('a \<times> 'a \<rightharpoonup> 'l) \<Rightarrow> 'a \<times> 'a \<Rightarrow> 'l \<Rightarrow> bool" where
  "moved_label u v E k e \<longleftrightarrow> merged_label u v E k e \<or> k = (u, u) \<and> E (v, v) = Some e"

lemma moved_label_again:
  "moved_label u v E (v, y) e \<Longrightarrow> moved_label u v E (u, y) e"
  "moved_label u v E (x, v) e \<Longrightarrow> x \<noteq> u \<Longrightarrow> moved_label u v E (x, u) e"
  by (auto simp: moved_label_def merged_label_def)

lemma moved_label_own: "E k = Some e \<Longrightarrow> moved_label u v E k e"
  by (cases k) (simp add: moved_label_def merged_label_def)

context graaf_lib
begin

lemma add_visited_spec:
  assumes "ok g" "fst k \<in> dom (vmap L g)" "snd k \<in> dom (vmap L g)"
  obtains ks' g' where "add_visited L k e here (ks, g) = Inr (ks', g')" "ok g'" "vmap L g' = vmap L g"
    "dom (emap L g') = insert k (dom (emap L g))"
    "\<forall>k' e'. emap L g' k' = Some e' \<longrightarrow> emap L g k' = Some e' \<or> k' = k \<and> e' = e"
    "set ks \<subseteq> set ks'" "set ks' \<subseteq> insert k (set ks)"
proof -
  from add_edge [OF assms, of e] obtain g' where
    g': "gr_add_edge L g (fst k) (snd k) e = Inr g'" "ok g'" "vmap L g' = vmap L g"
    "emap L g' = (emap L g)(k \<mapsto> e) \<or> k \<in> dom (emap L g) \<and> emap L g' = emap L g" by auto
  let ?ks' = "if k = here \<or> k \<in> set (map fst (gr_edges L g)) then ks
    else case gr_reached L g ks k of None \<Rightarrow> ks | Some i \<Rightarrow> take i ks @ k # drop i ks"
  have "set (take i ks @ k # drop i ks) = insert k (set ks)" for i
    by (metis append_take_drop_id insert_is_Un list.simps(15) set_append sup_left_commute)
  then have "set ks \<subseteq> set ?ks'" "set ?ks' \<subseteq> insert k (set ks)" by (auto split: option.splits)
  moreover have "add_visited L k e here (ks, g) = Inr (?ks', g')" using g'(1) by (simp add: add_visited_def split: option.split)
  moreover have "dom (emap L g') = insert k (dom (emap L g))"
    "\<forall>k' e'. emap L g' k' = Some e' \<longrightarrow> emap L g k' = Some e' \<or> k' = k \<and> e' = e"
    using g'(4) by (auto split: if_splits)
  ultimately show thesis using that g'(2,3) by blast
qed

text \<open>What holds at every point of the loop, with \<open>ks\<close> still to come.\<close>

definition moving where
  "moving l r V E ks g \<longleftrightarrow> ok g \<and> vmap L g = V \<and> set ks \<subseteq> dom (emap L g) \<and> dom E \<subseteq> dom (emap L g) \<and>
     (\<forall>k e. emap L g k = Some e \<longrightarrow> moved_label l r E k e) \<and>
     (\<forall>b. (r, b) \<in> dom E \<longrightarrow> (r, b) \<in> set ks \<or> (l, b) \<in> dom (emap L g)) \<and>
     (\<forall>a. a \<noteq> l \<and> (a, r) \<in> dom E \<longrightarrow> (a, r) \<in> set ks \<or> (a, l) \<in> dom (emap L g))"

lemma moving_add:
  assumes "moving l r V E (here # ks) g" "fst k \<in> dom V" "snd k \<in> dom V" "moved_label l r E k e"
  obtains ks' g' where "add_visited L k e here (ks, g) = Inr (ks', g')" "moving l r V E (here # ks') g'"
    "dom (emap L g') = insert k (dom (emap L g))"
proof -
  note m = assms(1) [unfolded moving_def]
  from m assms(2,3) have "ok g" "fst k \<in> dom (vmap L g)" "snd k \<in> dom (vmap L g)" by simp_all
  from add_visited_spec [OF this, of e here ks] obtain ks' g' where g': "add_visited L k e here (ks, g) = Inr (ks', g')" "ok g'"
    "vmap L g' = vmap L g" "dom (emap L g') = insert k (dom (emap L g))"
    "\<forall>k' e'. emap L g' k' = Some e' \<longrightarrow> emap L g k' = Some e' \<or> k' = k \<and> e' = e"
    "set ks \<subseteq> set ks'" "set ks' \<subseteq> insert k (set ks)" .
  have "moving l r V E (here # ks') g'"
    unfolding moving_def
  proof (intro conjI)
    show "ok g'" "vmap L g' = V" using g'(2,3) m by simp_all
    have sub: "insert h A' \<subseteq> insert k D" if "insert h A \<subseteq> D" "A' \<subseteq> insert k A" for h k :: edge_id and A A' D
      using that by blast
    have "insert here (set ks) \<subseteq> dom (emap L g)" using m by simp
    from sub [OF this g'(7)] show "set (here # ks') \<subseteq> dom (emap L g')" unfolding g'(4) by simp
    show "dom E \<subseteq> dom (emap L g')" unfolding g'(4) using m by (simp add: subset_insertI2)
    have old: "\<forall>k e. emap L g k = Some e \<longrightarrow> moved_label l r E k e" using m by simp
    show "\<forall>k e. emap L g' k = Some e \<longrightarrow> moved_label l r E k e"
    proof (intro allI impI)
      fix j d assume "emap L g' j = Some d"
      with g'(5) have "emap L g j = Some d \<or> j = k \<and> d = e" by blast
      with old assms(4) show "moved_label l r E j d" by blast
    qed
    have step: "j \<in> set (here # ks) \<or> j' \<in> dom (emap L g) \<Longrightarrow> j \<in> set (here # ks') \<or> j' \<in> dom (emap L g')" for j j'
      using g'(6) unfolding g'(4) by auto
    show "\<forall>b. (r, b) \<in> dom E \<longrightarrow> (r, b) \<in> set (here # ks') \<or> (l, b) \<in> dom (emap L g')"
      by (intro allI impI, rule step) (use m in simp)
    show "\<forall>a. a \<noteq> l \<and> (a, r) \<in> dom E \<longrightarrow> (a, r) \<in> set (here # ks') \<or> (a, l) \<in> dom (emap L g')"
      by (intro allI impI, rule step) (use m in simp)
  qed
  with g'(1,4) that show thesis by blast
qed

lemma moving_pass:
  assumes "moving l r V E ((a, b) # ks) g"
    and "a = r \<Longrightarrow> (l, b) \<in> dom (emap L g)" "b = r \<Longrightarrow> a \<noteq> l \<Longrightarrow> (a, l) \<in> dom (emap L g)"
  shows "moving l r V E ks g"
  using assms unfolding moving_def by auto

lemma combine_edges_run:
  "L' = L \<Longrightarrow> moving l r V E ks g \<Longrightarrow> l \<in> dom V \<Longrightarrow> r \<in> dom V \<Longrightarrow>
     \<exists>g'. combine_edges L' l r ks g = Inr g' \<and> moving l r V E [] g'"
proof (induction L' l r ks g rule: combine_edges.induct)
  case (2 L' l r a b ks g)
  note m = 2(3) [unfolded moving_def]
  from m obtain e where e: "emap L g (a, b) = Some e" by auto
  then have ge: "gr_edge L g a b = Inr e" using edge m by blast
  have ends: "a \<in> dom V" "b \<in> dom V" and lab: "moved_label l r E (a, b) e" using endpoints [of g a b e] m e by auto
  obtain ks1 g1 where out: "(if a = r then add_visited L (l, b) e (a, b) (ks, g) else Inr (ks, g)) = Inr (ks1, g1)"
    "moving l r V E ((a, b) # ks1) g1" "a = r \<Longrightarrow> (l, b) \<in> dom (emap L g1)"
  proof (cases "a = r")
    case True
    with lab have "moved_label l r E (l, b) e" using moved_label_again(1) by metis
    from moving_add [OF 2(3) _ _ this] 2(4) ends(2) obtain ks1 g1 where
      "add_visited L (l, b) e (a, b) (ks, g) = Inr (ks1, g1)" "moving l r V E ((a, b) # ks1) g1"
      "dom (emap L g1) = insert (l, b) (dom (emap L g))" by (metis fst_conv snd_conv)
    with True that show thesis by simp
  qed (use 2(3) that in auto)
  obtain ks2 g2 where into: "(if b = r then (if a = l then Inr (ks1, g1) else add_visited L (a, l) e (a, b) (ks1, g1))
      else Inr (ks1, g1)) = Inr (ks2, g2)" "moving l r V E ((a, b) # ks2) g2"
    "a = r \<Longrightarrow> (l, b) \<in> dom (emap L g2)" "b = r \<Longrightarrow> a \<noteq> l \<Longrightarrow> (a, l) \<in> dom (emap L g2)"
  proof (cases "b = r \<and> a \<noteq> l")
    case True
    with lab have "moved_label l r E (a, l) e" using moved_label_again(2) by metis
    from moving_add [OF out(2) _ _ this] 2(4) ends(1) obtain ks2 g2 where
      "add_visited L (a, l) e (a, b) (ks1, g1) = Inr (ks2, g2)" "moving l r V E ((a, b) # ks2) g2"
      "dom (emap L g2) = insert (a, l) (dom (emap L g1))" by (metis fst_conv snd_conv)
    with True out(3) that show thesis by simp
  qed (use out that in auto)
  have "moving l r V E ks2 g2" by (rule moving_pass [OF into(2-4)])
  from 2(1) [unfolded 2(2), of e "(ks1, g1)" "(ks2, g2)", OF ge out(1)] into(1) this 2(4,5)
  have "\<exists>g'. combine_edges L l r ks2 g2 = Inr g' \<and> moving l r V E [] g'" by simp
  with ge out(1) into(1) show ?case by (simp add: 2(2))
qed simp

lemma combine_edges_spec:
  assumes "ok g" "l \<in> dom (vmap L g)" "r \<in> dom (vmap L g)"
  shows "\<exists>g'. combine_edges L l r (map fst (gr_edges L g)) g = Inr g' \<and> ok g' \<and> vmap L g' = vmap L g \<and>
    (\<forall>x y. x \<noteq> r \<longrightarrow> y \<noteq> r \<longrightarrow>
       ((x, y) \<in> merged_keys l r (dom (emap L g)) \<longrightarrow> (x, y) \<in> dom (emap L g')) \<and>
       (\<forall>e. emap L g' (x, y) = Some e \<longrightarrow> moved_label l r (emap L g) (x, y) e))"
proof -
  have "moving l r (vmap L g) (emap L g) (map fst (gr_edges L g)) g"
    using assms(1) moved_label_own [of "emap L g"] by (auto simp: moving_def emap_def dom_map_of_conv_image_fst)
  from combine_edges_run [OF refl this assms(2,3)] obtain g' where
    g': "combine_edges L l r (map fst (gr_edges L g)) g = Inr g'" "moving l r (vmap L g) (emap L g) [] g'" by blast
  note m = g'(2) [unfolded moving_def]
  have "(x, y) \<in> dom (emap L g')" if "(x, y) \<in> merged_keys l r (dom (emap L g))" for x y
    using that m by (auto simp: merged_keys_def)
  with g'(1) m show ?thesis by blast
qed

lemma combine_vertex_absent:
  assumes "cg_inv L ok cg" "u \<notin> dom (vertex_id_map cg) \<or> v \<notin> dom (vertex_id_map cg)"
  shows "combine_vertex L u v cg = Inr cg"
  using assms(2) by (auto simp: combine_vertex_def split: option.splits)

text \<open>From vertices to the names of the container: keys and labels of a combination.\<close>

lemma combined_labels:
  assumes "cg_inv L ok cg" "vertex_id_map cg u = Some l" "vertex_id_map cg v = Some r"
    "vertex_id_map cg x = Some a" "vertex_id_map cg y = Some b"
  shows "moved_label l r (emap L (cg_graph cg)) (a, b) e \<longleftrightarrow> moved_label u v (cg_edges L cg) (x, y) e"
    "a \<noteq> r \<and> b \<noteq> r \<longleftrightarrow> x \<noteq> v \<and> y \<noteq> v"
    "(a, b) \<in> merged_keys l r (dom (emap L (cg_graph cg))) \<longleftrightarrow> (x, y) \<in> merged_keys u v (dom (cg_edges L cg))"
proof -
  note inj = inv_ids(4) [OF assms(1)]
  have ids: "(x = v \<longleftrightarrow> a = r) \<and> (x = u \<longleftrightarrow> a = l) \<and> (y = v \<longleftrightarrow> b = r) \<and> (y = u \<longleftrightarrow> b = l)"
    using assms(2-5) inj by auto
  have E: "cg_edges L cg (x, y) = emap L (cg_graph cg) (a, b)" "cg_edges L cg (v, y) = emap L (cg_graph cg) (r, b)"
    "cg_edges L cg (x, v) = emap L (cg_graph cg) (a, r)" "cg_edges L cg (v, v) = emap L (cg_graph cg) (r, r)"
    using assms(2-5) by (simp_all add: cg_edges_def)
  show "moved_label l r (emap L (cg_graph cg)) (a, b) e \<longleftrightarrow> moved_label u v (cg_edges L cg) (x, y) e"
    "a \<noteq> r \<and> b \<noteq> r \<longleftrightarrow> x \<noteq> v \<and> y \<noteq> v"
    "(a, b) \<in> merged_keys l r (dom (emap L (cg_graph cg))) \<longleftrightarrow> (x, y) \<in> merged_keys u v (dom (cg_edges L cg))"
    using ids by (simp_all add: moved_label_def merged_label_def merged_keys_def domIff E)
qed

text \<open>The same between names: the edges after the loop that moves them.\<close>

lemma combined_names:
  assumes "cg_inv L ok cg" "vertex_id_map cg u = Some l" "vertex_id_map cg v = Some r"
    and "combine_edges L l r (map fst (gr_edges L (cg_graph cg))) (cg_graph cg) = Inr g1"
    and "c1 = cg\<lparr>cg_graph := g1\<rparr>" "x \<noteq> v" "y \<noteq> v"
  shows "(x, y) \<in> merged_keys u v (dom (cg_edges L cg)) \<Longrightarrow> (x, y) \<in> dom (cg_edges L c1)"
    and "cg_edges L c1 (x, y) = Some e \<Longrightarrow> moved_label u v (cg_edges L cg) (x, y) e"
proof -
  let ?g = "cg_graph cg"
  note i = inv_ids [OF assms(1)]
  from combine_edges_spec [OF i(1) i(5) [OF assms(2)] i(5) [OF assms(3)]] assms(4)
  have dm: "\<And>x y. x \<noteq> r \<Longrightarrow> y \<noteq> r \<Longrightarrow>
      (x, y) \<in> merged_keys l r (dom (emap L ?g)) \<Longrightarrow> (x, y) \<in> dom (emap L g1)"
    and lb: "\<And>x y e. x \<noteq> r \<Longrightarrow> y \<noteq> r \<Longrightarrow> emap L g1 (x, y) = Some e \<Longrightarrow>
      moved_label l r (emap L ?g) (x, y) e"
    by auto
  have none: "cg_edges L c1 (x, y) = None \<and> (x, y) \<notin> merged_keys u v (dom (cg_edges L cg))"
    if "\<not> (x \<in> dom (vertex_id_map cg) \<and> y \<in> dom (vertex_id_map cg))"
    using that assms(2,5) edge_ends [OF assms(1)]
    by (auto simp: merged_keys_def cg_edges_def split: option.splits)
  have some: "cg_edges L c1 (x, y) = emap L g1 (a, b)"
    if "vertex_id_map cg x = Some a" "vertex_id_map cg y = Some b" for a b
    using that by (simp add: assms(5) cg_edges_def)
  show "(x, y) \<in> dom (cg_edges L c1)" if k: "(x, y) \<in> merged_keys u v (dom (cg_edges L cg))"
  proof -
    from k none obtain a b where ab: "vertex_id_map cg x = Some a" "vertex_id_map cg y = Some b" by auto
    note c = combined_labels [OF assms(1-3) ab]
    from dm [of a b] c(2) k assms(6,7) show ?thesis
      unfolding c(3) [symmetric] by (simp add: domIff some [OF ab])
  qed
  show "moved_label u v (cg_edges L cg) (x, y) e" if e: "cg_edges L c1 (x, y) = Some e"
  proof -
    from e none obtain a b where ab: "vertex_id_map cg x = Some a" "vertex_id_map cg y = Some b" by auto
    note c = combined_labels [OF assms(1-3) ab]
    from lb [of a b e] c(2) e assms(6,7) show ?thesis
      unfolding c(1) [symmetric] by (simp add: some [OF ab])
  qed
qed

lemma moved_label_key:
  "moved_label u v E (x, y) e \<Longrightarrow> x \<noteq> v \<Longrightarrow> y \<noteq> v \<Longrightarrow> (x, y) \<in> merged_keys u v (dom E) \<union> loop_key u v (dom E)"
  by (auto simp: moved_label_def merged_label_def merged_keys_def loop_key_def)

lemma combine_vertex_inv:
  assumes "cg_inv L ok cg" "u \<in> dom (vertex_id_map cg)" "v \<in> dom (vertex_id_map cg)"
  shows "\<exists>cg'. combine_vertex L u v cg = Inr cg' \<and> cg_inv L ok cg' \<and>
    func_call_map cg' = (func_call_map cg)(v := None) \<and>
    merged_keys u v (dom (cg_edges L cg)) \<subseteq> dom (cg_edges L cg') \<and>
    dom (cg_edges L cg') \<subseteq> merged_keys u v (dom (cg_edges L cg)) \<union> loop_key u v (dom (cg_edges L cg)) \<and>
    (\<forall>k e. cg_edges L cg' k = Some e \<longrightarrow> moved_label u v (cg_edges L cg) k e)"
proof -
  from assms(2,3) obtain l r where lr: "vertex_id_map cg u = Some l" "vertex_id_map cg v = Some r"
    by auto
  note i = inv_ids [OF assms(1)]
  note lrd = i(5) [OF lr(1)] i(5) [OF lr(2)]
  from combine_edges_spec [OF i(1) lrd] obtain g1 where
    g1: "combine_edges L l r (map fst (gr_edges L (cg_graph cg))) (cg_graph cg) = Inr g1" "ok g1"
      "vmap L g1 = vmap L (cg_graph cg)" by blast
  let ?c1 = "cg\<lparr>cg_graph := g1\<rparr>"
  have inv1: "cg_inv L ok ?c1" by (rule inv_update [OF assms(1) g1(2,3)])
  have "r \<in> dom (vmap L g1)" using lrd g1(3) by simp
  from remove_vertex [OF g1(2) this] obtain g2 where
    g2: "gr_remove_vertex L g1 r = Inr g2" "ok g2" "vmap L g2 = (vmap L g1)(r := None)"
    "emap L g2 = (\<lambda>(x, y). if x = r \<or> y = r then None else emap L g1 (x, y))" by blast
  let ?c2 = "cg\<lparr>cg_graph := g2, vertex_id_map := (vertex_id_map cg)(v := None),
      func_call_map := (func_call_map cg)(v := None)\<rparr>"
  have g2e: "emap L g2 =
      (\<lambda>(x, y). if x = r \<or> y = r then None else emap L (cg_graph ?c1) (x, y))"
    using g2(4) by (simp add: fun_eq_iff)
  have run: "combine_vertex L u v cg = Inr ?c2" using lr g1(1) g2(1) by (simp add: combine_vertex_def)
  have inv2: "cg_inv L ok ?c2"
    and e2: "cg_edges L ?c2 = (\<lambda>(x, y). if x = v \<or> y = v then None else cg_edges L ?c1 (x, y))"
    using removed_inv [OF inv1 _ g2(2) _ g2e] lr(2) g2(3) by simp_all
  note names = combined_names [OF assms(1) lr g1(1) refl]
  have keys: "k \<in> dom (cg_edges L ?c2)" if "k \<in> merged_keys u v (dom (cg_edges L cg))" for k
    using names(1) [of "fst k" "snd k"] that by (cases k) (auto simp: e2 merged_keys_def)
  have kept: "moved_label u v (cg_edges L cg) (x, y) e \<and> x \<noteq> v \<and> y \<noteq> v" if "cg_edges L ?c2 (x, y) = Some e" for x y e
    using names(2) [of x y e] that by (auto simp: e2 split: if_splits)
  have "k \<in> merged_keys u v (dom (cg_edges L cg)) \<union> loop_key u v (dom (cg_edges L cg))"
    if k: "k \<in> dom (cg_edges L ?c2)" for k
  proof -
    obtain x y where xy: "k = (x, y)" by (metis surj_pair)
    with k obtain e where "cg_edges L ?c2 (x, y) = Some e" by blast
    from kept [OF this] moved_label_key [of u v "cg_edges L cg" x y e] show ?thesis unfolding xy by simp
  qed
  then have "dom (cg_edges L ?c2) \<subseteq> merged_keys u v (dom (cg_edges L cg)) \<union> loop_key u v (dom (cg_edges L cg))"
    by blast
  moreover have "merged_keys u v (dom (cg_edges L cg)) \<subseteq> dom (cg_edges L ?c2)" using keys by blast
  moreover have "\<forall>k e. cg_edges L ?c2 k = Some e \<longrightarrow> moved_label u v (cg_edges L cg) k e"
    by (simp only: split_paired_All) (use kept in blast)
  ultimately show ?thesis using run inv2 by (intro exI [of _ ?c2]) simp
qed

text \<open>Without a loop at \<open>v\<close> the edges are known.\<close>

lemma combine_vertex_exact:
  assumes "cg_inv L ok cg" "u \<in> dom (vertex_id_map cg)" "v \<in> dom (vertex_id_map cg)"
    and "cg_edges L cg (v, v) = None \<or> u = v"
  shows "\<exists>cg'. combine_vertex L u v cg = Inr cg' \<and> cg_inv L ok cg' \<and>
    func_call_map cg' = (func_call_map cg)(v := None) \<and>
    dom (cg_edges L cg') = merged_keys u v (dom (cg_edges L cg)) \<and>
    (\<forall>k e. cg_edges L cg' k = Some e \<longrightarrow> merged_label u v (cg_edges L cg) k e)"
proof -
  from combine_vertex_inv [OF assms(1-3)] obtain cg' where
    c: "combine_vertex L u v cg = Inr cg'" "cg_inv L ok cg'" "func_call_map cg' = (func_call_map cg)(v := None)"
    "merged_keys u v (dom (cg_edges L cg)) \<subseteq> dom (cg_edges L cg')"
    "dom (cg_edges L cg') \<subseteq> merged_keys u v (dom (cg_edges L cg)) \<union> loop_key u v (dom (cg_edges L cg))"
    "\<forall>k e. cg_edges L cg' k = Some e \<longrightarrow> moved_label u v (cg_edges L cg) k e" by blast
  have "loop_key u v (dom (cg_edges L cg)) = {}" using assms(4) by (auto simp: loop_key_def domIff)
  with c(4,5) have d: "dom (cg_edges L cg') = merged_keys u v (dom (cg_edges L cg))" by blast
  have "merged_label u v (cg_edges L cg) k e" if "cg_edges L cg' k = Some e" for k e
  proof (rule ccontr)
    assume n: "\<not> merged_label u v (cg_edges L cg) k e"
    have "moved_label u v (cg_edges L cg) k e" using c(6) that by blast
    with n have "k = (u, u)" "cg_edges L cg (v, v) = Some e" by (simp_all add: moved_label_def)
    with assms(4) n show False by (auto simp: merged_label_def)
  qed
  with c(1-3) d show ?thesis by blast
qed

end

section \<open>Queries and insertion\<close>

lemma map_res_Inr: "(\<And>x. x \<in> set xs \<Longrightarrow> f x = Inr (h x)) \<Longrightarrow> map_res f xs = Inr (map h xs)"
  by (induction xs) auto

text \<open>The neighbours of a vertex in the order the queries list them.\<close>

definition lists_neighbors :: "'g graaf \<Rightarrow> 'g callgraph \<Rightarrow> string \<Rightarrow> string list \<Rightarrow> bool" where
  "lists_neighbors L cg u vs \<longleftrightarrow> distinct vs \<and> set vs = {v. (u, v) \<in> dom (cg_edges L cg)}"

context graaf_lib
begin

lemma select_neighbors_Inr:
  "(\<And>b. b \<in> set bs \<Longrightarrow> gr_vertex L g b = Inr (h b) \<and> gr_edge L g a b = Inr (l b)) \<Longrightarrow>
     select_neighbors L P g a bs = Inr (map h (filter (\<lambda>b. P (l b)) bs))"
  by (induction bs) auto

lemma neighbor_names:
  assumes "cg_inv L ok cg" "vertex_id_map cg u = Some a"
  obtains bs h where "gr_neighbors L (cg_graph cg) a = Inr bs"
    "lists_neighbors L cg u (map h bs)"
    "\<And>b. b \<in> set bs \<Longrightarrow> gr_vertex L (cg_graph cg) b = Inr (h b) \<and>
       gr_edge L (cg_graph cg) a b = Inr (the (cg_edges L cg (u, h b)))"
proof -
  let ?g = "cg_graph cg"
  note i = inv_ids [OF assms(1)]
  from neighbors [OF i(1) i(5) [OF assms(2)]] obtain bs where
    bs: "gr_neighbors L ?g a = Inr bs" "distinct bs" "set bs = {b. (a, b) \<in> dom (emap L ?g)}"
    by blast
  define h where "h b = the (vmap L ?g b)" for b
  have v: "vmap L ?g b = Some (h b)" if "b \<in> set bs" for b
    using that bs(3) endpoints [OF i(1), of a b] by (auto simp: h_def)
  then have m: "vertex_id_map cg (h b) = Some b" if "b \<in> set bs" for b
    using that i(2) by blast
  have e: "cg_edges L cg (u, h b) = emap L ?g (a, b)" if "b \<in> set bs" for b
    using m [OF that] assms(2) by (simp add: cg_edges_def)
  have "inj_on h (set bs)" by (rule inj_onI) (metis m option.inject)
  moreover have "h ` set bs = {v. (u, v) \<in> dom (cg_edges L cg)}"
  proof (rule set_eqI)
    fix v
    show "v \<in> h ` set bs \<longleftrightarrow> v \<in> {v. (u, v) \<in> dom (cg_edges L cg)}"
    proof
      assume "v \<in> h ` set bs"
      then obtain b where "b \<in> set bs" "v = h b" by auto
      then show "v \<in> {v. (u, v) \<in> dom (cg_edges L cg)}" using e [of b] bs(3) by (simp add: domIff)
    next
      assume "v \<in> {v. (u, v) \<in> dom (cg_edges L cg)}"
      then obtain x b where b: "vertex_id_map cg v = Some b" "emap L ?g (a, b) = Some x"
        using assms(2) by (auto simp: cg_edges_def bind_eq_Some_conv)
      then have "b \<in> set bs" using bs(3) by auto
      moreover have "h b = v" using i(2) [of v b] b(1) by (simp add: h_def)
      ultimately show "v \<in> h ` set bs" by blast
    qed
  qed
  ultimately have "lists_neighbors L cg u (map h bs)"
    using bs(2) by (simp add: lists_neighbors_def distinct_map)
  moreover have "gr_vertex L ?g b = Inr (h b) \<and> gr_edge L ?g a b = Inr (the (cg_edges L cg (u, h b)))"
    if "b \<in> set bs" for b
    using that v vertex [OF i(1)] e bs(3) edge [OF i(1)] by fastforce
  ultimately show thesis using that bs(1) by blast
qed

lemma absent_neighbors:
  "vertex_id_map cg u = None \<Longrightarrow> lists_neighbors L cg u []"
  by (auto simp: lists_neighbors_def cg_edges_def)

text \<open>All neighbour queries walk the same list of neighbours.\<close>

lemma queries:
  assumes "cg_inv L ok cg"
  obtains vs where "lists_neighbors L cg u vs" "get_neighbors L u cg = Inr vs"
    "get_outgoing_edges L u cg = Inr (map (\<lambda>v. the (cg_edges L cg (u, v))) vs)"
    "\<And>P. labelled_neighbors L P u cg = Inr (filter (\<lambda>v. P (the (cg_edges L cg (u, v)))) vs)"
proof (cases "vertex_id_map cg u")
  case None
  then show thesis
    by (intro that [of "[]"])
      (simp_all add: absent_neighbors get_neighbors_def get_outgoing_edges_def labelled_neighbors_def)
next
  case (Some a)
  obtain bs h where bs: "gr_neighbors L (cg_graph cg) a = Inr bs" "lists_neighbors L cg u (map h bs)"
    "\<And>b. b \<in> set bs \<Longrightarrow> gr_vertex L (cg_graph cg) b = Inr (h b) \<and>
       gr_edge L (cg_graph cg) a b = Inr (the (cg_edges L cg (u, h b)))"
    using neighbor_names [OF assms Some] by blast
  have "get_neighbors L u cg = Inr (map h bs)"
    using Some bs(1,3) by (simp add: get_neighbors_def map_res_Inr)
  moreover have "get_outgoing_edges L u cg = Inr (map (\<lambda>v. the (cg_edges L cg (u, v))) (map h bs))"
    using Some bs(1,3) by (simp add: get_outgoing_edges_def map_res_Inr o_def)
  moreover have "labelled_neighbors L P u cg =
      Inr (filter (\<lambda>v. P (the (cg_edges L cg (u, v)))) (map h bs))" for P
    using Some bs(1) select_neighbors_Inr [of bs, OF bs(3)]
    by (simp add: labelled_neighbors_def filter_map o_def)
  ultimately show thesis using that bs(2) by blast
qed

lemma labelled_neighbors_iff:
  assumes "cg_inv L ok cg"
  shows "\<exists>vs. labelled_neighbors L P u cg = Inr vs \<and> distinct vs \<and>
    set vs = {v. \<exists>e. cg_edges L cg (u, v) = Some e \<and> P e}"
proof -
  obtain vs where "lists_neighbors L cg u vs"
    "labelled_neighbors L P u cg = Inr (filter (\<lambda>v. P (the (cg_edges L cg (u, v)))) vs)"
    using queries [OF assms, of u] by metis
  then show ?thesis by (auto simp: lists_neighbors_def)
qed

lemma get_vertices_inv:
  assumes "cg_inv L ok cg"
  shows "distinct (get_vertices L cg)" "set (get_vertices L cg) = dom (vertex_id_map cg)"
proof -
  note i = inv_ids [OF assms]
  have v: "x \<in> set (gr_vertices L (cg_graph cg)) \<longleftrightarrow> vertex_id_map cg (snd x) = Some (fst x)" for x
    using vertices_listed [OF i(1), of "fst x" "snd x"] i(2) by simp
  then have "inj_on snd (set (gr_vertices L (cg_graph cg)))"
    by (auto simp: inj_on_def prod_eq_iff)
  moreover have "distinct (gr_vertices L (cg_graph cg))"
    using listed(1) [OF i(1)] by (simp add: distinct_map)
  ultimately show "distinct (get_vertices L cg)" by (simp add: get_vertices_def distinct_map)
  show "set (get_vertices L cg) = dom (vertex_id_map cg)"
  proof (rule set_eqI)
    fix u
    have "u \<in> set (get_vertices L cg) \<longleftrightarrow> (\<exists>x\<in>set (gr_vertices L (cg_graph cg)). snd x = u)"
      by (auto simp: get_vertices_def)
    also have "\<dots> \<longleftrightarrow> u \<in> dom (vertex_id_map cg)" using v by (auto simp: Bex_def)
    finally show "u \<in> set (get_vertices L cg) \<longleftrightarrow> u \<in> dom (vertex_id_map cg)" .
  qed
qed

text \<open>Inserting another graph keeps the flags and the labels that were there, or replaces labels.\<close>

lemma insert_vertices_inv:
  assumes "cg_inv L ok cg" "\<forall>x\<in>set vs. snd x \<in> dom flags"
  shows "\<exists>cg'. insert_vertices L flags vs cg = Inr cg' \<and> cg_inv L ok cg' \<and>
    func_call_map cg' = (flags |` (snd ` set vs)) ++ func_call_map cg \<and>
    cg_edges L cg' = cg_edges L cg"
  using assms
proof (induction vs arbitrary: cg)
  case (Cons x vs)
  obtain a v where x: "x = (a, v)" by (metis surj_pair)
  with Cons.prems(2) obtain b where b: "flags v = Some b" by auto
  obtain i cg1 where cg1: "CallGraph.add_vertex L v b cg = (i, cg1)" by (metis surj_pair)
  note s = add_vertex_inv [OF Cons.prems(1) cg1]
  from Cons.IH [of cg1] s Cons.prems(2) obtain cg' where
    cg': "insert_vertices L flags vs cg1 = Inr cg'" "cg_inv L ok cg'"
    "func_call_map cg' = (flags |` (snd ` set vs)) ++ func_call_map cg1"
    "cg_edges L cg' = cg_edges L cg1" by auto
  have "func_call_map cg' = (flags |` (snd ` set (x # vs))) ++ func_call_map cg"
    using cg'(3) s b
    by (auto simp: x fun_eq_iff map_add_def restrict_map_def split: option.splits)
  with cg' cg1 b s show ?case by (simp add: x)
qed simp

text \<open>One edge of another graph, whose ends the graph has.\<close>

lemma insert_edge_step:
  assumes "cg_inv L ok cg" "cg_inv L ok other" "dom (vertex_id_map other) \<subseteq> dom (vertex_id_map cg)"
    and "((a, b), e) \<in> set (gr_edges L (cg_graph other))"
  shows "\<exists>u v cg1. (\<forall>es. insert_edges L (cg_graph other) (((a, b), e) # es) cg =
        insert_edges L (cg_graph other) es cg1) \<and>
    vertex_id_map other u = Some a \<and> vertex_id_map other v = Some b \<and> cg_inv L ok cg1 \<and>
    vertex_id_map cg1 = vertex_id_map cg \<and> func_call_map cg1 = func_call_map cg \<and>
    dom (cg_edges L cg1) = insert (u, v) (dom (cg_edges L cg)) \<and>
    (\<forall>k e. cg_edges L cg1 k = Some e \<longrightarrow> cg_edges L cg k = Some e \<or> cg_edges L other k = Some e)"
proof -
  note i = inv_ids [OF assms(2)]
  have em: "emap L (cg_graph other) (a, b) = Some e" using assms(4) edges_listed [OF i(1)] by blast
  with endpoints [OF i(1)] obtain u v where uv: "vmap L (cg_graph other) a = Some u"
    "vmap L (cg_graph other) b = Some v" by blast
  then have ids: "vertex_id_map other u = Some a" "vertex_id_map other v = Some b" using i(2) by auto
  with assms(3) have "u \<in> dom (vertex_id_map cg)" "v \<in> dom (vertex_id_map cg)" by blast+
  then obtain cg1 where cg1: "CallGraph.add_edge L u v e cg = Inr cg1" "cg_inv L ok cg1"
    "vertex_id_map cg1 = vertex_id_map cg" "func_call_map cg1 = func_call_map cg"
    "cg_edges L cg1 = (cg_edges L cg)((u, v) \<mapsto> e) \<or>
       (u, v) \<in> dom (cg_edges L cg) \<and> cg_edges L cg1 = cg_edges L cg"
    using add_edge_inv [OF assms(1), of u v e] by auto
  have "cg_edges L other (u, v) = Some e" using ids em by (simp add: cg_edges_def)
  then have "\<forall>k e. cg_edges L cg1 k = Some e \<longrightarrow> cg_edges L cg k = Some e \<or> cg_edges L other k = Some e"
    using cg1(5) by (auto split: if_splits)
  moreover have "dom (cg_edges L cg1) = insert (u, v) (dom (cg_edges L cg))" using cg1(5) by auto
  ultimately show ?thesis using ids cg1 vertex [OF i(1)] uv
    by (intro exI [of _ u] exI [of _ v] exI [of _ cg1]) simp
qed

lemma insert_edges_inv:
  assumes "cg_inv L ok cg" "cg_inv L ok other" "dom (vertex_id_map other) \<subseteq> dom (vertex_id_map cg)"
    "set es \<subseteq> set (gr_edges L (cg_graph other))"
  shows "\<exists>cg'. insert_edges L (cg_graph other) es cg = Inr cg' \<and> cg_inv L ok cg' \<and>
    func_call_map cg' = func_call_map cg \<and>
    (\<forall>k e. cg_edges L cg' k = Some e \<longrightarrow> cg_edges L cg k = Some e \<or> cg_edges L other k = Some e) \<and>
    dom (cg_edges L cg) \<subseteq> dom (cg_edges L cg') \<and>
    (\<forall>u v a b e. ((a, b), e) \<in> set es \<longrightarrow> vertex_id_map other u = Some a \<longrightarrow>
       vertex_id_map other v = Some b \<longrightarrow> (u, v) \<in> dom (cg_edges L cg'))"
  using assms
proof (induction es arbitrary: cg)
  case (Cons x es)
  obtain a b e where x: "x = ((a, b), e)" by (metis surj_pair)
  have "((a, b), e) \<in> set (gr_edges L (cg_graph other))" using Cons.prems(4) by (simp add: x)
  from insert_edge_step [OF Cons.prems(1-3) this] obtain u v cg1 where
    run1: "\<forall>es. insert_edges L (cg_graph other) (((a, b), e) # es) cg = insert_edges L (cg_graph other) es cg1"
    and ids: "vertex_id_map other u = Some a" "vertex_id_map other v = Some b"
    and cg1: "cg_inv L ok cg1" "vertex_id_map cg1 = vertex_id_map cg" "func_call_map cg1 = func_call_map cg"
    "dom (cg_edges L cg1) = insert (u, v) (dom (cg_edges L cg))"
    and l1: "\<forall>k e. cg_edges L cg1 k = Some e \<longrightarrow> cg_edges L cg k = Some e \<or> cg_edges L other k = Some e"
    by (elim exE conjE) (rule that)
  from Cons.IH [OF cg1(1) Cons.prems(2)] Cons.prems(3,4) cg1(2,3) obtain cg' where
    cg': "insert_edges L (cg_graph other) es cg1 = Inr cg'" "cg_inv L ok cg'"
    "func_call_map cg' = func_call_map cg"
    "\<forall>k e. cg_edges L cg' k = Some e \<longrightarrow> cg_edges L cg1 k = Some e \<or> cg_edges L other k = Some e"
    "dom (cg_edges L cg1) \<subseteq> dom (cg_edges L cg')"
    "\<forall>u v a b e. ((a, b), e) \<in> set es \<longrightarrow> vertex_id_map other u = Some a \<longrightarrow>
       vertex_id_map other v = Some b \<longrightarrow> (u, v) \<in> dom (cg_edges L cg')"
    by auto
  have same: "vertex_id_map other u' = Some a \<Longrightarrow> vertex_id_map other v' = Some b \<Longrightarrow> u' = u \<and> v' = v"
    for u' v' using inv_ids(4) [OF Cons.prems(2)] ids by blast
  have run: "insert_edges L (cg_graph other) (x # es) cg = Inr cg'"
    using run1 cg'(1) by (simp add: x)
  have "\<forall>k e. cg_edges L cg' k = Some e \<longrightarrow> cg_edges L cg k = Some e \<or> cg_edges L other k = Some e"
    using cg'(4) l1 by blast
  moreover have "(u', v') \<in> dom (cg_edges L cg')"
    if "((a', b'), e') \<in> set (x # es)" "vertex_id_map other u' = Some a'" "vertex_id_map other v' = Some b'"
    for u' v' a' b' e'
  proof (cases "((a', b'), e') = x")
    case True
    with that(2,3) same cg1(4) cg'(5) show ?thesis by (auto simp: x)
  next
    case False
    with that(1) have "((a', b'), e') \<in> set es" by auto
    with cg'(6) that(2,3) show ?thesis by blast
  qed
  moreover have "dom (cg_edges L cg) \<subseteq> dom (cg_edges L cg')" using cg'(5) cg1(4) by blast
  ultimately show ?case using run cg'(2,3) by (intro exI [of _ cg'] conjI) auto
qed auto

lemma restrict_dom: "m |` dom m = m"
  by (rule ext) (simp add: restrict_map_def domIff)

lemma insert_graph_inv:
  assumes "cg_inv L ok cg" "cg_inv L ok other"
  shows "\<exists>cg'. insert_graph L other cg = Inr cg' \<and> cg_inv L ok cg' \<and>
    func_call_map cg' = func_call_map other ++ func_call_map cg \<and>
    dom (cg_edges L cg') = dom (cg_edges L cg) \<union> dom (cg_edges L other) \<and>
    (\<forall>k e. cg_edges L cg' k = Some e \<longrightarrow> cg_edges L cg k = Some e \<or> cg_edges L other k = Some e)"
proof -
  note i = inv_ids [OF assms(2)]
  have names: "snd ` set (gr_vertices L (cg_graph other)) = dom (vertex_id_map other)"
    using get_vertices_inv(2) [OF assms(2)] by (simp add: get_vertices_def)
  with i(3) have "\<forall>x\<in>set (gr_vertices L (cg_graph other)). snd x \<in> dom (func_call_map other)" by blast
  from insert_vertices_inv [OF assms(1) this] obtain cg1 where
    cg1: "insert_vertices L (func_call_map other) (gr_vertices L (cg_graph other)) cg = Inr cg1"
    "cg_inv L ok cg1" "cg_edges L cg1 = cg_edges L cg"
    "func_call_map cg1 = func_call_map other ++ func_call_map cg"
    unfolding names i(3) [symmetric] by (auto simp: restrict_dom)
  have "dom (vertex_id_map other) \<subseteq> dom (vertex_id_map cg1)"
    using inv_ids(3) [OF cg1(2)] i(3) cg1(4) by auto
  from insert_edges_inv [OF cg1(2) assms(2) this order_refl] obtain cg' where
    cg': "insert_edges L (cg_graph other) (gr_edges L (cg_graph other)) cg1 = Inr cg'" "cg_inv L ok cg'"
    "func_call_map cg' = func_call_map cg1"
    "\<forall>k e. cg_edges L cg' k = Some e \<longrightarrow> cg_edges L cg1 k = Some e \<or> cg_edges L other k = Some e"
    "dom (cg_edges L cg1) \<subseteq> dom (cg_edges L cg')"
    "\<forall>u v a b e. ((a, b), e) \<in> set (gr_edges L (cg_graph other)) \<longrightarrow>
       vertex_id_map other u = Some a \<longrightarrow> vertex_id_map other v = Some b \<longrightarrow>
       (u, v) \<in> dom (cg_edges L cg')" by blast
  have "(u, v) \<in> dom (cg_edges L cg')" if o: "cg_edges L other (u, v) = Some e" for u v e
    using edges_iff [OF assms(2), THEN iffD1, OF o] cg'(6) edges_listed [OF i(1)] by blast
  then have "dom (cg_edges L other) \<subseteq> dom (cg_edges L cg')" by auto
  moreover have "dom (cg_edges L cg') \<subseteq> dom (cg_edges L cg) \<union> dom (cg_edges L other)"
    using cg'(4) cg1(3) by fastforce
  ultimately have "dom (cg_edges L cg') = dom (cg_edges L cg) \<union> dom (cg_edges L other)"
    using cg'(5) cg1(3) by auto
  with cg1 cg' show ?thesis by (auto simp: insert_graph_def)
qed

lemma finite_names: "cg_inv L ok cg \<Longrightarrow> finite (dom (vertex_id_map cg))"
  using get_vertices_inv(2) [of cg] by (metis List.finite_set)

end

end
