(* ===== verification/OrderedMap.thy ===== *)
theory OrderedMap
  imports Main "HOL-Library.List_Lexorder" "HOL-Library.Char_ord"
begin

text \<open>
  A \<^verbatim>\<open>std::map\<close> as an association list in the order of its keys: insertion, \<^verbatim>\<open>operator[]\<close>, and
  the lemmas that make it a finite map.
\<close>

section \<open>Ordered maps\<close>

text \<open>A \<^verbatim>\<open>std::map\<close> is iterated in the order of its keys: an association list kept sorted.\<close>

fun map_put :: "'k::linorder \<Rightarrow> 'v \<Rightarrow> ('k \<times> 'v) list \<Rightarrow> ('k \<times> 'v) list" where
  "map_put k v [] = [(k, v)]"
| "map_put k v ((k', v') # kvs) =
     (if k = k' then (k, v) # kvs else if k < k' then (k, v) # (k', v') # kvs
      else (k', v') # map_put k v kvs)"

text \<open>\<^verbatim>\<open>operator[]\<close> inserts a default value when the key is missing.\<close>

definition map_index :: "'k::linorder \<Rightarrow> 'v \<Rightarrow> ('k \<times> 'v) list \<Rightarrow> 'v \<times> ('k \<times> 'v) list" where
  "map_index k d kvs = (case map_of kvs k of Some v \<Rightarrow> (v, kvs) | None \<Rightarrow> (d, map_put k d kvs))"

section \<open>Maps and keys\<close>

definition keys_sorted :: "('k::linorder \<times> 'v) list \<Rightarrow> bool" where
  "keys_sorted kvs \<longleftrightarrow> sorted_wrt (<) (map fst kvs)"

lemma keys_map_put: "fst ` set (map_put k v kvs) = insert k (fst ` set kvs)"
  by (induction k v kvs rule: map_put.induct) auto

lemma keys_sorted_map_put: "keys_sorted kvs \<Longrightarrow> keys_sorted (map_put k v kvs)"
proof (induction k v kvs rule: map_put.induct)
  case (2 k v k' v' kvs)
  have "fst ` set (map_put k v kvs) = insert k (fst ` set kvs)" by (rule keys_map_put)
  with 2 show ?case by (fastforce simp: keys_sorted_def)
qed (simp add: keys_sorted_def)

lemma keys_sorted_distinct: "keys_sorted kvs \<Longrightarrow> distinct (map fst kvs)"
  by (simp add: keys_sorted_def strict_sorted_iff)

lemma map_of_map_put: "map_of (map_put k v kvs) = (map_of kvs)(k \<mapsto> v)"
  by (induction k v kvs rule: map_put.induct) (auto simp: fun_eq_iff)

lemma set_map_put: "set (map_put k v kvs) \<subseteq> insert (k, v) (set kvs)"
  by (induction k v kvs rule: map_put.induct) auto

end
