(* ===== verification/CallGraphGen.thy ===== *)
theory CallGraphGen
  imports CallGraph LlvmIR GraphTransfer OrderedMap
begin

text \<open>
  \<^verbatim>\<open>LLVM/LibcCallGraphGen.cpp\<close>: from the functions of a module to their basic-block graphs, to
  the graph of library calls of each function, to the graph of the program, and to the in-memory
  graph.  The debug output and the \<^verbatim>\<open>.dot\<close> files are left out.
\<close>

section \<open>The graph of basic blocks\<close>

record 'g func_meta =
  funcName :: string
  entryNode :: string
  exitNode :: string
  bbToLibcMap :: "(string \<times> string list) list"
  bbGraph :: "'g callgraph"
  bbExpandedGraph :: "'g callgraph"
  libcCallGraph :: "'g callgraph"

definition meta_init :: "'g graaf \<Rightarrow> 'g func_meta" where
  "meta_init L =
     \<lparr>funcName = [], entryNode = [], exitNode = [], bbToLibcMap = [], bbGraph = cg_empty L,
      bbExpandedGraph = cg_empty L, libcCallGraph = cg_empty L\<rparr>"

definition no_predecessors :: "'i basic_block list \<Rightarrow> nat \<Rightarrow> bool" where
  "no_predecessors bbs i \<longleftrightarrow> (\<forall>bb\<in>set bbs. i \<notin> set (bb_succs bb))"

definition returns :: "'i basic_block \<Rightarrow> bool" where
  "returns bb \<longleftrightarrow> bb_insts bb \<noteq> [] \<and> is_return (last (bb_insts bb))"

definition add_block ::
    "'g graaf \<Rightarrow> file_map_reader \<Rightarrow> 'i basic_block \<Rightarrow> 'g func_meta \<Rightarrow> 'g func_meta" where
  "add_block L r bb m =
     m\<lparr>bbGraph := snd (add_vertex L (bb_name bb) (getLibraryCalls r bb \<noteq> []) (bbGraph m))\<rparr>"

fun add_blocks ::
    "'g graaf \<Rightarrow> file_map_reader \<Rightarrow> 'i basic_block list \<Rightarrow> nat \<Rightarrow> 'i basic_block list \<Rightarrow>
     'g func_meta \<Rightarrow> 'g func_meta" where
  "add_blocks L r bbs i [] m = m"
| "add_blocks L r bbs i (bb # rest) m =
     (let m1 = (if no_predecessors bbs i
                then add_block L r bb (m\<lparr>entryNode := bb_name bb\<rparr>) else m);
          m2 = (if returns bb then add_block L r bb (m1\<lparr>exitNode := bb_name bb\<rparr>)
                else add_block L r bb m1)
      in add_blocks L r bbs (Suc i) rest m2)"

fun add_successors ::
    "'g graaf \<Rightarrow> 'i basic_block list \<Rightarrow> string \<Rightarrow> nat list \<Rightarrow> 'g callgraph \<Rightarrow> 'g callgraph res" where
  "add_successors L bbs v [] g = Inr g"
| "add_successors L bbs v (s # ss) g =
     and_then (add_edge L v (bb_name (bbs ! s)) ''control'' g) (\<lambda>g'. add_successors L bbs v ss g')"

fun add_flow ::
    "'g graaf \<Rightarrow> 'i basic_block list \<Rightarrow> 'i basic_block list \<Rightarrow> 'g callgraph \<Rightarrow> 'g callgraph res" where
  "add_flow L bbs [] g = Inr g"
| "add_flow L bbs (bb # rest) g =
     and_then (add_successors L bbs (bb_name bb) (bb_succs bb) g) (\<lambda>g'. add_flow L bbs rest g')"

fun list_calls ::
    "file_map_reader \<Rightarrow> 'i basic_block list \<Rightarrow> (string \<times> string list) list \<Rightarrow>
     (string \<times> string list) list" where
  "list_calls r [] cs = cs"
| "list_calls r (bb # rest) cs =
     (let libCalls = getLibraryCalls r bb
      in list_calls r rest (if libCalls \<noteq> [] then map_put (bb_name bb) libCalls cs else cs))"

definition analyse_function ::
    "'g graaf \<Rightarrow> file_map_reader \<Rightarrow> 'i ir_function \<Rightarrow> 'g func_meta res" where
  "analyse_function L r f =
     (let bbs = f_blocks f;
          m1 = add_blocks L r bbs 0 bbs ((meta_init L)\<lparr>funcName := f_name f\<rparr>)
      in and_then (add_flow L bbs bbs (bbGraph m1)) (\<lambda>g.
           Inr (m1\<lparr>bbGraph := g, bbToLibcMap := list_calls r bbs (bbToLibcMap m1)\<rparr>)))"

type_synonym 'g metas = "(string \<times> 'g func_meta) list"

definition skipped :: "'i ir_function \<Rightarrow> bool" where
  "skipped f \<longleftrightarrow> f_declaration f \<or> starts_with ''llvm.'' (f_name f) \<or> starts_with ''syscall'' (f_name f)"

fun process_functions ::
    "'g graaf \<Rightarrow> (string list \<Rightarrow> string \<Rightarrow> string) \<Rightarrow> file_map_reader \<Rightarrow> 'i ir_function list \<Rightarrow>
     'g metas \<Rightarrow> ('i ir_function list \<times> 'g metas \<times> bool) res" where
  "process_functions L uniq r [] ms = Inr ([], ms, False)"
| "process_functions L uniq r (f # fs) ms =
     (if skipped f then
        and_then (process_functions L uniq r fs ms) (\<lambda>(fs', ms', ch). Inr (f # fs', ms', ch))
      else
        let f1 = nameBasicBlocks uniq f
        in and_then (analyse_function L r f1) (\<lambda>m.
           and_then (process_functions L uniq r fs (map_put (f_name f) m ms)) (\<lambda>(fs', ms', ch).
           Inr (inject_function r f1 # fs', ms', has_library_call r f1 \<or> ch))))"

section \<open>Expanding the blocks\<close>

definition call_vertex :: "string \<Rightarrow> string \<Rightarrow> nat \<Rightarrow> string" where
  "call_vertex bb call n = bb @ (if starts_with ''user:'' call then ''-user_'' else ''-libc_'') @ nat_string n"

text \<open>The loop over the calls of a block: the result is \<^verbatim>\<open>prevVertex\<close>, \<^verbatim>\<open>vertexName\<close> and the graph.\<close>

fun expand_calls ::
    "'g graaf \<Rightarrow> string \<Rightarrow> nat \<Rightarrow> string list \<Rightarrow> string \<Rightarrow> string \<Rightarrow> 'g callgraph \<Rightarrow>
     (string \<times> string \<times> 'g callgraph) res" where
  "expand_calls L bb n [] prev name g = Inr (prev, name, g)"
| "expand_calls L bb n (call # calls) prev name g =
     (let v = call_vertex bb call n
      in and_then (add_edge L prev v call (snd (add_vertex L v False g))) (\<lambda>g'.
           expand_calls L bb (Suc n) calls v v g'))"

fun move_neighbors ::
    "'g graaf \<Rightarrow> string \<Rightarrow> string \<Rightarrow> string list \<Rightarrow> 'g callgraph \<Rightarrow> 'g callgraph res" where
  "move_neighbors L first prev [] g = Inr g"
| "move_neighbors L first prev (v # vs) g =
     and_then (remove_edge L first v g) (\<lambda>g1.
     and_then (add_edge L prev v ''control'' g1) (\<lambda>g2. move_neighbors L first prev vs g2))"

definition expand_block ::
    "'g graaf \<Rightarrow> string \<Rightarrow> string list \<Rightarrow> string \<times> 'g callgraph \<Rightarrow> (string \<times> 'g callgraph) res" where
  "expand_block L bb calls = (\<lambda>(exit, g).
     and_then (get_neighbors L bb g) (\<lambda>neighbors.
     and_then (expand_calls L bb 1 calls bb [] g) (\<lambda>(prev, name, g1).
     and_then (move_neighbors L bb prev neighbors g1) (\<lambda>g2.
     Inr (if exit = bb then name else exit, g2)))))"

fun expand_blocks ::
    "'g graaf \<Rightarrow> (string \<times> string list) list \<Rightarrow> string \<times> 'g callgraph \<Rightarrow>
     (string \<times> 'g callgraph) res" where
  "expand_blocks L [] st = Inr st"
| "expand_blocks L ((bb, calls) # bbs) st =
     and_then (expand_block L bb calls st) (\<lambda>st'. expand_blocks L bbs st')"

fun ExpandBBGraph :: "'g graaf \<Rightarrow> 'g metas \<Rightarrow> 'g metas res" where
  "ExpandBBGraph L [] = Inr []"
| "ExpandBBGraph L ((k, m) # ms) =
     and_then (expand_blocks L (bbToLibcMap m) (exitNode m, bbGraph m)) (\<lambda>(exit, g).
     and_then (ExpandBBGraph L ms) (\<lambda>ms'.
     Inr ((k, m\<lparr>exitNode := exit, bbExpandedGraph := g\<rparr>) # ms')))"

section \<open>Merging along edges\<close>

text \<open>The neighbours found behind the edges labelled \<open>P\<close> are combined into the vertex.\<close>

fun merge_neighbors ::
    "'g graaf \<Rightarrow> string \<Rightarrow> string list \<Rightarrow> string \<times> 'g callgraph \<Rightarrow> (string \<times> 'g callgraph) res" where
  "merge_neighbors L v [] st = Inr st"
| "merge_neighbors L v (n # ns) (exit, g) =
     and_then (combine_vertex L v n g) (\<lambda>g'.
       merge_neighbors L v ns (if exit = n then v else exit, g'))"

text \<open>
  One pass over the vertices.  The state carries \<^verbatim>\<open>noMergeFound\<close>.  At each vertex the labels
  \<open>Ps\<close> are treated in turn: the control edges for one function, the control edges and then the
  edges of user calls for the whole program.
\<close>

fun merge_at ::
    "'g graaf \<Rightarrow> (string \<Rightarrow> bool) list \<Rightarrow> string \<Rightarrow> bool \<times> string \<times> 'g callgraph \<Rightarrow>
     (bool \<times> string \<times> 'g callgraph) res" where
  "merge_at L [] v st = Inr st"
| "merge_at L (P # Ps) v (none, exit, g) =
     and_then (labelled_neighbors L P v g) (\<lambda>ns.
     and_then (merge_neighbors L v ns (exit, g)) (\<lambda>(exit', g').
     merge_at L Ps v (none \<and> ns = [], exit', g')))"

fun merge_pass ::
    "'g graaf \<Rightarrow> (string \<Rightarrow> bool) list \<Rightarrow> string list \<Rightarrow> bool \<times> string \<times> 'g callgraph \<Rightarrow>
     (bool \<times> string \<times> 'g callgraph) res" where
  "merge_pass L Ps [] st = Inr st"
| "merge_pass L Ps (v # vs) st = and_then (merge_at L Ps v st) (\<lambda>st'. merge_pass L Ps vs st')"

text \<open>The loop until a pass finds nothing to merge; \<open>None\<close> when the fuel does not suffice.\<close>

fun merge_loop ::
    "'g graaf \<Rightarrow> (string \<Rightarrow> bool) list \<Rightarrow> nat \<Rightarrow> string \<times> 'g callgraph \<Rightarrow>
     (string \<times> 'g callgraph) res option" where
  "merge_loop L Ps 0 st = None"
| "merge_loop L Ps (Suc fuel) (exit, g) =
     (case merge_pass L Ps (get_vertices L g) (True, exit, g) of
        Inl e \<Rightarrow> Some (Inl e)
      | Inr (none, st) \<Rightarrow> if none then Some (Inr st) else merge_loop L Ps fuel st)"

fun ConvertBBGraphToLibcCallGraph :: "'g graaf \<Rightarrow> nat \<Rightarrow> 'g metas \<Rightarrow> 'g metas res option" where
  "ConvertBBGraphToLibcCallGraph L fuel [] = Some (Inr [])"
| "ConvertBBGraphToLibcCallGraph L fuel ((k, m) # ms) =
     (case merge_loop L [is_control] fuel (exitNode m, bbExpandedGraph m) of
        None \<Rightarrow> None
      | Some (Inl e) \<Rightarrow> Some (Inl e)
      | Some (Inr (exit, g)) \<Rightarrow>
          (case ConvertBBGraphToLibcCallGraph L fuel ms of
             None \<Rightarrow> None
           | Some (Inl e) \<Rightarrow> Some (Inl e)
           | Some (Inr ms') \<Rightarrow> Some (Inr ((k, m\<lparr>exitNode := exit, libcCallGraph := g\<rparr>) # ms'))))"

section \<open>The graph of the program\<close>

text \<open>The edges of one vertex: a user call inserts the graph of the function it calls.\<close>

fun inline_calls ::
    "'g graaf \<Rightarrow> string \<Rightarrow> string list \<Rightarrow> 'g metas \<times> 'g callgraph \<Rightarrow> ('g metas \<times> 'g callgraph) res" where
  "inline_calls L entry [] st = Inr st"
| "inline_calls L entry (edge # edges) (ms, g) =
     (if starts_with ''user:'' edge then
        let (m, ms1) = map_index (drop 5 edge) (meta_init L) ms
        in and_then (insert_graph L (libcCallGraph m) g) (\<lambda>g1.
           and_then (add_edge L entry (entryNode m) ''control'' g1) (\<lambda>g2.
           and_then (get_neighbors L entry g2) (\<lambda>ns.
           if ns = [] then Inl Out_of_bounds
           else and_then (add_edge L (exitNode m) (hd ns) ''control'' g2) (\<lambda>g3.
                inline_calls L entry edges (ms1, g3)))))
      else inline_calls L entry edges (ms, g))"

fun inline_vertices ::
    "'g graaf \<Rightarrow> string list \<Rightarrow> 'g metas \<times> 'g callgraph \<Rightarrow> ('g metas \<times> 'g callgraph) res" where
  "inline_vertices L [] st = Inr st"
| "inline_vertices L (v # vs) (ms, g) =
     and_then (get_outgoing_edges L v g) (\<lambda>edges.
     and_then (inline_calls L v edges (ms, g)) (\<lambda>st. inline_vertices L vs st))"

record 'g final_graph =
  finalGraph :: "'g callgraph"
  finalGraphEntryNode :: string
  finalGraphExitNode :: string

definition CombineLibcgGraph ::
    "'g graaf \<Rightarrow> nat \<Rightarrow> 'g metas \<Rightarrow> ('g metas \<times> 'g final_graph) res option" where
  "CombineLibcgGraph L fuel ms =
     (let (m, ms1) = map_index ''main'' (meta_init L) ms
      in case inline_vertices L (get_vertices L (libcCallGraph m)) (ms1, libcCallGraph m) of
           Inl e \<Rightarrow> Some (Inl e)
         | Inr (ms2, g) \<Rightarrow>
             (case merge_loop L [is_control, is_user] fuel (exitNode m, g) of
                None \<Rightarrow> None
              | Some (Inl e) \<Rightarrow> Some (Inl e)
              | Some (Inr (exit, g')) \<Rightarrow>
                  Some (Inr (ms2, \<lparr>finalGraph = g', finalGraphEntryNode = entryNode m,
                                   finalGraphExitNode = exit\<rparr>))))"

section \<open>The in-memory graph\<close>

definition MAX_NEIGHBORS :: nat where "MAX_NEIGHBORS = 1000"
definition MODULUS :: "64 word" where "MODULUS = 1000"

text \<open>\<^verbatim>\<open>a[i] = x\<close> for an array on the stack.\<close>

definition array_set :: "'a list \<Rightarrow> nat \<Rightarrow> 'a \<Rightarrow> 'a list res" where
  "array_set a i x = (if i < length a then Inr (a[i := x]) else Inl Out_of_bounds)"

fun array_set_all :: "'a list \<Rightarrow> nat \<Rightarrow> 'a list \<Rightarrow> 'a list res" where
  "array_set_all a i [] = Inr a"
| "array_set_all a i (x # xs) = and_then (array_set a i x) (\<lambda>a'. array_set_all a' i xs)"

text \<open>The inner loop: \<open>edgeList\<close>, \<open>neighborList\<close> and the index \<^verbatim>\<open>numOutEdges\<close>.\<close>

fun fill_lists ::
    "'g graaf \<Rightarrow> (string \<Rightarrow> 64 word) \<Rightarrow> file_map_reader \<Rightarrow> 'g callgraph \<Rightarrow> string list \<Rightarrow>
     64 word list \<times> 64 word list \<times> nat \<Rightarrow> (64 word list \<times> 64 word list \<times> nat) res" where
  "fill_lists L hash r g [] st = Inr st"
| "fill_lists L hash r g (v # vs) (edgeList, neighborList, n) =
     and_then (get_outgoing_edges L v g) (\<lambda>es.
     and_then (array_set_all edgeList n (map (edge_number r) es)) (\<lambda>el.
     and_then (get_neighbors L v g) (\<lambda>ns.
     and_then (array_set_all neighborList n (map (\<lambda>u. hash u mod MODULUS) ns)) (\<lambda>nl.
     if Suc n < MAX_NEIGHBORS then fill_lists L hash r g vs (el, nl, Suc n)
     else Inl Assert_failed))))"

fun generate_nodes ::
    "'g graaf \<Rightarrow> env \<Rightarrow> (string \<Rightarrow> 64 word) \<Rightarrow> file_map_reader \<Rightarrow> 'g callgraph \<Rightarrow> string list \<Rightarrow>
     64 word list \<times> 64 word list \<times> nat \<Rightarrow> memgraph \<Rightarrow> memgraph res" where
  "generate_nodes L e hash r g [] st s = Inr s"
| "generate_nodes L e hash r g (v # vs) st s =
     and_then (fill_lists L hash r g (get_vertices L g) st) (\<lambda>(el, nl, n).
     and_then (alloc_node e (hash v mod MODULUS) (of_nat n) el nl s) (\<lambda>(_, s').
     generate_nodes L e hash r g vs (el, nl, n) s'))"

text \<open>
  The two arrays are not initialised: \<open>junk\<close> is what they hold.  The pool is copied into the
  module and the graph destroyed.
\<close>

definition pool_data :: "memgraph \<Rightarrow> 8 word list res" where
  "pool_data s =
     (case pool s of None \<Rightarrow> Inl Null_deref | Some m \<Rightarrow> Inr (map m [0..<1024 * 1024]))"

definition GenerateInMemoryGraph ::
    "'g graaf \<Rightarrow> env \<Rightarrow> (string \<Rightarrow> 64 word) \<Rightarrow> 64 word list \<times> 64 word list \<Rightarrow> file_map_reader \<Rightarrow>
     'g callgraph \<Rightarrow> 'i ir_module \<Rightarrow> memgraph \<Rightarrow> ('i ir_module \<times> memgraph) res" where
  "GenerateInMemoryGraph L e hash junk r g M s =
     and_then (initialize_graph e None 0 s) (\<lambda>s1.
     and_then (generate_nodes L e hash r g (get_vertices L g) (fst junk, snd junk, 0) s1) (\<lambda>s2.
     and_then (finalize_graph s2) (\<lambda>s3.
     and_then (pool_data s3) (\<lambda>data.
     Inr (SectionAddressHandler data M, destroy_graph s3)))))"

section \<open>The pass\<close>

text \<open>\<^verbatim>\<open>runOnModule\<close> and \<^verbatim>\<open>run\<close>; the answer is whether anything was injected.\<close>

definition runOnModule ::
    "'g graaf \<Rightarrow> env \<Rightarrow> (string list \<Rightarrow> string \<Rightarrow> string) \<Rightarrow> (string \<Rightarrow> 64 word) \<Rightarrow>
     64 word list \<times> 64 word list \<Rightarrow> nat \<Rightarrow> file_map_reader \<Rightarrow> 'i ir_module \<Rightarrow> 'g metas \<Rightarrow> memgraph \<Rightarrow>
     (bool \<times> 'i ir_module \<times> 'g final_graph \<times> memgraph) res option" where
  "runOnModule L e uniq hash junk fuel r M ms s =
     (case and_then (process_functions L uniq r (m_functions M) ms) (\<lambda>(fs, ms1, ch).
           and_then (ExpandBBGraph L ms1) (\<lambda>ms2. Inr (fs, ms2, ch))) of
        Inl x \<Rightarrow> Some (Inl x)
      | Inr (fs, ms2, ch) \<Rightarrow>
          (case ConvertBBGraphToLibcCallGraph L fuel ms2 of
             None \<Rightarrow> None
           | Some (Inl x) \<Rightarrow> Some (Inl x)
           | Some (Inr ms3) \<Rightarrow>
               (case CombineLibcgGraph L fuel ms3 of
                  None \<Rightarrow> None
                | Some (Inl x) \<Rightarrow> Some (Inl x)
                | Some (Inr (ms4, fg)) \<Rightarrow>
                    Some (and_then (GenerateInMemoryGraph L e hash junk r (finalGraph fg)
                                      (M\<lparr>m_functions := fs\<rparr>) s) (\<lambda>(M1, s1).
                          and_then (MemoryCleanupHandler M1) (\<lambda>M2.
                          Inr (ch, M2, fg, s1)))))))"

definition pass_run ::
    "'g graaf \<Rightarrow> env \<Rightarrow> (string list \<Rightarrow> string \<Rightarrow> string) \<Rightarrow> (string \<Rightarrow> 64 word) \<Rightarrow>
     64 word list \<times> 64 word list \<Rightarrow> nat \<Rightarrow> string option \<Rightarrow> file_map_reader \<Rightarrow> 'i ir_module \<Rightarrow>
     'g metas \<Rightarrow> memgraph \<Rightarrow> (bool \<times> 'i ir_module \<times> 'g final_graph \<times> memgraph) res option" where
  "pass_run L e uniq hash junk fuel listing r M ms s =
     (case readFileToMap listing r of
        Inl x \<Rightarrow> Some (Inl x)
      | Inr (_, r1) \<Rightarrow> runOnModule L e uniq hash junk fuel r1 M ms s)"

end
