(* ===== verification/ExpandSpec.thy ===== *)
theory ExpandSpec
  imports CallGraphSpec CallGraphGen
begin

text \<open>
  What the expansion of the basic blocks does to the labelled edges: the calls of a block become
  a chain of vertices behind it, and its successors move to the end of the chain.
\<close>

section \<open>The expansion on edge maps\<close>

fun call_vertices :: "string \<Rightarrow> nat \<Rightarrow> string list \<Rightarrow> string list" where
  "call_vertices bb n [] = []"
| "call_vertices bb n (c # cs) = call_vertex bb c n # call_vertices bb (Suc n) cs"

fun chain :: "string \<Rightarrow> string list \<Rightarrow> string list \<Rightarrow> (string \<times> string) \<rightharpoonup> string" where
  "chain p (v # vs) (c # cs) = (chain v vs cs)((p, v) \<mapsto> c)"
| "chain p _ _ = Map.empty"

definition chain_end :: "string \<Rightarrow> string list \<Rightarrow> string" where
  "chain_end bb calls = last (bb # call_vertices bb 1 calls)"

definition expand_map ::
    "string \<Rightarrow> string list \<Rightarrow> ((string \<times> string) \<rightharpoonup> string) \<Rightarrow> (string \<times> string) \<rightharpoonup> string" where
  "expand_map bb calls E = (\<lambda>(x, y).
     if x = chain_end bb calls \<and> (bb, y) \<in> dom E then Some ''control''
     else if x = bb \<and> (bb, y) \<in> dom E then None
     else (E ++ chain bb (call_vertices bb 1 calls) calls) (x, y))"

text \<open>All blocks in order; the exit node follows the last call of the block it names.\<close>

fun expand_maps ::
    "(string \<times> string list) list \<Rightarrow> ((string \<times> string) \<rightharpoonup> string) \<Rightarrow> (string \<times> string) \<rightharpoonup> string" where
  "expand_maps [] E = E"
| "expand_maps ((bb, calls) # bs) E = expand_maps bs (expand_map bb calls E)"

fun all_call_vertices :: "(string \<times> string list) list \<Rightarrow> string list" where
  "all_call_vertices [] = []"
| "all_call_vertices ((bb, calls) # bs) = call_vertices bb 1 calls @ all_call_vertices bs"

fun expanded_exit :: "(string \<times> string list) list \<Rightarrow> string \<Rightarrow> string" where
  "expanded_exit [] x = x"
| "expanded_exit ((bb, calls) # bs) x =
     expanded_exit bs (if x = bb then last ([] # call_vertices bb 1 calls) else x)"

section \<open>Names of call vertices\<close>

lemma nat_string_inj: "nat_string m = nat_string n \<Longrightarrow> m = n"
  by (metis nat_string_spec)

lemma call_vertex_inj: "call_vertex bb c m = call_vertex bb c' n \<Longrightarrow> m = n"
proof -
  have d: "drop (length bb + 6) (call_vertex bb d k) = nat_string k" for d k
    by (simp add: call_vertex_def)
  assume "call_vertex bb c m = call_vertex bb c' n"
  then have "nat_string m = nat_string n" using d by metis
  then show ?thesis by (rule nat_string_inj)
qed

lemma call_vertices_set: "v \<in> set (call_vertices bb n cs) \<Longrightarrow> \<exists>c k. v = call_vertex bb c k \<and> n \<le> k"
proof (induction cs arbitrary: n)
  case (Cons c cs)
  then show ?case by (auto dest: Suc_leD) (metis Suc_leD)
qed simp

lemma call_vertices_distinct: "distinct (call_vertices bb n cs)"
proof (induction cs arbitrary: n)
  case (Cons c cs)
  have "call_vertex bb c n \<notin> set (call_vertices bb (Suc n) cs)"
    using call_vertices_set call_vertex_inj by fastforce
  with Cons show ?case by simp
qed simp

lemma length_call_vertices [simp]: "length (call_vertices bb n cs) = length cs"
  by (induction cs arbitrary: n) auto

lemma call_vertices_nil [simp]: "call_vertices bb n cs = [] \<longleftrightarrow> cs = []"
  by (cases cs) auto

lemma chain_dom: "chain p vs cs (x, y) = Some e \<Longrightarrow> y \<in> set vs \<and> x \<in> insert p (set vs)"
  by (induction p vs cs rule: chain.induct) (auto split: if_splits)

lemma chain_label:
  "distinct vs \<Longrightarrow> length vs = length cs \<Longrightarrow> k < length cs \<Longrightarrow>
     chain p vs cs ((p # vs) ! k, vs ! k) = Some (cs ! k)"
proof (induction p vs cs arbitrary: k rule: chain.induct)
  case (1 p v vs c cs)
  show ?case
  proof (cases k)
    case (Suc j)
    with 1 have "vs ! j \<in> set vs" "v \<notin> set vs" by auto
    then have "vs ! j \<noteq> v" by metis
    with 1 Suc show ?thesis by auto
  qed simp
qed auto

section \<open>The loops\<close>

context graaf_lib
begin

lemma expand_calls_inv:
  assumes "cg_inv L ok g" "prev \<in> dom (vertex_id_map g)"
    "set (call_vertices bb n calls) \<inter> dom (vertex_id_map g) = {}"
  shows "\<exists>g'. expand_calls L bb n calls prev name g =
      Inr (last (prev # call_vertices bb n calls), last (name # call_vertices bb n calls), g') \<and>
    cg_inv L ok g' \<and>
    dom (vertex_id_map g') = dom (vertex_id_map g) \<union> set (call_vertices bb n calls) \<and>
    cg_edges L g' = cg_edges L g ++ chain prev (call_vertices bb n calls) calls"
  using assms
proof (induction calls arbitrary: n prev name g)
  case (Cons c calls)
  let ?v = "call_vertex bb c n"
  obtain i g1 where g1: "CallGraph.add_vertex L ?v False g = (i, g1)" by (metis surj_pair)
  note a = add_vertex_inv [OF Cons.prems(1) g1]
  have fresh: "?v \<notin> dom (vertex_id_map g)" using Cons.prems(3) by auto
  have i1: "cg_inv L ok g1" using a by simp
  have "func_call_map g1 = (func_call_map g)(?v \<mapsto> False)"
    using a fresh inv_ids(3) [OF Cons.prems(1)] by simp
  then have d1: "dom (vertex_id_map g1) = insert ?v (dom (vertex_id_map g))"
    using inv_ids(3) [OF Cons.prems(1)] inv_ids(3) [OF i1] by simp
  obtain g2 where g2: "CallGraph.add_edge L prev ?v c g1 = Inr g2" "cg_inv L ok g2"
    "vertex_id_map g2 = vertex_id_map g1"
    "cg_edges L g2 = (cg_edges L g1)((prev, ?v) \<mapsto> c) \<or>
       (prev, ?v) \<in> dom (cg_edges L g1) \<and> cg_edges L g2 = cg_edges L g1"
    using add_edge_inv [OF i1, of prev ?v c] d1 Cons.prems(2) by auto
  have "(prev, ?v) \<notin> dom (cg_edges L g)"
    using edge_ends [OF Cons.prems(1), of prev ?v] fresh by auto
  then have e2: "cg_edges L g2 = (cg_edges L g)((prev, ?v) \<mapsto> c)" using g2(4) a by auto
  have new: "?v \<notin> set (call_vertices bb (Suc n) calls)"
    using call_vertices_distinct [of bb n "c # calls"] by simp
  have "set (call_vertices bb (Suc n) calls) \<inter> dom (vertex_id_map g2) = {}"
    using Cons.prems(3) new d1 g2(3) by auto
  from Cons.IH [OF g2(2) _ this, of ?v ?v] d1 g2(3) obtain g' where
    g': "expand_calls L bb (Suc n) calls ?v ?v g2 =
      Inr (last (?v # call_vertices bb (Suc n) calls), last (?v # call_vertices bb (Suc n) calls), g')"
    "cg_inv L ok g'"
    "dom (vertex_id_map g') = dom (vertex_id_map g2) \<union> set (call_vertices bb (Suc n) calls)"
    "cg_edges L g' = cg_edges L g2 ++ chain ?v (call_vertices bb (Suc n) calls) calls" by auto
  have "chain ?v (call_vertices bb (Suc n) calls) calls (prev, ?v) = None"
    using chain_dom [of ?v "call_vertices bb (Suc n) calls" calls prev ?v] new
    by (cases "chain ?v (call_vertices bb (Suc n) calls) calls (prev, ?v)") auto
  then have "cg_edges L g' = cg_edges L g ++ chain prev (call_vertices bb n (c # calls)) (c # calls)"
    using g'(4) e2 by (auto simp: fun_eq_iff map_add_def split: option.splits)
  moreover have "expand_calls L bb n (c # calls) prev name g =
      Inr (last (prev # call_vertices bb n (c # calls)), last (name # call_vertices bb n (c # calls)), g')"
    using g1 g2(1) g'(1) by (simp add: Let_def)
  moreover have "dom (vertex_id_map g') =
      dom (vertex_id_map g) \<union> set (call_vertices bb n (c # calls))"
    using g'(3) d1 g2(3) by auto
  ultimately show ?case using g'(2) by blast
qed simp

lemma move_neighbors_inv:
  assumes "cg_inv L ok g" "prev \<in> dom (vertex_id_map g)" "set ns \<subseteq> dom (vertex_id_map g)"
    "distinct ns" "prev = first \<or> (\<forall>v\<in>set ns. (prev, v) \<notin> dom (cg_edges L g))"
  shows "\<exists>g'. move_neighbors L first prev ns g = Inr g' \<and> cg_inv L ok g' \<and>
    vertex_id_map g' = vertex_id_map g \<and>
    cg_edges L g' = (\<lambda>(x, y). if x = prev \<and> y \<in> set ns then Some ''control''
       else if x = first \<and> y \<in> set ns then None else cg_edges L g (x, y))"
  using assms
proof (induction ns arbitrary: g)
  case (Cons v ns)
  obtain g1 where g1: "CallGraph.remove_edge L first v g = Inr g1" "cg_inv L ok g1"
    "vertex_id_map g1 = vertex_id_map g" "cg_edges L g1 = (cg_edges L g)((first, v) := None)"
    using remove_edge_inv [OF Cons.prems(1), of first v] by auto
  obtain g2 where g2: "CallGraph.add_edge L prev v ''control'' g1 = Inr g2" "cg_inv L ok g2"
    "vertex_id_map g2 = vertex_id_map g1"
    "cg_edges L g2 = (cg_edges L g1)((prev, v) \<mapsto> ''control'') \<or>
       (prev, v) \<in> dom (cg_edges L g1) \<and> cg_edges L g2 = cg_edges L g1"
    using add_edge_inv [OF g1(2), of prev v "''control''"] g1(3) Cons.prems(2,3) by auto
  have e2: "cg_edges L g2 = (cg_edges L g)((first, v) := None, (prev, v) \<mapsto> ''control'')"
    using g2(4) g1(4) Cons.prems(5) by auto
  have "prev = first \<or> (\<forall>w\<in>set ns. (prev, w) \<notin> dom (cg_edges L g2))"
    using Cons.prems(4,5) e2 by auto
  from Cons.IH [OF g2(2) _ _ _ this] g2(3) g1(3) Cons.prems(2-4) obtain g' where
    g': "move_neighbors L first prev ns g2 = Inr g'" "cg_inv L ok g'"
    "vertex_id_map g' = vertex_id_map g"
    "cg_edges L g' = (\<lambda>(x, y). if x = prev \<and> y \<in> set ns then Some ''control''
       else if x = first \<and> y \<in> set ns then None else cg_edges L g2 (x, y))" by auto
  have "cg_edges L g' = (\<lambda>(x, y). if x = prev \<and> y \<in> set (v # ns) then Some ''control''
       else if x = first \<and> y \<in> set (v # ns) then None else cg_edges L g (x, y))"
    using g'(4) e2 by (auto simp: fun_eq_iff)
  with g1(1) g2(1) g' show ?case by simp
qed (auto simp: fun_eq_iff)

lemma expand_block_inv:
  assumes "cg_inv L ok g" "bb \<in> dom (vertex_id_map g)"
    "set (call_vertices bb 1 calls) \<inter> dom (vertex_id_map g) = {}"
  shows "\<exists>g'. expand_block L bb calls (x, g) =
      Inr (if x = bb then last ([] # call_vertices bb 1 calls) else x, g') \<and>
    cg_inv L ok g' \<and>
    dom (vertex_id_map g') = dom (vertex_id_map g) \<union> set (call_vertices bb 1 calls) \<and>
    cg_edges L g' = expand_map bb calls (cg_edges L g)"
proof -
  let ?vs = "call_vertices bb 1 calls" and ?E = "cg_edges L g" and ?z = "chain_end bb calls"
  obtain ns where ns: "get_neighbors L bb g = Inr ns" "lists_neighbors L g bb ns"
    using queries [OF assms(1), of bb] by metis
  then have nset: "distinct ns" "set ns = {v. (bb, v) \<in> dom ?E}" by (auto simp: lists_neighbors_def)
  obtain g1 where g1: "expand_calls L bb 1 calls bb [] g = Inr (?z, last ([] # ?vs), g1)"
    "cg_inv L ok g1" "dom (vertex_id_map g1) = dom (vertex_id_map g) \<union> set ?vs"
    "cg_edges L g1 = ?E ++ chain bb ?vs calls"
    using expand_calls_inv [OF assms, of "[]"] by (auto simp: chain_end_def)
  have zin: "?z = bb \<or> ?z \<in> set ?vs" by (simp add: chain_end_def)
  then have "?z \<in> dom (vertex_id_map g1)" using assms(2) g1(3) by auto
  moreover have "set ns \<subseteq> dom (vertex_id_map g)"
    using nset(2) edge_ends [OF assms(1)] by blast
  moreover have "?z = bb \<or> (\<forall>v\<in>set ns. (?z, v) \<notin> dom (cg_edges L g1))"
  proof (cases "?z = bb")
    case False
    then have z: "?z \<notin> dom (vertex_id_map g)" using zin assms(3) by auto
    have "(?z, v) \<notin> dom (cg_edges L g1)" if "v \<in> set ns" for v
    proof -
      have "v \<notin> set ?vs" using that \<open>set ns \<subseteq> dom (vertex_id_map g)\<close> assms(3) by auto
      with chain_dom [of bb ?vs calls ?z v] edge_ends [OF assms(1), of ?z v] z g1(4)
      show ?thesis by auto
    qed
    then show ?thesis by blast
  qed simp
  ultimately obtain g2 where g2: "move_neighbors L bb ?z ns g1 = Inr g2" "cg_inv L ok g2"
    "vertex_id_map g2 = vertex_id_map g1"
    "cg_edges L g2 = (\<lambda>(x, y). if x = ?z \<and> y \<in> set ns then Some ''control''
       else if x = bb \<and> y \<in> set ns then None else cg_edges L g1 (x, y))"
    using move_neighbors_inv [OF g1(2) _ _ nset(1), of ?z bb] g1(3) by blast
  have "cg_edges L g2 = expand_map bb calls ?E"
    unfolding g2(4) g1(4) nset(2) expand_map_def mem_Collect_eq ..
  with ns(1) g1(1,3) g2(1-3) show ?thesis by (simp add: expand_block_def)
qed

lemma expand_blocks_inv:
  assumes "cg_inv L ok g" "fst ` set bs \<subseteq> dom (vertex_id_map g)" "distinct (all_call_vertices bs)"
    "set (all_call_vertices bs) \<inter> dom (vertex_id_map g) = {}"
  shows "\<exists>g'. expand_blocks L bs (x, g) = Inr (expanded_exit bs x, g') \<and> cg_inv L ok g' \<and>
    dom (vertex_id_map g') = dom (vertex_id_map g) \<union> set (all_call_vertices bs) \<and>
    cg_edges L g' = expand_maps bs (cg_edges L g)"
  using assms
proof (induction bs arbitrary: x g)
  case (Cons b bs)
  obtain bb calls where b: "b = (bb, calls)" by (metis surj_pair)
  let ?x = "if x = bb then last ([] # call_vertices bb 1 calls) else x"
  from expand_block_inv [OF Cons.prems(1), of bb calls x] Cons.prems(2,4) obtain g1 where
    g1: "expand_block L bb calls (x, g) = Inr (?x, g1)" "cg_inv L ok g1"
    "dom (vertex_id_map g1) = dom (vertex_id_map g) \<union> set (call_vertices bb 1 calls)"
    "cg_edges L g1 = expand_map bb calls (cg_edges L g)" by (auto simp: b)
  have "set (all_call_vertices bs) \<inter> dom (vertex_id_map g1) = {}"
    using Cons.prems(3,4) g1(3) by (auto simp: b)
  moreover have "fst ` set bs \<subseteq> dom (vertex_id_map g1)" "distinct (all_call_vertices bs)"
    using Cons.prems(2,3) g1(3) by (auto simp: b)
  ultimately obtain g' where
    "expand_blocks L bs (?x, g1) = Inr (expanded_exit bs ?x, g')" "cg_inv L ok g'"
    "dom (vertex_id_map g') = dom (vertex_id_map g1) \<union> set (all_call_vertices bs)"
    "cg_edges L g' = expand_maps bs (cg_edges L g1)"
    using Cons.IH [OF g1(2)] by blast
  with g1 show ?case by (auto simp: b)
qed simp

end

end
