(* ===== verification/MergeSpec.thy ===== *)
theory MergeSpec
  imports CallGraphSpec CallGraphGen
begin

text \<open>
  What merging along edges does, whichever order the graph library iterates in: it ends after at
  most as many passes as there are vertices, no merged kind of edge is left, and the result is a
  part of a quotient of the original graph by those edges.
\<close>

section \<open>Quotients\<close>

type_synonym edge_map = "(string \<times> string) \<rightharpoonup> string"

definition merge_link :: "(string \<Rightarrow> bool) \<Rightarrow> edge_map \<Rightarrow> (string \<times> string) set" where
  "merge_link Q E =
     ({(u, v). \<exists>e. E (u, v) = Some e \<and> Q e} \<union> {(v, u). \<exists>e. E (u, v) = Some e \<and> Q e})\<^sup>*"

definition quotient_by :: "(string \<Rightarrow> string) \<Rightarrow> edge_map \<Rightarrow> edge_map \<Rightarrow> bool" where
  "quotient_by f E E' \<longleftrightarrow>
     (\<forall>x y e. E' (x, y) = Some e \<longrightarrow> (\<exists>x0 y0. E (x0, y0) = Some e \<and> f x0 = x \<and> f y0 = y))"

definition merged_from :: "(string \<Rightarrow> bool) \<Rightarrow> edge_map \<Rightarrow> string \<Rightarrow> edge_map \<Rightarrow> string \<Rightarrow> bool" where
  "merged_from Q E0 x0 E x \<longleftrightarrow>
     (x0, x) \<in> merge_link Q E0 \<and> (\<exists>f. quotient_by f E0 E \<and> (\<forall>u. (u, f u) \<in> merge_link Q E0))"

lemma merge_link_refl [simp]: "(u, u) \<in> merge_link Q E"
  by (simp add: merge_link_def)

lemma merge_link_trans: "(u, v) \<in> merge_link Q E \<Longrightarrow> (v, w) \<in> merge_link Q E \<Longrightarrow> (u, w) \<in> merge_link Q E"
  by (simp add: merge_link_def)

lemma merge_link_sym: "(u, v) \<in> merge_link Q E \<Longrightarrow> (v, u) \<in> merge_link Q E"
  unfolding merge_link_def by (rule symD [OF sym_rtrancl]) (auto simp: sym_def)

lemma merge_link_edge: "E (u, v) = Some e \<Longrightarrow> Q e \<Longrightarrow> (u, v) \<in> merge_link Q E"
  unfolding merge_link_def by (rule r_into_rtrancl) auto

lemma merged_from_refl: "merged_from Q E x E x"
  unfolding merged_from_def quotient_by_def by (auto intro!: exI [of _ "\<lambda>u. u"])

text \<open>An edge of the quotient links classes of the original.\<close>

lemma merged_from_link:
  assumes "merged_from Q E0 x0 E x" "E (u, v) = Some e" "Q e"
  shows "(u, v) \<in> merge_link Q E0"
proof -
  from assms obtain f u0 v0 where f: "E0 (u0, v0) = Some e" "f u0 = u" "f v0 = v"
    "\<And>w. (w, f w) \<in> merge_link Q E0"
    by (auto simp: merged_from_def quotient_by_def) metis
  have "(u, u0) \<in> merge_link Q E0" using f(4) [of u0] f(2) by (auto intro: merge_link_sym)
  moreover have "(u0, v0) \<in> merge_link Q E0" using f(1) assms(3) by (rule merge_link_edge)
  moreover have "(v0, v) \<in> merge_link Q E0" using f(4) [of v0] f(3) by simp
  ultimately show ?thesis by (blast intro: merge_link_trans)
qed

lemma quotient_step:
  assumes "quotient_by f E0 E" "dom E' \<subseteq> merged_keys v n (dom E) \<union> loop_key v n (dom E)"
    "\<forall>k e. E' k = Some e \<longrightarrow> moved_label v n E k e"
  shows "quotient_by (\<lambda>u. if f u = n then v else f u) E0 E'"
proof -
  let ?f = "\<lambda>u. if f u = n then v else f u"
  have q: "\<exists>a0 b0. E0 (a0, b0) = Some e \<and> ?f a0 = a \<and> ?f b0 = b" if e: "E' (a, b) = Some e" for a b e
  proof -
    have "(a, b) \<in> merged_keys v n (dom E) \<union> loop_key v n (dom E)" using e assms(2) by blast
    then have ab: "a \<noteq> n" "b \<noteq> n" by (auto simp: merged_keys_def loop_key_def split: if_splits)
    have "moved_label v n E (a, b) e" using assms(3) e by blast
    then consider "E (a, b) = Some e" | "a = v" "E (n, b) = Some e" | "b = v" "E (a, n) = Some e"
      | "a = v" "b = v" "E (n, n) = Some e"
      by (auto simp: moved_label_def merged_label_def)
    then obtain a1 b1 where e1: "E (a1, b1) = Some e" "(if a1 = n then v else a1) = a"
      "(if b1 = n then v else b1) = b"
      by cases (use ab in auto)
    from assms(1) e1(1) obtain a0 b0 where "E0 (a0, b0) = Some e" "f a0 = a1" "f b0 = b1"
      unfolding quotient_by_def by blast
    with e1(2,3) have "E0 (a0, b0) = Some e \<and> ?f a0 = a \<and> ?f b0 = b" by (auto split: if_splits)
    then show ?thesis by blast
  qed
  then show ?thesis unfolding quotient_by_def by blast
qed

lemma merged_from_step:
  assumes "merged_from Q E0 x0 E x" "(v, n) \<in> merge_link Q E0"
    "dom E' \<subseteq> merged_keys v n (dom E) \<union> loop_key v n (dom E)" "\<forall>k e. E' k = Some e \<longrightarrow> moved_label v n E k e"
  shows "merged_from Q E0 x0 E' (if x = n then v else x)"
proof -
  from assms(1) obtain f where f: "quotient_by f E0 E" "\<And>u. (u, f u) \<in> merge_link Q E0"
    and x: "(x0, x) \<in> merge_link Q E0" by (auto simp: merged_from_def)
  let ?f = "\<lambda>u. if f u = n then v else f u"
  have nv: "(n, v) \<in> merge_link Q E0" using assms(2) by (rule merge_link_sym)
  have "(u, ?f u) \<in> merge_link Q E0" for u
    using f(2) [of u] merge_link_trans [OF _ nv, of u] by auto
  moreover have "(x0, if x = n then v else x) \<in> merge_link Q E0"
    using x nv by (auto intro: merge_link_trans)
  ultimately show ?thesis
    using quotient_step [OF f(1) assms(3,4)] unfolding merged_from_def by blast
qed

definition no_edge :: "edge_map \<Rightarrow> string \<Rightarrow> (string \<Rightarrow> bool) \<Rightarrow> bool" where
  "no_edge E v P \<longleftrightarrow> (\<forall>w e. E (v, w) = Some e \<longrightarrow> \<not> P e)"

text \<open>Without the combination the exit may still be renamed.\<close>

lemma merged_from_rename:
  assumes "merged_from Q E0 x0 E x" "(v, n) \<in> merge_link Q E0"
  shows "merged_from Q E0 x0 E (if x = n then v else x)"
  using assms merge_link_sym [OF assms(2)] by (auto simp: merged_from_def intro: merge_link_trans)

section \<open>Merging\<close>

context graaf_lib
begin

lemma merge_neighbors_inv:
  assumes "cg_inv L ok cg" "merged_from Q E0 x0 (cg_edges L cg) x"
    "\<forall>n\<in>set ns. (v, n) \<in> merge_link Q E0"
  shows "\<exists>x' cg'. merge_neighbors L v ns (x, cg) = Inr (x', cg') \<and> cg_inv L ok cg' \<and>
    merged_from Q E0 x0 (cg_edges L cg') x' \<and>
    dom (vertex_id_map cg') \<subseteq> dom (vertex_id_map cg) \<and>
    (ns \<noteq> [] \<and> v \<in> dom (vertex_id_map cg) \<longrightarrow> hd ns \<notin> dom (vertex_id_map cg')) \<and>
    (ns = [] \<longrightarrow> x' = x \<and> cg' = cg)"
  using assms
proof (induction ns arbitrary: x cg)
  case (Cons n ns)
  let ?x = "if x = n then v else x"
  from Cons.prems(3) have vn: "(v, n) \<in> merge_link Q E0" by simp
  have "\<exists>cg1. combine_vertex L v n cg = Inr cg1 \<and> cg_inv L ok cg1 \<and>
    merged_from Q E0 x0 (cg_edges L cg1) ?x \<and> dom (vertex_id_map cg1) \<subseteq> dom (vertex_id_map cg) \<and>
    (v \<in> dom (vertex_id_map cg) \<longrightarrow> n \<notin> dom (vertex_id_map cg1))"
  proof (cases "v \<in> dom (vertex_id_map cg) \<and> n \<in> dom (vertex_id_map cg)")
    case True
    then obtain cg1 where cg1: "combine_vertex L v n cg = Inr cg1" "cg_inv L ok cg1"
      "func_call_map cg1 = (func_call_map cg)(n := None)"
      "dom (cg_edges L cg1) \<subseteq> merged_keys v n (dom (cg_edges L cg)) \<union> loop_key v n (dom (cg_edges L cg))"
      "\<forall>k e. cg_edges L cg1 k = Some e \<longrightarrow> moved_label v n (cg_edges L cg) k e"
      using combine_vertex_inv [OF Cons.prems(1), of v n] by blast
    have "dom (vertex_id_map cg1) = dom (vertex_id_map cg) - {n}"
      using inv_ids(3) [OF cg1(2)] inv_ids(3) [OF Cons.prems(1)] cg1(3) by auto
    with cg1 merged_from_step [OF Cons.prems(2) vn cg1(4,5)] show ?thesis by auto
  next
    case False
    with Cons.prems(1) combine_vertex_absent [OF Cons.prems(1), of v n]
      merged_from_rename [OF Cons.prems(2) vn] show ?thesis by auto
  qed
  then obtain cg1 where cg1: "combine_vertex L v n cg = Inr cg1" "cg_inv L ok cg1"
    "merged_from Q E0 x0 (cg_edges L cg1) ?x" "dom (vertex_id_map cg1) \<subseteq> dom (vertex_id_map cg)"
    "v \<in> dom (vertex_id_map cg) \<longrightarrow> n \<notin> dom (vertex_id_map cg1)" by blast
  from Cons.IH [OF cg1(2,3)] Cons.prems(3) obtain x' cg' where
    cg': "merge_neighbors L v ns (?x, cg1) = Inr (x', cg')" "cg_inv L ok cg'"
    "merged_from Q E0 x0 (cg_edges L cg') x'" "dom (vertex_id_map cg') \<subseteq> dom (vertex_id_map cg1)"
    by auto
  have "merge_neighbors L v (n # ns) (x, cg) = Inr (x', cg')" using cg1(1) cg'(1) by simp
  with cg'(2-4) cg1(4,5) show ?case by auto
qed simp

text \<open>
  The state of a pass: \<open>none\<close> tells whether nothing was merged.  If so, the graph is as before and
  no edge to merge leaves the vertices treated; if not, the graph has fewer vertices.
\<close>

definition pass_ok where
  "pass_ok Q E0 x0 vs Ps none x cg none' x' cg' \<longleftrightarrow>
     cg_inv L ok cg' \<and> merged_from Q E0 x0 (cg_edges L cg') x' \<and>
     dom (vertex_id_map cg') \<subseteq> dom (vertex_id_map cg) \<and>
     (none' \<longrightarrow> none \<and> x' = x \<and> cg' = cg \<and>
        (\<forall>v\<in>set vs. \<forall>P\<in>set Ps. no_edge (cg_edges L cg) v P)) \<and>
     (none \<and> \<not> none' \<longrightarrow> dom (vertex_id_map cg') \<subset> dom (vertex_id_map cg))"

lemma merge_at_inv:
  assumes "cg_inv L ok cg" "merged_from Q E0 x0 (cg_edges L cg) x" "\<forall>P\<in>set Ps. \<forall>e. P e \<longrightarrow> Q e"
  shows "\<exists>none' x' cg'. merge_at L Ps v (none, x, cg) = Inr (none', x', cg') \<and>
    pass_ok Q E0 x0 [v] Ps none x cg none' x' cg'"
  using assms
proof (induction Ps arbitrary: none x cg)
  case Nil
  then show ?case by (simp add: pass_ok_def)
next
  case (Cons P Ps)
  obtain ns where ns: "labelled_neighbors L P v cg = Inr ns"
    "set ns = {w. \<exists>e. cg_edges L cg (v, w) = Some e \<and> P e}"
    using labelled_neighbors_iff [OF Cons.prems(1)] by blast
  have "\<forall>n\<in>set ns. (v, n) \<in> merge_link Q E0"
    using ns(2) merged_from_link [OF Cons.prems(2)] Cons.prems(3) by auto
  from merge_neighbors_inv [OF Cons.prems(1,2) this] obtain x1 cg1 where
    m: "merge_neighbors L v ns (x, cg) = Inr (x1, cg1)" "cg_inv L ok cg1"
    "merged_from Q E0 x0 (cg_edges L cg1) x1" "dom (vertex_id_map cg1) \<subseteq> dom (vertex_id_map cg)"
    "ns \<noteq> [] \<and> v \<in> dom (vertex_id_map cg) \<longrightarrow> hd ns \<notin> dom (vertex_id_map cg1)"
    "ns = [] \<longrightarrow> x1 = x \<and> cg1 = cg" by blast
  have less: "dom (vertex_id_map cg1) \<subset> dom (vertex_id_map cg)" if "ns \<noteq> []"
  proof -
    have "hd ns \<in> set ns" using that by simp
    then obtain e where "cg_edges L cg (v, hd ns) = Some e" using ns(2) by auto
    with edge_ends [OF Cons.prems(1)] have "v \<in> dom (vertex_id_map cg)" "hd ns \<in> dom (vertex_id_map cg)"
      by blast+
    with m(4,5) that show ?thesis by blast
  qed
  have "\<forall>P\<in>set Ps. \<forall>e. P e \<longrightarrow> Q e" using Cons.prems(3) by simp
  from Cons.IH [OF m(2,3) this, of "none \<and> ns = []"] obtain none' x' cg' where
    r: "merge_at L Ps v (none \<and> ns = [], x1, cg1) = Inr (none', x', cg')"
    "pass_ok Q E0 x0 [v] Ps (none \<and> ns = []) x1 cg1 none' x' cg'" by blast
  have "merge_at L (P # Ps) v (none, x, cg) = Inr (none', x', cg')" using ns(1) m(1) r(1) by simp
  moreover have "pass_ok Q E0 x0 [v] (P # Ps) none x cg none' x' cg'"
  proof (cases "ns = []")
    case True
    with ns(2) have "no_edge (cg_edges L cg) v P" by (auto simp: no_edge_def)
    with True r(2) m(6) show ?thesis by (auto simp: pass_ok_def)
  next
    case False
    with r(2) less show ?thesis unfolding pass_ok_def by (simp, blast)
  qed
  ultimately show ?case by blast
qed

lemma merge_pass_inv:
  assumes "cg_inv L ok cg" "merged_from Q E0 x0 (cg_edges L cg) x" "\<forall>P\<in>set Ps. \<forall>e. P e \<longrightarrow> Q e"
  shows "\<exists>none' x' cg'. merge_pass L Ps vs (none, x, cg) = Inr (none', x', cg') \<and>
    pass_ok Q E0 x0 vs Ps none x cg none' x' cg'"
  using assms(1,2)
proof (induction vs arbitrary: none x cg)
  case Nil
  then show ?case by (simp add: pass_ok_def)
next
  case (Cons v vs)
  from merge_at_inv [OF Cons.prems assms(3)] obtain none1 x1 cg1 where
    a: "merge_at L Ps v (none, x, cg) = Inr (none1, x1, cg1)"
    "pass_ok Q E0 x0 [v] Ps none x cg none1 x1 cg1" by blast
  then have "cg_inv L ok cg1" "merged_from Q E0 x0 (cg_edges L cg1) x1" by (simp_all add: pass_ok_def)
  from Cons.IH [OF this] obtain none' x' cg' where
    b: "merge_pass L Ps vs (none1, x1, cg1) = Inr (none', x', cg')"
    "pass_ok Q E0 x0 vs Ps none1 x1 cg1 none' x' cg'" by blast
  have "pass_ok Q E0 x0 (v # vs) Ps none x cg none' x' cg'"
  proof (cases none1)
    case True
    with a(2) b(2) show ?thesis by (auto simp: pass_ok_def)
  next
    case False
    with a(2) have "dom (vertex_id_map cg1) \<subseteq> dom (vertex_id_map cg)"
      "none \<Longrightarrow> dom (vertex_id_map cg1) \<subset> dom (vertex_id_map cg)"
      by (simp_all add: pass_ok_def)
    with False b(2) show ?thesis unfolding pass_ok_def by (simp, blast)
  qed
  with a(1) b(1) show ?case by auto
qed

lemma merge_loop_inv:
  assumes "cg_inv L ok cg" "merged_from Q E0 x0 (cg_edges L cg) x"
    "\<And>e. Q e \<longleftrightarrow> (\<exists>P\<in>set Ps. P e)" "card (dom (vertex_id_map cg)) < fuel"
  shows "\<exists>x' cg'. merge_loop L Ps fuel (x, cg) = Some (Inr (x', cg')) \<and> cg_inv L ok cg' \<and>
    merged_from Q E0 x0 (cg_edges L cg') x' \<and>
    dom (vertex_id_map cg') \<subseteq> dom (vertex_id_map cg) \<and>
    (\<forall>k e. cg_edges L cg' k = Some e \<longrightarrow> \<not> Q e)"
  using assms(1,2,4)
proof (induction fuel arbitrary: x cg)
  case (Suc fuel)
  have "\<forall>P\<in>set Ps. \<forall>e. P e \<longrightarrow> Q e" using assms(3) by blast
  from merge_pass_inv [OF Suc.prems(1,2) this, of "get_vertices L cg" True] obtain none' x1 cg1 where
    p: "merge_pass L Ps (get_vertices L cg) (True, x, cg) = Inr (none', x1, cg1)"
    "pass_ok Q E0 x0 (get_vertices L cg) Ps True x cg none' x1 cg1" by blast
  show ?case
  proof (cases none')
    case True
    with p(2) have "cg1 = cg" and no: "\<forall>v\<in>set (get_vertices L cg). \<forall>P\<in>set Ps. no_edge (cg_edges L cg) v P"
      by (simp_all add: pass_ok_def)
    then have "\<not> Q e" if "cg_edges L cg k = Some e" for k e
      using that get_vertices_inv(2) [OF Suc.prems(1)] edge_ends [OF Suc.prems(1), of "fst k" "snd k" e]
        assms(3) unfolding no_edge_def by (metis prod.collapse)
    with True p \<open>cg1 = cg\<close> show ?thesis by (auto simp: pass_ok_def)
  next
    case False
    with p(2) have s: "cg_inv L ok cg1" "merged_from Q E0 x0 (cg_edges L cg1) x1"
      "dom (vertex_id_map cg1) \<subset> dom (vertex_id_map cg)"
      by (simp_all add: pass_ok_def)
    have "card (dom (vertex_id_map cg1)) < fuel"
      using psubset_card_mono [OF finite_names [OF Suc.prems(1)] s(3)] Suc.prems(3) by simp
    from Suc.IH [OF s(1,2) this] s(3) p(1) False show ?thesis by auto
  qed
qed simp

end

end
