(* ===== verification/AnalyseSpec.thy ===== *)
theory AnalyseSpec
  imports ExpandSpec MergeSpec
begin

text \<open>
  The analysis of one function: the graph of its basic blocks, the calls of the blocks, and the
  three steps together, from the instructions to the graph of library calls.
\<close>

section \<open>The calls of the blocks\<close>

lemma list_calls_sorted: "keys_sorted cs \<Longrightarrow> keys_sorted (list_calls r bbs cs)"
  by (induction r bbs cs rule: list_calls.induct) (simp_all add: Let_def keys_sorted_map_put)

lemma list_calls_map:
  assumes "distinct (map bb_name bbs)" "\<forall>bb\<in>set bbs. map_of cs (bb_name bb) = None"
  shows "map_of (list_calls r bbs cs) k = Some calls \<longleftrightarrow>
    map_of cs k = Some calls \<or>
    (\<exists>bb\<in>set bbs. bb_name bb = k \<and> calls = getLibraryCalls r bb \<and> calls \<noteq> [])"
  using assms
proof (induction bbs arbitrary: cs)
  case (Cons bb bbs)
  let ?cs = "if getLibraryCalls r bb \<noteq> [] then map_put (bb_name bb) (getLibraryCalls r bb) cs else cs"
  have m: "map_of ?cs k = Some calls \<longleftrightarrow> map_of cs k = Some calls \<or>
      k = bb_name bb \<and> calls = getLibraryCalls r bb \<and> calls \<noteq> []"
    using Cons.prems(2) by (auto simp: map_of_map_put)
  have "map_of ?cs (bb_name x) = None" if "x \<in> set bbs" for x
  proof -
    have "bb_name x \<in> bb_name ` set bbs" using that by (rule imageI)
    then have "bb_name x \<noteq> bb_name bb" using Cons.prems(1) by auto
    with Cons.prems(2) that show ?thesis by (simp add: map_of_map_put)
  qed
  with Cons.IH [of ?cs] Cons.prems(1) m show ?case by (auto simp: Let_def)
qed simp

lemma list_calls_set:
  assumes "distinct (map bb_name bbs)"
  shows "(k, calls) \<in> set (list_calls r bbs []) \<longleftrightarrow>
    (\<exists>bb\<in>set bbs. bb_name bb = k \<and> calls = getLibraryCalls r bb \<and> calls \<noteq> [])"
proof -
  have "keys_sorted (list_calls r bbs [])"
    by (rule list_calls_sorted) (simp add: keys_sorted_def)
  then have "(k, calls) \<in> set (list_calls r bbs []) \<longleftrightarrow> map_of (list_calls r bbs []) k = Some calls"
    by (simp add: keys_sorted_distinct)
  with list_calls_map [OF assms, of "[]"] show ?thesis by simp
qed

section \<open>The graph of the blocks\<close>

definition flow_edge :: "'i basic_block list \<Rightarrow> string \<Rightarrow> string \<Rightarrow> bool" where
  "flow_edge bbs u v \<longleftrightarrow>
     (\<exists>bb\<in>set bbs. \<exists>s\<in>set (bb_succs bb). bb_name bb = u \<and> bb_name (bbs ! s) = v)"

definition flow_map :: "'i basic_block list \<Rightarrow> edge_map" where
  "flow_map bbs = (\<lambda>(u, v). if flow_edge bbs u v then Some ''control'' else None)"

context graaf_lib
begin

lemma add_block_inv:
  assumes "cg_inv L ok (bbGraph m)"
  shows "cg_inv L ok (bbGraph (add_block L r bb m))"
    "dom (vertex_id_map (bbGraph (add_block L r bb m))) =
       insert (bb_name bb) (dom (vertex_id_map (bbGraph m)))"
    "cg_edges L (bbGraph (add_block L r bb m)) = cg_edges L (bbGraph m)"
proof -
  obtain i g where g: "CallGraph.add_vertex L (bb_name bb) (getLibraryCalls r bb \<noteq> []) (bbGraph m) = (i, g)"
    by (metis surj_pair)
  note a = add_vertex_inv [OF assms g]
  then have i: "cg_inv L ok g" by simp
  have "dom (func_call_map g) = insert (bb_name bb) (dom (func_call_map (bbGraph m)))"
    using a by auto
  then show "dom (vertex_id_map (bbGraph (add_block L r bb m))) =
       insert (bb_name bb) (dom (vertex_id_map (bbGraph m)))"
    using inv_ids(3) [OF assms] inv_ids(3) [OF i] g by (simp add: add_block_def)
qed (use add_vertex_inv [OF assms surjective_pairing] in \<open>simp_all add: add_block_def\<close>)

lemma add_block_nodes:
  "bbGraph (add_block L r bb (m\<lparr>entryNode := x\<rparr>)) = bbGraph (add_block L r bb m)"
  "bbGraph (add_block L r bb (m\<lparr>exitNode := x\<rparr>)) = bbGraph (add_block L r bb m)"
  "bbToLibcMap (add_block L r bb m) = bbToLibcMap m"
  by (simp_all add: add_block_def)

lemma add_blocks_inv:
  assumes "cg_inv L ok (bbGraph m)"
  shows "cg_inv L ok (bbGraph (add_blocks L r bbs i rest m)) \<and>
    dom (vertex_id_map (bbGraph (add_blocks L r bbs i rest m))) =
      bb_name ` set rest \<union> dom (vertex_id_map (bbGraph m)) \<and>
    cg_edges L (bbGraph (add_blocks L r bbs i rest m)) = cg_edges L (bbGraph m) \<and>
    bbToLibcMap (add_blocks L r bbs i rest m) = bbToLibcMap m"
  using assms
proof (induction rest arbitrary: i m)
  case (Cons bb rest)
  define m1 where "m1 = (if no_predecessors bbs i
    then add_block L r bb (m\<lparr>entryNode := bb_name bb\<rparr>) else m)"
  define m2 where "m2 = (if returns bb
    then add_block L r bb (m1\<lparr>exitNode := bb_name bb\<rparr>) else add_block L r bb m1)"
  have m1: "cg_inv L ok (bbGraph m1)" "cg_edges L (bbGraph m1) = cg_edges L (bbGraph m)"
    "insert (bb_name bb) (dom (vertex_id_map (bbGraph m1))) =
       insert (bb_name bb) (dom (vertex_id_map (bbGraph m)))"
    "bbToLibcMap m1 = bbToLibcMap m"
    unfolding m1_def using Cons.prems by (simp_all add: add_block_nodes add_block_inv)
  have g2: "bbGraph m2 = bbGraph (add_block L r bb m1)" "bbToLibcMap m2 = bbToLibcMap m1"
    unfolding m2_def by (simp_all add: add_block_nodes)
  have m2: "cg_inv L ok (bbGraph m2)" "cg_edges L (bbGraph m2) = cg_edges L (bbGraph m)"
    "dom (vertex_id_map (bbGraph m2)) = insert (bb_name bb) (dom (vertex_id_map (bbGraph m)))"
    "bbToLibcMap m2 = bbToLibcMap m"
    unfolding g2 add_block_inv(2) [OF m1(1)] add_block_inv(3) [OF m1(1)] m1(2-4)
    using add_block_inv(1) [OF m1(1)] by blast+
  have "add_blocks L r bbs i (bb # rest) m = add_blocks L r bbs (Suc i) rest m2"
    by (simp add: Let_def m1_def m2_def)
  with Cons.IH [OF m2(1), of "Suc i"] m2 show ?case by auto
qed simp

lemma ran_map_upd_Some_le: "ran (m(k \<mapsto> v)) \<subseteq> insert v (ran m)"
  unfolding ran_def by (auto split: if_splits)

lemma add_successors_inv:
  assumes "cg_inv L ok g" "v \<in> dom (vertex_id_map g)" "\<forall>s\<in>set ss. bb_name (bbs ! s) \<in> dom (vertex_id_map g)"
    "ran (cg_edges L g) \<subseteq> {''control''}"
  shows "\<exists>g'. add_successors L bbs v ss g = Inr g' \<and> cg_inv L ok g' \<and>
    vertex_id_map g' = vertex_id_map g \<and> ran (cg_edges L g') \<subseteq> {''control''} \<and>
    dom (cg_edges L g') = dom (cg_edges L g) \<union> {v} \<times> (\<lambda>s. bb_name (bbs ! s)) ` set ss"
  using assms
proof (induction ss arbitrary: g)
  case (Cons s ss)
  let ?w = "bb_name (bbs ! s)"
  obtain g1 where g1: "CallGraph.add_edge L v ?w ''control'' g = Inr g1" "cg_inv L ok g1"
    "vertex_id_map g1 = vertex_id_map g"
    "cg_edges L g1 = (cg_edges L g)((v, ?w) \<mapsto> ''control'') \<or>
       (v, ?w) \<in> dom (cg_edges L g) \<and> cg_edges L g1 = cg_edges L g"
    using add_edge_inv [OF Cons.prems(1), of v ?w "''control''"] Cons.prems(2,3) by auto
  have d: "dom (cg_edges L g1) = insert (v, ?w) (dom (cg_edges L g))" using g1(4) by auto
  have "ran (cg_edges L g1) \<subseteq> insert ''control'' (ran (cg_edges L g))"
    using g1(4) ran_map_upd_Some_le [of "cg_edges L g" "(v, ?w)" "''control''"] by auto
  with Cons.prems(4) have r: "ran (cg_edges L g1) \<subseteq> {''control''}" by blast
  from Cons.IH [OF g1(2) _ _ r] g1(3) Cons.prems(2,3) obtain g' where
    "add_successors L bbs v ss g1 = Inr g'" "cg_inv L ok g'" "vertex_id_map g' = vertex_id_map g1"
    "ran (cg_edges L g') \<subseteq> {''control''}"
    "dom (cg_edges L g') = dom (cg_edges L g1) \<union> {v} \<times> (\<lambda>s. bb_name (bbs ! s)) ` set ss" by auto
  with g1(1,3) d show ?case by auto
qed simp

lemma add_flow_inv:
  assumes "cg_inv L ok g" "ran (cg_edges L g) \<subseteq> {''control''}"
    "\<forall>bb\<in>set rest. bb_name bb \<in> dom (vertex_id_map g) \<and>
       (\<forall>s\<in>set (bb_succs bb). bb_name (bbs ! s) \<in> dom (vertex_id_map g))"
  shows "\<exists>g'. add_flow L bbs rest g = Inr g' \<and> cg_inv L ok g' \<and>
    vertex_id_map g' = vertex_id_map g \<and> ran (cg_edges L g') \<subseteq> {''control''} \<and>
    dom (cg_edges L g') = dom (cg_edges L g) \<union>
      {(u, v). \<exists>bb\<in>set rest. \<exists>s\<in>set (bb_succs bb). bb_name bb = u \<and> bb_name (bbs ! s) = v}"
  using assms
proof (induction rest arbitrary: g)
  case (Cons bb rest)
  from Cons.prems(3) have bb: "bb_name bb \<in> dom (vertex_id_map g)"
    "\<forall>s\<in>set (bb_succs bb). bb_name (bbs ! s) \<in> dom (vertex_id_map g)" by simp_all
  from add_successors_inv [OF Cons.prems(1) bb Cons.prems(2)] obtain g1 where
    g1: "add_successors L bbs (bb_name bb) (bb_succs bb) g = Inr g1" "cg_inv L ok g1"
    "vertex_id_map g1 = vertex_id_map g" "ran (cg_edges L g1) \<subseteq> {''control''}"
    "dom (cg_edges L g1) = dom (cg_edges L g) \<union>
       {bb_name bb} \<times> (\<lambda>s. bb_name (bbs ! s)) ` set (bb_succs bb)" by blast
  have "\<forall>bb\<in>set rest. bb_name bb \<in> dom (vertex_id_map g1) \<and>
       (\<forall>s\<in>set (bb_succs bb). bb_name (bbs ! s) \<in> dom (vertex_id_map g1))"
    using Cons.prems(3) g1(3) by simp
  from Cons.IH [OF g1(2,4) this] obtain g' where
    "add_flow L bbs rest g1 = Inr g'" "cg_inv L ok g'" "vertex_id_map g' = vertex_id_map g1"
    "ran (cg_edges L g') \<subseteq> {''control''}"
    "dom (cg_edges L g') = dom (cg_edges L g1) \<union>
      {(u, v). \<exists>bb\<in>set rest. \<exists>s\<in>set (bb_succs bb). bb_name bb = u \<and> bb_name (bbs ! s) = v}" by blast
  with g1(1,3,5) show ?case by auto
qed simp

lemma control_map:
  assumes "ran E \<subseteq> {''control''}" "dom E = {(u, v). flow_edge bbs u v}"
  shows "E = flow_map bbs"
proof (rule ext)
  fix k :: "string \<times> string"
  obtain u v where k: "k = (u, v)" by (metis surj_pair)
  show "E k = flow_map bbs k"
  proof (cases "E k")
    case None
    with assms(2) show ?thesis by (auto simp: k flow_map_def)
  next
    case (Some e)
    with assms have "e = ''control''" "flow_edge bbs u v" by (auto simp: k dest: ranI)
    with Some show ?thesis by (simp add: k flow_map_def)
  qed
qed

lemma analyse_inv:
  assumes "\<forall>bb\<in>set (f_blocks f). \<forall>s\<in>set (bb_succs bb). s < length (f_blocks f)"
  shows "\<exists>m. analyse_function L r f = Inr m \<and> cg_inv L ok (bbGraph m) \<and>
    dom (vertex_id_map (bbGraph m)) = bb_name ` set (f_blocks f) \<and>
    cg_edges L (bbGraph m) = flow_map (f_blocks f) \<and>
    bbToLibcMap m = list_calls r (f_blocks f) []"
proof -
  let ?bbs = "f_blocks f"
  let ?m0 = "(meta_init L)\<lparr>funcName := f_name f\<rparr>"
  let ?m1 = "add_blocks L r ?bbs 0 ?bbs ?m0"
  have "cg_inv L ok (bbGraph ?m0)" using empty_inv(1) by (simp add: meta_init_def)
  from add_blocks_inv [OF this, of r ?bbs 0 ?bbs] have m1: "cg_inv L ok (bbGraph ?m1)"
    "dom (vertex_id_map (bbGraph ?m1)) = bb_name ` set ?bbs" "cg_edges L (bbGraph ?m1) = Map.empty"
    "bbToLibcMap ?m1 = []"
    using empty_inv(2) by (simp_all add: meta_init_def cg_empty_def)
  have "\<forall>bb\<in>set ?bbs. bb_name bb \<in> dom (vertex_id_map (bbGraph ?m1)) \<and>
       (\<forall>s\<in>set (bb_succs bb). bb_name (?bbs ! s) \<in> dom (vertex_id_map (bbGraph ?m1)))"
    using m1(2) assms by auto
  moreover have "ran (cg_edges L (bbGraph ?m1)) \<subseteq> {''control''}" using m1(3) by simp
  ultimately obtain g where g: "add_flow L ?bbs ?bbs (bbGraph ?m1) = Inr g" "cg_inv L ok g"
    "vertex_id_map g = vertex_id_map (bbGraph ?m1)" "ran (cg_edges L g) \<subseteq> {''control''}"
    "dom (cg_edges L g) = dom (cg_edges L (bbGraph ?m1)) \<union> {(u, v). \<exists>bb\<in>set ?bbs.
       \<exists>s\<in>set (bb_succs bb). bb_name bb = u \<and> bb_name (?bbs ! s) = v}"
    using add_flow_inv [OF m1(1)] by blast
  have "dom (cg_edges L g) = {(u, v). flow_edge ?bbs u v}"
    unfolding g(5) m1(3) flow_edge_def by simp
  with g(4) have "cg_edges L g = flow_map ?bbs" by (rule control_map)
  with g(1-3) m1(2,4) show ?thesis by (simp add: analyse_function_def Let_def)
qed

end

end
