(* ===== verification/CombineSpec.thy ===== *)
theory CombineSpec
  imports MergeSpec
begin

text \<open>
  Inlining the functions that \<^verbatim>\<open>main\<close> calls: which labels the graph of the program can have, and
  that the whole step ends without an exception.
\<close>

section \<open>Looking up a function\<close>

definition meta_of :: "'g graaf \<Rightarrow> 'g metas \<Rightarrow> string \<Rightarrow> 'g func_meta" where
  "meta_of L ms f = (case map_of ms f of Some m \<Rightarrow> m | None \<Rightarrow> meta_init L)"

lemma map_index_meta:
  assumes "map_index f (meta_init L) ms = (m, ms')"
  shows "m = meta_of L ms f" "meta_of L ms' = meta_of L ms"
  using assms by (auto simp: map_index_def meta_of_def fun_eq_iff map_of_map_put split: option.splits if_splits)

text \<open>The functions \<^verbatim>\<open>main\<close> calls directly, by the labels of its graph.\<close>

definition direct_callees :: "edge_map \<Rightarrow> string set" where
  "direct_callees E = {f. ''user:'' @ f \<in> ran E}"

lemma user_label: "starts_with ''user:'' e \<Longrightarrow> e = ''user:'' @ drop 5 e"
  using append_take_drop_id [of 5 e] by (simp add: starts_with_def numeral_eq_Suc)

section \<open>Inlining\<close>

context graaf_lib
begin

text \<open>
  \<open>inlined ms E0 g\<close>: the graph so far.  It extends the graph \<open>E0\<close> of \<^verbatim>\<open>main\<close> (over the vertices
  \<open>V\<close>), the edges that leave a vertex of \<open>V\<close> are old or control edges, and every label is
  \<^verbatim>\<open>control\<close>, one of \<^verbatim>\<open>main\<close> or one of a function that \<^verbatim>\<open>main\<close> calls directly.
\<close>

definition inlined where
  "inlined ms V E0 g \<longleftrightarrow>
     cg_inv L ok g \<and> V \<subseteq> dom (vertex_id_map g) \<and> dom E0 \<subseteq> dom (cg_edges L g) \<and>
     (\<forall>v\<in>V. \<forall>y e. cg_edges L g (v, y) = Some e \<longrightarrow> e = ''control'' \<or> E0 (v, y) = Some e) \<and>
     ran (cg_edges L g) \<subseteq> {''control''} \<union> ran E0 \<union>
       (\<Union>f\<in>direct_callees E0. ran (cg_edges L (libcCallGraph (meta_of L ms f)))) \<and>
     dom (vertex_id_map g) \<subseteq> V \<union>
       (\<Union>f\<in>direct_callees E0. dom (vertex_id_map (libcCallGraph (meta_of L ms f))))"

text \<open>
  The graphs of the called functions are good and share no vertex with \<^verbatim>\<open>main\<close>, except for
  \<^verbatim>\<open>main\<close> itself, when it is recursive.
\<close>

definition separate where
  "separate ms V E0 \<longleftrightarrow>
     (\<forall>f\<in>direct_callees E0. cg_inv L ok (libcCallGraph (meta_of L ms f)) \<and>
        (dom (vertex_id_map (libcCallGraph (meta_of L ms f))) \<inter> V = {} \<or>
         cg_edges L (libcCallGraph (meta_of L ms f)) = E0))"

lemma inlinedD:
  assumes "inlined ms V E0 g"
  shows "cg_inv L ok g" "V \<subseteq> dom (vertex_id_map g)" "dom E0 \<subseteq> dom (cg_edges L g)"
    "v \<in> V \<Longrightarrow> cg_edges L g (v, y) = Some e \<Longrightarrow> e = ''control'' \<or> E0 (v, y) = Some e"
    "ran (cg_edges L g) \<subseteq> {''control''} \<union> ran E0 \<union>
       (\<Union>f\<in>direct_callees E0. ran (cg_edges L (libcCallGraph (meta_of L ms f))))"
    "dom (vertex_id_map g) \<subseteq> V \<union>
       (\<Union>f\<in>direct_callees E0. dom (vertex_id_map (libcCallGraph (meta_of L ms f))))"
  using assms unfolding inlined_def by blast+

lemma inlinedI:
  assumes "inlined ms V E0 g" "cg_inv L ok g'" "V \<subseteq> dom (vertex_id_map g')"
    "dom (cg_edges L g) \<subseteq> dom (cg_edges L g')"
    "\<And>v y e. v \<in> V \<Longrightarrow> cg_edges L g' (v, y) = Some e \<Longrightarrow>
       e = ''control'' \<or> cg_edges L g (v, y) = Some e \<or> E0 (v, y) = Some e"
    "ran (cg_edges L g') \<subseteq> {''control''} \<union> ran (cg_edges L g) \<union>
       (\<Union>f\<in>direct_callees E0. ran (cg_edges L (libcCallGraph (meta_of L ms f))))"
    "dom (vertex_id_map g') \<subseteq> dom (vertex_id_map g) \<union>
       (\<Union>f\<in>direct_callees E0. dom (vertex_id_map (libcCallGraph (meta_of L ms f))))"
  shows "inlined ms V E0 g'"
  unfolding inlined_def
proof (intro conjI ballI allI impI)
  note d = inlinedD [OF assms(1)]
  show "cg_inv L ok g'" "V \<subseteq> dom (vertex_id_map g')" by fact+
  show "dom E0 \<subseteq> dom (cg_edges L g')" using d(3) assms(4) by (rule subset_trans)
  show "e = ''control'' \<or> E0 (v, y) = Some e" if "v \<in> V" "cg_edges L g' (v, y) = Some e" for v y e
    using assms(5) [OF that] d(4) [OF that(1)] by metis
  show "ran (cg_edges L g') \<subseteq> {''control''} \<union> ran E0 \<union>
      (\<Union>f\<in>direct_callees E0. ran (cg_edges L (libcCallGraph (meta_of L ms f))))"
    using assms(6) d(5) by (blast dest: subsetD)
  show "dom (vertex_id_map g') \<subseteq> V \<union>
      (\<Union>f\<in>direct_callees E0. dom (vertex_id_map (libcCallGraph (meta_of L ms f))))"
    using assms(7) d(6) by (blast dest: subsetD)
qed

lemma inlined_control:
  assumes "inlined ms V E0 g"
  shows "\<exists>g'. CallGraph.add_edge L u v ''control'' g = Inr g' \<and> inlined ms V E0 g'"
proof -
  from add_edge_inv [OF inlinedD(1) [OF assms], of u v "''control''"] obtain g' where
    g': "CallGraph.add_edge L u v ''control'' g = Inr g'" "cg_inv L ok g'"
    "vertex_id_map g' = vertex_id_map g"
    "cg_edges L g' = (cg_edges L g)((u, v) \<mapsto> ''control'') \<or> cg_edges L g' = cg_edges L g"
    by (metis (full_types))
  from g'(4) have old: "\<And>k e. cg_edges L g' k = Some e \<Longrightarrow> e = ''control'' \<or> cg_edges L g k = Some e"
    by (auto split: if_splits)
  then have "ran (cg_edges L g') \<subseteq> {''control''} \<union> ran (cg_edges L g)" unfolding ran_def by blast
  moreover have "dom (cg_edges L g) \<subseteq> dom (cg_edges L g')" using g'(4) by auto
  ultimately have mono: "dom (cg_edges L g) \<subseteq> dom (cg_edges L g')"
    "ran (cg_edges L g') \<subseteq> {''control''} \<union> ran (cg_edges L g)" by simp_all
  have "inlined ms V E0 g'"
  proof (rule inlinedI [OF assms g'(2)])
    show "V \<subseteq> dom (vertex_id_map g')" using inlinedD(2) [OF assms] g'(3) by simp
    show "e = ''control'' \<or> cg_edges L g (v, y) = Some e \<or> E0 (v, y) = Some e"
      if "cg_edges L g' (v, y) = Some e" for v y e
      using old [OF that] by blast
    show "dom (vertex_id_map g') \<subseteq> dom (vertex_id_map g) \<union>
        (\<Union>f\<in>direct_callees E0. dom (vertex_id_map (libcCallGraph (meta_of L ms f))))"
      using g'(3) by simp
  qed (use mono in blast)+
  with g'(1) show ?thesis by blast
qed

lemma inlined_insert:
  assumes "inlined ms V E0 g" "separate ms V E0" "f \<in> direct_callees E0"
  shows "\<exists>g'. insert_graph L (libcCallGraph (meta_of L ms f)) g = Inr g' \<and> inlined ms V E0 g'"
proof -
  let ?h = "libcCallGraph (meta_of L ms f)"
  from assms(2,3) have h: "cg_inv L ok ?h" "dom (vertex_id_map ?h) \<inter> V = {} \<or> cg_edges L ?h = E0"
    by (simp_all add: separate_def)
  note g = inlinedD [OF assms(1)]
  from insert_graph_inv [OF g(1) h(1)] obtain g' where
    g': "insert_graph L ?h g = Inr g'" "cg_inv L ok g'"
    "func_call_map g' = func_call_map ?h ++ func_call_map g"
    "dom (cg_edges L g') = dom (cg_edges L g) \<union> dom (cg_edges L ?h)"
    "\<forall>k e. cg_edges L g' k = Some e \<longrightarrow> cg_edges L g k = Some e \<or> cg_edges L ?h k = Some e" by blast
  have "inlined ms V E0 g'"
  proof (rule inlinedI [OF assms(1) g'(2)])
    show "V \<subseteq> dom (vertex_id_map g')"
      using g(2) inv_ids(3) [OF g(1)] inv_ids(3) [OF g'(2)] g'(3) by auto
    show "dom (cg_edges L g) \<subseteq> dom (cg_edges L g')" using g'(4) by simp
    show "e = ''control'' \<or> cg_edges L g (v, y) = Some e \<or> E0 (v, y) = Some e"
      if "v \<in> V" "cg_edges L g' (v, y) = Some e" for v y e
      using edge_ends [OF h(1), of v y e] h(2) that g'(5) by blast
    have "ran (cg_edges L g') \<subseteq> ran (cg_edges L g) \<union> ran (cg_edges L ?h)"
      using g'(5) unfolding ran_def by blast
    with assms(3) show "ran (cg_edges L g') \<subseteq> {''control''} \<union> ran (cg_edges L g) \<union>
       (\<Union>f\<in>direct_callees E0. ran (cg_edges L (libcCallGraph (meta_of L ms f))))" by blast
    have "dom (vertex_id_map g') = dom (vertex_id_map ?h) \<union> dom (vertex_id_map g)"
      using inv_ids(3) [OF g(1)] inv_ids(3) [OF h(1)] inv_ids(3) [OF g'(2)] g'(3) by auto
    with assms(3) show "dom (vertex_id_map g') \<subseteq> dom (vertex_id_map g) \<union>
       (\<Union>f\<in>direct_callees E0. dom (vertex_id_map (libcCallGraph (meta_of L ms f))))" by blast
  qed
  with g'(1) show ?thesis by blast
qed

lemma inline_calls_none:
  "\<forall>e\<in>set es. \<not> starts_with ''user:'' e \<Longrightarrow> inline_calls L v es (ms, g) = Inr (ms, g)"
  by (induction es) auto

lemma inline_calls_inv:
  assumes "inlined ms V E0 g" "separate ms V E0" "v \<in> V" "v \<in> fst ` dom E0"
    "\<forall>e\<in>set es. starts_with ''user:'' e \<longrightarrow> e \<in> ran E0"
  shows "\<exists>ms' g'. inline_calls L v es (ms, g) = Inr (ms', g') \<and> inlined ms V E0 g' \<and>
    meta_of L ms' = meta_of L ms"
  using assms(1,2,5)
proof (induction es arbitrary: ms g)
  case (Cons e es)
  show ?case
  proof (cases "starts_with ''user:'' e")
    case False
    with Cons show ?thesis by simp
  next
    case True
    let ?f = "drop 5 e"
    have f: "?f \<in> direct_callees E0"
      using Cons.prems(3) True user_label [OF True] by (simp add: direct_callees_def)
    obtain m ms1 where mi: "map_index ?f (meta_init L) ms = (m, ms1)" by (metis surj_pair)
    note m = map_index_meta [OF mi]
    obtain g1 where g1: "insert_graph L (libcCallGraph m) g = Inr g1" "inlined ms V E0 g1"
      using inlined_insert [OF Cons.prems(1,2) f] m(1) by blast
    obtain g2 where g2: "CallGraph.add_edge L v (entryNode m) ''control'' g1 = Inr g2" "inlined ms V E0 g2"
      using inlined_control [OF g1(2)] by blast
    then have i2: "cg_inv L ok g2" "dom E0 \<subseteq> dom (cg_edges L g2)" by (simp_all add: inlined_def)
    obtain ns where ns: "get_neighbors L v g2 = Inr ns" "lists_neighbors L g2 v ns"
      using queries [OF i2(1), of v] by metis
    from assms(4) obtain k where k: "k \<in> dom E0" "v = fst k" by blast
    have "(v, snd k) \<in> dom (cg_edges L g2)" using subsetD [OF i2(2) k(1)] k(2) by simp
    with ns(2) have ne: "ns \<noteq> []" by (auto simp: lists_neighbors_def)
    obtain g3 where g3: "CallGraph.add_edge L (exitNode m) (hd ns) ''control'' g2 = Inr g3"
      "inlined ms V E0 g3"
      using inlined_control [OF g2(2)] by blast
    have "inlined ms1 V E0 g3" "separate ms1 V E0"
      using g3(2) Cons.prems(2) m(2) by (simp_all add: inlined_def separate_def)
    from Cons.IH [OF this] Cons.prems(3) obtain ms' g' where
      "inline_calls L v es (ms1, g3) = Inr (ms', g')" "inlined ms1 V E0 g'"
      "meta_of L ms' = meta_of L ms1" by auto
    with True mi g1(1) g2(1) ns(1) ne g3(1) m(2) show ?thesis
      by (auto simp: inlined_def)
  qed
qed auto

lemma inline_vertices_inv:
  assumes "inlined ms V E0 g" "separate ms V E0" "set vs \<subseteq> V"
  shows "\<exists>ms' g'. inline_vertices L vs (ms, g) = Inr (ms', g') \<and> inlined ms V E0 g' \<and>
    meta_of L ms' = meta_of L ms"
  using assms
proof (induction vs arbitrary: ms g)
  case (Cons v vs)
  have v: "v \<in> V" using Cons.prems(3) by simp
  have g: "cg_inv L ok g" using Cons.prems(1) by (simp add: inlined_def)
  obtain ns where ns: "lists_neighbors L g v ns"
    "get_outgoing_edges L v g = Inr (map (\<lambda>w. the (cg_edges L g (v, w))) ns)"
    using queries [OF g, of v] by metis
  let ?es = "map (\<lambda>w. the (cg_edges L g (v, w))) ns"
  have old: "\<exists>y. E0 (v, y) = Some e" if "e \<in> set ?es" "starts_with ''user:'' e" for e
  proof -
    from that(1) ns(1) obtain y where y: "cg_edges L g (v, y) = Some e"
      by (auto simp: lists_neighbors_def)
    have "e \<noteq> ''control''" using that(2) by (auto simp: starts_with_def)
    with Cons.prems(1) v y show ?thesis unfolding inlined_def by blast
  qed
  have "\<exists>ms1 g1. inline_calls L v ?es (ms, g) = Inr (ms1, g1) \<and> inlined ms V E0 g1 \<and>
    meta_of L ms1 = meta_of L ms"
  proof (cases "\<exists>e\<in>set ?es. starts_with ''user:'' e")
    case True
    then have "v \<in> fst ` dom E0" using old by (force simp: image_iff dom_def)
    moreover have "\<forall>e\<in>set ?es. starts_with ''user:'' e \<longrightarrow> e \<in> ran E0" using old by (blast intro: ranI)
    ultimately show ?thesis using inline_calls_inv [OF Cons.prems(1,2) v] by blast
  next
    case False
    then have "inline_calls L v ?es (ms, g) = Inr (ms, g)" by (intro inline_calls_none) blast
    with Cons.prems(1) show ?thesis by blast
  qed
  then obtain ms1 g1 where g1: "inline_calls L v ?es (ms, g) = Inr (ms1, g1)" "inlined ms V E0 g1"
    "meta_of L ms1 = meta_of L ms" by blast
  then have "inlined ms1 V E0 g1" "separate ms1 V E0" "set vs \<subseteq> V"
    using Cons.prems(2,3) by (simp_all add: inlined_def separate_def)
  from Cons.IH [OF this] obtain ms' g' where
    "inline_vertices L vs (ms1, g1) = Inr (ms', g')" "inlined ms1 V E0 g'"
    "meta_of L ms' = meta_of L ms1" by blast
  with ns(2) g1(1,3) show ?case by (auto simp: inlined_def)
qed auto

lemma merged_labels:
  assumes "merged_from Q E0 x0 E x"
  shows "ran E \<subseteq> ran E0"
proof
  fix e assume "e \<in> ran E"
  then obtain x y where "E (x, y) = Some e" by (auto simp: ran_def)
  then obtain x0 y0 where "E0 (x0, y0) = Some e"
    using assms unfolding merged_from_def quotient_by_def by blast
  then show "e \<in> ran E0" by (rule ranI)
qed

lemma combine_inv:
  assumes "m = meta_of L ms ''main''" "cg_inv L ok (libcCallGraph m)"
    "separate ms (dom (vertex_id_map (libcCallGraph m))) (cg_edges L (libcCallGraph m))"
  shows "\<exists>n. \<forall>fuel>n. \<exists>ms' fg. CombineLibcgGraph L fuel ms = Some (Inr (ms', fg)) \<and>
    cg_inv L ok (finalGraph fg) \<and> finalGraphEntryNode fg = entryNode m \<and>
    (\<forall>e\<in>ran (cg_edges L (finalGraph fg)). \<not> is_control e \<and> \<not> is_user e) \<and>
    ran (cg_edges L (finalGraph fg)) \<subseteq> ran (cg_edges L (libcCallGraph m)) \<union>
      (\<Union>f\<in>direct_callees (cg_edges L (libcCallGraph m)).
         ran (cg_edges L (libcCallGraph (meta_of L ms f)))) \<and>
    dom (vertex_id_map (finalGraph fg)) \<subseteq> dom (vertex_id_map (libcCallGraph m)) \<union>
      (\<Union>f\<in>direct_callees (cg_edges L (libcCallGraph m)).
         dom (vertex_id_map (libcCallGraph (meta_of L ms f))))"
proof -
  let ?g = "libcCallGraph m" and ?Q = "\<lambda>e. is_control e \<or> is_user e"
  obtain ms1 where mi: "map_index ''main'' (meta_init L) ms = (m, ms1)"
    using map_index_meta(1) assms(1) by (metis surj_pair)
  have mo: "meta_of L ms1 = meta_of L ms" using map_index_meta(2) [OF mi] .
  have "inlined ms1 (dom (vertex_id_map ?g)) (cg_edges L ?g) ?g"
    using assms(2) by (auto simp: inlined_def)
  moreover have "separate ms1 (dom (vertex_id_map ?g)) (cg_edges L ?g)"
    using assms(3) mo by (simp add: separate_def)
  ultimately obtain ms2 g where g: "inline_vertices L (get_vertices L ?g) (ms1, ?g) = Inr (ms2, g)"
    "inlined ms1 (dom (vertex_id_map ?g)) (cg_edges L ?g) g"
    using inline_vertices_inv [of ms1 "dom (vertex_id_map ?g)" "cg_edges L ?g" ?g "get_vertices L ?g"]
      get_vertices_inv(2) [OF assms(2)] by auto
  note d = inlinedD [OF g(2)]
  show ?thesis
  proof (intro exI [of _ "card (dom (vertex_id_map g))"] allI impI)
    fix fuel assume "card (dom (vertex_id_map g)) < fuel"
    from merge_loop_inv [where Ps = "[is_control, is_user]" and Q = ?Q,
        OF d(1) merged_from_refl _ this, of "exitNode m"] obtain x' g' where
      g': "merge_loop L [is_control, is_user] fuel (exitNode m, g) = Some (Inr (x', g'))"
      "cg_inv L ok g'" "merged_from ?Q (cg_edges L g) (exitNode m) (cg_edges L g') x'"
      "\<forall>k e. cg_edges L g' k = Some e \<longrightarrow> \<not> ?Q e"
      "dom (vertex_id_map g') \<subseteq> dom (vertex_id_map g)" by auto
    let ?fg = "\<lparr>finalGraph = g', finalGraphEntryNode = entryNode m, finalGraphExitNode = x'\<rparr>"
    have run: "CombineLibcgGraph L fuel ms = Some (Inr (ms2, ?fg))"
      using mi g(1) g'(1) by (simp add: CombineLibcgGraph_def)
    have no: "\<forall>e\<in>ran (cg_edges L g'). \<not> is_control e \<and> \<not> is_user e"
      using g'(4) unfolding ran_def by blast
    have "ran (cg_edges L g') \<subseteq> ran (cg_edges L g)" using merged_labels [OF g'(3)] .
    moreover have "''control'' \<notin> ran (cg_edges L g')" using no by (auto simp: is_control_def)
    ultimately have "ran (cg_edges L g') \<subseteq> ran (cg_edges L ?g) \<union>
        (\<Union>f\<in>direct_callees (cg_edges L ?g). ran (cg_edges L (libcCallGraph (meta_of L ms f))))"
      using d(5) unfolding mo by blast
    moreover have "dom (vertex_id_map g') \<subseteq> dom (vertex_id_map ?g) \<union>
        (\<Union>f\<in>direct_callees (cg_edges L ?g). dom (vertex_id_map (libcCallGraph (meta_of L ms f))))"
      using subset_trans [OF g'(5) d(6)] unfolding mo .
    ultimately show "\<exists>ms' fg. CombineLibcgGraph L fuel ms = Some (Inr (ms', fg)) \<and>
      cg_inv L ok (finalGraph fg) \<and> finalGraphEntryNode fg = entryNode m \<and>
      (\<forall>e\<in>ran (cg_edges L (finalGraph fg)). \<not> is_control e \<and> \<not> is_user e) \<and>
      ran (cg_edges L (finalGraph fg)) \<subseteq> ran (cg_edges L ?g) \<union>
        (\<Union>f\<in>direct_callees (cg_edges L ?g). ran (cg_edges L (libcCallGraph (meta_of L ms f)))) \<and>
      dom (vertex_id_map (finalGraph fg)) \<subseteq> dom (vertex_id_map ?g) \<union>
        (\<Union>f\<in>direct_callees (cg_edges L ?g). dom (vertex_id_map (libcCallGraph (meta_of L ms f))))"
      using run g'(2) no by (intro exI [of _ ms2] exI [of _ ?fg]) simp
  qed
qed

end

end
