(* ===== verification/GenerateSpec.thy ===== *)
theory GenerateSpec
  imports CallGraphSpec CallGraphGen
begin

text \<open>
  The in-memory graph the pass generates from the graph of the program, as a pure function, and
  the proof that \<^verbatim>\<open>GenerateInMemoryGraph\<close> builds exactly that graph, or fails its assertion.
\<close>

section \<open>The generated graph\<close>

text \<open>Several writes to one array element: the last one stays.\<close>

definition set_last :: "'a list \<Rightarrow> nat \<Rightarrow> 'a list \<Rightarrow> 'a list" where
  "set_last a i xs = (if xs = [] then a else a[i := last xs])"

definition out_labels :: "'g graaf \<Rightarrow> 'g callgraph \<Rightarrow> string \<Rightarrow> string list" where
  "out_labels L g v = projr (get_outgoing_edges L v g)"

definition out_names :: "'g graaf \<Rightarrow> 'g callgraph \<Rightarrow> string \<Rightarrow> string list" where
  "out_names L g v = projr (get_neighbors L v g)"

fun filled_lists ::
    "(string \<Rightarrow> u64 list) \<Rightarrow> (string \<Rightarrow> u64 list) \<Rightarrow> string list \<Rightarrow>
     u64 list \<times> u64 list \<times> nat \<Rightarrow> u64 list \<times> u64 list \<times> nat" where
  "filled_lists es ns [] st = st"
| "filled_lists es ns (v # vs) (el, nl, n) =
     filled_lists es ns vs (set_last el n (es v), set_last nl n (ns v), Suc n)"

fun node_seq ::
    "(string \<Rightarrow> u64 list) \<Rightarrow> (string \<Rightarrow> u64 list) \<Rightarrow> (string \<Rightarrow> u64) \<Rightarrow> string list \<Rightarrow>
     string list \<Rightarrow> u64 list \<times> u64 list \<times> nat \<Rightarrow> graph" where
  "node_seq es ns h all [] st = []"
| "node_seq es ns h all (v # vs) st =
     (case filled_lists es ns all st of
        (el, nl, n) \<Rightarrow> node_of (h v) n el nl # node_seq es ns h all vs (el, nl, n))"

definition generated_graph ::
    "'g graaf \<Rightarrow> (string \<Rightarrow> u64) \<Rightarrow> u64 list \<times> u64 list \<Rightarrow> file_map_reader \<Rightarrow> 'g callgraph \<Rightarrow> graph" where
  "generated_graph L hash junk r g =
     node_seq (\<lambda>v. map (edge_number r) (out_labels L g v))
       (\<lambda>v. map (\<lambda>u. hash u mod MODULUS) (out_names L g v)) (\<lambda>v. hash v mod MODULUS)
       (get_vertices L g) (get_vertices L g) (fst junk, snd junk, 0)"

lemma array_set_all_last:
  "i < length a \<Longrightarrow> array_set_all a i xs = Inr (set_last a i xs)"
  by (induction xs arbitrary: a) (auto simp: set_last_def array_set_def)

lemma filled_lists_sizes:
  "filled_lists es ns vs (el, nl, n) = (el', nl', n') \<Longrightarrow>
     length el' = length el \<and> length nl' = length nl \<and> n' = n + length vs"
  by (induction vs arbitrary: el nl n) (fastforce simp: set_last_def)+

lemma filled_lists_nth:
  assumes "filled_lists es ns vs (el, nl, n) = (el', nl', n')"
    "n + length vs \<le> length el" "n + length vs \<le> length nl"
  shows "(\<forall>k<n. el' ! k = el ! k \<and> nl' ! k = nl ! k) \<and>
    (\<forall>i<length vs. (es (vs ! i) \<noteq> [] \<longrightarrow> el' ! (n + i) = last (es (vs ! i))) \<and>
                   (ns (vs ! i) \<noteq> [] \<longrightarrow> nl' ! (n + i) = last (ns (vs ! i))))"
  using assms
proof (induction vs arbitrary: el nl n)
  case (Cons v vs)
  let ?el = "set_last el n (es v)" and ?nl = "set_last nl n (ns v)"
  have "filled_lists es ns vs (?el, ?nl, Suc n) = (el', nl', n')"
    "Suc n + length vs \<le> length ?el" "Suc n + length vs \<le> length ?nl"
    using Cons.prems by (simp_all add: set_last_def)
  note IH = Cons.IH [OF this]
  have low: "el' ! k = ?el ! k \<and> nl' ! k = ?nl ! k" if "k \<le> n" for k using IH that by simp
  have "el' ! k = el ! k \<and> nl' ! k = nl ! k" if "k < n" for k
    using low [of k] that by (simp add: set_last_def)
  moreover have "(es ((v # vs) ! i) \<noteq> [] \<longrightarrow> el' ! (n + i) = last (es ((v # vs) ! i))) \<and>
      (ns ((v # vs) ! i) \<noteq> [] \<longrightarrow> nl' ! (n + i) = last (ns ((v # vs) ! i)))"
    if i: "i < length (v # vs)" for i
  proof (cases i)
    case 0
    with low [of n] Cons.prems(2,3) show ?thesis by (simp add: set_last_def)
  next
    case (Suc i')
    with i have "i' < length vs" by simp
    with IH Suc show ?thesis by simp
  qed
  ultimately show ?case by blast
qed simp

lemma node_seq_length: "length (node_seq es ns h all vs st) = length vs"
  by (induction vs arbitrary: st) (auto split: prod.split)

lemma node_seq_nth:
  assumes "j < length vs" "k + length vs * length all \<le> length el" "k + length vs * length all \<le> length nl"
  shows "\<exists>el' nl'. node_seq es ns h all vs (el, nl, k) ! j =
      node_of (h (vs ! j)) (k + Suc j * length all) el' nl' \<and>
    length el' = length el \<and> length nl' = length nl \<and>
    (\<forall>i<length all.
      (es (all ! i) \<noteq> [] \<longrightarrow> el' ! (k + j * length all + i) = last (es (all ! i))) \<and>
      (ns (all ! i) \<noteq> [] \<longrightarrow> nl' ! (k + j * length all + i) = last (ns (all ! i))))"
  using assms
proof (induction vs arbitrary: el nl k j)
  case (Cons v vs)
  obtain el' nl' k' where f: "filled_lists es ns all (el, nl, k) = (el', nl', k')" by (metis surj_pair)
  note sz = filled_lists_sizes [OF f]
  have room: "k + length all \<le> length el" "k + length all \<le> length nl"
    using Cons.prems(2,3) by simp_all
  show ?case
  proof (cases j)
    case 0
    with f sz filled_lists_nth [OF f room] show ?thesis
      by (intro exI [of _ el'] exI [of _ nl']) simp
  next
    case (Suc j')
    have "j' < length vs" "k' + length vs * length all \<le> length el'"
      "k' + length vs * length all \<le> length nl'"
      using Cons.prems sz Suc by simp_all
    note IH = Cons.IH [OF this]
    have "k' + Suc j' * length all = k + Suc j * length all"
      "\<And>i. k' + j' * length all + i = k + j * length all + i"
      using sz Suc by simp_all
    with IH sz Suc f show ?thesis by (simp add: add.assoc)
  qed
qed simp

text \<open>The nodes are small enough for the pool, whose size is thus never an issue.\<close>

definition small_nodes :: "graph \<Rightarrow> bool" where
  "small_nodes G \<longleftrightarrow> (\<forall>x\<in>set G. unat (ps_id x) < 1000 \<and> length (ps_edges x) < 1000)"

lemma small_nodes_size: "small_nodes G \<Longrightarrow> graph_size G \<le> 24000 * length G"
proof (induction G)
  case (Cons x G)
  then have "node_size x \<le> 24000" "small_nodes G" by (auto simp: small_nodes_def node_size_def)
  with Cons show ?case by simp
qed simp

lemma small_nodes_room:
  assumes "small_nodes G" "length G \<le> 31"
  shows "room_for G"
proof -
  have "graph_size G \<le> 744000" using small_nodes_size [OF assms(1)] assms(2) by simp
  moreover have "unat (ps_id (G ! i)) < 4096" if "i < length G" for i
  proof -
    have "unat (ps_id (G ! i)) < 1000" using assms(1) that by (simp add: small_nodes_def)
    then show ?thesis by simp
  qed
  ultimately show ?thesis by (simp add: room_for_def layout_simps)
qed

lemma few_vertices:
  assumes "Suc j * n < 1000" "j < n"
  shows "Suc j \<le> 31"
proof (rule ccontr)
  assume "\<not> Suc j \<le> 31"
  then have "32 * 32 \<le> Suc j * n" using assms(2) by (intro mult_le_mono) auto
  with assms(1) show False by simp
qed

lemma mod_1000: "unat ((x :: u64) mod MODULUS) < 1000"
proof -
  have "unat (x mod MODULUS) = unat x mod 1000" by (simp add: MODULUS_def unat_mod_distrib)
  then show ?thesis by simp
qed

text \<open>The calls of the generated edges are hashes, or what the array held before.\<close>

lemma set_last_subset: "set (set_last a i xs) \<subseteq> set a \<union> set xs"
  by (auto simp: set_last_def dest: set_update_subset_insert [THEN subsetD])

lemma filled_lists_subset:
  "filled_lists es ns vs (el, nl, n) = (el', nl', n') \<Longrightarrow> set nl' \<subseteq> set nl \<union> (\<Union>v\<in>set vs. set (ns v))"
proof (induction vs arbitrary: el nl n)
  case (Cons v vs)
  then have "set nl' \<subseteq> set (set_last nl n (ns v)) \<union> (\<Union>v\<in>set vs. set (ns v))" by simp
  with set_last_subset [of nl n "ns v"] show ?case by auto
qed simp

lemma node_seq_calls:
  "x \<in> set (node_seq es ns h all vs (el, nl, n)) \<Longrightarrow> fst ` set (ps_edges x) \<subseteq> set nl \<union> (\<Union>v\<in>set all. set (ns v))"
proof (induction vs arbitrary: el nl n)
  case (Cons v vs)
  obtain el1 nl1 n1 where f: "filled_lists es ns all (el, nl, n) = (el1, nl1, n1)" by (metis surj_pair)
  note sub = filled_lists_subset [OF f]
  have "fst ` set (ps_edges (node_of (h v) n1 el1 nl1)) \<subseteq> set nl1"
    by (auto simp: node_of_def dest!: set_zip_leftD in_set_takeD)
  then have "fst ` set (ps_edges (node_of (h v) n1 el1 nl1)) \<subseteq> set nl \<union> (\<Union>v\<in>set all. set (ns v))"
    using sub by (rule subset_trans)
  moreover have "fst ` set (ps_edges x) \<subseteq> set nl \<union> (\<Union>v\<in>set all. set (ns v))"
    if "x \<in> set (node_seq es ns h all vs (el1, nl1, n1))"
    using Cons.IH [OF that] sub by blast
  ultimately show ?case using Cons.prems f by auto
qed simp

lemma generated_calls:
  assumes "j < length (generated_graph L hash junk r g)"
  shows "fst ` set (ps_edges (generated_graph L hash junk r g ! j)) \<subseteq> set (snd junk) \<union> range (\<lambda>v. hash v mod MODULUS)"
proof -
  have "generated_graph L hash junk r g ! j \<in> set (generated_graph L hash junk r g)" using assms by simp
  from node_seq_calls [OF this [unfolded generated_graph_def]]
  show ?thesis unfolding generated_graph_def by auto
qed

lemma generated_graph_length: "length (generated_graph L hash junk r g) = length (get_vertices L g)"
  by (simp add: generated_graph_def node_seq_length)

lemma generated_small:
  assumes "length (fst junk) = 1000" "length (snd junk) = 1000" "n = length (get_vertices L g)" "n * n < 1000"
  shows "small_nodes (generated_graph L hash junk r g)"
proof -
  let ?vs = "get_vertices L g" and ?G = "generated_graph L hash junk r g"
  have room: "0 + length ?vs * length ?vs \<le> length (fst junk)" "0 + length ?vs * length ?vs \<le> length (snd junk)"
    using assms by simp_all
  have "unat (ps_id (?G ! j)) < 1000 \<and> length (ps_edges (?G ! j)) < 1000" if j: "j < length ?vs" for j
  proof -
    obtain el nl where "?G ! j = node_of (hash (?vs ! j) mod MODULUS) (Suc j * n) el nl"
      "length el = 1000" "length nl = 1000"
      using node_seq_nth [OF j room, where es = "\<lambda>v. map (edge_number r) (out_labels L g v)" and
          ns = "\<lambda>v. map (\<lambda>u. hash u mod MODULUS) (out_names L g v)" and h = "\<lambda>v. hash v mod MODULUS"]
        assms(1-3) by (auto simp: generated_graph_def)
    moreover have "Suc j * n \<le> n * n" using j assms(3) by (intro mult_le_mono) auto
    ultimately show ?thesis using assms(4) mod_1000 by (simp add: node_of_simps)
  qed
  then show ?thesis by (auto simp: small_nodes_def in_set_conv_nth generated_graph_length)
qed

lemma generated_fits:
  assumes "length (fst junk) = 1000" "length (snd junk) = 1000" "n = length (get_vertices L g)" "n * n < 1000"
  shows "fits (generated_graph L hash junk r g)"
proof -
  have "n \<le> 31"
  proof (rule ccontr)
    assume "\<not> n \<le> 31"
    then have "32 * 32 \<le> n * n" by (intro mult_le_mono) auto
    with assms(4) show False by simp
  qed
  then have "24000 * length (generated_graph L hash junk r g) \<le> 744000"
    using assms(3) by (simp add: generated_graph_length)
  with small_nodes_size [OF generated_small [OF assms]]
  have "graph_size (generated_graph L hash junk r g) \<le> 744000" by (rule order_trans)
  then show ?thesis by (simp add: fits_def layout_simps)
qed

context graaf_lib
begin

lemma fill_lists_inv:
  assumes "cg_inv L ok g" "length el = 1000" "length nl = 1000" "n < 1000"
  shows "fill_lists L hash r g vs (el, nl, n) =
    (if n + length vs < 1000
     then Inr (filled_lists (\<lambda>v. map (edge_number r) (out_labels L g v))
                 (\<lambda>v. map (\<lambda>u. hash u mod MODULUS) (out_names L g v)) vs (el, nl, n))
     else Inl Assert_failed)"
  using assms(2-4)
proof (induction vs arbitrary: el nl n)
  case (Cons v vs)
  obtain ws where q: "get_neighbors L v g = Inr ws"
    "get_outgoing_edges L v g = Inr (map (\<lambda>w. the (cg_edges L g (v, w))) ws)"
    using queries [OF assms(1), of v] by metis
  have "get_neighbors L v g = Inr (out_names L g v)" "get_outgoing_edges L v g = Inr (out_labels L g v)"
    using q by (simp_all add: out_names_def out_labels_def)
  moreover have "length (set_last el n xs) = 1000" "length (set_last nl n xs) = 1000" for xs
    using Cons.prems by (simp_all add: set_last_def)
  ultimately show ?case
    using Cons by (simp add: array_set_all_last MAX_NEIGHBORS_def)
qed simp

lemma generate_nodes_inv:
  fixes r hash g
  defines "es \<equiv> \<lambda>v. map (edge_number r) (out_labels L g v)"
    and "ns \<equiv> \<lambda>v. map (\<lambda>u. hash u mod MODULUS) (out_names L g v)"
    and "all \<equiv> get_vertices L g"
  assumes inv: "cg_inv L ok g" and e: "ample e" and n: "n = length all"
    and "building s G" "small_nodes G" "length el = 1000" "length nl = 1000"
    "length G + length vs = n" "length G * n < 1000"
  shows "if n * n < 1000
    then \<exists>s'. generate_nodes L e hash r g vs (el, nl, length G * n) s = Inr s' \<and>
           building s' (G @ node_seq es ns (\<lambda>v. hash v mod MODULUS) all vs (el, nl, length G * n))
    else generate_nodes L e hash r g vs (el, nl, length G * n) s = Inl Assert_failed"
  using assms(7-)
proof (induction vs arbitrary: s G el nl)
  case Nil
  then show ?case by auto
next
  case (Cons v vs)
  let ?j = "length G" and ?h = "hash v mod MODULUS"
  note fill = fill_lists_inv [OF inv Cons.prems(3-4,6), of hash r all, folded es_def ns_def]
  have next_idx: "?j * n + length all = Suc ?j * n" using n by simp
  show ?case
  proof (cases "Suc ?j * n < 1000")
    case False
    then have f: "fill_lists L hash r g all (el, nl, ?j * n) = Inl Assert_failed"
      using fill next_idx by simp
    have "Suc ?j * n \<le> n * n" using Cons.prems(5) by (intro mult_le_mono) auto
    with False have "\<not> n * n < 1000" by simp
    with f show ?thesis by (simp add: all_def)
  next
    case True
    obtain el' nl' k where fl: "filled_lists es ns all (el, nl, ?j * n) = (el', nl', k)"
      by (metis surj_pair)
    from filled_lists_sizes [OF fl] Cons.prems(3,4) next_idx
    have sz: "length el' = 1000" "length nl' = 1000" "k = Suc ?j * n" by auto
    have f: "fill_lists L hash r g all (el, nl, ?j * n) = Inr (el', nl', k)"
      using fill next_idx True fl by simp
    let ?x = "node_of ?h k el' nl'"
    have small: "small_nodes (G @ [?x])"
      using Cons.prems(2) True sz mod_1000 [of "hash v"] by (auto simp: small_nodes_def node_of_def)
    have "length (G @ [?x]) \<le> 31" using few_vertices [OF True] Cons.prems(5) by simp
    from alloc_node_spec [OF Cons.prems(1) e small_nodes_room [OF small this]] sz True obtain s' p where
      a: "alloc_node e ?h (of_nat k) el' nl' s = Inr (p, s')" "building s' (G @ [?x])" by auto
    have idx: "length (G @ [?x]) * n = k" using sz(3) by simp
    have "length (G @ [?x]) + length vs = n" "length (G @ [?x]) * n < 1000"
      using Cons.prems(5) True by simp_all
    note IH = Cons.IH [OF a(2) small sz(1,2) this, unfolded idx]
    have run: "generate_nodes L e hash r g (v # vs) (el, nl, ?j * n) s =
        generate_nodes L e hash r g vs (el', nl', k) s'"
      using f a(1) by (simp add: all_def)
    have seq: "node_seq es ns (\<lambda>v. hash v mod MODULUS) all (v # vs) (el, nl, ?j * n) =
        ?x # node_seq es ns (\<lambda>v. hash v mod MODULUS) all vs (el', nl', k)"
      using fl by simp
    show ?thesis unfolding run seq using IH unfolding append_assoc append_Cons append_Nil .
  qed
qed

lemma generate_inv:
  assumes "cg_inv L ok g" "ample e" "length (fst junk) = 1000" "length (snd junk) = 1000"
    "n = length (get_vertices L g)"
  shows "if n * n < 1000
    then \<exists>m s'. GenerateInMemoryGraph L e hash junk r g M memgraph_init =
           Inr (SectionAddressHandler (map m [0..<1024 * 1024]) M, s') \<and>
         sealed m (generated_graph L hash junk r g) \<and> pool s' = None \<and> nodes s' = None
    else GenerateInMemoryGraph L e hash junk r g M memgraph_init = Inl Assert_failed"
proof -
  obtain s1 where s1: "initialize_graph e None 0 memgraph_init = Inr s1" "building s1 []"
  proof (rule initialize_empty)
    show "pool memgraph_init = None"
      "num_nodes_listings memgraph_init = 0 \<or> num_nodes_listings memgraph_init = 4096"
      by (simp_all add: memgraph_init_def)
    show "env_alloc e (requests memgraph_init) (of_nat MEMORY_POOL_SIZE)"
      using assms(2) by (simp add: ample_def)
  qed
  note gen = generate_nodes_inv [OF assms(1,2,5) s1(2) _ assms(3,4), of "get_vertices L g" hash r,
      folded generated_graph_def]
  show ?thesis
  proof (cases "n * n < 1000")
    case True
    then obtain s2 where s2: "generate_nodes L e hash r g (get_vertices L g) (fst junk, snd junk, 0) s1 = Inr s2"
      "building s2 (generated_graph L hash junk r g)"
      using gen assms(5) by (auto simp: small_nodes_def generated_graph_def)
    from finalize_spec [OF s2(2)] obtain s3 m where
      s3: "finalize_graph s2 = Inr s3" "pool s3 = Some m" "sealed m (generated_graph L hash junk r g)"
      by metis
    have "GenerateInMemoryGraph L e hash junk r g M memgraph_init =
        Inr (SectionAddressHandler (map m [0..<1024 * 1024]) M, destroy_graph s3)"
      using s1(1) s2(1) s3 by (simp add: GenerateInMemoryGraph_def pool_data_def)
    moreover have "pool (destroy_graph s3) = None" "nodes (destroy_graph s3) = None"
      by (simp_all add: destroy_graph_def destroy_pool_def Let_def split: option.split)
    ultimately show ?thesis using True s3(3) by auto
  next
    case False
    with gen assms(5) s1(1) show ?thesis by (simp add: GenerateInMemoryGraph_def small_nodes_def)
  qed
qed

end

end
