(* ===== verification/PassSpec.thy ===== *)
theory PassSpec
  imports AnalyseSpec CombineSpec GenerateSpec
begin

text \<open>
  The pass as a whole: the stages of \<^verbatim>\<open>runOnModule\<close> composed.  What holds of one function after
  each stage is carried through the maps of functions, to the graph of the program and the module
  with the embedded pool.
\<close>

section \<open>The functions of a module\<close>

text \<open>The vertices that one function, with its blocks named, contributes, and the labels.\<close>

definition vertex_names :: "file_map_reader \<Rightarrow> 'i ir_function \<Rightarrow> string list" where
  "vertex_names r f = map bb_name (f_blocks f) @ all_call_vertices (list_calls r (f_blocks f) [])"

definition call_labels :: "file_map_reader \<Rightarrow> 'i ir_function \<Rightarrow> string set" where
  "call_labels r f = (\<Union>bb\<in>set (f_blocks f). set (getLibraryCalls r bb))"

definition flow_ok :: "'i ir_function \<Rightarrow> bool" where
  "flow_ok f \<longleftrightarrow> (\<forall>bb\<in>set (f_blocks f). \<forall>s\<in>set (bb_succs bb). s < length (f_blocks f))"

text \<open>The functions the pass works on, with their blocks named.\<close>

definition processed :: "(string list \<Rightarrow> string \<Rightarrow> string) \<Rightarrow> 'i ir_module \<Rightarrow> 'i ir_function set" where
  "processed uniq M = nameBasicBlocks uniq ` {f \<in> set (m_functions M). \<not> skipped f}"

text \<open>The module with the named blocks and the guards.\<close>

definition instrumented_functions ::
    "(string list \<Rightarrow> string \<Rightarrow> string) \<Rightarrow> file_map_reader \<Rightarrow> 'i ir_module \<Rightarrow> 'i ir_function list" where
  "instrumented_functions uniq r M =
     map (\<lambda>f. if skipped f then f else inject_function r (nameBasicBlocks uniq f)) (m_functions M)"

definition instrumented ::
    "(string list \<Rightarrow> string \<Rightarrow> string) \<Rightarrow> file_map_reader \<Rightarrow> 'i ir_module \<Rightarrow> 'i ir_module" where
  "instrumented uniq r M = M\<lparr>m_functions := instrumented_functions uniq r M\<rparr>"

text \<open>Blocks branch to blocks, vertex names are unique in and across functions, \<^verbatim>\<open>main\<close> has a body.\<close>

definition module_ok ::
    "(string list \<Rightarrow> string \<Rightarrow> string) \<Rightarrow> file_map_reader \<Rightarrow> 'i ir_module \<Rightarrow> bool" where
  "module_ok uniq r M \<longleftrightarrow>
     (\<forall>f\<in>processed uniq M. flow_ok f \<and> distinct (vertex_names r f)) \<and>
     (\<forall>f\<in>processed uniq M. \<forall>h\<in>processed uniq M.
        f_name f \<noteq> f_name h \<longrightarrow> set (vertex_names r f) \<inter> set (vertex_names r h) = {}) \<and>
     (\<forall>f\<in>set (m_functions M). is_main f \<longrightarrow> f_blocks f \<noteq> [])"

lemma f_name_named [simp]: "f_name (nameBasicBlocks uniq f) = f_name f"
  by (simp add: nameBasicBlocks_def)

lemma list_calls_labels:
  assumes "distinct (map bb_name (f_blocks f))" "(k, calls) \<in> set (list_calls r (f_blocks f) [])"
  shows "set calls \<subseteq> call_labels r f"
  using assms list_calls_set [OF assms(1)] by (auto simp: call_labels_def)

section \<open>Labels of the expanded graph\<close>

lemma chain_ran: "chain p vs cs k = Some e \<Longrightarrow> e \<in> set cs"
  by (induction p vs cs rule: chain.induct) (auto split: if_splits)

lemma expand_map_ran: "ran (expand_map bb calls E) \<subseteq> {''control''} \<union> ran E \<union> set calls"
proof
  fix e assume "e \<in> ran (expand_map bb calls E)"
  then obtain x y where "expand_map bb calls E (x, y) = Some e" by (auto simp: ran_def)
  then have "e = ''control'' \<or> (E ++ chain bb (call_vertices bb 1 calls) calls) (x, y) = Some e"
    by (auto simp: expand_map_def split: if_splits)
  then show "e \<in> {''control''} \<union> ran E \<union> set calls"
    by (auto simp: map_add_Some_iff intro: ranI dest: chain_ran)
qed

lemma expand_maps_ran:
  "ran (expand_maps bs E) \<subseteq> {''control''} \<union> ran E \<union> (\<Union>(bb, calls)\<in>set bs. set calls)"
proof (induction bs arbitrary: E)
  case (Cons b bs)
  obtain bb calls where b: "b = (bb, calls)" by (metis surj_pair)
  from Cons [of "expand_map bb calls E"] expand_map_ran [of bb calls E] show ?case
    by (auto simp: b)
qed auto

lemma flow_map_ran: "ran (flow_map bbs) \<subseteq> {''control''}"
  by (auto simp: flow_map_def ran_def split: if_splits)

lemma expanded_labels:
  assumes "distinct (map bb_name (f_blocks f))"
  shows "ran (expand_maps (list_calls r (f_blocks f) []) (flow_map (f_blocks f))) \<subseteq>
    {''control''} \<union> call_labels r f"
  using expand_maps_ran [of "list_calls r (f_blocks f) []" "flow_map (f_blocks f)"]
    flow_map_ran [of "f_blocks f"] list_calls_labels [OF assms, of _ _ r] by fast

section \<open>More fuel\<close>

lemma merge_loop_more:
  "merge_loop L Ps n st = Some res \<Longrightarrow> n \<le> n' \<Longrightarrow> merge_loop L Ps n' st = Some res"
proof (induction L Ps n st arbitrary: n' rule: merge_loop.induct)
  case (2 L Ps n exit g)
  from 2(3) obtain n1 where "n' = Suc n1" "n \<le> n1" by (cases n') auto
  with 2 show ?case by (auto split: sum.splits if_splits)
qed simp

lemma convert_more:
  "ConvertBBGraphToLibcCallGraph L n ms = Some res \<Longrightarrow> n \<le> n' \<Longrightarrow>
     ConvertBBGraphToLibcCallGraph L n' ms = Some res"
proof (induction L n ms arbitrary: res rule: ConvertBBGraphToLibcCallGraph.induct)
  case (2 L n k m ms)
  then show ?case by (fastforce dest: merge_loop_more split: option.splits sum.splits)
qed simp

lemma combine_more:
  "CombineLibcgGraph L n ms = Some res \<Longrightarrow> n \<le> n' \<Longrightarrow> CombineLibcgGraph L n' ms = Some res"
  by (auto simp: CombineLibcgGraph_def split: prod.splits sum.splits option.splits dest: merge_loop_more)

lemma run_more:
  assumes "runOnModule L e uniq hash junk n r M ms s = Some res" "n \<le> n'"
  shows "runOnModule L e uniq hash junk n' r M ms s = Some res"
  using assms convert_more [OF _ assms(2)] combine_more [OF _ assms(2)]
  by (fastforce simp: runOnModule_def split: sum.splits option.splits prod.splits)

section \<open>Cleanup after the init calls\<close>

lemma named_blocks: "name_blocks uniq n taken bbs = [] \<longleftrightarrow> bbs = []"
  by (cases bbs) (simp_all add: Let_def)

lemma cleanup_after_section:
  assumes "\<forall>f\<in>set (m_functions M). is_main f \<longrightarrow> f_blocks f \<noteq> []"
  shows "\<exists>M'. MemoryCleanupHandler (SectionAddressHandler data M) = Inr M'"
proof -
  let ?i = "init_call (of_nat (length data))"
  have ok_f: "\<exists>f'. cleanup_function (if is_main f then f\<lparr>f_blocks := insert_first ?i (f_blocks f)\<rparr> else f) = Inr f'"
    if "f \<in> set (m_functions M)" for f
  proof (cases "is_main f")
    case True
    with assms that cleanup_after_insert [of ?i f] show ?thesis by (simp add: init_call_def)
  qed (simp add: cleanup_function_def)
  have "\<exists>f'. cleanup_function f = Inr f'" if "f \<in> set (m_functions (SectionAddressHandler data M))" for f
  proof -
    from that obtain f0 where "f0 \<in> set (m_functions M)"
      "f = (if is_main f0 then f0\<lparr>f_blocks := insert_first ?i (f_blocks f0)\<rparr> else f0)"
      by (auto simp: SectionAddressHandler_def)
    with ok_f show ?thesis by blast
  qed
  then have "\<exists>fs'. cleanup_functions (m_functions (SectionAddressHandler data M)) = Inr fs'"
    by (rule cleanup_functions_ok)
  then show ?thesis by (auto simp: MemoryCleanupHandler_def)
qed

section \<open>The stages\<close>

context graaf_lib
begin

text \<open>A graph of one of the functions \<open>F\<close>, named \<open>k\<close>, whose labels are calls or in \<open>X\<close>.\<close>

definition function_graph where
  "function_graph r F X k g \<longleftrightarrow>
     (\<exists>f\<in>F. f_name f = k \<and> cg_inv L ok g \<and> dom (vertex_id_map g) \<subseteq> set (vertex_names r f) \<and>
        ran (cg_edges L g) \<subseteq> X \<union> call_labels r f)"

lemma expand_function:
  assumes "analyse_function L r f = Inr m" "flow_ok f" "distinct (vertex_names r f)"
  shows "\<exists>x g. expand_blocks L (bbToLibcMap m) (exitNode m, bbGraph m) = Inr (x, g) \<and> cg_inv L ok g \<and>
    dom (vertex_id_map g) = set (vertex_names r f) \<and>
    cg_edges L g = expand_maps (list_calls r (f_blocks f) []) (flow_map (f_blocks f)) \<and>
    x = expanded_exit (list_calls r (f_blocks f) []) (exitNode m)"
proof -
  let ?cs = "list_calls r (f_blocks f) []"
  have d: "distinct (map bb_name (f_blocks f))" "distinct (all_call_vertices ?cs)"
    "set (all_call_vertices ?cs) \<inter> bb_name ` set (f_blocks f) = {}"
    using assms(3) by (auto simp: vertex_names_def)
  have m: "cg_inv L ok (bbGraph m)" "dom (vertex_id_map (bbGraph m)) = bb_name ` set (f_blocks f)"
    "cg_edges L (bbGraph m) = flow_map (f_blocks f)" "bbToLibcMap m = ?cs"
    using analyse_inv [OF assms(2) [unfolded flow_ok_def], of r] assms(1) by auto
  have "fst ` set ?cs \<subseteq> dom (vertex_id_map (bbGraph m))"
    using list_calls_set [OF d(1)] m(2) by fastforce
  from expand_blocks_inv [OF m(1) this d(2), of "exitNode m"] d(3) obtain g where
    "expand_blocks L ?cs (exitNode m, bbGraph m) = Inr (expanded_exit ?cs (exitNode m), g)"
    "cg_inv L ok g" "dom (vertex_id_map g) = bb_name ` set (f_blocks f) \<union> set (all_call_vertices ?cs)"
    "cg_edges L g = expand_maps ?cs (flow_map (f_blocks f))"
    unfolding m(2,3) by blast
  then show ?thesis unfolding m(4) by (simp add: vertex_names_def)
qed

text \<open>The loop over the functions: each is analysed, and instrumented in place.\<close>

definition analysed where
  "analysed r F k m \<longleftrightarrow> (\<exists>f\<in>F. f_name f = k \<and> analyse_function L r f = Inr m)"

lemma process_inv:
  assumes "\<forall>f\<in>set fs. \<not> skipped f \<longrightarrow> flow_ok (nameBasicBlocks uniq f)"
  shows "\<exists>ms'. process_functions L uniq r fs ms =
      Inr (map (\<lambda>f. if skipped f then f else inject_function r (nameBasicBlocks uniq f)) fs, ms',
        \<exists>f\<in>set fs. \<not> skipped f \<and> has_library_call r (nameBasicBlocks uniq f)) \<and>
    (\<forall>(k, m)\<in>set ms'. (k, m) \<in> set ms \<or>
       analysed r (nameBasicBlocks uniq ` {f \<in> set fs. \<not> skipped f}) k m)"
  using assms
proof (induction fs arbitrary: ms)
  case (Cons f fs)
  let ?f = "nameBasicBlocks uniq f"
  have fs: "\<forall>f\<in>set fs. \<not> skipped f \<longrightarrow> flow_ok (nameBasicBlocks uniq f)" using Cons.prems by simp
  show ?case
  proof (cases "skipped f")
    case True
    from Cons.IH [OF fs, of ms] obtain ms' where
      "process_functions L uniq r fs ms =
        Inr (map (\<lambda>f. if skipped f then f else inject_function r (nameBasicBlocks uniq f)) fs, ms',
        \<exists>f\<in>set fs. \<not> skipped f \<and> has_library_call r (nameBasicBlocks uniq f))"
      "\<forall>(k, m)\<in>set ms'. (k, m) \<in> set ms \<or>
        analysed r (nameBasicBlocks uniq ` {f \<in> set fs. \<not> skipped f}) k m" by blast
    with True show ?thesis unfolding analysed_def by (intro exI [of _ ms']) auto
  next
    case False
    then have "flow_ok ?f" using Cons.prems by simp
    then obtain m where m: "analyse_function L r ?f = Inr m"
      using analyse_inv [of ?f r] by (auto simp: flow_ok_def)
    from Cons.IH [OF fs, of "map_put (f_name f) m ms"] obtain ms' where
      ms': "process_functions L uniq r fs (map_put (f_name f) m ms) =
        Inr (map (\<lambda>f. if skipped f then f else inject_function r (nameBasicBlocks uniq f)) fs, ms',
        \<exists>f\<in>set fs. \<not> skipped f \<and> has_library_call r (nameBasicBlocks uniq f))"
      "\<forall>(k, m')\<in>set ms'. (k, m') \<in> set (map_put (f_name f) m ms) \<or>
        analysed r (nameBasicBlocks uniq ` {f \<in> set fs. \<not> skipped f}) k m'" by blast
    have "(k, m') \<in> set ms \<or> analysed r (nameBasicBlocks uniq ` {h \<in> set (f # fs). \<not> skipped h}) k m'"
      if "(k, m') \<in> set ms'" for k m'
    proof -
      from that ms'(2) set_map_put [of "f_name f" m ms]
      have "(k, m') = (f_name f, m) \<or> (k, m') \<in> set ms \<or>
          analysed r (nameBasicBlocks uniq ` {f \<in> set fs. \<not> skipped f}) k m'" by fast
      with False m show ?thesis by (auto simp: analysed_def)
    qed
    with False m ms'(1) show ?thesis by (intro exI [of _ ms']) (auto simp: Let_def)
  qed
qed auto

lemma expand_all:
  assumes "\<forall>(k, m)\<in>set ms. analysed r F k m" "\<forall>f\<in>F. flow_ok f \<and> distinct (vertex_names r f)"
  shows "\<exists>ms'. ExpandBBGraph L ms = Inr ms' \<and>
    (\<forall>(k, m)\<in>set ms'. function_graph r F {''control''} k (bbExpandedGraph m))"
  using assms(1)
proof (induction ms)
  case (Cons km ms)
  obtain k m where km: "km = (k, m)" by (metis surj_pair)
  from Cons.prems obtain f where f: "f \<in> F" "f_name f = k" "analyse_function L r f = Inr m"
    by (auto simp: km analysed_def)
  with assms(2) have ok: "flow_ok f" "distinct (vertex_names r f)" by auto
  from expand_function [OF f(3) ok] obtain x g where
    g: "expand_blocks L (bbToLibcMap m) (exitNode m, bbGraph m) = Inr (x, g)" "cg_inv L ok g"
    "dom (vertex_id_map g) = set (vertex_names r f)"
    "cg_edges L g = expand_maps (list_calls r (f_blocks f) []) (flow_map (f_blocks f))" by blast
  have "distinct (map bb_name (f_blocks f))" using ok(2) by (simp add: vertex_names_def)
  from expanded_labels [OF this, of r] have "ran (cg_edges L g) \<subseteq> {''control''} \<union> call_labels r f"
    unfolding g(4) .
  with f(1,2) g(2,3) have "function_graph r F {''control''} k g"
    unfolding function_graph_def by blast
  note fg = this
  have "\<forall>(k, m)\<in>set ms. analysed r F k m" using Cons.prems by simp
  from Cons.IH [OF this] obtain ms' where "ExpandBBGraph L ms = Inr ms'"
    "\<forall>(k, m)\<in>set ms'. function_graph r F {''control''} k (bbExpandedGraph m)" by blast
  with g(1) fg show ?case
    by (intro exI [of _ "(k, m\<lparr>exitNode := x, bbExpandedGraph := g\<rparr>) # ms'"]) (simp add: km)
qed simp

lemma function_graph_size:
  assumes "function_graph r F X k g" "\<forall>f\<in>F. length (vertex_names r f) < fuel"
  shows "card (dom (vertex_id_map g)) < fuel"
proof -
  from assms(1) obtain f where f: "f \<in> F" "dom (vertex_id_map g) \<subseteq> set (vertex_names r f)"
    by (auto simp: function_graph_def)
  have "card (dom (vertex_id_map g)) \<le> card (set (vertex_names r f))"
    using f(2) by (intro card_mono) simp_all
  also have "\<dots> \<le> length (vertex_names r f)" by (rule card_length)
  finally show ?thesis using f(1) assms(2) by fastforce
qed

lemma convert_all:
  assumes "\<forall>(k, m)\<in>set ms. function_graph r F {''control''} k (bbExpandedGraph m)"
    "\<forall>f\<in>F. length (vertex_names r f) < fuel"
  shows "\<exists>ms'. ConvertBBGraphToLibcCallGraph L fuel ms = Some (Inr ms') \<and>
    (\<forall>(k, m)\<in>set ms'. function_graph r F {} k (libcCallGraph m))"
  using assms(1)
proof (induction ms)
  case (Cons km ms)
  obtain k m where km: "km = (k, m)" by (metis surj_pair)
  let ?g = "bbExpandedGraph m"
  have fg: "function_graph r F {''control''} k ?g" using Cons.prems by (simp add: km)
  then have g: "cg_inv L ok ?g" by (auto simp: function_graph_def)
  have "is_control e \<longleftrightarrow> (\<exists>P\<in>set [is_control]. P e)" for e by simp
  from merge_loop_inv [OF g merged_from_refl this function_graph_size [OF fg assms(2)], of "exitNode m"]
  obtain x' g' where
    g': "merge_loop L [is_control] fuel (exitNode m, ?g) = Some (Inr (x', g'))" "cg_inv L ok g'"
    "merged_from is_control (cg_edges L ?g) (exitNode m) (cg_edges L g') x'"
    "dom (vertex_id_map g') \<subseteq> dom (vertex_id_map ?g)"
    "\<forall>k e. cg_edges L g' k = Some e \<longrightarrow> \<not> is_control e" by blast
  have c: "''control'' \<notin> ran (cg_edges L g')" using g'(5) by (auto simp: is_control_def ran_def)
  obtain f where f: "f \<in> F" "f_name f = k" "dom (vertex_id_map ?g) \<subseteq> set (vertex_names r f)"
    "ran (cg_edges L ?g) \<subseteq> {''control''} \<union> call_labels r f"
    using fg unfolding function_graph_def by blast
  have "ran (cg_edges L g') \<subseteq> ran (cg_edges L ?g)" by (rule merged_labels [OF g'(3)])
  with c f(4) have "ran (cg_edges L g') \<subseteq> {} \<union> call_labels r f" by blast
  moreover have "dom (vertex_id_map g') \<subseteq> set (vertex_names r f)" using g'(4) f(3) by (rule subset_trans)
  ultimately have "function_graph r F {} k g'"
    using f(1,2) g'(2) unfolding function_graph_def by (intro bexI [of _ f] conjI)
  note fg' = this
  have "\<forall>(k, m)\<in>set ms. function_graph r F {''control''} k (bbExpandedGraph m)" using Cons.prems by simp
  from Cons.IH [OF this] obtain ms' where "ConvertBBGraphToLibcCallGraph L fuel ms = Some (Inr ms')"
    "\<forall>(k, m)\<in>set ms'. function_graph r F {} k (libcCallGraph m)" by blast
  with g'(1) fg' show ?case
    by (intro exI [of _ "(k, m\<lparr>exitNode := x', libcCallGraph := g'\<rparr>) # ms'"]) (simp add: km)
qed simp

text \<open>The graphs of the functions, also of those that are looked up and missing, are apart.\<close>

lemma meta_graph:
  assumes "\<forall>(k, m)\<in>set ms. function_graph r F {} k (libcCallGraph m)"
  shows "cg_inv L ok (libcCallGraph (meta_of L ms f))"
    "ran (cg_edges L (libcCallGraph (meta_of L ms f))) \<subseteq> (\<Union>f\<in>F. call_labels r f)"
    "dom (vertex_id_map (libcCallGraph (meta_of L ms f))) = {} \<or>
       (\<exists>h\<in>F. f_name h = f \<and> dom (vertex_id_map (libcCallGraph (meta_of L ms f))) \<subseteq> set (vertex_names r h))"
proof -
  let ?g = "libcCallGraph (meta_of L ms f)"
  have "cg_inv L ok ?g \<and> ran (cg_edges L ?g) \<subseteq> (\<Union>f\<in>F. call_labels r f) \<and>
      (dom (vertex_id_map ?g) = {} \<or> (\<exists>h\<in>F. f_name h = f \<and> dom (vertex_id_map ?g) \<subseteq> set (vertex_names r h)))"
  proof (cases "map_of ms f")
    case None
    then show ?thesis
      using empty_inv by (simp add: meta_of_def meta_init_def cg_empty_def)
  next
    case (Some m)
    then have "function_graph r F {} f ?g"
      using assms(1) map_of_SomeD [OF Some] by (auto simp: meta_of_def)
    then show ?thesis by (auto simp: function_graph_def)
  qed
  then show "cg_inv L ok ?g" "ran (cg_edges L ?g) \<subseteq> (\<Union>f\<in>F. call_labels r f)"
    "dom (vertex_id_map ?g) = {} \<or> (\<exists>h\<in>F. f_name h = f \<and> dom (vertex_id_map ?g) \<subseteq> set (vertex_names r h))"
    by (rule conjunct1, rule conjunct1 [OF conjunct2], rule conjunct2 [OF conjunct2])
qed

lemma meta_separate:
  assumes "\<forall>(k, m)\<in>set ms. function_graph r F {} k (libcCallGraph m)"
    "\<forall>f\<in>F. \<forall>h\<in>F. f_name f \<noteq> f_name h \<longrightarrow> set (vertex_names r f) \<inter> set (vertex_names r h) = {}"
  shows "separate ms (dom (vertex_id_map (libcCallGraph (meta_of L ms ''main''))))
    (cg_edges L (libcCallGraph (meta_of L ms ''main'')))"
  unfolding separate_def
proof (intro ballI conjI meta_graph(1) [OF assms(1)])
  let ?m = "\<lambda>f. libcCallGraph (meta_of L ms f)"
  note graph = meta_graph(3) [OF assms(1)]
  show "dom (vertex_id_map (?m f)) \<inter> dom (vertex_id_map (?m ''main'')) = {} \<or>
      cg_edges L (?m f) = cg_edges L (?m ''main'')" for f
  proof (cases "f = ''main''")
    case False
    show ?thesis
    proof (rule disjI1, rule ccontr)
      assume ne: "dom (vertex_id_map (?m f)) \<inter> dom (vertex_id_map (?m ''main'')) \<noteq> {}"
      with graph [of f] obtain h where
        h: "h \<in> F" "f_name h = f" "dom (vertex_id_map (?m f)) \<subseteq> set (vertex_names r h)" by auto
      from ne graph [of "''main''"] obtain k where
        k: "k \<in> F" "f_name k = ''main''" "dom (vertex_id_map (?m ''main'')) \<subseteq> set (vertex_names r k)"
        by auto
      have "set (vertex_names r h) \<inter> set (vertex_names r k) = {}"
        using assms(2) [rule_format, OF h(1) k(1)] h(2) k(2) False by simp
      with ne h(3) k(3) show False by blast
    qed
  qed simp
qed

text \<open>The graph of the program: its labels are calls, but not user calls, of one of the functions.\<close>

lemma combine_all:
  assumes "\<forall>(k, m)\<in>set ms. function_graph r F {} k (libcCallGraph m)"
    "\<forall>f\<in>F. \<forall>h\<in>F. f_name f \<noteq> f_name h \<longrightarrow> set (vertex_names r f) \<inter> set (vertex_names r h) = {}"
  shows "\<exists>n. \<forall>fuel>n. \<exists>ms' fg. CombineLibcgGraph L fuel ms = Some (Inr (ms', fg)) \<and>
    cg_inv L ok (finalGraph fg) \<and>
    (\<forall>e\<in>ran (cg_edges L (finalGraph fg)). (\<exists>f\<in>F. e \<in> call_labels r f) \<and> \<not> is_control e \<and> \<not> is_user e) \<and>
    dom (vertex_id_map (finalGraph fg)) \<subseteq> (\<Union>f\<in>F. set (vertex_names r f))"
proof -
  let ?m = "\<lambda>f. libcCallGraph (meta_of L ms f)"
  let ?E = "cg_edges L (?m ''main'')"
  note graph = meta_graph [OF assms(1)]
  obtain n where n: "\<forall>fuel>n. \<exists>ms' fg. CombineLibcgGraph L fuel ms = Some (Inr (ms', fg)) \<and>
      cg_inv L ok (finalGraph fg) \<and> finalGraphEntryNode fg = entryNode (meta_of L ms ''main'') \<and>
      (\<forall>e\<in>ran (cg_edges L (finalGraph fg)). \<not> is_control e \<and> \<not> is_user e) \<and>
      ran (cg_edges L (finalGraph fg)) \<subseteq> ran ?E \<union> (\<Union>f\<in>direct_callees ?E. ran (cg_edges L (?m f))) \<and>
      dom (vertex_id_map (finalGraph fg)) \<subseteq> dom (vertex_id_map (?m ''main'')) \<union>
        (\<Union>f\<in>direct_callees ?E. dom (vertex_id_map (?m f)))"
    using combine_inv [OF refl graph(1) meta_separate [OF assms]] by (elim exE)
  have labels: "ran ?E \<union> (\<Union>f\<in>direct_callees ?E. ran (cg_edges L (?m f))) \<subseteq> (\<Union>f\<in>F. call_labels r f)"
    by (intro Un_least UN_least graph(2))
  have v: "dom (vertex_id_map (?m f)) \<subseteq> (\<Union>f\<in>F. set (vertex_names r f))" for f
    using graph(3) [of f] by blast
  then have verts: "dom (vertex_id_map (?m ''main'')) \<union> (\<Union>f\<in>direct_callees ?E. dom (vertex_id_map (?m f))) \<subseteq>
      (\<Union>f\<in>F. set (vertex_names r f))" by (intro Un_least UN_least)
  show ?thesis
  proof (intro exI [of _ n] allI impI)
    fix fuel assume "n < fuel"
    from n [rule_format, OF this] obtain ms' fg where
      fg: "CombineLibcgGraph L fuel ms = Some (Inr (ms', fg))"
      "cg_inv L ok (finalGraph fg)"
      "\<forall>e\<in>ran (cg_edges L (finalGraph fg)). \<not> is_control e \<and> \<not> is_user e"
      "ran (cg_edges L (finalGraph fg)) \<subseteq> ran ?E \<union> (\<Union>f\<in>direct_callees ?E. ran (cg_edges L (?m f)))"
      "dom (vertex_id_map (finalGraph fg)) \<subseteq> dom (vertex_id_map (?m ''main'')) \<union>
        (\<Union>f\<in>direct_callees ?E. dom (vertex_id_map (?m f)))"
      by (elim exE conjE) (rule that, assumption+)
    have "\<exists>f\<in>F. e \<in> call_labels r f" if "e \<in> ran (cg_edges L (finalGraph fg))" for e
      using subsetD [OF subset_trans [OF fg(4) labels] that] by (simp only: UN_iff)
    with fg(3) have "\<forall>e\<in>ran (cg_edges L (finalGraph fg)).
        (\<exists>f\<in>F. e \<in> call_labels r f) \<and> \<not> is_control e \<and> \<not> is_user e" by simp
    with fg(1,2) subset_trans [OF fg(5) verts] show "\<exists>ms' fg. CombineLibcgGraph L fuel ms = Some (Inr (ms', fg)) \<and>
      cg_inv L ok (finalGraph fg) \<and> (\<forall>e\<in>ran (cg_edges L (finalGraph fg)).
        (\<exists>f\<in>F. e \<in> call_labels r f) \<and> \<not> is_control e \<and> \<not> is_user e) \<and>
      dom (vertex_id_map (finalGraph fg)) \<subseteq> (\<Union>f\<in>F. set (vertex_names r f))"
      by (intro exI conjI)
  qed
qed

section \<open>From the module to the module\<close>

text \<open>
  The outcome of a run, given the graph of the program: the new module has the instrumented
  functions with the calls of \<^verbatim>\<open>SectionAddressHandler\<close> and \<^verbatim>\<open>MemoryCleanupHandler\<close> around a pool
  that holds the generated graph; a graph of 32 vertices or more ends in the assertion.
\<close>

definition pass_result where
  "pass_result uniq hash junk r M res fg \<longleftrightarrow>
     cg_inv L ok (finalGraph fg) \<and>
     (\<forall>e\<in>ran (cg_edges L (finalGraph fg)).
        (\<exists>f\<in>processed uniq M. e \<in> call_labels r f) \<and> \<not> is_control e \<and> \<not> is_user e) \<and>
     (if length (get_vertices L (finalGraph fg)) < 32 then
        \<exists>m M' s'. res = Inr (\<exists>f\<in>processed uniq M. has_library_call r f, M', fg, s') \<and>
          sealed m (generated_graph L hash junk r (finalGraph fg)) \<and>
          MemoryCleanupHandler (SectionAddressHandler (map m [0..<1024 * 1024])
            (instrumented uniq r M)) = Inr M' \<and> pool s' = None \<and> nodes s' = None
      else res = Inl Assert_failed) \<and>
     dom (vertex_id_map (finalGraph fg)) \<subseteq> (\<Union>f\<in>processed uniq M. set (vertex_names r f))"

text \<open>The stages up to the graph of the program, with enough fuel.\<close>

lemma run_graph:
  assumes "module_ok uniq r M"
  shows "\<exists>fuel ms1 ms2 ms3 ms4 fg.
    process_functions L uniq r (m_functions M) [] =
      Inr (instrumented_functions uniq r M, ms1, \<exists>f\<in>processed uniq M. has_library_call r f) \<and>
    ExpandBBGraph L ms1 = Inr ms2 \<and> ConvertBBGraphToLibcCallGraph L fuel ms2 = Some (Inr ms3) \<and>
    CombineLibcgGraph L fuel ms3 = Some (Inr (ms4, fg)) \<and> cg_inv L ok (finalGraph fg) \<and>
    (\<forall>e\<in>ran (cg_edges L (finalGraph fg)).
       (\<exists>f\<in>processed uniq M. e \<in> call_labels r f) \<and> \<not> is_control e \<and> \<not> is_user e) \<and>
    dom (vertex_id_map (finalGraph fg)) \<subseteq> (\<Union>f\<in>processed uniq M. set (vertex_names r f))"
proof -
  let ?F = "processed uniq M" and ?ch = "\<exists>f\<in>processed uniq M. has_library_call r f"
  have F: "\<forall>f\<in>?F. flow_ok f \<and> distinct (vertex_names r f)"
    "\<forall>f\<in>?F. \<forall>h\<in>?F. f_name f \<noteq> f_name h \<longrightarrow> set (vertex_names r f) \<inter> set (vertex_names r h) = {}"
    using assms by (auto simp: module_ok_def)
  have "\<forall>f\<in>set (m_functions M). \<not> skipped f \<longrightarrow> flow_ok (nameBasicBlocks uniq f)"
    using F(1) by (auto simp: processed_def)
  moreover have "(\<exists>f\<in>set (m_functions M). \<not> skipped f \<and> has_library_call r (nameBasicBlocks uniq f)) = ?ch"
    by (auto simp: processed_def)
  ultimately obtain ms1 where ms1:
    "process_functions L uniq r (m_functions M) [] = Inr (instrumented_functions uniq r M, ms1, ?ch)"
    "\<forall>(k, m)\<in>set ms1. analysed r ?F k m"
    using process_inv [of "m_functions M" uniq r "[]"] by (auto simp: processed_def instrumented_functions_def)
  from expand_all [OF ms1(2) F(1)] obtain ms2 where ms2: "ExpandBBGraph L ms1 = Inr ms2"
    "\<forall>(k, m)\<in>set ms2. function_graph r ?F {''control''} k (bbExpandedGraph m)" by blast
  have "finite ?F" by (simp add: processed_def)
  then obtain n1 where n1: "\<forall>f\<in>?F. length (vertex_names r f) < n1"
    using finite_nat_set_iff_bounded [of "(\<lambda>f. length (vertex_names r f)) ` ?F"] by auto
  from convert_all [OF ms2(2) n1] obtain ms3 where
    ms3: "ConvertBBGraphToLibcCallGraph L n1 ms2 = Some (Inr ms3)"
    "\<forall>(k, m)\<in>set ms3. function_graph r ?F {} k (libcCallGraph m)" by blast
  from combine_all [OF ms3(2) F(2)] obtain n2 where n2:
    "\<forall>fuel>n2. \<exists>ms' fg. CombineLibcgGraph L fuel ms3 = Some (Inr (ms', fg)) \<and>
      cg_inv L ok (finalGraph fg) \<and>
      (\<forall>e\<in>ran (cg_edges L (finalGraph fg)). (\<exists>f\<in>?F. e \<in> call_labels r f) \<and> \<not> is_control e \<and> \<not> is_user e) \<and>
      dom (vertex_id_map (finalGraph fg)) \<subseteq> (\<Union>f\<in>?F. set (vertex_names r f))"
    by blast
  define fuel where "fuel = Suc (max n1 n2)"
  have c: "ConvertBBGraphToLibcCallGraph L fuel ms2 = Some (Inr ms3)"
    by (rule convert_more [OF ms3(1)]) (simp add: fuel_def)
  have "n2 < fuel" by (simp add: fuel_def)
  from n2 [rule_format, OF this] obtain ms4 fg where
    "CombineLibcgGraph L fuel ms3 = Some (Inr (ms4, fg))" "cg_inv L ok (finalGraph fg)"
    "\<forall>e\<in>ran (cg_edges L (finalGraph fg)). (\<exists>f\<in>?F. e \<in> call_labels r f) \<and> \<not> is_control e \<and> \<not> is_user e"
    "dom (vertex_id_map (finalGraph fg)) \<subseteq> (\<Union>f\<in>?F. set (vertex_names r f))"
    by (elim exE conjE) (rule that)
  then show ?thesis
    by (intro exI conjI) (rule ms1(1), rule ms2(1), rule c, assumption+)
qed

lemma run_inv:
  assumes ok: "module_ok uniq r M" and e: "ample e"
    and junk: "length (fst junk) = 1000" "length (snd junk) = 1000"
  shows "\<exists>n res fg. (\<forall>fuel>n. runOnModule L e uniq hash junk fuel r M [] memgraph_init = Some res) \<and>
    pass_result uniq hash junk r M res fg"
proof -
  let ?run = "\<lambda>fuel. runOnModule L e uniq hash junk fuel r M [] memgraph_init"
  let ?M = "M\<lparr>m_functions := instrumented_functions uniq r M\<rparr>" and ?ch = "\<exists>f\<in>processed uniq M. has_library_call r f"
  obtain fuel ms1 ms2 ms3 ms4 fg where
    s: "process_functions L uniq r (m_functions M) [] = Inr (instrumented_functions uniq r M, ms1, ?ch)"
    "ExpandBBGraph L ms1 = Inr ms2" "ConvertBBGraphToLibcCallGraph L fuel ms2 = Some (Inr ms3)"
    "CombineLibcgGraph L fuel ms3 = Some (Inr (ms4, fg))"
    and fg: "cg_inv L ok (finalGraph fg)" "\<forall>e\<in>ran (cg_edges L (finalGraph fg)).
       (\<exists>f\<in>processed uniq M. e \<in> call_labels r f) \<and> \<not> is_control e \<and> \<not> is_user e"
      "dom (vertex_id_map (finalGraph fg)) \<subseteq> (\<Union>f\<in>processed uniq M. set (vertex_names r f))"
    using run_graph [OF ok] by (elim exE conjE) (rule that)
  let ?g = "finalGraph fg" and ?n = "length (get_vertices L (finalGraph fg))"
  have run: "?run fuel =
      Some (and_then (GenerateInMemoryGraph L e hash junk r ?g ?M memgraph_init) (\<lambda>(M1, s1).
        and_then (MemoryCleanupHandler M1) (\<lambda>M2. Inr (?ch, M2, fg, s1))))"
    using s by (simp add: runOnModule_def)
  note gen = generate_inv [OF fg(1) e junk refl, of hash r ?M]
  have "\<exists>res. ?run fuel = Some res \<and> pass_result uniq hash junk r M res fg"
  proof (cases "?n < 32")
    case False
    then have "32 * 32 \<le> ?n * ?n" by (intro mult_le_mono) auto
    with gen False run fg show ?thesis unfolding pass_result_def by simp
  next
    case True
    then have "?n * ?n \<le> 31 * 31" by (intro mult_le_mono) auto
    with gen obtain m s' where m:
      "GenerateInMemoryGraph L e hash junk r ?g ?M memgraph_init =
         Inr (SectionAddressHandler (map m [0..<1024 * 1024]) ?M, s')"
      "sealed m (generated_graph L hash junk r ?g)" "pool s' = None" "nodes s' = None"
      by auto
    have "\<forall>f\<in>set (m_functions ?M). is_main f \<longrightarrow> f_blocks f \<noteq> []"
      using ok by (auto simp: module_ok_def is_main_def inject_function_def nameBasicBlocks_def named_blocks
          instrumented_functions_def)
    from cleanup_after_section [OF this] obtain M' where
      M': "MemoryCleanupHandler (SectionAddressHandler (map m [0..<1024 * 1024]) ?M) = Inr M'" by blast
    have r: "?run fuel = Some (Inr (?ch, M', fg, s'))" unfolding run m(1) using M' by simp
    have "pass_result uniq hash junk r M (Inr (?ch, M', fg, s')) fg"
      unfolding pass_result_def instrumented_def using fg True m(2-4) M' by simp blast
    with r show ?thesis by blast
  qed
  then obtain res where res: "?run fuel = Some res" "pass_result uniq hash junk r M res fg" by blast
  have "\<forall>k>fuel. ?run k = Some res" using run_more [OF res(1)] by simp
  with res(2) show ?thesis by blast
qed

text \<open>The outcome does not depend on the fuel.\<close>

lemma run_outcome:
  assumes "module_ok uniq r M" "ample e" "length (fst junk) = 1000" "length (snd junk) = 1000"
    "runOnModule L e uniq hash junk fuel r M [] memgraph_init = Some res"
  shows "\<exists>fg. pass_result uniq hash junk r M res fg"
proof -
  from run_inv [OF assms(1-4)] obtain n res' fg where run:
    "\<forall>fuel>n. runOnModule L e uniq hash junk fuel r M [] memgraph_init = Some res'"
    "pass_result uniq hash junk r M res' fg" by blast
  have "res' = res"
    using run(1) [rule_format, of "Suc (max n fuel)"] run_more [OF assms(5), of "Suc (max n fuel)"] by simp
  with run(2) show ?thesis by blast
qed

end

end
