(* ===== verification/PathSpec.thy ===== *)
theory PathSpec
  imports PassSpec
begin

text \<open>
  What the expanded graph of a function accepts: its walks between blocks spell the calls along
  the paths of the control-flow graph, and nothing else.
\<close>

section \<open>Paths and walks\<close>

text \<open>A walk along labelled edges.\<close>

inductive spells :: "edge_map \<Rightarrow> string \<Rightarrow> string list \<Rightarrow> string \<Rightarrow> bool" for E where
  stay: "spells E u [] u"
| step: "E (u, v) = Some e \<Longrightarrow> spells E v es w \<Longrightarrow> spells E u (e # es) w"

inductive_simps spells_Nil: "spells E u [] w"
inductive_simps spells_Cons: "spells E u (e # es) w"

lemma spells_append: "spells E u es v \<Longrightarrow> spells E v es' w \<Longrightarrow> spells E u (es @ es') w"
  by (induction rule: spells.induct) (auto intro: spells.step)

text \<open>A path of control flow through blocks, and the calls along it, a control label at each jump.\<close>

fun flow_path :: "'i basic_block list \<Rightarrow> 'i basic_block list \<Rightarrow> bool" where
  "flow_path bbs [] \<longleftrightarrow> False"
| "flow_path bbs [b] \<longleftrightarrow> b \<in> set bbs"
| "flow_path bbs (b # c # p) \<longleftrightarrow> b \<in> set bbs \<and> c \<in> (!) bbs ` set (bb_succs b) \<and> flow_path bbs (c # p)"

fun path_word :: "file_map_reader \<Rightarrow> 'i basic_block list \<Rightarrow> string list" where
  "path_word r [] = []"
| "path_word r [b] = getLibraryCalls r b"
| "path_word r (b # c # p) = getLibraryCalls r b @ ''control'' # path_word r (c # p)"

definition block_end :: "file_map_reader \<Rightarrow> 'i basic_block \<Rightarrow> string" where
  "block_end r b = chain_end (bb_name b) (getLibraryCalls r b)"

section \<open>The edges of one block\<close>

lemma chain_edges:
  assumes "chain p vs cs (x, y) = Some e"
  shows "\<exists>k<length cs. k < length vs \<and> x = (p # vs) ! k \<and> y = vs ! k \<and> e = cs ! k"
  using assms
proof (induction p vs cs rule: chain.induct)
  case (1 p v vs c cs)
  show ?case
  proof (cases "(x, y) = (p, v)")
    case True
    with 1(2) show ?thesis by (intro exI [of _ 0]) simp
  next
    case False
    with 1(2) have "chain v vs cs (x, y) = Some e" by auto
    from 1(1) [OF this] obtain k where
      "k < length cs" "k < length vs" "x = (v # vs) ! k" "y = vs ! k" "e = cs ! k" by blast
    then show ?thesis by (intro exI [of _ "Suc k"]) simp
  qed
qed auto

lemma expand_map_other:
  assumes "x \<noteq> bb" "x \<notin> set (call_vertices bb 1 calls)"
  shows "expand_map bb calls E (x, y) = E (x, y)"
proof -
  have "chain bb (call_vertices bb 1 calls) calls (x, y) = None"
    using chain_dom [of bb "call_vertices bb 1 calls" calls x y] assms by fastforce
  moreover have "chain_end bb calls \<in> insert bb (set (call_vertices bb 1 calls))"
    unfolding chain_end_def by (metis last_in_set list.distinct(1) list.simps(15))
  ultimately show ?thesis using assms by (auto simp: expand_map_def map_add_def)
qed

lemma expand_maps_other:
  "x \<notin> fst ` set bs \<Longrightarrow> x \<notin> set (all_call_vertices bs) \<Longrightarrow> expand_maps bs E (x, y) = E (x, y)"
proof (induction bs E rule: expand_maps.induct)
  case (2 bb calls bs E)
  then show ?case by (simp add: expand_map_other)
qed simp

text \<open>All edges out of a block and its call vertices after the expansion of one block.\<close>

text \<open>The edge of a chain that leaves its \<open>k\<close>-th vertex.\<close>

lemma chain_at:
  assumes "distinct (p # vs)" "length vs = length ls" "k \<le> length ls"
  shows "chain p vs ls ((p # vs) ! k, y) = Some e \<longleftrightarrow> k < length ls \<and> y = vs ! k \<and> e = ls ! k"
proof
  assume "chain p vs ls ((p # vs) ! k, y) = Some e"
  from chain_edges [OF this] obtain j where
    j: "j < length ls" "(p # vs) ! k = (p # vs) ! j" "y = vs ! j" "e = ls ! j" by blast
  then have "k = j" using nth_eq_iff_index_eq [OF assms(1), of k j] assms(2,3) by simp
  with j show "k < length ls \<and> y = vs ! k \<and> e = ls ! k" by simp
next
  assume "k < length ls \<and> y = vs ! k \<and> e = ls ! k"
  with chain_label [of vs ls k p] assms(1,2) show "chain p vs ls ((p # vs) ! k, y) = Some e" by simp
qed

lemma expand_map_block:
  assumes "calls \<noteq> []" "bb \<notin> set (call_vertices bb 1 calls)"
    "\<And>x y. x \<in> set (call_vertices bb 1 calls) \<Longrightarrow> E (x, y) = None"
    "\<And>x y. y \<in> set (call_vertices bb 1 calls) \<Longrightarrow> E (x, y) = None"
    "k \<le> length calls"
  shows "expand_map bb calls E ((bb # call_vertices bb 1 calls) ! k, y) = Some e \<longleftrightarrow>
    (if k < length calls then y = call_vertices bb 1 calls ! k \<and> e = calls ! k
     else (bb, y) \<in> dom E \<and> e = ''control'')"
proof -
  let ?vs = "call_vertices bb 1 calls" and ?x = "(bb # call_vertices bb 1 calls) ! k"
  have d: "distinct (bb # ?vs)" "length ?vs = length calls" using assms(2) call_vertices_distinct by simp_all
  have z: "chain_end bb calls = (bb # ?vs) ! length calls"
    using assms(1) by (simp add: chain_end_def last_conv_nth)
  note chain = chain_at [OF d assms(5)]
  show ?thesis
  proof (cases "k < length calls")
    case True
    then have nz: "?x \<noteq> chain_end bb calls"
      using nth_eq_iff_index_eq [OF d(1), of k "length calls"] d(2) by (simp add: z)
    have "?vs ! k \<in> set ?vs" using True d(2) by simp
    then have nE: "(w, ?vs ! k) \<notin> dom E" for w using assms(4) by (simp add: domIff)
    have xE: "E (?x, y) = None" if "?x \<noteq> bb"
      using that assms(3) True d(2) by (cases k) auto
    have "expand_map bb calls E (?x, y) = chain bb ?vs calls (?x, y)"
    proof (cases "?x = bb")
      case x: True
      have "chain bb ?vs calls (?x, y) = None" if "(bb, y) \<in> dom E"
        using chain nE that by (cases "chain bb ?vs calls (?x, y)") auto
      with nz x show ?thesis by (auto simp: expand_map_def map_add_def split: option.split)
    next
      case False
      with nz xE show ?thesis by (auto simp: expand_map_def map_add_def split: option.split)
    qed
    with True chain show ?thesis by simp
  next
    case False
    then have k: "k = length calls" using assms(5) by simp
    have xz: "?x = chain_end bb calls" by (simp add: z k)
    have xv: "?x \<in> set ?vs" using assms(1) d(2) by (simp add: k nth_Cons')
    then have "?x \<noteq> bb" using assms(2) by metis
    moreover have "chain bb ?vs calls (?x, y) = None" using chain False by (cases "chain bb ?vs calls (?x, y)") auto
    moreover have "E (?x, y) = None" using xv assms(3) by blast
    ultimately show ?thesis using False xz by (auto simp: expand_map_def map_add_def)
  qed
qed

section \<open>The expanded graph of a function\<close>

text \<open>
  The function's blocks have different names and its call vertices are new: the hypotheses of
  the lemmas below.
\<close>

lemma all_call_vertices_in:
  "(bb, calls) \<in> set cs \<Longrightarrow> set (call_vertices bb 1 calls) \<subseteq> set (all_call_vertices cs)"
  by (induction cs rule: all_call_vertices.induct) auto

lemma expand_maps_block:
  assumes "distinct (map fst cs)" "distinct (all_call_vertices cs)"
    "set (all_call_vertices cs) \<inter> fst ` set cs = {}" "(bb, calls) \<in> set cs" "calls \<noteq> []"
    "\<And>x y. x \<in> set (all_call_vertices cs) \<Longrightarrow> E (x, y) = None"
    "\<And>x y. y \<in> set (all_call_vertices cs) \<Longrightarrow> E (x, y) = None"
    "k \<le> length calls"
  shows "expand_maps cs E ((bb # call_vertices bb 1 calls) ! k, y) = Some e \<longleftrightarrow>
    (if k < length calls then y = call_vertices bb 1 calls ! k \<and> e = calls ! k
     else (bb, y) \<in> dom E \<and> e = ''control'')"
  using assms(1-4,6,7)
proof (induction cs arbitrary: E)
  case (Cons c cs)
  obtain bb' calls' where c: "c = (bb', calls')" by (metis surj_pair)
  let ?vs = "call_vertices bb 1 calls" and ?vs' = "call_vertices bb' 1 calls'"
  let ?x = "(bb # call_vertices bb 1 calls) ! k"
  have x: "?x \<in> insert bb (set ?vs)" using assms(8) by (cases k) auto
  show ?case
  proof (cases "(bb, calls) = c")
    case True
    with c have e: "bb' = bb" "calls' = calls" by simp_all
    have "insert bb (set ?vs) \<inter> fst ` set cs = {}" "insert bb (set ?vs) \<inter> set (all_call_vertices cs) = {}"
      using Cons.prems(1-3) by (simp_all add: c e Int_Un_distrib2)
    with x have "?x \<notin> fst ` set cs" "?x \<notin> set (all_call_vertices cs)" by blast+
    then have "expand_maps (c # cs) E (?x, y) = expand_map bb calls E (?x, y)"
      by (simp add: c e expand_maps_other)
    moreover have "bb \<notin> set ?vs" using Cons.prems(3) by (auto simp: c e)
    moreover have "E (u, v) = None" if "u \<in> set ?vs" for u v using Cons.prems(5) that by (simp add: c e)
    moreover have "E (u, v) = None" if "v \<in> set ?vs" for u v using Cons.prems(6) that by (simp add: c e)
    ultimately show ?thesis using expand_map_block [of calls bb E k y e] assms(5,8) by simp
  next
    case False
    with Cons.prems(4) have m: "(bb, calls) \<in> set cs" by simp
    note vs = all_call_vertices_in [OF m]
    have bb: "bb \<noteq> bb'" using m Cons.prems(1) by (force simp: c)
    have "bb \<notin> set ?vs'" using m Cons.prems(3) by (force simp: c)
    with bb have E: "(bb, y) \<in> dom (expand_map bb' calls' E) \<longleftrightarrow> (bb, y) \<in> dom E"
      by (simp add: domIff expand_map_other)
    let ?E = "expand_map bb' calls' E"
    have ne: "u \<noteq> bb'" "u \<notin> set ?vs'" if "u \<in> set (all_call_vertices cs)" for u
      using that Cons.prems(2,3) by (auto simp: c)
    have 1: "?E (u, v) = None" if "u \<in> set (all_call_vertices cs)" for u v
      using expand_map_other [OF ne [OF that], of E v] Cons.prems(5) [of u v] that by (simp add: c)
    have 2: "?E (u, v) = None" if v: "v \<in> set (all_call_vertices cs)" for u v
    proof -
      have "chain bb' ?vs' calls' (u, v) = None"
        using chain_dom [of bb' ?vs' calls' u v] ne [OF v] by fastforce
      moreover have "E (w, v) = None" for w using Cons.prems(6) [of v w] v by (simp add: c)
      ultimately show ?thesis by (auto simp: expand_map_def map_add_def)
    qed
    have d: "distinct (map fst cs)" "distinct (all_call_vertices cs)"
      "set (all_call_vertices cs) \<inter> fst ` set cs = {}"
      using Cons.prems(1-3) by (auto simp: c)
    have "expand_maps (c # cs) E = expand_maps cs ?E" by (simp add: c)
    with Cons.IH [OF d m, of ?E, OF 1 2] E show ?thesis by (simp add: domIff)
  qed
qed simp

definition expanded_map :: "file_map_reader \<Rightarrow> 'i ir_function \<Rightarrow> edge_map" where
  "expanded_map r f = expand_maps (list_calls r (f_blocks f) []) (flow_map (f_blocks f))"

text \<open>The \<open>k\<close>th vertex of a block: the block, then the vertex behind each call.\<close>

definition stage :: "file_map_reader \<Rightarrow> 'i basic_block \<Rightarrow> nat \<Rightarrow> string" where
  "stage r b k = (bb_name b # call_vertices (bb_name b) 1 (getLibraryCalls r b)) ! k"

lemma stage_0 [simp]: "stage r b 0 = bb_name b"
  by (simp add: stage_def)

lemma stage_end: "stage r b (length (getLibraryCalls r b)) = block_end r b"
  by (simp add: stage_def block_end_def chain_end_def last_conv_nth nth_Cons')

lemma vertex_namesD:
  assumes "distinct (vertex_names r f)"
  shows "distinct (map bb_name (f_blocks f))"
    "distinct (all_call_vertices (list_calls r (f_blocks f) []))"
    "set (all_call_vertices (list_calls r (f_blocks f) [])) \<inter> bb_name ` set (f_blocks f) = {}"
  using assms by (auto simp: vertex_names_def)

lemma listed_block:
  assumes "distinct (vertex_names r f)" "b \<in> set (f_blocks f)" "getLibraryCalls r b \<noteq> []"
  shows "(bb_name b, getLibraryCalls r b) \<in> set (list_calls r (f_blocks f) [])"
  using list_calls_set [OF vertex_namesD(1) [OF assms(1)]] assms(2,3) by blast

lemma list_calls_keys:
  assumes "distinct (map bb_name bbs)"
  shows "distinct (map fst (list_calls r bbs []))" "fst ` set (list_calls r bbs []) \<subseteq> bb_name ` set bbs"
proof -
  have "keys_sorted (list_calls r bbs [])"
    by (rule list_calls_sorted) (simp add: keys_sorted_def)
  then show "distinct (map fst (list_calls r bbs []))" by (rule keys_sorted_distinct)
  show "fst ` set (list_calls r bbs []) \<subseteq> bb_name ` set bbs"
    using list_calls_set [OF assms] by fastforce
qed

lemma same_block:
  "distinct (map bb_name bbs) \<Longrightarrow> b \<in> set bbs \<Longrightarrow> c \<in> set bbs \<Longrightarrow> bb_name b = bb_name c \<Longrightarrow> b = c"
  by (metis distinct_map inj_onD)

lemma flow_map_names:
  assumes "flow_ok f" "flow_map (f_blocks f) (x, y) = Some e"
  shows "x \<in> bb_name ` set (f_blocks f)" "y \<in> bb_name ` set (f_blocks f)"
  using assms by (auto simp: flow_map_def flow_edge_def flow_ok_def split: if_splits)

text \<open>Every edge out of a vertex of a block.\<close>

lemma stage_edges:
  assumes "flow_ok f" "distinct (vertex_names r f)" "b \<in> set (f_blocks f)"
    "k \<le> length (getLibraryCalls r b)"
  shows "expanded_map r f (stage r b k, y) = Some e \<longleftrightarrow>
    (if k < length (getLibraryCalls r b) then y = stage r b (Suc k) \<and> e = getLibraryCalls r b ! k
     else y \<in> (\<lambda>s. bb_name (f_blocks f ! s)) ` set (bb_succs b) \<and> e = ''control'')"
proof -
  let ?cs = "list_calls r (f_blocks f) []" and ?calls = "getLibraryCalls r b"
  note d = vertex_namesD [OF assms(2)]
  note keys = list_calls_keys [OF d(1), of r]
  have flow: "(bb_name b, y) \<in> dom (flow_map (f_blocks f)) \<longleftrightarrow>
      y \<in> (\<lambda>s. bb_name (f_blocks f ! s)) ` set (bb_succs b)"
  proof -
    have "flow_edge (f_blocks f) (bb_name b) y \<longleftrightarrow> (\<exists>s\<in>set (bb_succs b). bb_name (f_blocks f ! s) = y)"
      unfolding flow_edge_def using same_block [OF d(1) _ assms(3)] assms(3) by metis
    then show ?thesis by (auto simp: flow_map_def)
  qed
  show ?thesis
  proof (cases "?calls = []")
    case True
    have "bb_name b \<notin> fst ` set ?cs"
      using list_calls_set [OF d(1), of "bb_name b" _ r] same_block [OF d(1) _ assms(3)] True by fastforce
    moreover have "bb_name b \<notin> set (all_call_vertices ?cs)" using d(3) assms(3) by blast
    ultimately have "expanded_map r f (bb_name b, y) = flow_map (f_blocks f) (bb_name b, y)"
      by (simp add: expanded_map_def expand_maps_other)
    with flow True assms(4) show ?thesis by (auto simp: flow_map_def)
  next
    case False
    note m = listed_block [OF assms(2,3) False]
    have 1: "flow_map (f_blocks f) (u, v) = None" if "u \<in> set (all_call_vertices ?cs)" for u v
      using that d(3) flow_map_names(1) [OF assms(1)] by fastforce
    have 2: "flow_map (f_blocks f) (u, v) = None" if "v \<in> set (all_call_vertices ?cs)" for u v
      using that d(3) flow_map_names(2) [OF assms(1)] by fastforce
    have 3: "set (all_call_vertices ?cs) \<inter> fst ` set ?cs = {}" using d(3) keys(2) by blast
    from expand_maps_block [OF keys(1) d(2) 3 m False, of "flow_map (f_blocks f)", OF 1 2 assms(4)]
    have "expanded_map r f (stage r b k, y) = Some e \<longleftrightarrow>
        (if k < length ?calls then y = stage r b (Suc k) \<and> e = ?calls ! k
         else (bb_name b, y) \<in> dom (flow_map (f_blocks f)) \<and> e = ''control'')"
      by (simp add: expanded_map_def stage_def)
    then show ?thesis unfolding flow .
  qed
qed

lemma stage_unique:
  assumes "distinct (vertex_names r f)" "b \<in> set (f_blocks f)" "c \<in> set (f_blocks f)"
    "k \<le> length (getLibraryCalls r b)" "j \<le> length (getLibraryCalls r c)" "stage r b k = stage r c j"
  shows "b = c \<and> k = j"
proof -
  note d = vertex_namesD [OF assms(1)]
  let ?cs = "list_calls r (f_blocks f) []"
  have call: "stage r b k \<in> set (call_vertices (bb_name b) 1 (getLibraryCalls r b))"
    if "0 < k" "k \<le> length (getLibraryCalls r b)" for b and k :: nat
    using that by (simp add: stage_def nth_Cons')
  have all: "stage r b k \<in> set (all_call_vertices ?cs)"
    if "b \<in> set (f_blocks f)" "0 < k" "k \<le> length (getLibraryCalls r b)" for b and k :: nat
    using call [OF that(2,3)] all_call_vertices_in [OF listed_block [OF assms(1) that(1)]] that(2,3) by fastforce
  have zero: "k = 0 \<longleftrightarrow> j = 0"
    using all [OF assms(2) _ assms(4)] all [OF assms(3) _ assms(5)] assms(2,3,6) d(3)
    by (metis disjoint_iff gr0I image_eqI stage_0)
  show ?thesis
  proof (cases "k = 0")
    case True
    with zero assms(6) same_block [OF d(1) assms(2,3)] show ?thesis by simp
  next
    case False
    have "bb_name b = bb_name c"
    proof (rule ccontr)
      assume ne: "bb_name b \<noteq> bb_name c"
      have disj: "set (call_vertices u 1 cu) \<inter> set (call_vertices v 1 cv) = {}"
        if "distinct (all_call_vertices cs)" "(u, cu) \<in> set cs" "(v, cv) \<in> set cs" "u \<noteq> v" for u v cu cv cs
        using that
      proof (induction cs rule: all_call_vertices.induct)
        case (2 w cw cs)
        then show ?case using all_call_vertices_in [of u cu cs] all_call_vertices_in [of v cv cs] by auto
      qed simp
      have "getLibraryCalls r b \<noteq> []" "getLibraryCalls r c \<noteq> []" using False zero assms(4,5) by auto
      from disj [OF d(2) listed_block [OF assms(1,2) this(1)] listed_block [OF assms(1,3) this(2)] ne]
        call [of k b] call [of j c] False zero assms(4-6) show False by auto
    qed
    then have "b = c" by (rule same_block [OF d(1) assms(2,3)])
    moreover have "bb_name b \<notin> set (call_vertices (bb_name b) 1 (getLibraryCalls r b))"
      using all_call_vertices_in [OF listed_block [OF assms(1,2)]] d(3) assms(2,4) False by fastforce
    ultimately show ?thesis
      using assms(4-6) call_vertices_distinct [of "bb_name b" 1 "getLibraryCalls r b"]
        nth_eq_iff_index_eq [of "bb_name b # call_vertices (bb_name b) 1 (getLibraryCalls r b)" k j]
      by (simp add: stage_def)
  qed
qed

section \<open>Walks between blocks\<close>

lemma spells_block:
  assumes "flow_ok f" "distinct (vertex_names r f)" "b \<in> set (f_blocks f)"
    "k \<le> length (getLibraryCalls r b)"
  shows "spells (expanded_map r f) (stage r b k) (drop k (getLibraryCalls r b)) (block_end r b)"
  using assms(4)
proof (induction rule: inc_induct)
  case base
  then show ?case by (simp add: stage_end spells.stay)
next
  case (step k)
  from stage_edges [OF assms(1-3), of k "stage r b (Suc k)" "getLibraryCalls r b ! k"] step
  show ?case by (auto simp: Cons_nth_drop_Suc [symmetric] intro: spells.step)
qed

lemma walk_from_stage:
  assumes "flow_ok f" "distinct (vertex_names r f)" "b \<in> set (f_blocks f)"
    "k \<le> length (getLibraryCalls r b)" "spells (expanded_map r f) (stage r b k) es w"
  shows "(\<exists>j. k + j \<le> length (getLibraryCalls r b) \<and> es = take j (drop k (getLibraryCalls r b)) \<and>
      w = stage r b (k + j)) \<or>
    (\<exists>c\<in>(!) (f_blocks f) ` set (bb_succs b). \<exists>es'. es = drop k (getLibraryCalls r b) @ ''control'' # es' \<and>
      spells (expanded_map r f) (bb_name c) es' w)"
  using assms(4,5)
proof (induction es arbitrary: k)
  case Nil
  then show ?case by (intro disjI1 exI [of _ 0]) (simp add: spells_Nil)
next
  case (Cons e es)
  let ?calls = "getLibraryCalls r b"
  from Cons.prems(2) obtain v where v: "expanded_map r f (stage r b k, v) = Some e"
    "spells (expanded_map r f) v es w" by (auto simp: spells_Cons)
  note edge = stage_edges [OF assms(1-3) Cons.prems(1), of v e] v(1)
  show ?case
  proof (cases "k < length ?calls")
    case True
    then have e: "v = stage r b (Suc k)" "e = ?calls ! k" using edge by simp_all
    have d: "drop k ?calls = e # drop (Suc k) ?calls" using True e(2) by (simp add: Cons_nth_drop_Suc)
    have "Suc k \<le> length ?calls" using True by simp
    from Cons.IH [OF this v(2) [unfolded e(1)]] show ?thesis
    proof (elim disjE exE conjE bexE)
      fix j assume "Suc k + j \<le> length ?calls" "es = take j (drop (Suc k) ?calls)" "w = stage r b (Suc k + j)"
      then show ?thesis by (intro disjI1 exI [of _ "Suc j"]) (simp add: d)
    next
      fix c es' assume "c \<in> (!) (f_blocks f) ` set (bb_succs b)" "es = drop (Suc k) ?calls @ ''control'' # es'"
        "spells (expanded_map r f) (bb_name c) es' w"
      then show ?thesis by (intro disjI2 bexI [of _ c] exI [of _ es']) (simp_all add: d)
    qed
  next
    case False
    then have "v \<in> (\<lambda>s. bb_name (f_blocks f ! s)) ` set (bb_succs b)" "e = ''control''" using edge by simp_all
    with False v(2) show ?thesis by auto
  qed
qed

text \<open>The walks from a block to the end of a block are the paths between them.\<close>

lemma flow_path_blocks: "flow_path bbs p \<Longrightarrow> p \<noteq> [] \<and> hd p \<in> set bbs"
  by (cases "(bbs, p)" rule: flow_path.cases) auto

lemma path_spells:
  assumes "flow_ok f" "distinct (vertex_names r f)" "flow_path (f_blocks f) p"
  shows "spells (expanded_map r f) (bb_name (hd p)) (path_word r p) (block_end r (last p))"
  using assms(3)
proof (induction "f_blocks f" p rule: flow_path.induct)
  case (2 b)
  then show ?case using spells_block [OF assms(1,2), of b 0] by simp
next
  case (3 b c p)
  let ?n = "length (getLibraryCalls r b)"
  have b: "b \<in> set (f_blocks f)" "bb_name c \<in> (\<lambda>s. bb_name (f_blocks f ! s)) ` set (bb_succs b)"
    using 3(2) by auto
  have "expanded_map r f (block_end r b, bb_name c) = Some ''control''"
    using stage_edges [OF assms(1,2) b(1), of ?n "bb_name c" "''control''"] b(2) by (simp add: stage_end)
  with 3 have "spells (expanded_map r f) (block_end r b) (''control'' # path_word r (c # p))
      (block_end r (last (c # p)))"
    by (auto intro: spells.step)
  with spells_block [OF assms(1,2) b(1), of 0] show ?case by (simp add: spells_append)
qed simp

lemma spells_path:
  assumes "flow_ok f" "distinct (vertex_names r f)" "b \<in> set (f_blocks f)" "c \<in> set (f_blocks f)"
    "spells (expanded_map r f) (bb_name b) es (block_end r c)"
  shows "\<exists>p. flow_path (f_blocks f) p \<and> hd p = b \<and> last p = c \<and> path_word r p = es"
  using assms(3,5)
proof (induction "length es" arbitrary: b es rule: less_induct)
  case less
  let ?calls = "getLibraryCalls r b"
  from walk_from_stage [OF assms(1,2) less(2), of 0 es "block_end r c"] less(3)
  consider j where "j \<le> length ?calls" "es = take j ?calls" "block_end r c = stage r b j"
    | c' es' where "c' \<in> (!) (f_blocks f) ` set (bb_succs b)" "es = ?calls @ ''control'' # es'"
      "spells (expanded_map r f) (bb_name c') es' (block_end r c)"
    by auto
  then show ?case
  proof cases
    case 1
    then have "b = c \<and> j = length (getLibraryCalls r c)"
      using stage_unique [OF assms(2) less(2) assms(4), of j "length (getLibraryCalls r c)"]
      by (simp add: stage_end)
    with 1 less(2) show ?thesis by (intro exI [of _ "[b]"]) simp
  next
    case 2
    have "c' \<in> set (f_blocks f)" using 2(1) assms(1) less(2) by (auto simp: flow_ok_def)
    with less(1) [of es' c'] 2 obtain p where
      p: "flow_path (f_blocks f) p" "hd p = c'" "last p = c" "path_word r p = es'" by auto
    from flow_path_blocks [OF p(1)] obtain q where "p = c' # q" using p(2) by (cases p) auto
    with p 2(1,2) less(2) show ?thesis by (intro exI [of _ "b # p"]) simp
  qed
qed

end
