(* ===== verification/LineSpec.thy ===== *)
theory LineSpec
  imports PathSpec
begin

text \<open>
  Functions without branches: the expanded graph is a chain, and merging it along the control
  edges leaves the chain of the calls, in whichever order the vertices are visited.
\<close>

section \<open>Chains\<close>

lemma chain_iff:
  assumes "distinct vs" "length vs = length ls"
  shows "chain p vs ls (x, y) = Some e \<longleftrightarrow>
    (\<exists>j<length ls. x = (p # vs) ! j \<and> y = vs ! j \<and> e = ls ! j)"
proof
  assume "chain p vs ls (x, y) = Some e"
  from chain_edges [OF this] show "\<exists>j<length ls. x = (p # vs) ! j \<and> y = vs ! j \<and> e = ls ! j" by blast
next
  assume "\<exists>j<length ls. x = (p # vs) ! j \<and> y = vs ! j \<and> e = ls ! j"
  then obtain j where "j < length ls" "x = (p # vs) ! j" "y = vs ! j" "e = ls ! j" by blast
  with chain_label [OF assms, of j p] show "chain p vs ls (x, y) = Some e" by simp
qed

definition delete :: "nat \<Rightarrow> 'a list \<Rightarrow> 'a list" where
  "delete k xs = take k xs @ drop (Suc k) xs"

lemma length_delete: "k < length xs \<Longrightarrow> length (delete k xs) = length xs - 1"
  by (simp add: delete_def)

lemma nth_delete: "k < length xs \<Longrightarrow> Suc j < length xs \<Longrightarrow> delete k xs ! j = (if j < k then xs ! j else xs ! Suc j)"
  by (simp add: delete_def nth_append)

lemma set_delete: "set (delete k xs) \<subseteq> set xs"
  by (auto simp: delete_def dest: in_set_takeD in_set_dropD)

lemma distinct_delete: "distinct xs \<Longrightarrow> distinct (delete k xs)"
  by (auto simp: delete_def dest: set_take_disj_set_drop_if_distinct [of xs k "Suc k"])

lemma filter_delete:
  "k < length xs \<Longrightarrow> \<not> P (xs ! k) \<Longrightarrow> filter P (delete k xs) = filter P xs"
  by (simp add: delete_def id_take_nth_drop [of k xs, THEN arg_cong, of "filter P"])

text \<open>
  Combining the ends of an edge of a chain gives the chain without that edge: its vertices, its
  keys and its labels, and the chain.
\<close>

lemma chain_position:
  assumes "distinct (p # vs)" "length vs = length ls" "i \<le> length ls" "j \<le> length ls"
  shows "(p # vs) ! i = (p # vs) ! j \<longleftrightarrow> i = j"
  using nth_eq_iff_index_eq [OF assms(1), of i j] assms(2-4) by simp

lemma chain_dom_iff:
  assumes "distinct (p # vs)" "length vs = length ls"
  shows "(x, y) \<in> dom (chain p vs ls) \<longleftrightarrow> (\<exists>j<length ls. x = (p # vs) ! j \<and> y = (p # vs) ! Suc j)"
proof -
  have "distinct vs" using assms(1) by simp
  from chain_iff [OF this assms(2)] show ?thesis by auto
qed

lemma chain_delete_nth:
  assumes "length vs = length ls" "k < length ls" "Suc j < length ls"
  shows "(p # delete k vs) ! j = (if j \<le> k then (p # vs) ! j else (p # vs) ! Suc j)"
    "delete k vs ! j = (if j < k then (p # vs) ! Suc j else (p # vs) ! Suc (Suc j))"
    "delete k ls ! j = (if j < k then ls ! j else ls ! Suc j)"
  using assms nth_delete [of k vs j] nth_delete [of k vs "j - 1"] nth_delete [of k ls j]
  by (auto simp: nth_Cons' split: if_splits)

lemma chain_key_combined:
  assumes d: "distinct (p # vs)" "length vs = length ls" and k: "k < length ls"
    and u: "u = (p # vs) ! k" "w = (p # vs) ! Suc k"
    and x: "(x, y) \<in> merged_keys u w (dom (chain p vs ls))"
  shows "\<exists>j. Suc j < length ls \<and> x = (p # delete k vs) ! j \<and> y = delete k vs ! j"
proof -
  let ?V = "p # vs" and ?E = "dom (chain p vs ls)" and ?n = "length ls"
  note inj = chain_position [OF d] and V' = chain_delete_nth(1,2) [OF d(2) k, where p = p]
  from x have m: "x \<noteq> w" "y \<noteq> w" "(x, y) \<in> ?E \<or> x = u \<and> (w, y) \<in> ?E \<or> y = u \<and> x \<noteq> u \<and> (x, w) \<in> ?E"
    by (auto simp: merged_keys_def)
  from m(3) show "\<exists>j. Suc j < ?n \<and> x = (p # delete k vs) ! j \<and> y = delete k vs ! j"
  proof (elim disjE conjE)
    assume "(x, y) \<in> ?E"
    then obtain j where j: "j < ?n" "x = ?V ! j" "y = ?V ! Suc j" unfolding chain_dom_iff [OF d] by blast
    with m(1,2) u(2) have "j \<noteq> Suc k" "j \<noteq> k" by auto
    then consider "j < k" | "Suc k < j" by linarith
    then show ?thesis
    proof cases
      case 1
      with j k V' [of j] show ?thesis by (intro exI [of _ j]) auto
    next
      case 2
      with j V' [of "j - 1"] show ?thesis by (intro exI [of _ "j - 1"]) auto
    qed
  next
    assume "x = u" "(w, y) \<in> ?E"
    then obtain j where j: "j < ?n" "w = ?V ! j" "y = ?V ! Suc j" unfolding chain_dom_iff [OF d] by blast
    with u(2) inj [of j "Suc k"] k have "j = Suc k" by simp
    with j \<open>x = u\<close> u(1) V' [of k] show ?thesis by (intro exI [of _ k]) auto
  next
    assume "y = u" "x \<noteq> u" "(x, w) \<in> ?E"
    then obtain j where "j < ?n" "x = ?V ! j" "w = ?V ! Suc j" unfolding chain_dom_iff [OF d] by blast
    with u inj [of "Suc j" "Suc k"] k \<open>x \<noteq> u\<close> show ?thesis by simp
  qed
qed

lemma chain_key_kept:
  assumes d: "distinct (p # vs)" "length vs = length ls" and k: "k < length ls"
    and u: "u = (p # vs) ! k" "w = (p # vs) ! Suc k"
    and x: "\<exists>j. Suc j < length ls \<and> x = (p # delete k vs) ! j \<and> y = delete k vs ! j"
  shows "(x, y) \<in> merged_keys u w (dom (chain p vs ls))"
proof -
  let ?V = "p # vs" and ?E = "dom (chain p vs ls)" and ?n = "length ls"
  note inj = chain_position [OF d]
  from x obtain j where j: "Suc j < ?n" "x = (if j \<le> k then ?V ! j else ?V ! Suc j)"
    "y = (if j < k then ?V ! Suc j else ?V ! Suc (Suc j))" using chain_delete_nth(1,2) [OF d(2) k, where p = p] by auto
  have old: "(?V ! i, ?V ! Suc i) \<in> ?E" if "i < ?n" for i using that unfolding chain_dom_iff [OF d] by blast
  consider "j < k" | "j = k" | "k < j" by linarith
  then have "x \<noteq> w \<and> y \<noteq> w \<and> ((x, y) \<in> ?E \<or> x = u \<and> (w, y) \<in> ?E)"
  proof cases
    case 1
    then show ?thesis using j u(2) inj [of j "Suc k"] inj [of "Suc j" "Suc k"] k old [of j] by auto
  next
    case 2
    then show ?thesis
      using j u inj [of k "Suc k"] inj [of "Suc (Suc k)" "Suc k"] old [of "Suc k"] by auto
  next
    case 3
    then show ?thesis
      using j u(2) inj [of "Suc j" "Suc k"] inj [of "Suc (Suc j)" "Suc k"] k old [of "Suc j"] by auto
  qed
  then show "(x, y) \<in> merged_keys u w ?E" by (auto simp: merged_keys_def)
qed

lemma chain_combined_key:
  assumes d: "distinct (p # vs)" "length vs = length ls" and k: "k < length ls"
    and u: "u = (p # vs) ! k" "w = (p # vs) ! Suc k"
  shows "(x, y) \<in> merged_keys u w (dom (chain p vs ls)) \<longleftrightarrow>
    (\<exists>j. Suc j < length ls \<and> x = (p # delete k vs) ! j \<and> y = delete k vs ! j)"
  using chain_key_combined [OF assms] chain_key_kept [OF assms] by blast

lemma chain_combined_label:
  assumes d: "distinct (p # vs)" "length vs = length ls" and k: "k < length ls"
    and u: "u = (p # vs) ! k" "w = (p # vs) ! Suc k"
    and e: "merged_label u w (chain p vs ls) ((p # delete k vs) ! j, delete k vs ! j) e" "Suc j < length ls"
  shows "e = delete k ls ! j"
proof -
  let ?V = "p # vs"
  note inj = chain_position [OF d]
  have dv: "distinct vs" using d(1) by simp
  from e(1) obtain i where i: "i < length ls" "e = ls ! i"
    "(p # delete k vs) ! j = ?V ! i \<and> delete k vs ! j = ?V ! Suc i \<or>
     (p # delete k vs) ! j = u \<and> w = ?V ! i \<and> delete k vs ! j = ?V ! Suc i \<or>
     delete k vs ! j = u \<and> (p # delete k vs) ! j = ?V ! i \<and> w = ?V ! Suc i"
    unfolding merged_label_def chain_iff [OF dv d(2)] by auto
  have "i = (if j < k then j else Suc j)"
    using i(1,3) e(2) k inj [of j i] inj [of "Suc j" i] inj [of "Suc j" "Suc i"] inj [of "Suc (Suc j)" "Suc i"]
      inj [of "Suc k" i] inj [of j k] inj [of "Suc j" k] inj [of "Suc (Suc j)" k] inj [of "Suc k" "Suc i"]
    unfolding chain_delete_nth(1,2) [OF d(2) k e(2), where p = p] u by (auto split: if_splits)
  with i(2) chain_delete_nth(3) [OF d(2) k e(2)] show ?thesis by simp
qed

lemma chain_combined:
  assumes d: "distinct (p # vs)" "length vs = length ls" and k: "k < length ls"
    and u: "u = (p # vs) ! k" "w = vs ! k"
    and E': "dom E' = merged_keys u w (dom (chain p vs ls))"
      "\<forall>k e. E' k = Some e \<longrightarrow> merged_label u w (chain p vs ls) k e"
  shows "E' = chain p (delete k vs) (delete k ls)"
proof -
  let ?vs = "delete k vs" and ?ls = "delete k ls"
  have w: "w = (p # vs) ! Suc k" using u(2) by simp
  have dd: "distinct ?vs" "length ?vs = length ?ls"
    using d k by (simp_all add: distinct_delete length_delete)
  have n: "length ?ls = length ls - 1" using k by (simp add: length_delete)
  have key: "(x, y) \<in> dom E' \<longleftrightarrow> (\<exists>j<length ?ls. x = (p # ?vs) ! j \<and> y = ?vs ! j)" for x y
    unfolding E'(1) chain_combined_key [OF d k u(1) w] n by (auto simp: less_diff_conv)
  have lab: "e = ?ls ! j" if "E' ((p # ?vs) ! j, ?vs ! j) = Some e" "j < length ?ls" for e j
    using chain_combined_label [OF d k u(1) w E'(2) [rule_format, OF that(1)]] that(2) n by simp
  have "E' (x, y) = Some e \<longleftrightarrow> chain p ?vs ?ls (x, y) = Some e" for x y e
  proof
    assume e: "E' (x, y) = Some e"
    with key obtain j where "j < length ?ls" "x = (p # ?vs) ! j" "y = ?vs ! j" by blast
    with e lab show "chain p ?vs ?ls (x, y) = Some e" unfolding chain_iff [OF dd] by blast
  next
    assume "chain p ?vs ?ls (x, y) = Some e"
    then obtain j where j: "j < length ?ls" "x = (p # ?vs) ! j" "y = ?vs ! j" "e = ?ls ! j"
      unfolding chain_iff [OF dd] by blast
    with key obtain e' where "E' (x, y) = Some e'" by blast
    with lab [of j e'] j show "E' (x, y) = Some e" by simp
  qed
  then have "E' xy = chain p ?vs ?ls xy" for xy
    by (metis option.exhaust surj_pair)
  then show ?thesis by (rule ext)
qed

text \<open>The walks along a chain.\<close>

lemma chain_walks:
  assumes "distinct (p # vs)" "length vs = length ls" "i \<le> length ls"
  shows "spells (chain p vs ls) ((p # vs) ! i) es w \<longleftrightarrow>
    (\<exists>k. i + k \<le> length ls \<and> es = take k (drop i ls) \<and> w = (p # vs) ! (i + k))"
  using assms(3)
proof (induction es arbitrary: i)
  case Nil
  then show ?case by (auto simp: spells_Nil take_eq_Nil intro!: exI [of _ 0])
next
  case (Cons e es)
  have d: "distinct vs" using assms(1) by simp
  have out: "chain p vs ls ((p # vs) ! i, v) = Some e \<longleftrightarrow> i < length ls \<and> v = vs ! i \<and> e = ls ! i" for v
  proof -
    have "(p # vs) ! i = (p # vs) ! j \<longleftrightarrow> i = j" if "j < length ls" for j
      using nth_eq_iff_index_eq [OF assms(1), of i j] that Cons.prems assms(2) by simp
    then show ?thesis unfolding chain_iff [OF d assms(2)] by auto
  qed
  have next_vertex: "vs ! i = (p # vs) ! Suc i" by simp
  show ?case
  proof (cases "i < length ls")
    case True
    then have IH: "spells (chain p vs ls) ((p # vs) ! Suc i) es w \<longleftrightarrow>
        (\<exists>k. Suc i + k \<le> length ls \<and> es = take k (drop (Suc i) ls) \<and> w = (p # vs) ! (Suc i + k))"
      using Cons.IH [of "Suc i"] by simp
    have "spells (chain p vs ls) ((p # vs) ! i) (e # es) w \<longleftrightarrow>
        e = ls ! i \<and> spells (chain p vs ls) ((p # vs) ! Suc i) es w"
      unfolding spells_Cons out next_vertex using True by blast
    also have "\<dots> \<longleftrightarrow> (\<exists>k. i + Suc k \<le> length ls \<and> e # es = take (Suc k) (drop i ls) \<and> w = (p # vs) ! (i + Suc k))"
      unfolding IH Cons_nth_drop_Suc [OF True, symmetric] by auto
    also have "\<dots> \<longleftrightarrow> (\<exists>k. i + k \<le> length ls \<and> e # es = take k (drop i ls) \<and> w = (p # vs) ! (i + k))"
      by (metis list.distinct(1) not0_implies_Suc take0)
    finally show ?thesis .
  next
    case False
    then show ?thesis unfolding spells_Cons out by auto
  qed
qed

section \<open>Merging a chain\<close>

text \<open>The graph is a chain from \<open>p\<close> to \<open>x\<close> whose labels other than control labels are \<open>ws\<close>.\<close>

definition line :: "string \<Rightarrow> string list \<Rightarrow> edge_map \<Rightarrow> string \<Rightarrow> bool" where
  "line p ws E x \<longleftrightarrow>
     (\<exists>vs ls. distinct (p # vs) \<and> length vs = length ls \<and> E = chain p vs ls \<and>
        filter (\<lambda>e. \<not> is_control e) ls = ws \<and> x = last (p # vs))"

lemma line_combined:
  assumes "line p ws E x" "E (u, w) = Some ''control''"
    "dom E' = merged_keys u w (dom E)" "\<forall>k e. E' k = Some e \<longrightarrow> merged_label u w E k e"
  shows "line p ws E' (if x = w then u else x)"
proof -
  from assms(1) obtain vs ls where l: "distinct (p # vs)" "length vs = length ls" "E = chain p vs ls"
    "filter (\<lambda>e. \<not> is_control e) ls = ws" "x = last (p # vs)" by (auto simp: line_def)
  from assms(2) obtain k where k: "k < length ls" "u = (p # vs) ! k" "w = vs ! k" "ls ! k = ''control''"
    using l(1,2) unfolding l(3) chain_iff [OF distinct_tl [OF l(1), simplified] l(2)] by auto
  have "E' = chain p (delete k vs) (delete k ls)"
    using chain_combined [OF l(1,2) k(1-3)] assms(3,4) unfolding l(3) by blast
  moreover have "distinct (p # delete k vs)" "length (delete k vs) = length (delete k ls)"
    using l(1,2) k(1) set_delete [of k vs] by (auto simp: distinct_delete length_delete)
  moreover have "filter (\<lambda>e. \<not> is_control e) (delete k ls) = ws"
    using filter_delete [of k ls "\<lambda>e. \<not> is_control e"] k(1,4) l(4) by (simp add: is_control_def)
  moreover have "(if x = w then u else x) = last (p # delete k vs)"
  proof (cases "Suc k = length vs")
    case True
    then have "delete k vs = take k vs" "vs \<noteq> []" "length vs - 1 = k" by (auto simp: delete_def)
    with True l(5) k(2,3) show ?thesis by (simp add: last_conv_nth nth_Cons')
  next
    case False
    with k(1) l(2) have s: "Suc k < length vs" by simp
    then have "last (p # delete k vs) = last (p # vs)" by (auto simp: delete_def)
    moreover have "x \<noteq> w"
      using l(1,2,5) k(1,3) s nth_eq_iff_index_eq [of vs "length vs - 1" k] by (auto simp: last_conv_nth)
    ultimately show ?thesis using l(5) by simp
  qed
  ultimately show ?thesis unfolding line_def by blast
qed

lemma line_successor:
  assumes "line p ws E x" "E (v, a) = Some e" "E (v, b) = Some e'"
  shows "a = b"
proof -
  from assms(1) obtain vs ls where l: "distinct (p # vs)" "length vs = length ls" "E = chain p vs ls"
    by (auto simp: line_def)
  have d: "distinct vs" using l(1) by simp
  from assms(2,3) obtain i j where "i < length ls" "v = (p # vs) ! i" "a = vs ! i"
    "j < length ls" "v = (p # vs) ! j" "b = vs ! j"
    unfolding l(3) chain_iff [OF d l(2)] by blast
  with nth_eq_iff_index_eq [OF l(1), of i j] l(2) show ?thesis by simp
qed

lemma line_no_loop:
  assumes "line p ws E x"
  shows "E (w, w) = None"
proof (rule ccontr)
  assume "E (w, w) \<noteq> None"
  then obtain e where e: "E (w, w) = Some e" by blast
  from assms obtain vs ls where l: "distinct (p # vs)" "length vs = length ls" "E = chain p vs ls"
    by (auto simp: line_def)
  have d: "distinct vs" using l(1) by simp
  from e obtain i where "i < length ls" "w = (p # vs) ! i" "w = (p # vs) ! Suc i"
    unfolding l(3) chain_iff [OF d l(2)] by auto
  with nth_eq_iff_index_eq [OF l(1), of i "Suc i"] l(2) show False by simp
qed

context graaf_lib
begin

lemma merge_at_line:
  assumes "cg_inv L ok cg" "line p ws (cg_edges L cg) x"
    "merge_at L [is_control] v (none, x, cg) = Inr (none', x', cg')"
  shows "cg_inv L ok cg' \<and> line p ws (cg_edges L cg') x'"
proof -
  obtain vs where vs: "lists_neighbors L cg v vs"
    "\<And>P. labelled_neighbors L P v cg = Inr (filter (\<lambda>w. P (the (cg_edges L cg (v, w)))) vs)"
    using queries [OF assms(1), of v] by blast
  define ns where "ns = filter (\<lambda>w. is_control (the (cg_edges L cg (v, w)))) vs"
  have ns: "distinct ns" "set ns = {w. cg_edges L cg (v, w) = Some ''control''}"
    using vs(1) by (auto simp: ns_def lists_neighbors_def is_control_def)
  have run: "merge_neighbors L v ns (x, cg) = Inr (x', cg')"
    using assms(3) vs(2) [of is_control] by (auto simp: ns_def [symmetric] res_simps)
  show ?thesis
  proof (cases ns)
    case Nil
    with run assms(1,2) show ?thesis by simp
  next
    case (Cons w ws')
    with ns(2) have w: "cg_edges L cg (v, w) = Some ''control''" by auto
    have "ws' = []"
    proof (rule ccontr)
      assume "ws' \<noteq> []"
      then have "hd ws' \<in> set ns" "hd ws' \<noteq> w" using Cons ns(1) by auto
      with line_successor [OF assms(2) w] ns(2) show False by auto
    qed
    from edge_ends [OF assms(1) w] have ends: "v \<in> dom (vertex_id_map cg)" "w \<in> dom (vertex_id_map cg)" by auto
    have "cg_edges L cg (w, w) = None \<or> v = w" using line_no_loop [OF assms(2)] by blast
    from combine_vertex_exact [OF assms(1) ends this] obtain cg1 where
      c: "combine_vertex L v w cg = Inr cg1" "cg_inv L ok cg1"
      "dom (cg_edges L cg1) = merged_keys v w (dom (cg_edges L cg))"
      "\<forall>k e. cg_edges L cg1 k = Some e \<longrightarrow> merged_label v w (cg_edges L cg) k e" by blast
    with run Cons \<open>ws' = []\<close> have "cg' = cg1" "x' = (if x = w then v else x)" by auto
    with c(2) line_combined [OF assms(2) w c(3,4)] show ?thesis by simp
  qed
qed

lemma merge_pass_line:
  assumes "cg_inv L ok cg" "line p ws (cg_edges L cg) x"
    "merge_pass L [is_control] vs (none, x, cg) = Inr (none', x', cg')"
  shows "cg_inv L ok cg' \<and> line p ws (cg_edges L cg') x'"
  using assms
proof (induction vs arbitrary: none x cg)
  case (Cons v vs)
  from Cons.prems(3) obtain none1 x1 cg1 where
    a: "merge_at L [is_control] v (none, x, cg) = Inr (none1, x1, cg1)"
    "merge_pass L [is_control] vs (none1, x1, cg1) = Inr (none', x', cg')"
    by (auto simp: res_simps simp del: merge_at.simps)
  from merge_at_line [OF Cons.prems(1,2) a(1)] Cons.IH a(2) show ?case by blast
qed simp

lemma merge_loop_line:
  assumes "cg_inv L ok cg" "line p ws (cg_edges L cg) x"
    "merge_loop L [is_control] fuel (x, cg) = Some (Inr (x', cg'))"
  shows "line p ws (cg_edges L cg') x'"
  using assms
proof (induction fuel arbitrary: x cg)
  case (Suc fuel)
  from Suc.prems(3) obtain none x1 cg1 where
    a: "merge_pass L [is_control] (get_vertices L cg) (True, x, cg) = Inr (none, x1, cg1)"
    "if none then (x1, cg1) = (x', cg') else merge_loop L [is_control] fuel (x1, cg1) = Some (Inr (x', cg'))"
    by (auto split: sum.splits if_splits)
  from merge_pass_line [OF Suc.prems(1,2) a(1)] a(2) Suc.IH show ?case by (auto split: if_splits)
qed simp

text \<open>What the loop leaves of a chain is the chain of its labels without the control labels.\<close>

lemma merge_chain:
  assumes "cg_inv L ok cg" "line p ws (cg_edges L cg) x" "card (dom (vertex_id_map cg)) < fuel"
  shows "\<exists>cg' vs. merge_loop L [is_control] fuel (x, cg) = Some (Inr (last (p # vs), cg')) \<and>
    cg_inv L ok cg' \<and> distinct (p # vs) \<and> length vs = length ws \<and> cg_edges L cg' = chain p vs ws"
proof -
  have "is_control e \<longleftrightarrow> (\<exists>P\<in>set [is_control]. P e)" for e by simp
  from merge_loop_inv [OF assms(1) merged_from_refl this assms(3), of x] obtain x' cg' where
    m: "merge_loop L [is_control] fuel (x, cg) = Some (Inr (x', cg'))" "cg_inv L ok cg'"
    "\<forall>k e. cg_edges L cg' k = Some e \<longrightarrow> \<not> is_control e" by blast
  from merge_loop_line [OF assms(1,2) m(1)] obtain vs ls where
    l: "distinct (p # vs)" "length vs = length ls" "cg_edges L cg' = chain p vs ls"
    "filter (\<lambda>e. \<not> is_control e) ls = ws" "x' = last (p # vs)" by (auto simp: line_def)
  have d: "distinct vs" using l(1) by simp
  have "\<not> is_control e" if "e \<in> set ls" for e
  proof -
    from that obtain j where "j < length ls" "e = ls ! j" by (auto simp: in_set_conv_nth)
    with chain_label [OF d l(2), of j p] m(3) l(3) show ?thesis by simp
  qed
  with l(4) have ws: "ls = ws" by (simp add: filter_id_conv)
  show ?thesis
    using m(1,2) l(1-3) unfolding l(5) ws by (intro exI [of _ cg'] exI [of _ vs] conjI)
qed

end

section \<open>Functions without branches\<close>

text \<open>Every block but the last jumps to the next one; the last block, and no other, returns.\<close>

definition straight :: "'i ir_function \<Rightarrow> bool" where
  "straight f \<longleftrightarrow> f_blocks f \<noteq> [] \<and>
     (\<forall>i<length (f_blocks f).
        bb_succs (f_blocks f ! i) = (if Suc i < length (f_blocks f) then [Suc i] else []) \<and>
        (returns (f_blocks f ! i) \<longleftrightarrow> Suc i = length (f_blocks f)))"

lemma straight_flow: "straight f \<Longrightarrow> flow_ok f"
proof -
  assume s: "straight f"
  have "\<forall>s\<in>set (bb_succs bb). s < length (f_blocks f)" if "bb \<in> set (f_blocks f)" for bb
  proof -
    from that obtain i where "i < length (f_blocks f)" "bb = f_blocks f ! i" by (auto simp: in_set_conv_nth)
    with s have "bb_succs bb = (if Suc i < length (f_blocks f) then [Suc i] else [])" by (simp add: straight_def)
    then show ?thesis by simp
  qed
  then show ?thesis by (simp add: flow_ok_def)
qed

lemma straight_path:
  assumes "straight f"
  shows "flow_path (f_blocks f) (f_blocks f)"
proof -
  let ?bbs = "f_blocks f"
  have "flow_path ?bbs (drop i ?bbs)" if "i \<le> length ?bbs - 1" for i
    using that
  proof (induction rule: inc_induct)
    case base
    have ne: "?bbs \<noteq> []" using assms by (simp add: straight_def)
    then have "?bbs = butlast ?bbs @ [last ?bbs]" by simp
    then have "drop (length ?bbs - 1) ?bbs = [last ?bbs]"
      by (metis append_eq_conv_conj length_butlast)
    with ne show ?case by simp
  next
    case (step i)
    then have i: "Suc i < length ?bbs" by simp
    then have d: "drop i ?bbs = ?bbs ! i # ?bbs ! Suc i # drop (Suc (Suc i)) ?bbs"
      by (metis Cons_nth_drop_Suc Suc_lessD)
    have "drop (Suc i) ?bbs = ?bbs ! Suc i # drop (Suc (Suc i)) ?bbs" using i by (simp add: Cons_nth_drop_Suc)
    with step i assms show ?case unfolding d by (simp add: straight_def)
  qed
  from this [of 0] show ?thesis by simp
qed

fun line_vertices :: "file_map_reader \<Rightarrow> 'i basic_block list \<Rightarrow> string list" where
  "line_vertices r [] = []"
| "line_vertices r [b] = call_vertices (bb_name b) 1 (getLibraryCalls r b)"
| "line_vertices r (b # c # p) =
     call_vertices (bb_name b) 1 (getLibraryCalls r b) @ bb_name c # line_vertices r (c # p)"

definition stages :: "file_map_reader \<Rightarrow> 'i basic_block \<Rightarrow> string list" where
  "stages r b = map (stage r b) [0..<Suc (length (getLibraryCalls r b))]"

lemma stages_eq: "stages r b = bb_name b # call_vertices (bb_name b) 1 (getLibraryCalls r b)"
  by (rule nth_equalityI) (simp_all add: stages_def stage_def del: upt_Suc)

lemma line_vertices_length: "length (line_vertices r p) = length (path_word r p)"
  by (induction r p rule: line_vertices.induct) simp_all

lemma line_vertices_stages: "p \<noteq> [] \<Longrightarrow> bb_name (hd p) # line_vertices r p = concat (map (stages r) p)"
  by (induction r p rule: line_vertices.induct) (simp_all add: stages_eq)

lemma line_vertices_last: "p \<noteq> [] \<Longrightarrow> last (bb_name (hd p) # line_vertices r p) = block_end r (last p)"
  by (induction r p rule: line_vertices.induct) (simp_all add: block_end_def chain_end_def)

lemma no_control_calls:
  fixes b :: "'i basic_block"
  shows "e \<in> set (getLibraryCalls r b) \<Longrightarrow> \<not> is_control e"
proof -
  assume "e \<in> set (getLibraryCalls r b)"
  then obtain i :: "'i inst" where "e \<in> set (call_label r i)" by (auto simp: getLibraryCalls_def)
  then show ?thesis
    by (cases "(r, i)" rule: call_label.cases) (auto simp: is_control_def split: if_splits)
qed

lemma path_word_calls:
  fixes p :: "'i basic_block list"
  shows "filter (\<lambda>e. \<not> is_control e) (path_word r p) = concat (map (getLibraryCalls r) p)"
proof -
  have f: "filter (\<lambda>e. \<not> is_control e) (getLibraryCalls r b) = getLibraryCalls r b"
    for r and b :: "'i basic_block"
    by (simp add: filter_id_conv no_control_calls)
  have c: "is_control ''control''" by (simp add: is_control_def)
  show ?thesis by (induction r p rule: path_word.induct) (simp_all add: f c)
qed

lemma line_vertices_distinct:
  assumes "distinct (vertex_names r f)" "f_blocks f \<noteq> []"
  shows "distinct (bb_name (hd (f_blocks f)) # line_vertices r (f_blocks f))"
proof -
  let ?bbs = "f_blocks f"
  note u = stage_unique [OF assms(1)]
  have inj: "b = c" if "b \<in> set ?bbs" "c \<in> set ?bbs" "x \<in> set (stages r b)" "x \<in> set (stages r c)" for b c x
    using that u [of b c] by (auto simp: stages_def less_Suc_eq_le simp del: upt_Suc)
  have "distinct (stages r b)" if "b \<in> set ?bbs" for b
    using that u [of b b] by (auto simp: stages_def distinct_map inj_on_def less_Suc_eq_le simp del: upt_Suc)
  moreover have "distinct (map (stages r) ?bbs)"
  proof -
    have "distinct ?bbs" using vertex_namesD(1) [OF assms(1)] by (simp add: distinct_map)
    moreover have "bb_name b \<in> set (stages r b)" for b by (simp add: stages_eq)
    then have "inj_on (stages r) (set ?bbs)" using inj by (metis inj_onI)
    ultimately show ?thesis by (simp add: distinct_map)
  qed
  ultimately have "distinct (concat (map (stages r) ?bbs))"
    using inj by (intro distinct_concat) auto
  then show ?thesis using line_vertices_stages [OF assms(2)] by metis
qed

lemma chain_append:
  "length vs1 = length ls1 \<Longrightarrow> chain p (vs1 @ vs2) (ls1 @ ls2) (x, y) = Some e \<Longrightarrow>
     chain p vs1 ls1 (x, y) = Some e \<or> chain (last (p # vs1)) vs2 ls2 (x, y) = Some e"
proof (induction vs1 arbitrary: p ls1)
  case (Cons v vs1)
  then obtain l ls where l: "ls1 = l # ls" "length vs1 = length ls" by (cases ls1) auto
  show ?case
  proof (cases "(x, y) = (p, v)")
    case True
    with Cons.prems(2) show ?thesis by (simp add: l)
  next
    case False
    with Cons.prems(2) l(1) have "chain v (vs1 @ vs2) (ls @ ls2) (x, y) = Some e" by auto
    from Cons.IH [OF l(2) this] False show ?thesis by (auto simp: l(1))
  qed
qed simp

lemma line_edges:
  assumes "flow_ok f" "distinct (vertex_names r f)" "flow_path (f_blocks f) p"
    "chain (bb_name (hd p)) (line_vertices r p) (path_word r p) (x, y) = Some e"
  shows "expanded_map r f (x, y) = Some e"
proof -
  have block: "expanded_map r f (x, y) = Some e"
    if "b \<in> set (f_blocks f)" "chain (bb_name b) (call_vertices (bb_name b) 1 (getLibraryCalls r b))
      (getLibraryCalls r b) (x, y) = Some e" for b
  proof -
    from chain_edges [OF that(2)] obtain k where "k < length (getLibraryCalls r b)"
      "x = stage r b k" "y = stage r b (Suc k)" "e = getLibraryCalls r b ! k"
      by (auto simp: stage_def)
    with stage_edges [OF assms(1,2) that(1), of k y e] show ?thesis by simp
  qed
  show ?thesis using assms(3,4)
  proof (induction "f_blocks f" p rule: flow_path.induct)
    case (2 b)
    then show ?case using block [of b] by simp
  next
    case (3 b c p)
    let ?cs = "getLibraryCalls r b" and ?vs = "call_vertices (bb_name b) 1 (getLibraryCalls r b)"
    have b: "b \<in> set (f_blocks f)" "bb_name c \<in> (\<lambda>s. bb_name (f_blocks f ! s)) ` set (bb_succs b)"
      "flow_path (f_blocks f) (c # p)" using 3(2) by auto
    have "chain (bb_name b) (?vs @ bb_name c # line_vertices r (c # p)) (?cs @ ''control'' # path_word r (c # p))
        (x, y) = Some e" using 3(3) by simp
    from chain_append [OF _ this] consider "chain (bb_name b) ?vs ?cs (x, y) = Some e"
      | "(x, y) = (block_end r b, bb_name c)" "e = ''control''"
      | "chain (bb_name c) (line_vertices r (c # p)) (path_word r (c # p)) (x, y) = Some e"
      by (auto simp: block_end_def chain_end_def split: if_splits)
    then show ?case
    proof cases
      case 1
      then show ?thesis by (rule block [OF b(1)])
    next
      case 2
      with stage_edges [OF assms(1,2) b(1), of "length ?cs" y e] b(2) show ?thesis by (simp add: stage_end)
    next
      case 3
      with "3.hyps" b(3) show ?thesis by simp
    qed
  qed simp
qed

lemma expanded_source:
  assumes "flow_ok f" "distinct (vertex_names r f)" "expanded_map r f (x, y) = Some e"
  shows "\<exists>b\<in>set (f_blocks f). \<exists>k\<le>length (getLibraryCalls r b). x = stage r b k"
proof -
  let ?cs = "list_calls r (f_blocks f) []"
  note d = vertex_namesD [OF assms(2)]
  show ?thesis
  proof (cases "x \<in> set (all_call_vertices ?cs)")
    case True
    have "\<exists>(bb, calls)\<in>set cs. v \<in> set (call_vertices bb 1 calls)"
      if "v \<in> set (all_call_vertices cs)" for v cs
      using that by (induction cs rule: all_call_vertices.induct) auto
    from this [OF True] obtain bb calls where
      c: "(bb, calls) \<in> set ?cs" "x \<in> set (call_vertices bb 1 calls)" by blast
    from c(1) obtain b where b: "b \<in> set (f_blocks f)" "bb = bb_name b" "calls = getLibraryCalls r b"
      unfolding list_calls_set [OF d(1)] by blast
    from c(2) obtain k where "k < length calls" "x = call_vertices bb 1 calls ! k" by (auto simp: in_set_conv_nth)
    with b show ?thesis by (intro bexI [of _ b] exI [of _ "Suc k"]) (auto simp: stage_def)
  next
    case False
    have "x \<in> bb_name ` set (f_blocks f)"
    proof (cases "x \<in> fst ` set ?cs")
      case True
      with list_calls_keys(2) [OF d(1)] show ?thesis by blast
    next
      case False
      with \<open>x \<notin> set (all_call_vertices ?cs)\<close> assms(3) have "flow_map (f_blocks f) (x, y) = Some e"
        by (simp add: expanded_map_def expand_maps_other)
      with flow_map_names(1) [OF assms(1)] show ?thesis by blast
    qed
    then show ?thesis by (auto intro!: exI [of _ 0])
  qed
qed

text \<open>The expanded graph of such a function is a chain.\<close>

lemma straight_edges:
  assumes "straight f" "distinct (vertex_names r f)" and E: "expanded_map r f (x, y) = Some e"
  shows "chain (bb_name (hd (f_blocks f))) (line_vertices r (f_blocks f)) (path_word r (f_blocks f)) (x, y) = Some e"
proof -
  let ?bbs = "f_blocks f" and ?vs = "line_vertices r (f_blocks f)" and ?ls = "path_word r (f_blocks f)"
  let ?p = "bb_name (hd (f_blocks f))"
  have ne: "?bbs \<noteq> []" using assms(1) by (simp add: straight_def)
  note fl = straight_flow [OF assms(1)]
  have d: "distinct (?p # ?vs)" by (rule line_vertices_distinct [OF assms(2) ne])
  have len: "length ?vs = length ?ls" by (rule line_vertices_length)
  from expanded_source [OF fl assms(2) E] obtain b k where
    b: "b \<in> set ?bbs" "k \<le> length (getLibraryCalls r b)" "x = stage r b k" by blast
  then have "x \<in> set (stages r b)" by (auto simp: stages_def simp del: upt_Suc)
  then have "x \<in> set (?p # ?vs)" using b(1) line_vertices_stages [OF ne, of r] by auto
  then obtain j where j: "j \<le> length ?ls" "x = (?p # ?vs) ! j"
    by (metis in_set_conv_nth length_Cons len less_Suc_eq_le)
  note edges = stage_edges [OF fl assms(2) b(1,2), folded b(3)]
  show ?thesis
  proof (cases "j < length ?ls")
    case True
    have "distinct ?vs" using d by simp
    from chain_label [OF this len True, of ?p]
    have c: "chain ?p ?vs ?ls (x, ?vs ! j) = Some (?ls ! j)" unfolding j(2) .
    have E': "expanded_map r f (x, ?vs ! j) = Some (?ls ! j)"
      by (rule line_edges [OF fl assms(2) straight_path [OF assms(1)] c])
    obtain i where i: "i < length ?bbs" "b = ?bbs ! i" using b(1) by (auto simp: in_set_conv_nth)
    then have "bb_succs b = (if Suc i < length ?bbs then [Suc i] else [])"
      using assms(1) by (simp add: straight_def)
    with E E' have "y = ?vs ! j \<and> e = ?ls ! j" unfolding edges by (auto split: if_splits)
    with c show ?thesis by simp
  next
    case False
    with j(1) have "j = length ?vs" using len by simp
    then have "x = block_end r (last ?bbs)"
      using j(2) line_vertices_last [OF ne, of r] last_conv_nth [of "?p # ?vs"] by simp
    then have "b = last ?bbs \<and> k = length (getLibraryCalls r (last ?bbs))"
      using stage_unique [OF assms(2) b(1) _ b(2), of "last ?bbs" "length (getLibraryCalls r (last ?bbs))"]
        ne b(3) by (simp add: stage_end)
    moreover have "bb_succs (last ?bbs) = []"
      using assms(1) ne by (simp add: straight_def last_conv_nth)
    ultimately show ?thesis using E unfolding edges by (auto split: if_splits)
  qed
qed

lemma straight_map:
  assumes "straight f" "distinct (vertex_names r f)"
  shows "expanded_map r f =
    chain (bb_name (hd (f_blocks f))) (line_vertices r (f_blocks f)) (path_word r (f_blocks f))"
proof (rule ext)
  fix xy :: "string \<times> string"
  obtain x y where xy: "xy = (x, y)" by (metis surj_pair)
  have "expanded_map r f (x, y) = Some e \<longleftrightarrow>
      chain (bb_name (hd (f_blocks f))) (line_vertices r (f_blocks f)) (path_word r (f_blocks f)) (x, y) = Some e"
    for e
    using straight_edges [OF assms] line_edges [OF straight_flow [OF assms(1)] assms(2) straight_path [OF assms(1)]]
    by blast
  then show "expanded_map r f xy =
      chain (bb_name (hd (f_blocks f))) (line_vertices r (f_blocks f)) (path_word r (f_blocks f)) xy"
    unfolding xy by (metis option.exhaust)
qed

section \<open>Entry and exit\<close>

lemma add_block_keeps [simp]:
  "entryNode (add_block L r bb m) = entryNode m" "exitNode (add_block L r bb m) = exitNode m"
  by (simp_all add: add_block_def)

lemma add_blocks_exit:
  "exitNode (add_blocks L r bbs i rest m) =
     (if filter returns rest = [] then exitNode m else bb_name (last (filter returns rest)))"
  by (induction L r bbs i rest m rule: add_blocks.induct) (simp_all add: Let_def)

lemma add_blocks_entry:
  "\<forall>j<length rest. \<not> no_predecessors bbs (i + j) \<Longrightarrow> entryNode (add_blocks L r bbs i rest m) = entryNode m"
proof (induction L r bbs i rest m rule: add_blocks.induct)
  case (2 L r bbs i bb rest m)
  from 2(2) have "\<not> no_predecessors bbs i" "\<forall>j<length rest. \<not> no_predecessors bbs (Suc i + j)" by auto
  with 2(1) show ?case by (simp add: Let_def)
qed simp

lemma straight_entry_exit:
  assumes "straight f" "analyse_function L r f = Inr m"
  shows "entryNode m = bb_name (hd (f_blocks f))" "exitNode m = bb_name (last (f_blocks f))"
proof -
  let ?bbs = "f_blocks f" and ?m0 = "(meta_init L)\<lparr>funcName := f_name f\<rparr>"
  have ne: "?bbs \<noteq> []" using assms(1) by (simp add: straight_def)
  have nodes: "entryNode m = entryNode (add_blocks L r ?bbs 0 ?bbs ?m0)"
    "exitNode m = exitNode (add_blocks L r ?bbs 0 ?bbs ?m0)"
    using assms(2) by (auto simp: analyse_function_def Let_def res_simps)
  have "filter returns (butlast ?bbs) = []"
    using assms(1) by (auto simp: filter_empty_conv straight_def in_set_conv_nth nth_butlast)
  moreover have "returns (last ?bbs)" using assms(1) ne by (simp add: straight_def last_conv_nth)
  moreover have "filter returns ?bbs = filter returns (butlast ?bbs @ [last ?bbs])" using ne by simp
  ultimately have "filter returns ?bbs = [last ?bbs]" by simp
  then show "exitNode m = bb_name (last ?bbs)" by (simp add: nodes(2) add_blocks_exit)
  obtain b rest where b: "?bbs = b # rest" using ne by (cases ?bbs) auto
  have succs: "bb_succs (?bbs ! i) = (if Suc i < length ?bbs then [Suc i] else [])" if "i < length ?bbs" for i
    using assms(1) that by (simp add: straight_def)
  have first: "no_predecessors ?bbs 0"
    unfolding no_predecessors_def
  proof
    fix bb assume "bb \<in> set ?bbs"
    then obtain i where "i < length ?bbs" "bb = ?bbs ! i" by (auto simp: in_set_conv_nth)
    with succs [of i] show "0 \<notin> set (bb_succs bb)" by simp
  qed
  have "\<not> no_predecessors ?bbs (Suc j)" if "j < length rest" for j
  proof -
    have "j < length ?bbs" "Suc j < length ?bbs" using that b by simp_all
    then have "?bbs ! j \<in> set ?bbs" "Suc j \<in> set (bb_succs (?bbs ! j))" using succs [of j] by simp_all
    then show ?thesis unfolding no_predecessors_def by blast
  qed
  then have "\<forall>j<length rest. \<not> no_predecessors ?bbs (Suc 0 + j)" by simp
  note rest = add_blocks_entry [OF this, unfolded b]
  show "entryNode m = bb_name (hd ?bbs)"
    using first unfolding nodes(1) by (simp add: b Let_def rest)
qed

lemma expanded_exit_other: "x \<notin> fst ` set cs \<Longrightarrow> expanded_exit cs x = x"
  by (induction cs x rule: expanded_exit.induct) auto

lemma expanded_exit_block:
  "distinct (map fst cs) \<Longrightarrow> set (all_call_vertices cs) \<inter> fst ` set cs = {} \<Longrightarrow>
     (bb, calls) \<in> set cs \<Longrightarrow> calls \<noteq> [] \<Longrightarrow> expanded_exit cs bb = last (call_vertices bb 1 calls)"
proof (induction cs bb rule: expanded_exit.induct)
  case (2 bb' calls' bs x)
  show ?case
  proof (cases "(x, calls) = (bb', calls')")
    case True
    then have "last (call_vertices x 1 calls) \<in> set (call_vertices x 1 calls)" using 2(5) by simp
    then have "last (call_vertices x 1 calls) \<notin> fst ` set bs" using 2(3) True by auto
    with True 2(5) show ?thesis by (simp add: expanded_exit_other)
  next
    case False
    with 2(4) have "(x, calls) \<in> set bs" by auto
    moreover from this have "x \<noteq> bb'" using 2(2) by force
    ultimately show ?thesis using 2 by auto
  qed
qed simp

lemma expanded_exit_end:
  assumes "distinct (vertex_names r f)" "b \<in> set (f_blocks f)"
  shows "expanded_exit (list_calls r (f_blocks f) []) (bb_name b) = block_end r b"
proof -
  let ?cs = "list_calls r (f_blocks f) []"
  note d = vertex_namesD [OF assms(1)]
  note keys = list_calls_keys [OF d(1), of r]
  show ?thesis
  proof (cases "getLibraryCalls r b = []")
    case True
    have "bb_name b \<notin> fst ` set ?cs"
      using list_calls_set [OF d(1), of "bb_name b" _ r] same_block [OF d(1) _ assms(2)] True by fastforce
    with True show ?thesis by (simp add: expanded_exit_other block_end_def chain_end_def)
  next
    case False
    have "set (all_call_vertices ?cs) \<inter> fst ` set ?cs = {}" using d(3) keys(2) by blast
    from expanded_exit_block [OF keys(1) this listed_block [OF assms False] False] False
    show ?thesis by (simp add: block_end_def chain_end_def)
  qed
qed

context graaf_lib
begin

lemma straight_policy:
  assumes "straight f" "distinct (vertex_names r f)" "length (vertex_names r f) < fuel"
  shows "\<exists>m x g g' vs. analyse_function L r f = Inr m \<and>
    expand_blocks L (bbToLibcMap m) (exitNode m, bbGraph m) = Inr (x, g) \<and>
    merge_loop L [is_control] fuel (x, g) = Some (Inr (last (entryNode m # vs), g')) \<and>
    cg_inv L ok g' \<and> entryNode m = bb_name (hd (f_blocks f)) \<and> distinct (entryNode m # vs) \<and>
    length vs = length (concat (map (getLibraryCalls r) (f_blocks f))) \<and>
    cg_edges L g' = chain (entryNode m) vs (concat (map (getLibraryCalls r) (f_blocks f)))"
proof -
  let ?bbs = "f_blocks f" and ?ws = "concat (map (getLibraryCalls r) (f_blocks f))"
  have ne: "?bbs \<noteq> []" using assms(1) by (simp add: straight_def)
  note fl = straight_flow [OF assms(1)]
  obtain m where m: "analyse_function L r f = Inr m"
    using analyse_inv [of f r] fl by (auto simp: flow_ok_def)
  note ends = straight_entry_exit [OF assms(1) m]
  from expand_function [OF m fl assms(2)] obtain x g where
    g: "expand_blocks L (bbToLibcMap m) (exitNode m, bbGraph m) = Inr (x, g)" "cg_inv L ok g"
    "dom (vertex_id_map g) = set (vertex_names r f)" "cg_edges L g = expanded_map r f"
    "x = expanded_exit (list_calls r ?bbs []) (exitNode m)" by (auto simp: expanded_map_def)
  have x: "x = block_end r (last ?bbs)"
    using expanded_exit_end [OF assms(2), of "last ?bbs"] ne by (simp add: g(5) ends(2))
  have "line (entryNode m) ?ws (cg_edges L g) x"
    unfolding line_def ends(1) g(4) x
    by (intro exI [of _ "line_vertices r ?bbs"] exI [of _ "path_word r ?bbs"] conjI
        line_vertices_distinct [OF assms(2) ne] line_vertices_length straight_map [OF assms(1,2)]
        path_word_calls line_vertices_last [OF ne, symmetric])
  moreover have "card (dom (vertex_id_map g)) < fuel"
    unfolding g(3) using card_length [of "vertex_names r f"] assms(3) by linarith
  ultimately obtain g' vs where
    "merge_loop L [is_control] fuel (x, g) = Some (Inr (last (entryNode m # vs), g'))" "cg_inv L ok g'"
    "distinct (entryNode m # vs)" "length vs = length ?ws" "cg_edges L g' = chain (entryNode m) vs ?ws"
    using merge_chain [OF g(2)] by metis
  with m g(1) ends(1) show ?thesis by metis
qed

end

end
