(* ===== verification/QuotientSpec.thy ===== *)
theory QuotientSpec
  imports LineSpec
begin

text \<open>
  When merging loses nothing.  If no edge to merge closes a cycle and the other edges lead between
  different classes, with one label for each pair of classes, the merged graph is exactly the
  quotient of the original graph, in whichever order the vertices are visited.
\<close>

section \<open>Classes\<close>

lemma link_class:
  assumes "\<And>u v e. E (u, v) = Some e \<Longrightarrow> Q e \<Longrightarrow> c u = c v" "(u, v) \<in> merge_link Q E"
  shows "c u = c v"
  using assms(2) unfolding merge_link_def
  by (induction rule: rtrancl_induct) (use assms(1) in fastforce)+

lemma merge_link_into:
  assumes "\<And>x y d. E' (x, y) = Some d \<Longrightarrow> P d \<Longrightarrow> (x, y) \<in> merge_link Q E" "(a, b) \<in> merge_link P E'"
  shows "(a, b) \<in> merge_link Q E"
  using assms(2) unfolding merge_link_def [of P E']
proof (induction rule: rtrancl_induct)
  case (step y z)
  then have "(y, z) \<in> merge_link Q E" using assms(1) merge_link_sym by blast
  with step show ?case by (blast intro: merge_link_trans)
qed simp

definition lossless :: "(string \<Rightarrow> bool) \<Rightarrow> edge_map \<Rightarrow> bool" where
  "lossless Q E \<longleftrightarrow>
     (\<forall>u v e. E (u, v) = Some e \<and> \<not> Q e \<longrightarrow> (u, v) \<notin> merge_link Q E \<and>
        (\<forall>u' v' e'. E (u', v') = Some e' \<and> \<not> Q e' \<and> (u, u') \<in> merge_link Q E \<and>
           (v, v') \<in> merge_link Q E \<longrightarrow> e' = e))"

lemma losslessI:
  assumes "\<And>u v e. E (u, v) = Some e \<Longrightarrow> Q e \<Longrightarrow> c u = c v"
    and "\<And>u v e. E (u, v) = Some e \<Longrightarrow> \<not> Q e \<Longrightarrow> c u \<noteq> c v"
    and "\<And>u v e u' v' e'. E (u, v) = Some e \<Longrightarrow> E (u', v') = Some e' \<Longrightarrow> \<not> Q e \<Longrightarrow> \<not> Q e' \<Longrightarrow>
      c u = c u' \<Longrightarrow> c v = c v' \<Longrightarrow> e' = e"
  shows "lossless Q E"
proof -
  have "c u = c v" if "(u, v) \<in> merge_link Q E" for u v
    using link_class [OF assms(1) that] .
  with assms(2,3) show ?thesis unfolding lossless_def by metis
qed

text \<open>Without any one of them, the edges to merge no longer connect its ends.\<close>

definition forest :: "(string \<Rightarrow> bool) \<Rightarrow> edge_map \<Rightarrow> bool" where
  "forest Q E \<longleftrightarrow>
     (\<forall>u v e. E (u, v) = Some e \<and> Q e \<longrightarrow> (u, v) \<notin> merge_link Q (E((u, v) := None)))"

lemma forestI:
  assumes "\<And>u v e. E (u, v) = Some e \<Longrightarrow> Q e \<Longrightarrow> \<exists>c :: string \<Rightarrow> bool. c u \<noteq> c v \<and>
    (\<forall>x y d. E (x, y) = Some d \<and> Q d \<and> (x, y) \<noteq> (u, v) \<longrightarrow> c x = c y)"
  shows "forest Q E"
  unfolding forest_def
proof (intro allI impI notI, elim conjE)
  fix u v e assume e: "E (u, v) = Some e" "Q e" "(u, v) \<in> merge_link Q (E((u, v) := None))"
  from assms [OF e(1,2)] obtain c :: "string \<Rightarrow> bool" where c: "c u \<noteq> c v"
    "\<forall>x y d. E (x, y) = Some d \<and> Q d \<and> (x, y) \<noteq> (u, v) \<longrightarrow> c x = c y" by blast
  have "c x = c y" if "(E((u, v) := None)) (x, y) = Some d" "Q d" for x y d
    using that c(2) by (auto split: if_splits)
  then have "c u = c v" by (rule link_class [OF _ e(3)])
  with c(1) show False by blast
qed

lemma forest_no_loop: "forest Q E \<Longrightarrow> E (u, v) = Some e \<Longrightarrow> Q e \<Longrightarrow> u \<noteq> v"
  using merge_link_refl by (fastforce simp: forest_def)

text \<open>
  An edge to merge may survive under the label of another one, in \<open>same_kind\<close>; the others keep theirs.
\<close>

definition same_kind :: "(string \<Rightarrow> bool) \<Rightarrow> string \<Rightarrow> string \<Rightarrow> bool" where
  "same_kind Q e e' \<longleftrightarrow> e' = e \<or> Q e \<and> Q e'"

lemma same_kind_refl [simp]: "same_kind Q e e"
  by (simp add: same_kind_def)

lemma same_kind_trans: "same_kind Q e e' \<Longrightarrow> same_kind Q e' e'' \<Longrightarrow> same_kind Q e e''"
  by (auto simp: same_kind_def)

definition merge_map :: "(string \<Rightarrow> bool) \<Rightarrow> edge_map \<Rightarrow> edge_map \<Rightarrow> (string \<Rightarrow> string) \<Rightarrow> bool" where
  "merge_map Q E0 E q \<longleftrightarrow> (\<forall>u. (u, q u) \<in> merge_link Q E0) \<and> quotient_by q E0 E \<and>
     (\<forall>x y e. E0 (x, y) = Some e \<longrightarrow> Q e \<and> q x = q y \<or> (\<exists>e'. E (q x, q y) = Some e' \<and> same_kind Q e e'))"

lemma merge_map_refl: "merge_map Q E E (\<lambda>u. u)"
  by (simp add: merge_map_def quotient_by_def)

lemma merge_map_source:
  assumes "merge_map Q E0 E q" "E (a, b) = Some e"
  obtains x y where "E0 (x, y) = Some e" "(x, a) \<in> merge_link Q E0" "(y, b) \<in> merge_link Q E0"
  using assms unfolding merge_map_def quotient_by_def by metis

text \<open>Edges between the same classes have the same label, and one that is not merged links two.\<close>

lemma one_label:
  assumes "lossless Q E0" "merge_map Q E0 E q"
    "E (a, b) = Some e" "E (a', b') = Some e'" "(a, a') \<in> merge_link Q E0" "(b, b') \<in> merge_link Q E0"
  shows "same_kind Q e e'"
proof -
  from merge_map_source [OF assms(2,3)] obtain x y where
    x: "E0 (x, y) = Some e" "(x, a) \<in> merge_link Q E0" "(y, b) \<in> merge_link Q E0" .
  from merge_map_source [OF assms(2,4)] obtain x' y' where
    x': "E0 (x', y') = Some e'" "(x', a') \<in> merge_link Q E0" "(y', b') \<in> merge_link Q E0" .
  have l: "(x, x') \<in> merge_link Q E0" "(y, y') \<in> merge_link Q E0"
    using x(2,3) x'(2,3) assms(5,6) by (blast intro: merge_link_trans merge_link_sym)+
  show ?thesis
  proof (cases "Q e")
    case True
    then have "(x, y) \<in> merge_link Q E0" using merge_link_edge x(1) by metis
    with l have "(x', y') \<in> merge_link Q E0" by (blast intro: merge_link_trans merge_link_sym)
    with assms(1) x'(1) have "Q e'" unfolding lossless_def by blast
    with True show ?thesis by (simp add: same_kind_def)
  next
    case False
    with assms(1) x(1) have "(x, y) \<notin> merge_link Q E0" unfolding lossless_def by blast
    with l have "(x', y') \<notin> merge_link Q E0" by (blast intro: merge_link_trans merge_link_sym)
    then have "\<not> Q e'" using merge_link_edge x'(1) by metis
    with assms(1) x(1) x'(1) l False show ?thesis unfolding lossless_def same_kind_def by blast
  qed
qed

lemma kept_edge_apart:
  assumes "lossless Q E0" "merge_map Q E0 E q" "E (a, b) = Some e" "(a, b) \<in> merge_link Q E0"
  shows "Q e"
proof (rule ccontr)
  assume "\<not> Q e"
  from merge_map_source [OF assms(2,3)] obtain x y where
    x: "E0 (x, y) = Some e" "(x, a) \<in> merge_link Q E0" "(y, b) \<in> merge_link Q E0" .
  then have "(x, y) \<in> merge_link Q E0" using assms(4) by (blast intro: merge_link_trans merge_link_sym)
  with x(1) assms(1) \<open>\<not> Q e\<close> show False unfolding lossless_def by blast
qed

section \<open>One combination\<close>

text \<open>Every edge survives a combination under its new ends, with its label.\<close>

lemma edge_survives:
  assumes "lossless Q E0" "merge_map Q E0 E q"
    "(v, n) \<in> merge_link Q E0" "v \<noteq> n"
    "dom E' = merged_keys v n (dom E)" "\<forall>k e. E' k = Some e \<longrightarrow> merged_label v n E k e"
    "E (a, b) = Some e" "a' = (if a = n then v else a)" "b' = (if b = n then v else b)" "\<not> (Q e \<and> a' = b')"
  shows "\<exists>e'. E' (a', b') = Some e' \<and> same_kind Q e e'"
proof -
  note nv = merge_link_sym [OF assms(3)]
  have cl: "(a, a') \<in> merge_link Q E0" "(b, b') \<in> merge_link Q E0" using nv assms(8,9) by auto
  have apart: "(a, b) \<notin> merge_link Q E0" if "a' = b'"
    using kept_edge_apart [OF assms(1,2,7)] assms(10) that by blast
  have "(a', b') \<in> merged_keys v n (dom E)"
  proof (cases "a = n \<and> b \<noteq> n \<or> a \<noteq> n \<and> b = n \<and> a \<noteq> v \<or> a \<noteq> n \<and> b \<noteq> n")
    case True
    with assms(4,7,8,9) show ?thesis by (auto simp: merged_keys_def)
  next
    case False
    then have "a' = b'" "(a, b) \<in> merge_link Q E0" using assms(3,8,9) by auto
    with apart show ?thesis by blast
  qed
  then obtain e' where e': "E' (a', b') = Some e'" using assms(5) by blast
  then have "merged_label v n E (a', b') e'" using assms(6) by blast
  then obtain c d where cd: "E (c, d) = Some e'" "(a', c) \<in> merge_link Q E0" "(b', d) \<in> merge_link Q E0"
    using assms(3) by (auto simp: merged_label_def)
  have "(a, c) \<in> merge_link Q E0" "(b, d) \<in> merge_link Q E0"
    using cl cd(2,3) by (blast intro: merge_link_trans)+
  from one_label [OF assms(1,2,7) cd(1) this] e' show ?thesis by blast
qed

lemma merge_map_step:
  assumes "lossless Q E0" "merge_map Q E0 E q"
    "(v, n) \<in> merge_link Q E0" "v \<noteq> n"
    "dom E' = merged_keys v n (dom E)" "\<forall>k e. E' k = Some e \<longrightarrow> merged_label v n E k e"
  shows "merge_map Q E0 E' (\<lambda>u. if q u = n then v else q u)"
proof -
  let ?q = "\<lambda>u. if q u = n then v else q u"
  have m: "\<And>u. (u, q u) \<in> merge_link Q E0" "quotient_by q E0 E"
    "\<And>x y e. E0 (x, y) = Some e \<Longrightarrow> Q e \<and> q x = q y \<or> (\<exists>e'. E (q x, q y) = Some e' \<and> same_kind Q e e')"
    using assms(2) unfolding merge_map_def by blast+
  have "(u, ?q u) \<in> merge_link Q E0" for u
    using m(1) [of u] merge_link_trans [OF _ merge_link_sym [OF assms(3)], of u] by auto
  moreover have "quotient_by ?q E0 E'"
    by (rule quotient_step [OF m(2)]) (use assms(5,6) in \<open>simp_all add: moved_label_def\<close>)
  moreover have "Q e \<and> ?q x = ?q y \<or> (\<exists>e'. E' (?q x, ?q y) = Some e' \<and> same_kind Q e e')" if "E0 (x, y) = Some e" for x y e
  proof (cases "Q e \<and> ?q x = ?q y")
    case False
    then have "\<not> (Q e \<and> q x = q y)" by (rule contrapos_nn) simp
    with m(3) [OF that] obtain e' where e': "E (q x, q y) = Some e'" "same_kind Q e e'" by blast
    with False have "\<not> (Q e' \<and> ?q x = ?q y)" by (auto simp: same_kind_def)
    from edge_survives [OF assms e'(1) refl refl this] same_kind_trans [OF e'(2)] show ?thesis by blast
  qed simp
  ultimately show ?thesis unfolding merge_map_def by blast
qed

text \<open>A forest stays a forest when the ends of one of its edges are combined.\<close>

lemma merged_source:
  assumes "v \<noteq> n" "dom E' = merged_keys v n (dom E)" "\<forall>k e. E' k = Some e \<longrightarrow> merged_label v n E k e"
    and e: "E' (a, b) = Some e"
  shows "\<exists>a0 b0. E (a0, b0) = Some e \<and> (if a0 = n then v else a0) = a \<and> (if b0 = n then v else b0) = b \<and>
    (a0, b0) \<noteq> (v, n)"
proof -
  have "(a, b) \<in> merged_keys v n (dom E)" using e assms(2) by blast
  then have ab: "a \<noteq> n" "b \<noteq> n" by (auto simp: merged_keys_def)
  have "merged_label v n E (a, b) e" using assms(3) e by blast
  then consider "E (a, b) = Some e" | "a = v" "E (n, b) = Some e" | "b = v" "a \<noteq> v" "E (a, n) = Some e"
    by (auto simp: merged_label_def)
  then show ?thesis by cases (use ab assms(1) in auto)
qed

lemma forest_step:
  assumes "forest Q E" "E (v, n) = Some e0" "Q e0"
    "dom E' = merged_keys v n (dom E)" "\<forall>k e. E' k = Some e \<longrightarrow> merged_label v n E k e"
  shows "forest Q E'"
proof -
  have vn: "v \<noteq> n" using forest_no_loop [OF assms(1-3)] .
  let ?r = "\<lambda>x. if x = n then v else x"
  note source = merged_source [OF vn assms(4,5)]
  show ?thesis
    unfolding forest_def
  proof (intro allI impI notI, elim conjE)
    fix a b e assume e: "E' (a, b) = Some e" "Q e" and l: "(a, b) \<in> merge_link Q (E'((a, b) := None))"
    obtain a0 b0 where
      s: "E (a0, b0) = Some e" "?r a0 = a" "?r b0 = b" "(a0, b0) \<noteq> (v, n)"
      using source [OF e(1)] by (elim exE conjE) (rule that)
    let ?E = "E((a0, b0) := None)"
    have "?E (v, n) = Some e0" using s(4) assms(2) by auto
    then have vn': "(v, n) \<in> merge_link Q ?E" using assms(3) by (rule merge_link_edge)
    have r: "(?r x, x) \<in> merge_link Q ?E" "(x, ?r x) \<in> merge_link Q ?E" for x
      using vn' merge_link_sym [OF vn'] by auto
    have one: "(x, y) \<in> merge_link Q ?E" if "(E'((a, b) := None)) (x, y) = Some d" "Q d" for x y d
    proof -
      from that(1) have d: "E' (x, y) = Some d" "(x, y) \<noteq> (a, b)" by (auto split: if_splits)
      obtain x0 y0 where x0: "E (x0, y0) = Some d" "?r x0 = x" "?r y0 = y" "(x0, y0) \<noteq> (v, n)"
        using source [OF d(1)] by (elim exE conjE) (rule that)
      with d(2) s(2,3) have "?E (x0, y0) = Some d" by auto
      then have "(x0, y0) \<in> merge_link Q ?E" using that(2) by (rule merge_link_edge)
      with r(1) [of x0] r(2) [of y0] show ?thesis
        unfolding x0(2,3) by (blast intro: merge_link_trans)
    qed
    have "(a, b) \<in> merge_link Q ?E" using merge_link_into [OF one l] .
    then have "(a0, b0) \<in> merge_link Q ?E"
      using r(2) [of a0] r(1) [of b0] unfolding s(2,3) by (blast intro: merge_link_trans)
    with assms(1) s(1) e(2) show False unfolding forest_def by blast
  qed
qed

text \<open>
  A vertex without edges to merge that lead to it stays, as long as the edges to merge branch out
  from it: where two of them meet, the vertex itself may be the one that is removed.
\<close>

definition rooted :: "(string \<Rightarrow> bool) \<Rightarrow> edge_map \<Rightarrow> string \<Rightarrow> bool" where
  "rooted Q E u \<longleftrightarrow>
     (\<forall>x y e. E (x, y) = Some e \<and> Q e \<and> (u, y) \<in> merge_link Q E \<longrightarrow>
        y \<noteq> u \<and> (\<forall>x' e'. E (x', y) = Some e' \<and> Q e' \<longrightarrow> x' = x))"

lemma rootedD:
  assumes "rooted Q E u" "E (x, y) = Some e" "Q e" "(u, y) \<in> merge_link Q E"
  shows "y \<noteq> u" "E (x', y) = Some e' \<Longrightarrow> Q e' \<Longrightarrow> x' = x"
  using assms unfolding rooted_def by blast+

lemma rooted_step:
  assumes "v \<noteq> n" "E (v, n) = Some e0" "Q e0"
    "dom E' = merged_keys v n (dom E)" "\<forall>k e. E' k = Some e \<longrightarrow> merged_label v n E k e"
    and "rooted Q E u"
  shows "u \<noteq> n" "rooted Q E' u"
proof -
  let ?r = "\<lambda>x. if x = n then v else x"
  have vn: "(v, n) \<in> merge_link Q E" using assms(2,3) by (rule merge_link_edge)
  show un: "u \<noteq> n" using rootedD(1) [OF assms(6,2,3)] by auto
  have r: "(?r x, x) \<in> merge_link Q E" "(x, ?r x) \<in> merge_link Q E" for x
    using vn merge_link_sym [OF vn] by auto
  have one: "(x, y) \<in> merge_link Q E" if d: "E' (x, y) = Some d" "Q d" for x y d
  proof -
    from merged_source [OF assms(1,4,5) d(1)] obtain x0 y0 where
      x0: "E (x0, y0) = Some d" "?r x0 = x" "?r y0 = y" by blast
    have "(x0, y0) \<in> merge_link Q E" using x0(1) d(2) by (rule merge_link_edge)
    with r(1) [of x0] r(2) [of y0] show ?thesis
      unfolding x0(2,3) by (blast intro: merge_link_trans)
  qed
  have source: "E (x0, y) = Some e" "y \<noteq> u"
    if "E' (x, y) = Some e" "Q e" "(u, y) \<in> merge_link Q E'" "E (x0, y0) = Some e" "?r x0 = x" "?r y0 = y"
      "(x0, y0) \<noteq> (v, n)" for x y e x0 y0
  proof -
    have "(u, y0) \<in> merge_link Q E"
      using merge_link_into [OF one that(3)] r(1) [of y0] unfolding that(6) by (rule merge_link_trans)
    note y0 = rootedD [OF assms(6) that(4,2) this]
    have "y0 \<noteq> n" using y0(2) [of v e0] assms(2,3) that(7) by auto
    with that(4,6) y0(1) show "E (x0, y) = Some e" "y \<noteq> u" by auto
  qed
  show "rooted Q E' u"
    unfolding rooted_def
  proof (intro allI impI conjI, elim conjE, goal_cases)
    case (1 x y e)
    from merged_source [OF assms(1,4,5) 1(1)] source [OF 1] show ?case by blast
  next
    case (2 x y e x' e')
    then have e: "E' (x, y) = Some e" "Q e" "(u, y) \<in> merge_link Q E'" and e': "E' (x', y) = Some e'" "Q e'" by blast+
    from merged_source [OF assms(1,4,5) e(1)] obtain x0 y0 where
      x0: "E (x0, y0) = Some e" "?r x0 = x" "?r y0 = y" "(x0, y0) \<noteq> (v, n)" by blast
    from merged_source [OF assms(1,4,5) e'(1)] obtain x1 y1 where
      x1: "E (x1, y1) = Some e'" "?r x1 = x'" "?r y1 = y" "(x1, y1) \<noteq> (v, n)" by blast
    note s = source(1) [OF e x0] source(1) [OF e' e(3) x1]
    have "x1 = x0" using rootedD(2) [OF assms(6) s(1) e(2) merge_link_into [OF one e(3)] s(2) e'(2)] .
    with x0(2) x1(2) show ?case by (simp split: if_splits)
  qed
qed

section \<open>Merging\<close>

definition merge_state where
  "merge_state Q E0 x0 E x \<longleftrightarrow>
     forest Q E \<and> (\<exists>q. merge_map Q E0 E q \<and> x = q x0 \<and> (\<forall>u. rooted Q E0 u \<longrightarrow> rooted Q E u \<and> q u = u))"

lemma merge_state_start: "forest Q E \<Longrightarrow> merge_state Q E x E x"
  using merge_map_refl [of Q E] by (auto simp: merge_state_def intro!: exI [of _ "\<lambda>u. u"])

context graaf_lib
begin

lemma merge_neighbors_quotient:
  assumes "lossless Q E0" "cg_inv L ok cg"
    "merge_state Q E0 x0 (cg_edges L cg) x" "distinct ns"
    "\<forall>n\<in>set ns. \<exists>e. cg_edges L cg (v, n) = Some e \<and> Q e"
    "merge_neighbors L v ns (x, cg) = Inr (x', cg')"
  shows "cg_inv L ok cg' \<and> merge_state Q E0 x0 (cg_edges L cg') x'"
  using assms(2-)
proof (induction ns arbitrary: x cg)
  case (Cons n ns)
  from Cons.prems(4) obtain e where e: "cg_edges L cg (v, n) = Some e" "Q e" by auto
  from Cons.prems(2) obtain q where q: "forest Q (cg_edges L cg)" "merge_map Q E0 (cg_edges L cg) q" "x = q x0"
    "\<And>u. rooted Q E0 u \<Longrightarrow> rooted Q (cg_edges L cg) u \<and> q u = u"
    by (auto simp: merge_state_def)
  have vn: "v \<noteq> n" using forest_no_loop [OF q(1) e] .
  obtain u0 n0 where "E0 (u0, n0) = Some e" "(u0, v) \<in> merge_link Q E0" "(n0, n) \<in> merge_link Q E0"
    using merge_map_source [OF q(2) e(1)] .
  then have l: "(v, n) \<in> merge_link Q E0"
    using merge_link_edge [of E0 u0 n0 e Q] e(2) by (blast intro: merge_link_trans merge_link_sym)
  from edge_ends [OF Cons.prems(1) e(1)] have ends: "v \<in> dom (vertex_id_map cg)" "n \<in> dom (vertex_id_map cg)" by auto
  have "cg_edges L cg (n, n) = None"
  proof (rule ccontr)
    assume "cg_edges L cg (n, n) \<noteq> None"
    then obtain d where d: "cg_edges L cg (n, n) = Some d" by blast
    from forest_no_loop [OF q(1) d kept_edge_apart [OF assms(1) q(2) d merge_link_refl]] show False by simp
  qed
  then have "cg_edges L cg (n, n) = None \<or> v = n" by simp
  from combine_vertex_exact [OF Cons.prems(1) ends this] obtain cg1 where
    c: "combine_vertex L v n cg = Inr cg1" "cg_inv L ok cg1"
    "dom (cg_edges L cg1) = merged_keys v n (dom (cg_edges L cg))"
    "\<forall>k e. cg_edges L cg1 k = Some e \<longrightarrow> merged_label v n (cg_edges L cg) k e" by blast
  have "rooted Q (cg_edges L cg1) u \<and> (if q u = n then v else q u) = u" if "rooted Q E0 u" for u
    using rooted_step [where Q = Q, OF vn e c(3,4)] q(4) [OF that] by simp
  then have st: "merge_state Q E0 x0 (cg_edges L cg1) (if x = n then v else x)"
    unfolding merge_state_def q(3)
    by (intro conjI forest_step [OF q(1) e c(3,4)] exI [of _ "\<lambda>u. if q u = n then v else q u"]
        merge_map_step [OF assms(1) q(2) l vn c(3,4)] refl allI impI) simp_all
  have rest: "\<forall>m\<in>set ns. \<exists>e. cg_edges L cg1 (v, m) = Some e \<and> Q e"
  proof
    fix m assume m: "m \<in> set ns"
    with Cons.prems(4) obtain d where d: "cg_edges L cg (v, m) = Some d" "Q d" by auto
    have vm: "v \<noteq> m" using forest_no_loop [OF q(1) d] .
    have "m \<noteq> n" using m Cons.prems(3) by auto
    with vn vm d(2) have "\<exists>d'. cg_edges L cg1 (v, m) = Some d' \<and> same_kind Q d d'"
      using edge_survives [OF assms(1) q(2) l vn c(3,4) d(1), of v m] by auto
    with d(2) show "\<exists>e. cg_edges L cg1 (v, m) = Some e \<and> Q e" by (auto simp: same_kind_def)
  qed
  from Cons.prems(5) c(1) have "merge_neighbors L v ns (if x = n then v else x, cg1) = Inr (x', cg')" by simp
  with Cons.IH [OF c(2) st _ rest] Cons.prems(3) show ?case by simp
qed simp

lemma merge_at_quotient:
  assumes "lossless Q E0" "\<forall>P\<in>set Ps. \<forall>e. P e \<longrightarrow> Q e" "cg_inv L ok cg"
    "merge_state Q E0 x0 (cg_edges L cg) x" "merge_at L Ps v (none, x, cg) = Inr (none', x', cg')"
  shows "cg_inv L ok cg' \<and> merge_state Q E0 x0 (cg_edges L cg') x'"
  using assms(2-)
proof (induction Ps arbitrary: none x cg)
  case (Cons P Ps)
  obtain ns where ns: "labelled_neighbors L P v cg = Inr ns" "distinct ns"
    "set ns = {w. \<exists>e. cg_edges L cg (v, w) = Some e \<and> P e}"
    using labelled_neighbors_iff [OF Cons.prems(2)] by blast
  with Cons.prems(4) obtain x1 cg1 where m: "merge_neighbors L v ns (x, cg) = Inr (x1, cg1)"
    "merge_at L Ps v (none \<and> ns = [], x1, cg1) = Inr (none', x', cg')" by (auto simp: res_simps)
  have "\<forall>n\<in>set ns. \<exists>e. cg_edges L cg (v, n) = Some e \<and> Q e" using ns(3) Cons.prems(1) by auto
  from merge_neighbors_quotient [OF assms(1) Cons.prems(2,3) ns(2) this m(1)] Cons.IH [OF _ _ _ m(2)] Cons.prems(1)
  show ?case by simp
qed simp

lemma merge_pass_quotient:
  assumes "lossless Q E0" "\<forall>P\<in>set Ps. \<forall>e. P e \<longrightarrow> Q e" "cg_inv L ok cg"
    "merge_state Q E0 x0 (cg_edges L cg) x" "merge_pass L Ps vs (none, x, cg) = Inr (none', x', cg')"
  shows "cg_inv L ok cg' \<and> merge_state Q E0 x0 (cg_edges L cg') x'"
  using assms(3-)
proof (induction vs arbitrary: none x cg)
  case (Cons v vs)
  from Cons.prems(3) obtain none1 x1 cg1 where
    a: "merge_at L Ps v (none, x, cg) = Inr (none1, x1, cg1)"
    "merge_pass L Ps vs (none1, x1, cg1) = Inr (none', x', cg')"
    by (auto simp: res_simps simp del: merge_at.simps)
  from merge_at_quotient [OF assms(1,2) Cons.prems(1,2) a(1)] Cons.IH a(2) show ?case by blast
qed simp

lemma merge_loop_quotient:
  assumes "lossless Q E0" "\<forall>P\<in>set Ps. \<forall>e. P e \<longrightarrow> Q e" "cg_inv L ok cg"
    "merge_state Q E0 x0 (cg_edges L cg) x" "merge_loop L Ps fuel (x, cg) = Some (Inr (x', cg'))"
  shows "merge_state Q E0 x0 (cg_edges L cg') x'"
  using assms(3-)
proof (induction fuel arbitrary: x cg)
  case (Suc fuel)
  from Suc.prems(3) obtain none x1 cg1 where
    a: "merge_pass L Ps (get_vertices L cg) (True, x, cg) = Inr (none, x1, cg1)"
    "if none then (x1, cg1) = (x', cg') else merge_loop L Ps fuel (x1, cg1) = Some (Inr (x', cg'))"
    by (auto split: sum.splits if_splits)
  from merge_pass_quotient [OF assms(1,2) Suc.prems(1,2) a(1)] a(2) Suc.IH show ?case
    by (auto split: if_splits)
qed simp

end

section \<open>The quotient\<close>

definition exact_quotient ::
    "(string \<Rightarrow> bool) \<Rightarrow> edge_map \<Rightarrow> edge_map \<Rightarrow> (string \<Rightarrow> string) \<Rightarrow> bool" where
  "exact_quotient Q E0 E q \<longleftrightarrow>
     (\<forall>u v. q u = q v \<longleftrightarrow> (u, v) \<in> merge_link Q E0) \<and>
     (\<forall>a b e. E (a, b) = Some e \<longleftrightarrow> (\<exists>x y. E0 (x, y) = Some e \<and> \<not> Q e \<and> q x = a \<and> q y = b))"

lemma merged_exactly:
  assumes "merge_map Q E0 E q" "\<forall>k e. E k = Some e \<longrightarrow> \<not> Q e"
  shows "exact_quotient Q E0 E q"
  unfolding exact_quotient_def
proof (intro conjI allI)
  have m: "\<And>u. (u, q u) \<in> merge_link Q E0" "quotient_by q E0 E"
    "\<And>x y e. E0 (x, y) = Some e \<Longrightarrow> Q e \<and> q x = q y \<or> (\<exists>e'. E (q x, q y) = Some e' \<and> same_kind Q e e')"
    using assms(1) unfolding merge_map_def by blast+
  show "q u = q v \<longleftrightarrow> (u, v) \<in> merge_link Q E0" for u v
  proof
    assume "q u = q v"
    then have "(q u, v) \<in> merge_link Q E0" using merge_link_sym [OF m(1) [of v]] by simp
    with m(1) [of u] show "(u, v) \<in> merge_link Q E0" by (rule merge_link_trans)
  next
    assume "(u, v) \<in> merge_link Q E0"
    moreover have "q x = q y" if "E0 (x, y) = Some e" "Q e" for x y e
      using m(3) [OF that(1)] that(2) assms(2) by (auto simp: same_kind_def)
    ultimately show "q u = q v" by (rule link_class [rotated])
  qed
  show "E (a, b) = Some e \<longleftrightarrow> (\<exists>x y. E0 (x, y) = Some e \<and> \<not> Q e \<and> q x = a \<and> q y = b)" for a b e
    using m(2,3) assms(2) unfolding quotient_by_def same_kind_def by metis
qed

text \<open>
  The walks of the quotient: between two edges a walk may go along the merged edges of the original
  graph, in both directions.
\<close>

inductive slides :: "(string \<Rightarrow> bool) \<Rightarrow> edge_map \<Rightarrow> string \<Rightarrow> string list \<Rightarrow> string \<Rightarrow> bool" for Q E where
  rest: "(u, w) \<in> merge_link Q E \<Longrightarrow> slides Q E u [] w"
| move: "(u, x) \<in> merge_link Q E \<Longrightarrow> E (x, y) = Some e \<Longrightarrow> \<not> Q e \<Longrightarrow> slides Q E y es w \<Longrightarrow>
    slides Q E u (e # es) w"

inductive_simps slides_Nil: "slides Q E u [] w"
inductive_simps slides_Cons: "slides Q E u (e # es) w"

lemma quotient_walks:
  assumes "exact_quotient Q E0 E q"
  shows "spells E (q u) es (q w) \<longleftrightarrow> slides Q E0 u es w"
proof (induction es arbitrary: u)
  case Nil
  have "q w = q u \<longleftrightarrow> (u, w) \<in> merge_link Q E0" using assms unfolding exact_quotient_def by metis
  then show ?case by (auto simp: spells_Nil slides_Nil)
next
  case (Cons e es)
  have "E (q u, b) = Some e \<longleftrightarrow> (\<exists>x y. (u, x) \<in> merge_link Q E0 \<and> E0 (x, y) = Some e \<and> \<not> Q e \<and> q y = b)" for b
    using assms unfolding exact_quotient_def by metis
  then have "spells E (q u) (e # es) (q w) \<longleftrightarrow>
      (\<exists>x y. (u, x) \<in> merge_link Q E0 \<and> E0 (x, y) = Some e \<and> \<not> Q e \<and> spells E (q y) es (q w))"
    unfolding spells_Cons by auto
  then show ?case unfolding Cons.IH slides_Cons by blast
qed

lemma slides_link: "(u, v) \<in> merge_link Q E \<Longrightarrow> slides Q E v es w \<Longrightarrow> slides Q E u es w"
  by (cases es) (auto simp: slides_Nil slides_Cons intro: merge_link_trans)

lemma spells_slides:
  fixes E :: edge_map
  shows "spells E u es w \<Longrightarrow> slides Q E u (filter (\<lambda>e. \<not> Q e) es) w"
proof (induction rule: spells.induct)
  case (step u v e es w)
  show ?case
  proof (cases "Q e")
    case True
    with step(1) have "(u, v) \<in> merge_link Q E" by (rule merge_link_edge)
    with step(3) True slides_link show ?thesis by simp
  next
    case False
    with slides.move [OF merge_link_refl step(1) False step(3)] show ?thesis by simp
  qed
qed (auto intro: slides.rest)

section \<open>The graph of a function\<close>

context graaf_lib
begin

lemma quotient_policy:
  assumes "flow_ok f" "distinct (vertex_names r f)" "length (vertex_names r f) < fuel"
    "forest is_control (expanded_map r f)" "lossless is_control (expanded_map r f)"
  shows "\<exists>m x g x' g' q. analyse_function L r f = Inr m \<and>
    expand_blocks L (bbToLibcMap m) (exitNode m, bbGraph m) = Inr (x, g) \<and>
    merge_loop L [is_control] fuel (x, g) = Some (Inr (x', g')) \<and>
    exact_quotient is_control (expanded_map r f) (cg_edges L g') q \<and> x' = q x \<and> cg_inv L ok g' \<and>
    dom (vertex_id_map g') \<subseteq> set (vertex_names r f) \<and>
    (\<forall>u. (u, q u) \<in> merge_link is_control (expanded_map r f)) \<and>
    (\<forall>u. rooted is_control (expanded_map r f) u \<longrightarrow> q u = u)"
proof -
  obtain m where m: "analyse_function L r f = Inr m"
    using analyse_inv [of f r] assms(1) by (auto simp: flow_ok_def)
  from expand_function [OF m assms(1,2)] obtain x g where
    g: "expand_blocks L (bbToLibcMap m) (exitNode m, bbGraph m) = Inr (x, g)" "cg_inv L ok g"
    "dom (vertex_id_map g) = set (vertex_names r f)" "cg_edges L g = expanded_map r f"
    by (auto simp: expanded_map_def)
  have card: "card (dom (vertex_id_map g)) < fuel"
    unfolding g(3) using card_length [of "vertex_names r f"] assms(3) by linarith
  have Q: "is_control e \<longleftrightarrow> (\<exists>P\<in>set [is_control]. P e)" for e by simp
  from merge_loop_inv [OF g(2) merged_from_refl Q card, of x] obtain x' g' where
    l: "merge_loop L [is_control] fuel (x, g) = Some (Inr (x', g'))" "cg_inv L ok g'"
    "\<forall>k e. cg_edges L g' k = Some e \<longrightarrow> \<not> is_control e" "dom (vertex_id_map g') \<subseteq> set (vertex_names r f)"
    unfolding g(3) by blast
  have "\<forall>P\<in>set [is_control]. \<forall>e. P e \<longrightarrow> is_control e" by simp
  then have "merge_state is_control (expanded_map r f) x (cg_edges L g') x'"
    using merge_loop_quotient [OF assms(5) _ g(2) _ l(1)] merge_state_start [OF assms(4)]
    unfolding g(4) by blast
  then obtain q where q: "merge_map is_control (expanded_map r f) (cg_edges L g') q" "x' = q x"
    "\<forall>u. rooted is_control (expanded_map r f) u \<longrightarrow> q u = u"
    by (auto simp: merge_state_def)
  have "\<forall>u. (u, q u) \<in> merge_link is_control (expanded_map r f)" using q(1) by (simp add: merge_map_def)
  with merged_exactly [OF q(1) l(3)] m g(1) l(1,2,4) q(2,3) show ?thesis by blast
qed

end

end
