(* ===== verification/MainSpec.thy ===== *)
theory MainSpec
  imports QuotientSpec
begin

text \<open>
  The graph of a program whose \<^verbatim>\<open>main\<close> calls no other function of the program: it is the merged
  graph of \<^verbatim>\<open>main\<close>, whatever else the module holds.
\<close>

section \<open>Following one function through the pass\<close>

lemma process_other:
  assumes "process_functions L uniq r fs ms = Inr (fs', ms', ch)" "k \<notin> f_name ` set fs"
  shows "map_of ms' k = map_of ms k"
  using assms
proof (induction fs arbitrary: ms fs' ch)
  case (Cons f fs)
  then show ?case
    by (auto simp: Let_def res_simps map_of_map_put split: if_splits)
qed simp

lemma process_lookup:
  assumes "process_functions L uniq r fs ms = Inr (fs', ms', ch)" "distinct (map f_name fs)"
    "f \<in> set fs" "\<not> skipped f"
  shows "\<exists>m. analyse_function L r (nameBasicBlocks uniq f) = Inr m \<and> map_of ms' (f_name f) = Some m"
  using assms
proof (induction fs arbitrary: ms fs' ch)
  case (Cons h fs)
  show ?case
  proof (cases "h = f")
    case True
    with Cons.prems obtain m fs1 ch1 where m: "analyse_function L r (nameBasicBlocks uniq f) = Inr m"
      "process_functions L uniq r fs (map_put (f_name f) m ms) = Inr (fs1, ms', ch1)"
      by (auto simp: Let_def res_simps split: if_splits)
    have "f_name f \<notin> f_name ` set fs" using Cons.prems(2) True by simp
    from process_other [OF m(2) this] m(1) show ?thesis by (simp add: map_of_map_put)
  next
    case False
    with Cons.prems(3) have "f \<in> set fs" by simp
    with Cons.prems(1,2,4) Cons.IH show ?thesis
      by (auto simp: Let_def res_simps split: if_splits)
  qed
qed simp

lemma expand_lookup:
  assumes "ExpandBBGraph L ms = Inr ms'" "map_of ms k = Some m"
  shows "\<exists>x g. expand_blocks L (bbToLibcMap m) (exitNode m, bbGraph m) = Inr (x, g) \<and>
    map_of ms' k = Some (m\<lparr>exitNode := x, bbExpandedGraph := g\<rparr>)"
  using assms
  by (induction L ms arbitrary: ms' rule: ExpandBBGraph.induct) (auto simp: res_simps split: if_splits)

lemma convert_lookup:
  assumes "ConvertBBGraphToLibcCallGraph L fuel ms = Some (Inr ms')" "map_of ms k = Some m"
  shows "\<exists>x g. merge_loop L [is_control] fuel (exitNode m, bbExpandedGraph m) = Some (Inr (x, g)) \<and>
    map_of ms' k = Some (m\<lparr>exitNode := x, libcCallGraph := g\<rparr>)"
  using assms
  by (induction L fuel ms arbitrary: ms' rule: ConvertBBGraphToLibcCallGraph.induct)
    (auto split: option.splits sum.splits if_splits)

section \<open>Nothing to combine\<close>

context graaf_lib
begin

lemma inline_nothing:
  assumes "cg_inv L ok g" "\<forall>k e. cg_edges L g k = Some e \<longrightarrow> \<not> is_user e"
  shows "inline_vertices L vs (ms, g) = Inr (ms, g)"
proof (induction vs)
  case (Cons v vs)
  obtain ns where ns: "lists_neighbors L g v ns"
    "get_outgoing_edges L v g = Inr (map (\<lambda>w. the (cg_edges L g (v, w))) ns)"
    using queries [OF assms(1), of v] by metis
  have "\<forall>e\<in>set (map (\<lambda>w. the (cg_edges L g (v, w))) ns). \<not> starts_with ''user:'' e"
    using ns(1) assms(2) by (auto simp: lists_neighbors_def is_user_def)
  from inline_calls_none [OF this] ns(2) Cons show ?case by simp
qed simp

lemma merge_nothing:
  assumes "cg_inv L ok g" "\<forall>k e. cg_edges L g k = Some e \<longrightarrow> (\<forall>P\<in>set Ps. \<not> P e)"
  shows "merge_pass L Ps vs (none, x, g) = Inr (none, x, g)"
proof (induction vs)
  case (Cons v vs)
  have "merge_at L Ps' v (none, x, g) = Inr (none, x, g)" if "set Ps' \<subseteq> set Ps" for Ps'
    using that
  proof (induction Ps')
    case (Cons P Ps')
    obtain ns where ns: "labelled_neighbors L P v g = Inr ns"
      "set ns = {w. \<exists>e. cg_edges L g (v, w) = Some e \<and> P e}"
      using labelled_neighbors_iff [OF assms(1)] by blast
    have "\<not> P e" if "cg_edges L g (v, w) = Some e" for w e
      using assms(2) Cons.prems that by auto
    then have "set ns = {}" unfolding ns(2) by simp
    with ns(1) have "labelled_neighbors L P v g = Inr []" by simp
    with Cons show ?case by simp
  qed simp
  with Cons show ?case by simp
qed simp

lemma combine_nothing:
  assumes "map_of ms ''main'' = Some m" "cg_inv L ok (libcCallGraph m)"
    "\<forall>k e. cg_edges L (libcCallGraph m) k = Some e \<longrightarrow> \<not> is_control e \<and> \<not> is_user e"
    "CombineLibcgGraph L fuel ms = Some (Inr (ms', fg))"
  shows "fg = \<lparr>finalGraph = libcCallGraph m, finalGraphEntryNode = entryNode m, finalGraphExitNode = exitNode m\<rparr>"
proof -
  have "inline_vertices L vs (ms, libcCallGraph m) = Inr (ms, libcCallGraph m)" for vs
    using inline_nothing [OF assms(2)] assms(3) by blast
  moreover have "merge_loop L [is_control, is_user] fuel (exitNode m, libcCallGraph m) = Some (Inr (x, g)) \<Longrightarrow>
      x = exitNode m \<and> g = libcCallGraph m" for x g
    using merge_nothing [OF assms(2), of "[is_control, is_user]" "get_vertices L (libcCallGraph m)" True "exitNode m"]
      assms(3) by (cases fuel) auto
  ultimately show ?thesis
    using assms(1,4) by (auto simp: CombineLibcgGraph_def map_index_def split: option.splits sum.splits)
qed

section \<open>The graph of one function\<close>

text \<open>What the three steps leave of a function when merging is exact for it.\<close>

lemma function_policy:
  assumes "process_functions L uniq r fs [] = Inr (fs', ms1, ch)" "ExpandBBGraph L ms1 = Inr ms2"
    "ConvertBBGraphToLibcCallGraph L fuel ms2 = Some (Inr ms3)"
    and "distinct (map f_name fs)" "f \<in> set fs" "\<not> skipped f" "f' = nameBasicBlocks uniq f"
    and "flow_ok f'" "distinct (vertex_names r f')"
    and "forest is_control (expanded_map r f')" "lossless is_control (expanded_map r f')"
  obtains m m' q where "analyse_function L r f' = Inr m" "map_of ms3 (f_name f) = Some m'"
    "entryNode m' = entryNode m" "exitNode m' = q (expanded_exit (list_calls r (f_blocks f') []) (exitNode m))"
    "cg_inv L ok (libcCallGraph m')" "dom (vertex_id_map (libcCallGraph m')) \<subseteq> set (vertex_names r f')"
    "exact_quotient is_control (expanded_map r f') (cg_edges L (libcCallGraph m')) q"
    "\<forall>u. (u, q u) \<in> merge_link is_control (expanded_map r f')"
    "\<forall>u. rooted is_control (expanded_map r f') u \<longrightarrow> q u = u"
proof -
  obtain m where m: "analyse_function L r f' = Inr m" "map_of ms1 (f_name f) = Some m"
    using process_lookup [OF assms(1,4,5,6)] assms(7) by auto
  from expand_lookup [OF assms(2) m(2)] obtain x g where
    g: "expand_blocks L (bbToLibcMap m) (exitNode m, bbGraph m) = Inr (x, g)"
    "map_of ms2 (f_name f) = Some (m\<lparr>exitNode := x, bbExpandedGraph := g\<rparr>)" by blast
  from convert_lookup [OF assms(3) g(2)] obtain x' g' where
    g': "merge_loop L [is_control] fuel (x, g) = Some (Inr (x', g'))"
    "map_of ms3 (f_name f) = Some (m\<lparr>exitNode := x', bbExpandedGraph := g, libcCallGraph := g'\<rparr>)" by auto
  let ?n = "Suc (max fuel (length (vertex_names r f')))"
  have n: "length (vertex_names r f') < ?n" "fuel \<le> ?n" by auto
  from quotient_policy [OF assms(8,9) n(1) assms(10,11)] m(1) g(1) merge_loop_more [OF g'(1) n(2)]
  obtain q where q: "exact_quotient is_control (expanded_map r f') (cg_edges L g') q" "x' = q x" "cg_inv L ok g'"
    "dom (vertex_id_map g') \<subseteq> set (vertex_names r f')" "\<forall>u. (u, q u) \<in> merge_link is_control (expanded_map r f')"
    "\<forall>u. rooted is_control (expanded_map r f') u \<longrightarrow> q u = u"
    by auto
  have "x = expanded_exit (list_calls r (f_blocks f') []) (exitNode m)"
    using expand_function [OF m(1) assms(8,9)] g(1) by auto
  with q that [OF m(1) g'(2)] show thesis by simp
qed

section \<open>The graph of main\<close>

text \<open>
  Every run of the pass that comes to a result passes through the graph of \<^verbatim>\<open>main\<close>; without user
  calls it is the graph of the program.
\<close>

lemma run_steps:
  assumes "runOnModule L e uniq hash junk fuel r M [] s = Some (Inr (ch, M', fg, s'))"
  obtains fs ms1 ms2 ms3 ms4 where
    "process_functions L uniq r (m_functions M) [] = Inr (fs, ms1, ch)" "ExpandBBGraph L ms1 = Inr ms2"
    "ConvertBBGraphToLibcCallGraph L fuel ms2 = Some (Inr ms3)"
    "CombineLibcgGraph L fuel ms3 = Some (Inr (ms4, fg))"
  using assms by (auto simp: runOnModule_def res_simps split: sum.splits option.splits prod.splits)

lemma run_main:
  assumes "runOnModule L e uniq hash junk fuel r M [] s = Some (Inr (ch, M', fg, s'))"
    "distinct (map f_name (m_functions M))" "f \<in> set (m_functions M)" "f_name f = ''main''" "\<not> skipped f"
    "f' = nameBasicBlocks uniq f" "flow_ok f'" "distinct (vertex_names r f')"
    "forest is_control (expanded_map r f')" "lossless is_control (expanded_map r f')"
    "\<forall>l\<in>call_labels r f'. \<not> is_user l"
  shows "\<exists>m q. analyse_function L r f' = Inr m \<and> finalGraphEntryNode fg = entryNode m \<and>
    exact_quotient is_control (expanded_map r f') (cg_edges L (finalGraph fg)) q \<and>
    finalGraphExitNode fg = q (expanded_exit (list_calls r (f_blocks f') []) (exitNode m))"
proof -
  from run_steps [OF assms(1)] obtain fs ms1 ms2 ms3 ms4 where run:
    "process_functions L uniq r (m_functions M) [] = Inr (fs, ms1, ch)" "ExpandBBGraph L ms1 = Inr ms2"
    "ConvertBBGraphToLibcCallGraph L fuel ms2 = Some (Inr ms3)"
    "CombineLibcgGraph L fuel ms3 = Some (Inr (ms4, fg))" .
  from function_policy [OF run(1-3) assms(2,3,5-10), unfolded assms(4)] obtain m m' q where
    m: "analyse_function L r f' = Inr m" "map_of ms3 ''main'' = Some m'" "entryNode m' = entryNode m"
    "exitNode m' = q (expanded_exit (list_calls r (f_blocks f') []) (exitNode m))"
    "cg_inv L ok (libcCallGraph m')"
    "exact_quotient is_control (expanded_map r f') (cg_edges L (libcCallGraph m')) q" .
  have "\<not> is_control l \<and> \<not> is_user l" if "cg_edges L (libcCallGraph m') (a, b) = Some l" for a b l
  proof -
    from that m(6) obtain u v where l: "expanded_map r f' (u, v) = Some l" "\<not> is_control l"
      unfolding exact_quotient_def by blast
    have "distinct (map bb_name (f_blocks f'))" using assms(8) by (simp add: vertex_names_def)
    from expanded_labels [OF this, of r] have "ran (expanded_map r f') \<subseteq> {''control''} \<union> call_labels r f'"
      by (simp add: expanded_map_def)
    moreover have "l \<in> ran (expanded_map r f')" using l(1) by (rule ranI)
    ultimately show ?thesis using l(2) assms(11) by (auto simp: is_control_def)
  qed
  then have "\<forall>k l. cg_edges L (libcCallGraph m') k = Some l \<longrightarrow> \<not> is_control l \<and> \<not> is_user l" by auto
  from combine_nothing [OF m(2,5) this run(4)] m(1,3,4,6) show ?thesis by auto
qed

end

end
