(* ===== verification/CalleeSpec.thy ===== *)
theory CalleeSpec
  imports MainSpec
begin

text \<open>
  A program whose \<^verbatim>\<open>main\<close> calls one other function at one place.  \<^verbatim>\<open>CombineLibcgGraph\<close> inserts the
  graph of the function and connects it by control edges; merging these and the edge of the call
  makes one vertex of the two ends of the call and of the entry and the exit of the function.
\<close>

section \<open>The graph after inlining\<close>

definition to_merge :: "string \<Rightarrow> bool" where
  "to_merge e \<longleftrightarrow> is_control e \<or> is_user e"

text \<open>
  The call leads from \<open>v\<close> to \<open>w\<close>, the function from \<open>en\<close> to \<open>ex\<close>; it returns to \<open>r\<close>, the first
  neighbour of \<open>v\<close> once the entry has become one.
\<close>

definition united :: "edge_map \<Rightarrow> edge_map \<Rightarrow> string \<Rightarrow> string \<Rightarrow> string \<Rightarrow> string \<Rightarrow> edge_map" where
  "united E H v en ex r = (E ++ H)((v, en) \<mapsto> ''control'', (ex, r) \<mapsto> ''control'')"

lemma user_not_control: "is_user e \<Longrightarrow> e \<noteq> ''control''"
  by (auto simp: is_user_def starts_with_def)

lemma user_label_of: "starts_with ''user:'' (''user:'' @ f)" "drop 5 (''user:'' @ f) = f"
  by (simp_all add: starts_with_def)

lemma inline_vertices_append:
  "inline_vertices L (xs @ ys) st = and_then (inline_vertices L xs st) (inline_vertices L ys)"
proof (induction xs arbitrary: st)
  case (Cons x xs)
  obtain ms g where st: "st = (ms, g)" by (metis surj_pair)
  show ?case
  proof (cases "get_outgoing_edges L x g")
    case (Inr es)
    then show ?thesis by (cases "inline_calls L x es (ms, g)") (simp_all add: st Cons.IH)
  qed (simp add: st)
qed simp

context graaf_lib
begin

lemma inline_skip:
  assumes "cg_inv L ok g" "\<forall>u\<in>set vs. \<forall>y e. cg_edges L g (u, y) = Some e \<longrightarrow> \<not> is_user e"
  shows "inline_vertices L vs (ms, g) = Inr (ms, g)"
  using assms(2)
proof (induction vs)
  case (Cons v vs)
  obtain ns where ns: "lists_neighbors L g v ns"
    "get_outgoing_edges L v g = Inr (map (\<lambda>w. the (cg_edges L g (v, w))) ns)"
    using queries [OF assms(1), of v] by metis
  have "\<forall>e\<in>set (map (\<lambda>w. the (cg_edges L g (v, w))) ns). \<not> starts_with ''user:'' e"
    using ns(1) Cons.prems by (auto simp: lists_neighbors_def is_user_def)
  from inline_calls_none [OF this] ns(2) Cons show ?case by simp
qed simp

text \<open>Inserting a graph that shares no vertex adds its edges.\<close>

lemma insert_apart:
  assumes "cg_inv L ok g" "cg_inv L ok h" "dom (vertex_id_map g) \<inter> dom (vertex_id_map h) = {}"
  shows "\<exists>g'. insert_graph L h g = Inr g' \<and> cg_inv L ok g' \<and> cg_edges L g' = cg_edges L g ++ cg_edges L h \<and>
    dom (vertex_id_map g') = dom (vertex_id_map g) \<union> dom (vertex_id_map h)"
proof -
  from insert_graph_inv [OF assms(1,2)] obtain g' where
    g': "insert_graph L h g = Inr g'" "cg_inv L ok g'"
    "func_call_map g' = func_call_map h ++ func_call_map g"
    "dom (cg_edges L g') = dom (cg_edges L g) \<union> dom (cg_edges L h)"
    "\<forall>k e. cg_edges L g' k = Some e \<longrightarrow> cg_edges L g k = Some e \<or> cg_edges L h k = Some e" by blast
  have one: "cg_edges L g k = None \<or> cg_edges L h k = None" for k
  proof -
    obtain x y where k: "k = (x, y)" by (metis surj_pair)
    have "x \<notin> dom (vertex_id_map g) \<or> x \<notin> dom (vertex_id_map h)" using assms(3) by blast
    then show ?thesis
      using edge_ends [OF assms(1), of x y] edge_ends [OF assms(2), of x y] unfolding k
      by (metis option.exhaust)
  qed
  have "cg_edges L g' k = (cg_edges L g ++ cg_edges L h) k" for k
  proof (cases "cg_edges L g' k")
    case None
    then have "k \<notin> dom (cg_edges L g')" by (simp add: domIff)
    then have "k \<notin> dom (cg_edges L g)" "k \<notin> dom (cg_edges L h)" unfolding g'(4) by simp_all
    then show ?thesis using None by (simp add: domIff map_add_def)
  next
    case (Some e)
    with g'(5) have "cg_edges L g k = Some e \<or> cg_edges L h k = Some e" by blast
    with one [of k] Some show ?thesis by (auto simp: map_add_def)
  qed
  then have "cg_edges L g' = cg_edges L g ++ cg_edges L h" by (rule ext)
  moreover have "dom (vertex_id_map g') = dom (vertex_id_map g) \<union> dom (vertex_id_map h)"
    using inv_ids(3) [OF assms(1)] inv_ids(3) [OF assms(2)] inv_ids(3) [OF g'(2)] g'(3) by auto
  ultimately show ?thesis using g'(1,2) by blast
qed

lemma add_new_edge:
  assumes "cg_inv L ok g" "u \<in> dom (vertex_id_map g)" "v \<in> dom (vertex_id_map g)" "cg_edges L g (u, v) = None"
  shows "\<exists>g'. CallGraph.add_edge L u v e g = Inr g' \<and> cg_inv L ok g' \<and>
    vertex_id_map g' = vertex_id_map g \<and> cg_edges L g' = (cg_edges L g)((u, v) \<mapsto> e)"
  using add_edge_inv [OF assms(1), of u v e] assms(2-4) by (auto simp: domIff)

text \<open>Two graphs side by side: no edge leads from one to the other.\<close>

lemma no_cross_edge:
  assumes "cg_inv L ok g" "cg_inv L ok h" "dom (vertex_id_map g) \<inter> dom (vertex_id_map h) = {}"
    and "x \<in> dom (vertex_id_map g) \<longleftrightarrow> y \<notin> dom (vertex_id_map g)"
  shows "(cg_edges L g ++ cg_edges L h) (x, y) = None"
proof -
  have "cg_edges L g (x, y) = None"
    using edge_ends [OF assms(1), of x y] assms(4) by (cases "cg_edges L g (x, y)") auto
  moreover have "cg_edges L h (x, y) = None"
    using edge_ends [OF assms(2), of x y] assms(3,4) by (cases "cg_edges L h (x, y)") blast+
  ultimately show ?thesis by simp
qed

lemma neighbour_of_two:
  assumes "cg_inv L ok g" "\<And>y. (v, y) \<in> dom (cg_edges L g) \<longleftrightarrow> y = w \<or> y = u"
  obtains r rs where "get_neighbors L v g = Inr (r # rs)" "r \<in> {w, u}"
proof -
  obtain ns where ns: "get_neighbors L v g = Inr ns" "lists_neighbors L g v ns"
    using queries [OF assms(1), of v] by metis
  then have "set ns = {w, u}" using assms(2) by (auto simp: lists_neighbors_def)
  with ns(1) show thesis using that by (cases ns) auto
qed

text \<open>One call: the graph of the function is inserted and connected.\<close>

lemma inline_one:
  assumes "cg_inv L ok g" "h = meta_of L ms f" "cg_inv L ok (libcCallGraph h)"
    and "dom (vertex_id_map g) \<inter> dom (vertex_id_map (libcCallGraph h)) = {}"
    and "entryNode h \<in> dom (vertex_id_map (libcCallGraph h))" "exitNode h \<in> dom (vertex_id_map (libcCallGraph h))"
    and "cg_edges L (libcCallGraph h) (exitNode h, entryNode h) = None"
    and "\<forall>y. (v, y) \<in> dom (cg_edges L g) \<longleftrightarrow> y = w"
  shows "\<exists>ms' g' r. inline_calls L v [''user:'' @ f] (ms, g) = Inr (ms', g') \<and> cg_inv L ok g' \<and>
    r \<in> {w, entryNode h} \<and>
    cg_edges L g' = united (cg_edges L g) (cg_edges L (libcCallGraph h)) v (entryNode h) (exitNode h) r"
proof -
  let ?h = "libcCallGraph h" and ?en = "entryNode h" and ?ex = "exitNode h"
  obtain ms1 where mi: "map_index f (meta_init L) ms = (h, ms1)"
    using map_index_meta(1) assms(2) by (metis surj_pair)
  have vw: "v \<in> dom (vertex_id_map g)" "w \<in> dom (vertex_id_map g)"
    using assms(8) edge_ends [OF assms(1), of v w] by (auto simp: domIff)
  have out: "x \<notin> dom (vertex_id_map ?h)" if "x \<in> dom (vertex_id_map g)" for x using that assms(4) by blast
  have ene: "?en \<notin> dom (vertex_id_map g)" "?ex \<notin> dom (vertex_id_map g)" using assms(4-6) by blast+
  obtain g1 where g1: "insert_graph L ?h g = Inr g1" "cg_inv L ok g1"
    "cg_edges L g1 = cg_edges L g ++ cg_edges L ?h"
    "dom (vertex_id_map g1) = dom (vertex_id_map g) \<union> dom (vertex_id_map ?h)"
    using insert_apart [OF assms(1,3,4)] by blast
  have no: "cg_edges L g1 (x, y) = None" if "x \<in> dom (vertex_id_map g) \<longleftrightarrow> y \<notin> dom (vertex_id_map g)" for x y
    unfolding g1(3) by (rule no_cross_edge [OF assms(1,3,4) that])
  obtain g2 where g2: "CallGraph.add_edge L v ?en ''control'' g1 = Inr g2" "cg_inv L ok g2"
    "vertex_id_map g2 = vertex_id_map g1" "cg_edges L g2 = (cg_edges L g1)((v, ?en) \<mapsto> ''control'')"
  proof -
    have "v \<in> dom (vertex_id_map g1)" "?en \<in> dom (vertex_id_map g1)" using vw(1) assms(5) g1(4) by simp_all
    moreover have "cg_edges L g1 (v, ?en) = None" using no vw(1) ene(1) by simp
    ultimately show thesis using add_new_edge [OF g1(2), of v ?en "''control''"] that by blast
  qed
  have "cg_edges L ?h (v, y) = None" for y
    using edge_ends [OF assms(3), of v y] out [OF vw(1)] by (cases "cg_edges L ?h (v, y)") auto
  then have "(v, y) \<in> dom (cg_edges L g2) \<longleftrightarrow> y = w \<or> y = ?en" for y
    using assms(8) by (auto simp: g2(4) g1(3) map_add_def domIff)
  then obtain r ns' where r: "get_neighbors L v g2 = Inr (r # ns')" "r \<in> {w, ?en}"
    by (rule neighbour_of_two [OF g2(2)])
  have "cg_edges L g2 (?ex, r) = None"
  proof (cases "r = w")
    case True
    then show ?thesis using no [of ?ex w] vw ene by (auto simp: g2(4))
  next
    case False
    then have "r = ?en" using r(2) by simp
    moreover have "cg_edges L g (?ex, ?en) = None"
      using edge_ends [OF assms(1), of ?ex ?en] ene by (cases "cg_edges L g (?ex, ?en)") auto
    ultimately show ?thesis using assms(7) vw ene by (auto simp: g2(4) g1(3) map_add_def)
  qed
  then obtain g3 where g3: "CallGraph.add_edge L ?ex r ''control'' g2 = Inr g3" "cg_inv L ok g3"
    "cg_edges L g3 = (cg_edges L g2)((?ex, r) \<mapsto> ''control'')"
    using add_new_edge [OF g2(2), of ?ex r "''control''"] g2(3) g1(4) r(2) vw assms(5,6) by auto
  have "inline_calls L v [''user:'' @ f] (ms, g) = Inr (ms1, g3)"
    using mi g1(1) g2(1) r(1) g3(1) by (simp add: user_label_of del: append_Cons)
  with g3 r(2) show ?thesis unfolding united_def g2(4) g1(3) by blast
qed

end

section \<open>One vertex for the call\<close>

definition spliced :: "string \<Rightarrow> string \<Rightarrow> string \<Rightarrow> string \<Rightarrow> string \<Rightarrow> string" where
  "spliced v w en ex x = (if x \<in> {w, en, ex} then v else x)"

text \<open>
  The other edges lead between different vertices, with one label for two of them, once \<open>c\<close> has made
  one vertex of several.
\<close>

definition apart :: "(string \<Rightarrow> string) \<Rightarrow> edge_map \<Rightarrow> bool" where
  "apart c E \<longleftrightarrow>
     (\<forall>x y e. E (x, y) = Some e \<and> \<not> to_merge e \<longrightarrow> c x \<noteq> c y \<and>
        (\<forall>x' y' e'. E (x', y') = Some e' \<and> \<not> to_merge e' \<and> c x' = c x \<and> c y' = c y \<longrightarrow> e' = e))"

text \<open>
  The edges of \<^verbatim>\<open>main\<close> and of the function together: the call is the only edge to merge, and
  the two edges to be added are new.
\<close>

definition call_site :: "edge_map \<Rightarrow> string \<Rightarrow> string \<Rightarrow> string \<Rightarrow> string \<Rightarrow> string \<Rightarrow> bool" where
  "call_site F v w en ex r \<longleftrightarrow>
     (\<exists>e. F (v, w) = Some e \<and> to_merge e) \<and> (\<forall>k e. F k = Some e \<and> to_merge e \<longrightarrow> k = (v, w)) \<and>
     F (v, en) = None \<and> F (ex, r) = None \<and> distinct [v, w, en, ex] \<and> r \<in> {w, en}"

lemma united_edges:
  assumes "call_site F v w en ex r" "U = F((v, en) \<mapsto> ''control'', (ex, r) \<mapsto> ''control'')"
  shows "U k = Some e \<and> \<not> to_merge e \<longleftrightarrow> F k = Some e \<and> \<not> to_merge e"
    and "(\<exists>e. U k = Some e \<and> to_merge e) \<longleftrightarrow> k \<in> {(v, w), (v, en), (ex, r)}"
proof -
  have c: "to_merge ''control''" by (simp add: to_merge_def is_control_def)
  note s = assms(1) [unfolded call_site_def]
  show "U k = Some e \<and> \<not> to_merge e \<longleftrightarrow> F k = Some e \<and> \<not> to_merge e"
    using s c by (auto simp: assms(2))
  have "k \<in> {(v, en), (ex, r)} \<Longrightarrow> U k = Some ''control''" "k \<notin> {(v, en), (ex, r)} \<Longrightarrow> U k = F k"
    by (auto simp: assms(2))
  with s c show "(\<exists>e. U k = Some e \<and> to_merge e) \<longleftrightarrow> k \<in> {(v, w), (v, en), (ex, r)}"
    by (cases k; cases "k \<in> {(v, en), (ex, r)}") auto
qed

lemma spliced_iff:
  "distinct [v, w, en, ex] \<Longrightarrow>
     spliced v w en ex x = spliced v w en ex y \<longleftrightarrow> x = y \<or> x \<in> {v, w, en, ex} \<and> y \<in> {v, w, en, ex}"
  by (auto simp: spliced_def)

lemma united_links:
  assumes "call_site F v w en ex r" "U = F((v, en) \<mapsto> ''control'', (ex, r) \<mapsto> ''control'')"
  shows "(x, y) \<in> merge_link to_merge U \<longleftrightarrow> spliced v w en ex x = spliced v w en ex y"
proof
  note q = united_edges(2) [OF assms]
  have d: "distinct [v, w, en, ex]" "r \<in> {w, en}" using assms(1) by (simp_all add: call_site_def)
  assume "(x, y) \<in> merge_link to_merge U"
  moreover have "spliced v w en ex a = spliced v w en ex b" if "U (a, b) = Some e" "to_merge e" for a b e
    using q [of "(a, b)"] that d(2) by (auto simp: spliced_def)
  ultimately show "spliced v w en ex x = spliced v w en ex y" by (rule link_class [rotated])
next
  note q = united_edges(2) [OF assms]
  have d: "distinct [v, w, en, ex]" "r \<in> {w, en}" using assms(1) by (simp_all add: call_site_def)
  have link: "(a, b) \<in> merge_link to_merge U" if "(a, b) \<in> {(v, w), (v, en), (ex, r)}" for a b
    using q [of "(a, b)"] that merge_link_edge by metis
  have "(v, r) \<in> merge_link to_merge U" using link [of v w] link [of v en] d(2) by auto
  moreover have "(r, ex) \<in> merge_link to_merge U" using link [of ex r] by (simp add: merge_link_sym)
  ultimately have "(v, ex) \<in> merge_link to_merge U" by (rule merge_link_trans)
  then have all: "(v, a) \<in> merge_link to_merge U" if "a \<in> {v, w, en, ex}" for a
    using that link [of v w] link [of v en] by auto
  assume "spliced v w en ex x = spliced v w en ex y"
  then consider "x = y" | "x \<in> {v, w, en, ex}" "y \<in> {v, w, en, ex}" unfolding spliced_iff [OF d(1)] by blast
  then show "(x, y) \<in> merge_link to_merge U"
  proof cases
    case 2
    from merge_link_trans [OF merge_link_sym [OF all [OF 2(1)]] all [OF 2(2)]] show ?thesis .
  qed simp
qed

lemma united_forest:
  assumes "call_site F v w en ex r" "U = F((v, en) \<mapsto> ''control'', (ex, r) \<mapsto> ''control'')"
  shows "forest to_merge U"
proof (rule forestI)
  note q = united_edges(2) [OF assms]
  have d: "distinct [v, w, en, ex]" "r \<in> {w, en}" using assms(1) by (simp_all add: call_site_def)
  have other: "(x, y) \<in> {(v, w), (v, en), (ex, r)} - {k}"
    if "U (x, y) = Some e" "to_merge e" "(x, y) \<noteq> k" for x y e k
    using q [of "(x, y)"] that by blast
  fix a b e assume "U (a, b) = Some e" "to_merge e"
  then consider "(a, b) = (v, w)" | "(a, b) = (v, en)" | "(a, b) = (ex, r)" using q [of "(a, b)"] by blast
  then have "\<exists>c :: string \<Rightarrow> bool. c a \<noteq> c b \<and> (\<forall>k\<in>{(v, w), (v, en), (ex, r)} - {(a, b)}. c (fst k) = c (snd k))"
  proof cases
    case 1
    show ?thesis by (rule exI [of _ "\<lambda>x. x = w \<or> x = ex \<and> r = w"]) (use 1 d in auto)
  next
    case 2
    show ?thesis by (rule exI [of _ "\<lambda>x. x = en \<or> x = ex \<and> r = en"]) (use 2 d in auto)
  next
    case 3
    show ?thesis by (rule exI [of _ "\<lambda>x. x = ex"]) (use 3 d in auto)
  qed
  then obtain c :: "string \<Rightarrow> bool" where c: "c a \<noteq> c b"
    "\<forall>k\<in>{(v, w), (v, en), (ex, r)} - {(a, b)}. c (fst k) = c (snd k)" by blast
  have "c x = c y" if "U (x, y) = Some d" "to_merge d" "(x, y) \<noteq> (a, b)" for x y d
    using bspec [OF c(2) other [OF that]] by simp
  with c(1) show "\<exists>c :: string \<Rightarrow> bool. c a \<noteq> c b \<and>
      (\<forall>x y d. U (x, y) = Some d \<and> to_merge d \<and> (x, y) \<noteq> (a, b) \<longrightarrow> c x = c y)" by blast
qed

lemma united_lossless:
  assumes "call_site F v w en ex r" "U = F((v, en) \<mapsto> ''control'', (ex, r) \<mapsto> ''control'')"
    "apart (spliced v w en ex) F"
  shows "lossless to_merge U"
proof (rule losslessI [where c = "spliced v w en ex"])
  note e = united_edges(1) [OF assms(1,2)]
  show "spliced v w en ex x = spliced v w en ex y" if "U (x, y) = Some d" "to_merge d" for x y d
    using merge_link_edge [of U x y d to_merge, OF that] united_links [OF assms(1,2)] by blast
  show "spliced v w en ex x \<noteq> spliced v w en ex y" if "U (x, y) = Some d" "\<not> to_merge d" for x y d
    using e [of "(x, y)" d] that assms(3) unfolding apart_def by blast
  show "d' = d" if "U (x, y) = Some d" "U (x', y') = Some d'" "\<not> to_merge d" "\<not> to_merge d'"
    "spliced v w en ex x = spliced v w en ex x'" "spliced v w en ex y = spliced v w en ex y'" for x y d x' y' d'
    using e [of "(x, y)" d] e [of "(x', y')" d'] that assms(3) unfolding apart_def by metis
qed

section \<open>The graph of the program\<close>

text \<open>What the pass knows of the two functions when it combines them.\<close>

definition calls_once ::
    "'g graaf \<Rightarrow> ('g \<Rightarrow> bool) \<Rightarrow> 'g func_meta \<Rightarrow> 'g func_meta \<Rightarrow> string \<Rightarrow> string \<Rightarrow> string \<Rightarrow> bool" where
  "calls_once L ok m h f v w \<longleftrightarrow>
     cg_inv L ok (libcCallGraph m) \<and> cg_inv L ok (libcCallGraph h) \<and>
     dom (vertex_id_map (libcCallGraph m)) \<inter> dom (vertex_id_map (libcCallGraph h)) = {} \<and>
     {entryNode h, exitNode h} \<subseteq> dom (vertex_id_map (libcCallGraph h)) \<and>
     entryNode h \<noteq> exitNode h \<and> v \<noteq> w \<and>
     cg_edges L (libcCallGraph m) (v, w) = Some (''user:'' @ f) \<and>
     (\<forall>y. (v, y) \<in> dom (cg_edges L (libcCallGraph m)) \<longrightarrow> y = w) \<and>
     (\<forall>k e. cg_edges L (libcCallGraph m) k = Some e \<and> to_merge e \<longrightarrow> k = (v, w)) \<and>
     (\<forall>k e. cg_edges L (libcCallGraph h) k = Some e \<longrightarrow> \<not> to_merge e)"

context graaf_lib
begin

lemma cross_edge:
  assumes "cg_inv L ok g" "cg_inv L ok h" "dom (vertex_id_map g) \<inter> dom (vertex_id_map h) = {}"
    and "x \<in> dom (vertex_id_map g)" "y \<in> dom (vertex_id_map h)"
  shows "(cg_edges L g ++ cg_edges L h) (x, y) = None" "(cg_edges L g ++ cg_edges L h) (y, x) = None"
proof -
  have n: "x \<notin> dom (vertex_id_map h)" "y \<notin> dom (vertex_id_map g)" using assms(3-5) by blast+
  have "cg_edges L g (x, y) = None" "cg_edges L g (y, x) = None" "cg_edges L h (x, y) = None" "cg_edges L h (y, x) = None"
    using edge_ends [OF assms(1), of x y] edge_ends [OF assms(1), of y x] edge_ends [OF assms(2), of x y]
      edge_ends [OF assms(2), of y x] n by (metis option.exhaust)+
  then show "(cg_edges L g ++ cg_edges L h) (x, y) = None" "(cg_edges L g ++ cg_edges L h) (y, x) = None"
    by (simp_all add: map_add_def)
qed

lemma calls_once_site:
  assumes "calls_once L ok m h f v w" "r \<in> {w, entryNode h}"
    and F: "F = cg_edges L (libcCallGraph m) ++ cg_edges L (libcCallGraph h)"
    and "apart (spliced v w (entryNode h) (exitNode h)) F"
  shows "call_site F v w (entryNode h) (exitNode h) r"
proof -
  let ?g = "libcCallGraph m" and ?h = "libcCallGraph h"
  have i: "cg_inv L ok ?g" "cg_inv L ok ?h" "dom (vertex_id_map ?g) \<inter> dom (vertex_id_map ?h) = {}"
    "entryNode h \<in> dom (vertex_id_map ?h)" "exitNode h \<in> dom (vertex_id_map ?h)"
    and n: "entryNode h \<noteq> exitNode h" "v \<noteq> w"
    and E: "cg_edges L ?g (v, w) = Some (''user:'' @ f)"
    "\<And>k e. cg_edges L ?g k = Some e \<Longrightarrow> to_merge e \<Longrightarrow> k = (v, w)"
    "\<And>k e. cg_edges L ?h k = Some e \<Longrightarrow> \<not> to_merge e"
    using assms(1) unfolding calls_once_def by blast+
  have vw: "v \<in> dom (vertex_id_map ?g)" "w \<in> dom (vertex_id_map ?g)" using edge_ends [OF i(1) E(1)] by simp_all
  then have d: "distinct [v, w, entryNode h, exitNode h]" using i(3-5) n by auto
  have "cg_edges L ?h (v, w) = None" using edge_ends [OF i(2), of v w] vw i(3) by (cases "cg_edges L ?h (v, w)") auto
  then have "F (v, w) = Some (''user:'' @ f)" using E(1) by (simp add: F map_add_def)
  moreover have "to_merge (''user:'' @ f)" by (simp add: to_merge_def is_user_def starts_with_def)
  moreover have only: "k = (v, w)" if "F k = Some e" "to_merge e" for k e
    using that E(2,3) by (auto simp: F map_add_def split: option.splits)
  moreover have "F (v, entryNode h) = None" "F (exitNode h, w) = None"
    unfolding F using cross_edge [OF i(1-3)] vw i(4,5) by blast+
  moreover have "F (exitNode h, entryNode h) = None"
  proof (rule ccontr)
    assume "F (exitNode h, entryNode h) \<noteq> None"
    then obtain e where e: "F (exitNode h, entryNode h) = Some e" by blast
    with only [OF e] d have "\<not> to_merge e" by auto
    with e assms(4) have "spliced v w (entryNode h) (exitNode h) (exitNode h) \<noteq>
      spliced v w (entryNode h) (exitNode h) (entryNode h)" unfolding apart_def by blast
    then show False by (simp add: spliced_def)
  qed
  ultimately show ?thesis using d assms(2) unfolding call_site_def by blast
qed

text \<open>The loop over the vertices of \<^verbatim>\<open>main\<close>.\<close>

lemma inline_called:
  assumes "h = meta_of L ms f" "calls_once L ok m h f v w"
    and "cg_edges L (libcCallGraph h) (exitNode h, entryNode h) = None"
  shows "\<exists>ms' g' r. inline_vertices L (get_vertices L (libcCallGraph m)) (ms, libcCallGraph m) = Inr (ms', g') \<and>
    cg_inv L ok g' \<and> r \<in> {w, entryNode h} \<and> cg_edges L g' =
      united (cg_edges L (libcCallGraph m)) (cg_edges L (libcCallGraph h)) v (entryNode h) (exitNode h) r"
proof -
  let ?g = "libcCallGraph m" and ?h = "libcCallGraph h"
  have i: "cg_inv L ok ?g" "cg_inv L ok ?h" "dom (vertex_id_map ?g) \<inter> dom (vertex_id_map ?h) = {}"
    "entryNode h \<in> dom (vertex_id_map ?h)" "exitNode h \<in> dom (vertex_id_map ?h)"
    and E: "cg_edges L ?g (v, w) = Some (''user:'' @ f)"
    "\<And>k e. cg_edges L ?g k = Some e \<Longrightarrow> to_merge e \<Longrightarrow> k = (v, w)"
    and vy: "\<forall>y. (v, y) \<in> dom (cg_edges L ?g) \<longleftrightarrow> y = w"
    using assms(2) unfolding calls_once_def by blast+
  have "v \<in> set (get_vertices L ?g)"
    using edge_ends [OF i(1) E(1)] get_vertices_inv(2) [OF i(1)] by simp
  then obtain xs ys where vs: "get_vertices L ?g = xs @ v # ys" by (auto dest: split_list)
  with get_vertices_inv [OF i(1)] have nv: "v \<notin> set xs" "v \<notin> set ys" "set ys \<subseteq> dom (vertex_id_map ?g)" by auto
  have "\<forall>u\<in>set xs. \<forall>y e. cg_edges L ?g (u, y) = Some e \<longrightarrow> \<not> is_user e"
    using E(2) nv(1) by (fastforce simp: to_merge_def)
  note a = inline_skip [OF i(1) this, of ms]
  obtain ms' g' r where b: "inline_calls L v [''user:'' @ f] (ms, ?g) = Inr (ms', g')" "cg_inv L ok g'"
    "r \<in> {w, entryNode h}"
    "cg_edges L g' = united (cg_edges L ?g) (cg_edges L ?h) v (entryNode h) (exitNode h) r"
    using inline_one [OF i(1) assms(1) i(2-5) assms(3) vy] by blast
  obtain ns where ns: "lists_neighbors L ?g v ns"
    "get_outgoing_edges L v ?g = Inr (map (\<lambda>w. the (cg_edges L ?g (v, w))) ns)"
    using queries [OF i(1), of v] by metis
  then have "set ns = {w}" "distinct ns" using vy by (simp_all add: lists_neighbors_def)
  then have "ns = [w]" by (cases ns; cases "tl ns") auto
  with ns(2) E(1) have out: "get_outgoing_edges L v ?g = Inr [''user:'' @ f]" by simp
  have "\<not> is_user e" if u: "u \<in> set ys" and e: "cg_edges L g' (u, y) = Some e" for u y e
  proof
    assume e': "is_user e"
    have "u \<noteq> v" "u \<notin> dom (vertex_id_map ?h)" "u \<noteq> exitNode h" using u nv(2,3) i(3,5) by blast+
    moreover from this have "cg_edges L ?h (u, y) = None"
      using edge_ends [OF i(2), of u y] by (cases "cg_edges L ?h (u, y)") auto
    ultimately have "cg_edges L ?g (u, y) = Some e" using e by (simp add: b(4) united_def map_add_def)
    from E(2) [OF this] e' \<open>u \<noteq> v\<close> show False by (simp add: to_merge_def)
  qed
  then have c: "inline_vertices L ys (ms', g') = Inr (ms', g')" using inline_skip [OF b(2)] by blast
  have "inline_vertices L (get_vertices L ?g) (ms, ?g) = Inr (ms', g')"
    using a out b(1) c unfolding vs inline_vertices_append by (simp del: inline_calls.simps)
  with b(2-4) show ?thesis by blast
qed

lemma combine_called:
  assumes "m = meta_of L ms ''main''" "h = meta_of L ms f" "calls_once L ok m h f v w"
    and F: "F = cg_edges L (libcCallGraph m) ++ cg_edges L (libcCallGraph h)"
    and "c = spliced v w (entryNode h) (exitNode h)" "apart c F"
  shows "\<exists>n. \<forall>fuel>n. \<exists>ms' fg q. CombineLibcgGraph L fuel ms = Some (Inr (ms', fg)) \<and>
    (\<forall>x y. q x = q y \<longleftrightarrow> c x = c y) \<and>
    (\<forall>a b e. cg_edges L (finalGraph fg) (a, b) = Some e \<longleftrightarrow>
       (\<exists>x y. F (x, y) = Some e \<and> \<not> to_merge e \<and> q x = a \<and> q y = b))"
proof -
  let ?g = "libcCallGraph m" and ?h = "libcCallGraph h"
  obtain ms1 where mi: "map_index ''main'' (meta_init L) ms = (m, ms1)"
    using map_index_meta(1) assms(1) by (metis surj_pair)
  have h: "h = meta_of L ms1 f" using map_index_meta(2) [OF mi] assms(2) by simp
  note site = calls_once_site [OF assms(3) _ F assms(6) [unfolded assms(5)]]
  have "F (exitNode h, entryNode h) = None" using site [of "entryNode h"] by (simp add: call_site_def)
  then have "cg_edges L ?h (exitNode h, entryNode h) = None" by (simp add: F map_add_def split: option.splits)
  from inline_called [OF h assms(3) this] obtain ms2 g r where
    g: "inline_vertices L (get_vertices L ?g) (ms1, ?g) = Inr (ms2, g)" "cg_inv L ok g" "r \<in> {w, entryNode h}"
    "cg_edges L g = F((v, entryNode h) \<mapsto> ''control'', (exitNode h, r) \<mapsto> ''control'')"
    unfolding united_def F by blast
  note s = site [OF g(3)]
  have Q: "to_merge e \<longleftrightarrow> (\<exists>P\<in>set [is_control, is_user]. P e)" for e by (simp add: to_merge_def)
  show ?thesis
  proof (intro exI [of _ "card (dom (vertex_id_map g))"] allI impI)
    fix fuel assume "card (dom (vertex_id_map g)) < fuel"
    from merge_loop_inv [OF g(2) merged_from_refl Q this, of "exitNode m"] obtain x' g' where
      l: "merge_loop L [is_control, is_user] fuel (exitNode m, g) = Some (Inr (x', g'))"
      "\<forall>k e. cg_edges L g' k = Some e \<longrightarrow> \<not> to_merge e" by blast
    have "merge_state to_merge (cg_edges L g) (exitNode m) (cg_edges L g') x'"
      by (rule merge_loop_quotient [OF united_lossless [OF s g(4) assms(6) [unfolded assms(5)]] _ g(2)
            merge_state_start [OF united_forest [OF s g(4)]] l(1)]) (simp add: to_merge_def)
    then obtain q where "merge_map to_merge (cg_edges L g) (cg_edges L g') q" by (auto simp: merge_state_def)
    from merged_exactly [OF this l(2)] have q: "\<forall>x y. q x = q y \<longleftrightarrow> c x = c y"
      "\<forall>a b e. cg_edges L g' (a, b) = Some e \<longleftrightarrow> (\<exists>x y. F (x, y) = Some e \<and> \<not> to_merge e \<and> q x = a \<and> q y = b)"
      using united_links [OF s g(4)] united_edges(1) [OF s g(4)] unfolding exact_quotient_def assms(5) by blast+
    have "CombineLibcgGraph L fuel ms = Some (Inr (ms2, \<lparr>finalGraph = g', finalGraphEntryNode = entryNode m,
        finalGraphExitNode = x'\<rparr>))" using mi g(1) l(1) by (simp add: CombineLibcgGraph_def)
    with q show "\<exists>ms' fg q. CombineLibcgGraph L fuel ms = Some (Inr (ms', fg)) \<and>
      (\<forall>x y. q x = q y \<longleftrightarrow> c x = c y) \<and>
      (\<forall>a b e. cg_edges L (finalGraph fg) (a, b) = Some e \<longleftrightarrow>
         (\<exists>x y. F (x, y) = Some e \<and> \<not> to_merge e \<and> q x = a \<and> q y = b))"
      by (intro exI [of _ ms2] exI [of _ "\<lparr>finalGraph = g', finalGraphEntryNode = entryNode m,
        finalGraphExitNode = x'\<rparr>"] exI [of _ q]) simp
  qed
qed

text \<open>Walks of the two graphs in the graph of the program.\<close>

lemma walk_united:
  fixes E F :: edge_map
  assumes "\<And>k e. E k = Some e \<Longrightarrow> F k = Some e"
    and "\<And>x y e. F (x, y) = Some e \<Longrightarrow> (if to_merge e then q x = q y else G (q x, q y) = Some e)"
    and "spells E u es z"
  shows "spells G (q u) (filter (\<lambda>e. \<not> to_merge e) es) (q z)"
  using assms(3)
proof (induction rule: spells.induct)
  case (step u v e es w)
  from assms(2) [OF assms(1) [OF step(1)]] step(3) show ?case
    by (cases "to_merge e") (auto intro: spells.step)
qed (simp add: spells.stay)

lemma called_edges:
  assumes "calls_once L ok m h f v w"
    and F: "F = cg_edges L (libcCallGraph m) ++ cg_edges L (libcCallGraph h)"
  shows "cg_edges L (libcCallGraph m) k = Some e \<Longrightarrow> F k = Some e"
    "cg_edges L (libcCallGraph h) k = Some e \<Longrightarrow> F k = Some e"
    "F (x, y) = Some e \<Longrightarrow> to_merge e \<Longrightarrow> x = v \<and> y = w"
proof -
  have i: "cg_inv L ok (libcCallGraph m)" "cg_inv L ok (libcCallGraph h)"
    "dom (vertex_id_map (libcCallGraph m)) \<inter> dom (vertex_id_map (libcCallGraph h)) = {}"
    and E: "\<And>k e. cg_edges L (libcCallGraph m) k = Some e \<Longrightarrow> to_merge e \<Longrightarrow> k = (v, w)"
    "\<And>k e. cg_edges L (libcCallGraph h) k = Some e \<Longrightarrow> \<not> to_merge e"
    using assms(1) unfolding calls_once_def by blast+
  have "cg_edges L (libcCallGraph h) k = None" if "cg_edges L (libcCallGraph m) k = Some e"
    using edge_ends [OF i(1), of "fst k" "snd k" e] edge_ends [OF i(2), of "fst k" "snd k"] i(3) that
    by (cases "cg_edges L (libcCallGraph h) k") auto
  then show "cg_edges L (libcCallGraph m) k = Some e \<Longrightarrow> F k = Some e" by (simp add: F map_add_def)
  show "cg_edges L (libcCallGraph h) k = Some e \<Longrightarrow> F k = Some e" by (simp add: F)
  show "F (x, y) = Some e \<Longrightarrow> to_merge e \<Longrightarrow> x = v \<and> y = w"
    using E by (fastforce simp: F map_add_def split: option.splits)
qed

end

end
