(* ===== verification/SplicedSpec.thy ===== *)
theory SplicedSpec
  imports CalleeSpec
begin

text \<open>
  A function spliced into \<^verbatim>\<open>main\<close>, from the control flow of the two to the graph of the program:
  merging the two graphs one by one, connecting and merging again gives the quotient of the two
  expanded graphs connected at the call.
\<close>

section \<open>Two expanded graphs and a call\<close>

lemma to_merge_labels [simp]: "to_merge ''control''" "to_merge (''user:'' @ f)"
  by (simp_all add: to_merge_def is_control_def is_user_def starts_with_def)

text \<open>No vertex and no edge in common.\<close>

definition side_by_side :: "string set \<Rightarrow> edge_map \<Rightarrow> string set \<Rightarrow> edge_map \<Rightarrow> bool" where
  "side_by_side V E W H \<longleftrightarrow> V \<inter> W = {} \<and>
     (\<forall>x y e. E (x, y) = Some e \<longrightarrow> x \<in> V \<and> y \<in> V) \<and> (\<forall>x y e. H (x, y) = Some e \<longrightarrow> x \<in> W \<and> y \<in> W)"

lemma side_by_sideD:
  assumes "side_by_side V E W H"
  shows "E (x, y) = Some e \<Longrightarrow> x \<in> V \<and> y \<in> V \<and> x \<notin> W \<and> y \<notin> W"
    "H (x, y) = Some e \<Longrightarrow> x \<in> W \<and> y \<in> W"
  using assms unfolding side_by_side_def by blast+

text \<open>
  The call of \<open>f\<close> from \<open>v\<close> to \<open>w\<close> is the only call of a function of the program and the only call that leaves
  the class of \<open>v\<close>; \<open>f\<close> calls library functions only, keeps its entry vertex and can return, from another vertex.
\<close>

definition one_call :: "edge_map \<Rightarrow> edge_map \<Rightarrow> string \<Rightarrow> string \<Rightarrow> string \<Rightarrow> string \<Rightarrow> string \<Rightarrow> bool" where
  "one_call E H f v w en ex \<longleftrightarrow>
     E (v, w) = Some (''user:'' @ f) \<and>
     (\<forall>k e. E k = Some e \<and> is_user e \<longrightarrow> k = (v, w)) \<and>
     (\<forall>x y e. E (x, y) = Some e \<and> \<not> is_control e \<and> (x, v) \<in> merge_link is_control E \<longrightarrow> (x, y) = (v, w)) \<and>
     (\<forall>k e. H k = Some e \<longrightarrow> \<not> is_user e) \<and>
     rooted is_control H en \<and> en \<noteq> ex \<and> (\<exists>es. spells H en es ex)"

lemma one_callD:
  assumes "one_call E H f v w en ex"
  shows "E (v, w) = Some (''user:'' @ f)" "E k = Some e \<Longrightarrow> is_user e \<Longrightarrow> k = (v, w)"
    "E (x, y) = Some e \<Longrightarrow> \<not> is_control e \<Longrightarrow> (x, v) \<in> merge_link is_control E \<Longrightarrow> x = v \<and> y = w"
    "H k = Some e \<Longrightarrow> \<not> is_user e" "rooted is_control H en" "\<exists>es. spells H en es ex"
    "en \<noteq> ex"
  using assms unfolding one_call_def by blast+

lemma user_call_kind: "\<not> is_control (''user:'' @ f)"
  by (simp add: is_control_def)

text \<open>The edges of the two graphs once they are connected.\<close>

lemma united_iff:
  assumes "side_by_side V E W H" "one_call E H f v w en ex" "en \<in> W" "ex \<in> W" "U = united E H v en ex w"
  shows "U k = Some e \<longleftrightarrow> E k = Some e \<or> H k = Some e \<or> k \<in> {(v, en), (ex, w)} \<and> e = ''control''"
proof -
  obtain a b where k: "k = (a, b)" by (metis surj_pair)
  have s: "V \<inter> W = {}" "\<And>x y e. E (x, y) = Some e \<Longrightarrow> x \<in> V \<and> y \<in> V"
    "\<And>x y e. H (x, y) = Some e \<Longrightarrow> x \<in> W \<and> y \<in> W" using assms(1) unfolding side_by_side_def by blast+
  have vw: "v \<in> V" "w \<in> V" using s(2) one_callD(1) [OF assms(2)] by blast+
  have new: "E k = None" "H k = None" if "k \<in> {(v, en), (ex, w)}"
    using that s vw assms(3,4) by (cases "E k"; cases "H k"; fastforce simp: k)+
  have "E k = None \<or> H k = None" using s by (cases "E k"; cases "H k"; fastforce simp: k)
  with new show ?thesis by (auto simp: assms(5) united_def map_add_def split: option.splits)
qed

lemma forest_mono:
  assumes "\<And>k e. E k = Some e \<Longrightarrow> P e \<Longrightarrow> U k = Some e \<and> Q e" "forest Q U"
  shows "forest P E"
  unfolding forest_def
proof (intro allI impI notI, elim conjE)
  fix u v e assume e: "E (u, v) = Some e" "P e" "(u, v) \<in> merge_link P (E((u, v) := None))"
  have step: "(x, y) \<in> merge_link Q (U((u, v) := None))" if "(E((u, v) := None)) (x, y) = Some d" "P d" for x y d
  proof -
    have "(U((u, v) := None)) (x, y) = Some d" "Q d" using that assms(1) [of "(x, y)" d] by (auto split: if_splits)
    then show ?thesis by (rule merge_link_edge)
  qed
  have "(u, v) \<in> merge_link Q (U((u, v) := None))" by (rule merge_link_into [OF step e(3)])
  with assms(1) [OF e(1,2)] assms(2) show False unfolding forest_def by blast
qed

text \<open>What holds of the connected graphs holds of each of them.\<close>

lemma united_parts:
  assumes "side_by_side V E W H" "one_call E H f v w en ex" "en \<in> W" "ex \<in> W" "U = united E H v en ex w"
    and "forest to_merge U"
  shows "forest is_control E" "forest is_control H" "(v, w) \<notin> merge_link is_control E"
    "(en, ex) \<notin> merge_link is_control H"
proof -
  note u = united_iff [OF assms(1-5)]
  have m: "is_control e \<Longrightarrow> to_merge e" for e by (simp add: to_merge_def)
  show "forest is_control E" "forest is_control H" using forest_mono [OF _ assms(6)] u m by blast+
  let ?U = "U((v, w) := None)"
  have vw: "v \<in> V" "w \<in> V" "v \<notin> W" "w \<notin> W"
    using assms(1) one_callD(1) [OF assms(2)] unfolding side_by_side_def by blast+
  then have ne: "(v, w) \<noteq> (v, en)" "(v, w) \<noteq> (ex, w)" using assms(3,4) by auto
  have sub: "(x, y) \<in> merge_link to_merge ?U" if "U (x, y) = Some d" "to_merge d" "(x, y) \<noteq> (v, w)" for x y d
    using merge_link_edge [of ?U x y d to_merge] that by auto
  have no: "(v, w) \<notin> merge_link to_merge ?U"
    using assms(6) u [of "(v, w)"] one_callD(1) [OF assms(2)] to_merge_labels(2) unfolding forest_def by blast
  have E: "(x, y) \<in> merge_link to_merge ?U" if "E (x, y) = Some d" "is_control d" for x y d
  proof (rule sub)
    show "(x, y) \<noteq> (v, w)" using that one_callD(1) [OF assms(2)] user_call_kind [of f] by auto
  qed (use that u m in blast)+
  show "(v, w) \<notin> merge_link is_control E" by (rule contrapos_nn [OF no], rule merge_link_into [OF E])
  have H: "(x, y) \<in> merge_link to_merge ?U" if "H (x, y) = Some d" "is_control d" for x y d
  proof (rule sub)
    show "(x, y) \<noteq> (v, w)" using that(1) assms(1) vw(3) unfolding side_by_side_def by blast
  qed (use that u m in blast)+
  have l: "(v, en) \<in> merge_link to_merge ?U" "(ex, w) \<in> merge_link to_merge ?U"
    using sub [of v en "''control''"] sub [of ex w "''control''"] u ne by simp_all
  show "(en, ex) \<notin> merge_link is_control H"
  proof
    assume c: "(en, ex) \<in> merge_link is_control H"
    have "(en, ex) \<in> merge_link to_merge ?U" by (rule merge_link_into [OF _ c]) (rule H)
    with l no show False by (blast intro: merge_link_trans)
  qed
qed

lemma united_parts_lossless:
  assumes "side_by_side V E W H" "one_call E H f v w en ex" "en \<in> W" "ex \<in> W" "U = united E H v en ex w"
    and "forest to_merge U" "lossless to_merge U"
  shows "lossless is_control E" "lossless is_control H"
proof -
  note u = united_iff [OF assms(1-5)] and call = one_callD [OF assms(2)]
  have m: "is_control e \<Longrightarrow> to_merge e" for e by (simp add: to_merge_def)
  have link: "(x, y) \<in> merge_link to_merge U" if "(x, y) \<in> merge_link is_control G" "G = E \<or> G = H" for x y G
    by (rule merge_link_into [OF _ that(1)], rule merge_link_edge) (use that(2) u m in blast)+
  have vw: "(v, w) \<in> merge_link to_merge U"
    using u [of "(v, w)"] call(1) to_merge_labels(2) [of f] merge_link_edge [of U v w] by blast
  have lib: "(x, y) \<notin> merge_link to_merge U"
    "U (x', y') = Some e' \<Longrightarrow> \<not> to_merge e' \<Longrightarrow> (x, x') \<in> merge_link to_merge U \<Longrightarrow>
       (y, y') \<in> merge_link to_merge U \<Longrightarrow> e' = e" if "U (x, y) = Some e" "\<not> to_merge e" for x y e x' y' e'
    using assms(7) that unfolding lossless_def by blast+
  have part: "lossless is_control G" if G: "G = E \<or> G = H" for G
    unfolding lossless_def
  proof (intro allI impI conjI, goal_cases)
    case (1 x y e)
    then show ?case
      using lib(1) [of x y e] link [of x y G] u [of "(x, y)" e] G united_parts(3) [OF assms(1-6)]
        call(2) [of "(x, y)" e] call(4) [of "(x, y)" e] unfolding to_merge_def by auto
  next
    case (2 x y e x' y' e')
    then have U: "U (x, y) = Some e" "U (x', y') = Some e'" "\<not> is_control e" "\<not> is_control e'"
      "(x, x') \<in> merge_link to_merge U" "(y, y') \<in> merge_link to_merge U"
      using u G link [of x x' G] link [of y y' G] by blast+
    have user: "(a, b) = (v, w)" "d = ''user:'' @ f" if "G (a, b) = Some d" "is_user d" for a b d
      using that G call(1) call(2) [of "(a, b)" d] call(4) [of "(a, b)" d] by auto
    have apart: False if "U (a, b) = Some d" "\<not> to_merge d" "(v, a) \<in> merge_link to_merge U" "(w, b) \<in> merge_link to_merge U" for a b d
      using lib(1) [OF that(1,2)] that(3,4) vw by (blast intro: merge_link_trans merge_link_sym)
    show ?case
    proof (cases "is_user e"; cases "is_user e'")
      assume "is_user e" "is_user e'"
      with 2 user(2) show ?case by metis
    next
      assume "is_user e" "\<not> is_user e'"
      with 2 user(1) [of x y e] U(4) apart [OF U(2)] U(5,6) show ?case by (auto simp: to_merge_def)
    next
      assume "\<not> is_user e" "is_user e'"
      with 2 user(1) [of x' y' e'] U(3) apart [OF U(1)] U(5,6) show ?case
        by (auto simp: to_merge_def intro: merge_link_sym)
    next
      assume "\<not> is_user e" "\<not> is_user e'"
      with U lib(2) show ?case by (auto simp: to_merge_def)
    qed
  qed
  then show "lossless is_control E" "lossless is_control H" by blast+
qed

section \<open>Two quotients connected\<close>

text \<open>A merged graph with the map that takes each vertex to the one that stands for its class.\<close>

definition stands_for :: "edge_map \<Rightarrow> edge_map \<Rightarrow> (string \<Rightarrow> string) \<Rightarrow> bool" where
  "stands_for E E' q \<longleftrightarrow> exact_quotient is_control E E' q \<and> (\<forall>u. (u, q u) \<in> merge_link is_control E)"

lemma stands_forD:
  assumes "stands_for E E' q"
  shows "q u = q v \<longleftrightarrow> (u, v) \<in> merge_link is_control E" "(u, q u) \<in> merge_link is_control E"
    "E' (a, b) = Some e \<longleftrightarrow> (\<exists>x y. E (x, y) = Some e \<and> \<not> is_control e \<and> q x = a \<and> q y = b)"
  using assms unfolding stands_for_def exact_quotient_def by metis+

lemma stands_for_in:
  assumes "stands_for E E' q" "\<And>x y e. E (x, y) = Some e \<Longrightarrow> x \<in> A \<longleftrightarrow> y \<in> A"
  shows "q u \<in> A \<longleftrightarrow> u \<in> A"
  using link_class [of E is_control "\<lambda>x. x \<in> A" u "q u"] assms(2) stands_forD(2) [OF assms(1)] by blast

lemma stands_for_calls:
  assumes "stands_for E E' q" "\<And>x y e. E (x, y) = Some e \<Longrightarrow> p x = q x \<and> p y = q y"
  shows "E' (a, b) = Some e \<and> \<not> to_merge e \<longleftrightarrow> (\<exists>x y. E (x, y) = Some e \<and> \<not> to_merge e \<and> p x = a \<and> p y = b)"
  unfolding stands_forD(3) [OF assms(1)] to_merge_def using assms(2) by metis

definition beside :: "string set \<Rightarrow> (string \<Rightarrow> string) \<Rightarrow> (string \<Rightarrow> string) \<Rightarrow> string \<Rightarrow> string" where
  "beside W q q' x = (if x \<in> W then q' x else q x)"

lemma beside_in:
  assumes "side_by_side V E W H" "stands_for E E' q" "stands_for H H' q'"
  shows "beside W q q' x \<in> W \<longleftrightarrow> x \<in> W"
proof -
  have "q x \<in> W \<longleftrightarrow> x \<in> W" by (rule stands_for_in [OF assms(2)]) (use side_by_sideD [OF assms(1)] in blast)
  moreover have "q' x \<in> W \<longleftrightarrow> x \<in> W" by (rule stands_for_in [OF assms(3)]) (use side_by_sideD [OF assms(1)] in blast)
  ultimately show ?thesis by (simp add: beside_def)
qed

text \<open>Two vertices end up in one class exactly when the merged edges of the connected graphs link them.\<close>

lemma spliced_classes:
  assumes "side_by_side V E W H" "one_call E H f v w en ex" "en \<in> W" "ex \<in> W" "U = united E H v en ex w"
    and "stands_for E E' q" "stands_for H H' q'" "p = beside W q q'" "c = spliced (q v) (q w) (q' en) (q' ex)"
  shows "c (p x) = c (p y) \<longleftrightarrow> (x, y) \<in> merge_link to_merge U"
proof
  note u = united_iff [OF assms(1-5)] and call = one_callD [OF assms(2)]
  have m: "is_control e \<Longrightarrow> to_merge e" for e by (simp add: to_merge_def)
  have part: "(a, b) \<in> merge_link to_merge U" if "(a, b) \<in> merge_link is_control G" "G = E \<or> G = H" for a b G
    by (rule merge_link_into [OF _ that(1)], rule merge_link_edge) (use that(2) u m in blast)+
  have p: "(x, p x) \<in> merge_link to_merge U" for x
    using part [OF stands_forD(2) [OF assms(6)], of x] part [OF stands_forD(2) [OF assms(7)], of x]
    by (simp add: assms(8) beside_def)
  note s = merge_link_sym [of _ _ to_merge U] and t = merge_link_trans [of _ _ to_merge U]
  have link: "(v, q v) \<in> merge_link to_merge U" "(w, q w) \<in> merge_link to_merge U"
    "(en, q' en) \<in> merge_link to_merge U" "(ex, q' ex) \<in> merge_link to_merge U"
    using part stands_forD(2) [OF assms(6)] stands_forD(2) [OF assms(7)] by blast+
  have new: "(v, w) \<in> merge_link to_merge U" "(v, en) \<in> merge_link to_merge U" "(ex, w) \<in> merge_link to_merge U"
    using u call(1) merge_link_edge [of U _ _ _ to_merge] to_merge_labels by blast+
  have ends: "(a, q v) \<in> merge_link to_merge U" if "a \<in> {q w, q' en, q' ex}" for a
    using that link new by (elim insertE emptyE) (blast intro: s t)+
  have c: "(z, c z) \<in> merge_link to_merge U" for z
    using ends [of z] by (simp add: assms(9) spliced_def)
  assume "c (p x) = c (p y)"
  with t [OF p c] have "(x, c (p y)) \<in> merge_link to_merge U" by metis
  with t [OF p c, of y] show "(x, y) \<in> merge_link to_merge U" by (blast intro: s t)
next
  note u = united_iff [OF assms(1-5)] and call = one_callD [OF assms(2)]
  note side = assms(1) [unfolded side_by_side_def]
  have pv: "p z = q z" if "z \<in> V" for z using that side by (auto simp: assms(8) beside_def)
  have ph: "p z = q' z" if "z \<in> W" for z using that by (simp add: assms(8) beside_def)
  have vw: "v \<in> V" "w \<in> V" using side call(1) by blast+
  assume "(x, y) \<in> merge_link to_merge U"
  moreover have "c (p a) = c (p b)" if e: "U (a, b) = Some e" "to_merge e" for a b e
  proof -
    consider (main) "E (a, b) = Some e" | (fun_edge) "H (a, b) = Some e" | (new) "(a, b) \<in> {(v, en), (ex, w)}"
      using u [of "(a, b)" e] e(1) by blast
    then show ?thesis
    proof cases
      case main
      then have in_V: "a \<in> V" "b \<in> V" using side by blast+
      show ?thesis
      proof (cases "is_control e")
        case True
        with main have "(a, b) \<in> merge_link is_control E" by (rule merge_link_edge)
        then have "q a = q b" by (simp add: stands_forD(1) [OF assms(6)])
        then show ?thesis using in_V by (simp add: pv)
      next
        case False
        with e(2) have "is_user e" by (simp add: to_merge_def)
        with call(2) [OF main] vw show ?thesis by (simp add: pv assms(9) spliced_def)
      qed
    next
      case fun_edge
      then have in_W: "a \<in> W" "b \<in> W" using side by blast+
      from call(4) [OF fun_edge] e(2) have "is_control e" by (simp add: to_merge_def)
      with fun_edge have "(a, b) \<in> merge_link is_control H" by (rule merge_link_edge)
      then have "q' a = q' b" by (simp add: stands_forD(1) [OF assms(7)])
      then show ?thesis using in_W by (simp add: ph)
    next
      case new
      with vw assms(3,4) show ?thesis by (auto simp: pv ph assms(9) spliced_def)
    qed
  qed
  ultimately show "c (p x) = c (p y)" by (rule link_class [rotated])
qed

text \<open>The calls are those of the two functions.\<close>

lemma spliced_edges:
  assumes "side_by_side V E W H" "one_call E H f v w en ex" "en \<in> W" "ex \<in> W" "U = united E H v en ex w"
    and "stands_for E E' q" "stands_for H H' q'" "p = beside W q q'"
  shows "(E' ++ H') (a, b) = Some e \<and> \<not> to_merge e \<longleftrightarrow>
    (\<exists>x y. U (x, y) = Some e \<and> \<not> to_merge e \<and> p x = a \<and> p y = b)"
proof -
  note u = united_iff [OF assms(1-5)] and call = one_callD [OF assms(2)]
  note side = side_by_sideD [OF assms(1)]
  have E': "E' (a, b) = Some e \<and> \<not> to_merge e \<longleftrightarrow>
      (\<exists>x y. E (x, y) = Some e \<and> \<not> to_merge e \<and> p x = a \<and> p y = b)"
    by (rule stands_for_calls [OF assms(6)]) (use side(1) in \<open>simp add: assms(8) beside_def\<close>)
  have H': "H' (a, b) = Some e \<and> \<not> to_merge e \<longleftrightarrow>
      (\<exists>x y. H (x, y) = Some e \<and> \<not> to_merge e \<and> p x = a \<and> p y = b)"
    by (rule stands_for_calls [OF assms(7)]) (use side(2) in \<open>simp add: assms(8) beside_def\<close>)
  have "a \<in> W" if "H' (a, b) = Some e" for e
  proof -
    from that obtain x y where x: "H (x, y) = Some e" "q' x = a" unfolding stands_forD(3) [OF assms(7)] by blast
    have "q' x \<in> W \<longleftrightarrow> x \<in> W" by (rule stands_for_in [OF assms(7)]) (use side in blast)
    with x side(2) [OF x(1)] show ?thesis by simp
  qed
  moreover have "a \<notin> W" if "E' (a, b) = Some e" for e
  proof -
    from that obtain x y where x: "E (x, y) = Some e" "q x = a" unfolding stands_forD(3) [OF assms(6)] by blast
    have "q x \<in> W \<longleftrightarrow> x \<in> W" by (rule stands_for_in [OF assms(6)]) (use side in blast)
    with x side(1) [OF x(1)] show ?thesis by simp
  qed
  ultimately have "(E' ++ H') (a, b) = Some e \<longleftrightarrow> E' (a, b) = Some e \<or> H' (a, b) = Some e"
    by (cases "H' (a, b)") (auto simp: map_add_def)
  then have F: "(E' ++ H') (a, b) = Some e \<and> \<not> to_merge e \<longleftrightarrow>
      E' (a, b) = Some e \<and> \<not> to_merge e \<or> H' (a, b) = Some e \<and> \<not> to_merge e" by blast
  have "U (x, y) = Some e \<and> \<not> to_merge e \<longleftrightarrow>
      E (x, y) = Some e \<and> \<not> to_merge e \<or> H (x, y) = Some e \<and> \<not> to_merge e" for x y
    using u [of "(x, y)" e] to_merge_labels(1) by blast
  then show ?thesis unfolding F E' H' by blast
qed

lemma spliced_apart:
  assumes "side_by_side V E W H" "one_call E H f v w en ex" "en \<in> W" "ex \<in> W" "U = united E H v en ex w"
    and "stands_for E E' q" "stands_for H H' q'" "p = beside W q q'" "c = spliced (q v) (q w) (q' en) (q' ex)"
    and "lossless to_merge U"
  shows "apart c (E' ++ H')"
  unfolding apart_def
proof (intro allI impI conjI, goal_cases)
  note cl = spliced_classes [OF assms(1-9)] and ed = spliced_edges [OF assms(1-8)]
  {
    case (1 x y e)
    with ed [of x y e] obtain a b where ab: "U (a, b) = Some e" "\<not> to_merge e" "p a = x" "p b = y" by blast
    with assms(10) have "(a, b) \<notin> merge_link to_merge U" unfolding lossless_def by blast
    with cl [of a b] ab(3,4) show ?case by simp
  next
    case (2 x y e x' y' e')
    with ed [of x y e] obtain a b where ab: "U (a, b) = Some e" "\<not> to_merge e" "p a = x" "p b = y" by blast
    from 2 have "(E' ++ H') (x', y') = Some e' \<and> \<not> to_merge e'" by blast
    then obtain a' b' where ab': "U (a', b') = Some e'" "\<not> to_merge e'" "p a' = x'" "p b' = y'"
      unfolding ed by blast
    from 2 cl [of a a'] cl [of b b'] ab(3,4) ab'(3,4)
    have "(a, a') \<in> merge_link to_merge U" "(b, b') \<in> merge_link to_merge U" by simp_all
    with assms(10) ab(1,2) ab'(1,2) show ?case unfolding lossless_def by blast
  }
qed

lemma spliced_exact:
  assumes "side_by_side V E W H" "one_call E H f v w en ex" "en \<in> W" "ex \<in> W" "U = united E H v en ex w"
    and "stands_for E E' q" "stands_for H H' q'" "p = beside W q q'" "c = spliced (q v) (q w) (q' en) (q' ex)"
    and "\<forall>x y. k x = k y \<longleftrightarrow> c x = c y"
    and "\<forall>a b e. G (a, b) = Some e \<longleftrightarrow> (\<exists>x y. (E' ++ H') (x, y) = Some e \<and> \<not> to_merge e \<and> k x = a \<and> k y = b)"
  shows "exact_quotient to_merge U G (\<lambda>x. k (p x))"
  unfolding exact_quotient_def
proof (intro conjI allI)
  show "k (p x) = k (p y) \<longleftrightarrow> (x, y) \<in> merge_link to_merge U" for x y
    using assms(10) spliced_classes [OF assms(1-9)] by simp
  show "G (a, b) = Some e \<longleftrightarrow> (\<exists>x y. U (x, y) = Some e \<and> \<not> to_merge e \<and> k (p x) = a \<and> k (p y) = b)" for a b e
  proof -
    have "G (a, b) = Some e \<longleftrightarrow>
        (\<exists>x y. (\<exists>x' y'. U (x', y') = Some e \<and> \<not> to_merge e \<and> p x' = x \<and> p y' = y) \<and> k x = a \<and> k y = b)"
      unfolding assms(11) [rule_format] spliced_edges [OF assms(1-8), symmetric] by simp
    then show ?thesis by blast
  qed
qed

section \<open>The two functions in the pass\<close>

lemma spells_mono:
  fixes E U :: edge_map
  shows "spells E u es w \<Longrightarrow> (\<And>k e. E k = Some e \<Longrightarrow> U k = Some e) \<Longrightarrow> spells U u es w"
  by (induction rule: spells.induct) (blast intro: spells.intros)+

lemma spells_ends:
  fixes E :: edge_map
  shows "spells E u es w \<Longrightarrow> u = w \<or> (\<exists>y e. E (u, y) = Some e) \<and> (\<exists>x e. E (x, w) = Some e)"
  by (induction rule: spells.induct) blast+

context graaf_lib
begin

lemma expanded_map_in:
  assumes "flow_ok f" "distinct (vertex_names r f)" "expanded_map r f (x, y) = Some e"
  shows "x \<in> set (vertex_names r f) \<and> y \<in> set (vertex_names r f)"
proof -
  obtain m where m: "analyse_function L r f = Inr m" using analyse_inv [of f r] assms(1) by (auto simp: flow_ok_def)
  from expand_function [OF m assms(1,2)] obtain g where
    "cg_inv L ok g" "dom (vertex_id_map g) = set (vertex_names r f)" "cg_edges L g = expanded_map r f"
    by (auto simp: expanded_map_def)
  with edge_ends [of g x y e] assms(3) show ?thesis by simp
qed

text \<open>The edges of a program with one call.\<close>

lemma program_edges:
  assumes "flow_ok f" "distinct (vertex_names r f)" "flow_ok h" "distinct (vertex_names r h)"
    and "set (vertex_names r f) \<inter> set (vertex_names r h) = {}"
    and "one_call (expanded_map r f) (expanded_map r h) k v w en ex"
  shows "side_by_side (set (vertex_names r f)) (expanded_map r f) (set (vertex_names r h)) (expanded_map r h)"
    "en \<in> set (vertex_names r h)" "ex \<in> set (vertex_names r h)"
    "united (expanded_map r f) (expanded_map r h) v en ex w k' = Some e \<longleftrightarrow>
       expanded_map r f k' = Some e \<or> expanded_map r h k' = Some e \<or> k' \<in> {(v, en), (ex, w)} \<and> e = ''control''"
proof -
  note f = expanded_map_in [OF assms(1,2)] and h = expanded_map_in [OF assms(3,4)]
  show s: "side_by_side (set (vertex_names r f)) (expanded_map r f) (set (vertex_names r h)) (expanded_map r h)"
    using assms(5) f h unfolding side_by_side_def by blast
  show e: "en \<in> set (vertex_names r h)" "ex \<in> set (vertex_names r h)"
    using one_callD(6,7) [OF assms(6)] spells_ends [of "expanded_map r h" en _ ex] h by blast+
  show "united (expanded_map r f) (expanded_map r h) v en ex w k' = Some e \<longleftrightarrow>
      expanded_map r f k' = Some e \<or> expanded_map r h k' = Some e \<or> k' \<in> {(v, en), (ex, w)} \<and> e = ''control''"
    by (rule united_iff [OF s assms(6) e refl])
qed

lemma spliced_calls_once:
  assumes "side_by_side V E W H" "one_call E H f v w en ex" "en \<in> W" "ex \<in> W" "U = united E H v en ex w"
    and "forest to_merge U"
    and "cg_inv L ok (libcCallGraph m)" "dom (vertex_id_map (libcCallGraph m)) \<subseteq> V"
    and "stands_for E (cg_edges L (libcCallGraph m)) q"
    and "cg_inv L ok (libcCallGraph h)" "dom (vertex_id_map (libcCallGraph h)) \<subseteq> W"
    and "stands_for H (cg_edges L (libcCallGraph h)) q'" "entryNode h = q' en" "exitNode h = q' ex"
  shows "calls_once L ok m h f (q v) (q w)"
proof -
  let ?E = "cg_edges L (libcCallGraph m)" and ?H = "cg_edges L (libcCallGraph h)"
  note call = one_callD [OF assms(2)] and part = united_parts [OF assms(1-6)]
  note qE = stands_forD [OF assms(9)] and qH = stands_forD [OF assms(12)]
  have ne: "q v \<noteq> q w" "q' en \<noteq> q' ex" using part(3,4) qE(1) qH(1) by simp_all
  have vw: "?E (q v, q w) = Some (''user:'' @ f)" unfolding qE(3) using call(1) user_call_kind by blast
  have only: "(a, b) = (q v, q w)" if "?E (a, b) = Some e" "to_merge e" for a b e
  proof -
    from that(1) obtain x y where x: "E (x, y) = Some e" "\<not> is_control e" "q x = a" "q y = b" unfolding qE(3) by blast
    with that(2) call(2) [OF x(1)] show ?thesis by (simp add: to_merge_def)
  qed
  have leave: "b = q w" if "?E (q v, b) = Some e" for b e
  proof -
    from that obtain x y where x: "E (x, y) = Some e" "\<not> is_control e" "q x = q v" "q y = b" unfolding qE(3) by blast
    with call(3) [OF x(1,2)] show ?thesis by (simp add: qE(1))
  qed
  have lib: "\<not> to_merge e" if "?H (a, b) = Some e" for a b e
  proof -
    from that obtain x y where "H (x, y) = Some e" "\<not> is_control e" unfolding qH(3) by blast
    with call(4) show ?thesis by (auto simp: to_merge_def)
  qed
  obtain es where "spells H en es ex" using call(6) by blast
  with spells_slides have "slides is_control H en (filter (\<lambda>e. \<not> is_control e) es) ex" by blast
  moreover have "exact_quotient is_control H ?H q'" using assms(12) by (simp add: stands_for_def)
  ultimately have "spells ?H (q' en) (filter (\<lambda>e. \<not> is_control e) es) (q' ex)" by (simp add: quotient_walks)
  from spells_ends [OF this] ne(2) obtain x y e e' where "?H (q' en, y) = Some e" "?H (x, q' ex) = Some e'" by blast
  with edge_ends [OF assms(10)] have "{q' en, q' ex} \<subseteq> dom (vertex_id_map (libcCallGraph h))" by blast
  moreover have "dom (vertex_id_map (libcCallGraph m)) \<inter> dom (vertex_id_map (libcCallGraph h)) = {}"
    using assms(1,8,11) unfolding side_by_side_def by blast
  moreover have "\<forall>y. (q v, y) \<in> dom ?E \<longrightarrow> y = q w" using leave by blast
  moreover have "\<forall>k e. ?E k = Some e \<and> to_merge e \<longrightarrow> k = (q v, q w)"
    by (simp only: split_paired_All) (use only in blast)
  moreover have "\<forall>k e. ?H k = Some e \<longrightarrow> \<not> to_merge e"
    by (simp only: split_paired_All) (use lib in blast)
  ultimately show ?thesis
    unfolding calls_once_def assms(13,14) using assms(7,10) ne vw by simp
qed

lemma combined_exact:
  assumes "side_by_side V E W H" "one_call E H f v w en ex" "en \<in> W" "ex \<in> W" "U = united E H v en ex w"
    and "forest to_merge U" "lossless to_merge U"
    and "cg_inv L ok (libcCallGraph m)" "dom (vertex_id_map (libcCallGraph m)) \<subseteq> V"
    and "stands_for E (cg_edges L (libcCallGraph m)) q"
    and "cg_inv L ok (libcCallGraph h)" "dom (vertex_id_map (libcCallGraph h)) \<subseteq> W"
    and "stands_for H (cg_edges L (libcCallGraph h)) q'" "entryNode h = q' en" "exitNode h = q' ex"
    and "m = meta_of L ms ''main''" "h = meta_of L ms f" "CombineLibcgGraph L fuel ms = Some (Inr (ms', fg))"
  shows "\<exists>q. exact_quotient to_merge U (cg_edges L (finalGraph fg)) q"
proof -
  let ?F = "cg_edges L (libcCallGraph m) ++ cg_edges L (libcCallGraph h)" and ?c = "spliced (q v) (q w) (q' en) (q' ex)"
  note ap = spliced_apart [OF assms(1-5,10,13) refl refl assms(7)]
  from combine_called [OF assms(16,17) spliced_calls_once [OF assms(1-6,8-15)] refl refl, unfolded assms(14,15), OF ap]
  obtain n where n: "\<forall>fuel>n. \<exists>ms' fg k. CombineLibcgGraph L fuel ms = Some (Inr (ms', fg)) \<and>
      (\<forall>x y. k x = k y \<longleftrightarrow> ?c x = ?c y) \<and> (\<forall>a b e. cg_edges L (finalGraph fg) (a, b) = Some e \<longleftrightarrow>
         (\<exists>x y. ?F (x, y) = Some e \<and> \<not> to_merge e \<and> k x = a \<and> k y = b))" by blast
  have "n < Suc (max n fuel)" "fuel \<le> Suc (max n fuel)" by auto
  with n [rule_format, of "Suc (max n fuel)"] combine_more [OF assms(18), of "Suc (max n fuel)"]
  obtain k where "\<forall>x y. k x = k y \<longleftrightarrow> ?c x = ?c y" "\<forall>a b e. cg_edges L (finalGraph fg) (a, b) = Some e \<longleftrightarrow>
      (\<exists>x y. ?F (x, y) = Some e \<and> \<not> to_merge e \<and> k x = a \<and> k y = b)" by auto
  from spliced_exact [OF assms(1-5,10,13) refl refl this] show ?thesis by blast
qed

text \<open>The graph of the program, from the expanded graphs of \<^verbatim>\<open>main\<close> and of the function.\<close>

lemma run_called:
  assumes "runOnModule L e uniq hash junk fuel r M [] s = Some (Inr (ch, M', fg, s'))"
    and "distinct (map f_name (m_functions M))"
    and "f \<in> set (m_functions M)" "f_name f = ''main''" "\<not> skipped f" "f' = nameBasicBlocks uniq f"
    and "h \<in> set (m_functions M)" "\<not> skipped h" "h' = nameBasicBlocks uniq h"
    and "flow_ok f'" "distinct (vertex_names r f')" "flow_ok h'" "distinct (vertex_names r h')"
    and "set (vertex_names r f') \<inter> set (vertex_names r h') = {}"
    and "analyse_function L r h' = Inr m" "en = entryNode m"
    and "ex = expanded_exit (list_calls r (f_blocks h') []) (exitNode m)"
    and "E = expanded_map r f'" "H = expanded_map r h'" "one_call E H (f_name h) v w en ex"
    and "U = united E H v en ex w" "forest to_merge U" "lossless to_merge U"
  shows "\<exists>q. exact_quotient to_merge U (cg_edges L (finalGraph fg)) q"
proof -
  from run_steps [OF assms(1)] obtain fs ms1 ms2 ms3 ms4 where run:
    "process_functions L uniq r (m_functions M) [] = Inr (fs, ms1, ch)" "ExpandBBGraph L ms1 = Inr ms2"
    "ConvertBBGraphToLibcCallGraph L fuel ms2 = Some (Inr ms3)"
    "CombineLibcgGraph L fuel ms3 = Some (Inr (ms4, fg))" .
  let ?V = "set (vertex_names r f')" and ?W = "set (vertex_names r h')"
  note edges = program_edges [OF assms(10-14), folded assms(18,19), OF assms(20)]
  note call = edges(1) assms(20) edges(2,3) assms(21)
  from function_policy [OF run(1-3) assms(2,3,5,6,10,11), folded assms(18), unfolded assms(4),
      OF united_parts(1) [OF call assms(22)] united_parts_lossless(1) [OF call assms(22,23)]]
  obtain k m1 q where m1: "map_of ms3 ''main'' = Some m1" "cg_inv L ok (libcCallGraph m1)"
    "dom (vertex_id_map (libcCallGraph m1)) \<subseteq> ?V"
    "exact_quotient is_control E (cg_edges L (libcCallGraph m1)) q" "\<forall>u. (u, q u) \<in> merge_link is_control E" .
  from function_policy [OF run(1-3) assms(2,7,8,9,12,13), folded assms(19),
      OF united_parts(2) [OF call assms(22)] united_parts_lossless(2) [OF call assms(22,23)]]
  obtain k' m2 q' where m2: "analyse_function L r h' = Inr k'" "map_of ms3 (f_name h) = Some m2" "entryNode m2 = entryNode k'"
    "exitNode m2 = q' (expanded_exit (list_calls r (f_blocks h') []) (exitNode k'))" "cg_inv L ok (libcCallGraph m2)"
    "dom (vertex_id_map (libcCallGraph m2)) \<subseteq> ?W"
    "exact_quotient is_control H (cg_edges L (libcCallGraph m2)) q'" "\<forall>u. (u, q' u) \<in> merge_link is_control H"
    "\<forall>u. rooted is_control H u \<longrightarrow> q' u = u" .
  have ends: "entryNode m2 = q' en" "exitNode m2 = q' ex"
    using m2(1,3,4,9) one_callD(5) [OF assms(20)] by (simp_all add: assms(15-17))
  have st: "stands_for E (cg_edges L (libcCallGraph m1)) q" "stands_for H (cg_edges L (libcCallGraph m2)) q'"
    using m1(4,5) m2(7,8) by (simp_all add: stands_for_def)
  have meta: "m1 = meta_of L ms3 ''main''" "m2 = meta_of L ms3 (f_name h)" using m1(1) m2(2) by (simp_all add: meta_of_def)
  show ?thesis
    by (rule combined_exact [OF call assms(22,23) m1(2,3) st(1) m2(5,6) st(2) ends meta run(4)])
qed

end

end
