(* ===== verification/CallGraphProperties.thy ===== *)
theory CallGraphProperties
  imports CallGraphSpec
begin

text \<open>
  The properties of the class \<^verbatim>\<open>LibcCallgraph\<close>, for any graph library with the documented
  behaviour, with an instance of each on small association-list graphs.
\<close>

section \<open>Call graphs\<close>

text \<open>
  The instances of these theorems use the association-list graphs.  \<open>graph_of\<close> builds a call
  graph from a list of labelled edges.
\<close>

fun graph_of :: "(string \<times> string \<times> string) list \<Rightarrow> agraph callgraph" where
  "graph_of [] = cg_empty assoc_graaf"
| "graph_of ((u, v, e) # es) =
     (let g = snd (CallGraph.add_vertex assoc_graaf v False
                (snd (CallGraph.add_vertex assoc_graaf u False (graph_of es))))
      in projr (CallGraph.add_edge assoc_graaf u v e g))"

lemma graph_of_inv: "cg_inv assoc_graaf ag_ok (graph_of es)"
proof (induction es)
  case Nil
  then show ?case by (simp add: assoc.empty_inv)
next
  case (Cons x es)
  obtain u v e where x: "x = (u, v, e)" by (metis surj_pair)
  let ?g1 = "snd (CallGraph.add_vertex assoc_graaf u False (graph_of es))"
  let ?g2 = "snd (CallGraph.add_vertex assoc_graaf v False ?g1)"
  have "cg_inv assoc_graaf ag_ok ?g1"
    using assoc.add_vertex_inv [OF Cons] by (metis prod.collapse)
  then have "cg_inv assoc_graaf ag_ok ?g2"
    using assoc.add_vertex_inv by (metis prod.collapse)
  from assoc.add_edge_inv [OF this, of u v e] show ?case by (auto simp: x Let_def)
qed

text \<open>
  C27. \<^verbatim>\<open>combine_vertex\<close>.  For two vertices of the graph it never throws, keeps the class
  invariant and removes exactly the second vertex, wherever the library comes to the edges that are
  inserted while the loop runs over them.  The edges that remain are those between other vertices,
  together with the edges of the second vertex moved to the first, and each carries the label of an
  edge it stands for; only a loop at the second vertex may or may not become a loop at the first.
\<close>

theorem combine_vertex_merges:
  assumes "graaf_lib L ok" "cg_inv L ok cg" "u \<in> dom (vertex_id_map cg)" "v \<in> dom (vertex_id_map cg)"
  shows "\<exists>cg'. combine_vertex L u v cg = Inr cg' \<and> cg_inv L ok cg' \<and>
    func_call_map cg' = (func_call_map cg)(v := None) \<and>
    merged_keys u v (dom (cg_edges L cg)) \<subseteq> dom (cg_edges L cg') \<and>
    dom (cg_edges L cg') \<subseteq> merged_keys u v (dom (cg_edges L cg)) \<union> loop_key u v (dom (cg_edges L cg)) \<and>
    (\<forall>k e. cg_edges L cg' k = Some e \<longrightarrow> moved_label u v (cg_edges L cg) k e)"
  using assms by (rule graaf_lib.combine_vertex_inv)

lemmas ag_eval = assoc_graaf_def CallGraph.add_vertex_def CallGraph.add_edge_def on_graph_def
  ag_has_def cg_empty_def Let_def

definition loop_graph :: "agraph callgraph" where
  "loop_graph = graph_of [(''p'', ''v'', ''control''), (''v'', ''v'', ''libc:read'')]"

lemma loop_graph_inv: "cg_inv assoc_graaf ag_ok loop_graph"
  unfolding loop_graph_def by (rule graph_of_inv)

lemma loop_graph_edges:
  "''p'' \<in> dom (vertex_id_map loop_graph)" "''v'' \<in> dom (vertex_id_map loop_graph)"
  "cg_edges assoc_graaf loop_graph =
     [(''v'', ''v'') \<mapsto> ''libc:read'', (''p'', ''v'') \<mapsto> ''control'']"
  by (auto simp: loop_graph_def ag_eval cg_edges_def emap_def fun_eq_iff)

theorem combine_vertex_merges_witness:
  "\<exists>cg'. combine_vertex assoc_graaf ''p'' ''v'' loop_graph = Inr cg' \<and> cg_inv assoc_graaf ag_ok cg' \<and>
    func_call_map cg' = (func_call_map loop_graph)(''v'' := None) \<and>
    dom (cg_edges assoc_graaf cg') \<subseteq> {(''p'', ''p'')}"
proof -
  have k: "merged_keys ''p'' ''v'' (dom (cg_edges assoc_graaf loop_graph)) = {}"
    "loop_key ''p'' ''v'' (dom (cg_edges assoc_graaf loop_graph)) = {(''p'', ''p'')}"
    by (auto simp: loop_graph_edges merged_keys_def loop_key_def)
  from combine_vertex_merges [OF assoc.graaf_lib_axioms loop_graph_inv loop_graph_edges(1,2), unfolded k]
  show ?thesis by auto
qed

text \<open>
  A loop survives or not.  The same call on the same graph with two libraries that differ only in
  whether the loop comes to the edges it has inserted: with one of them the library call of the loop is
  in no edge of the result.
\<close>

definition passing_graaf :: "agraph graaf" where
  "passing_graaf = assoc_graaf \<lparr>gr_reached := \<lambda>g ks k. None\<rparr>"

lemma passing_maps: "vmap passing_graaf = vmap assoc_graaf" "emap passing_graaf = emap assoc_graaf"
  by (simp_all add: fun_eq_iff vmap_def emap_def passing_graaf_def)

lemma passing_lib: "graaf_lib passing_graaf ok = graaf_lib assoc_graaf ok"
  unfolding graaf_lib_def passing_maps by (simp add: passing_graaf_def)

interpretation passing: graaf_lib passing_graaf ag_ok
  unfolding passing_lib by (rule assoc.graaf_lib_axioms)

theorem self_loop_depends_on_iteration:
  "map_sum (\<lambda>_. ()) (\<lambda>cg. map snd (gr_edges assoc_graaf (cg_graph cg))) (combine_vertex assoc_graaf ''p'' ''v'' loop_graph) =
     Inr [''libc:read'']"
  "map_sum (\<lambda>_. ()) (\<lambda>cg. map snd (gr_edges passing_graaf (cg_graph cg))) (combine_vertex passing_graaf ''p'' ''v'' loop_graph) =
     Inr []"
  by code_simp+

text \<open>
  A spinning block disappears.  A vertex with a control edge to itself is among its own
  control neighbours, so the merging loops combine it with itself: the vertex is removed and all
  its edges with it, so the paths through it are gone.
\<close>

theorem self_control_loop_removes_vertex:
  assumes "graaf_lib L ok" "cg_inv L ok cg" "cg_edges L cg (v, v) = Some ''control''"
  shows "\<exists>ns cg'. get_control_edge_neighbors L v cg = Inr ns \<and> v \<in> set ns \<and>
    combine_vertex L v v cg = Inr cg' \<and> v \<notin> dom (vertex_id_map cg') \<and>
    dom (cg_edges L cg') = {(x, y) \<in> dom (cg_edges L cg). x \<noteq> v \<and> y \<noteq> v}"
proof -
  have v: "v \<in> dom (vertex_id_map cg)" using graaf_lib.edge_ends [OF assms] by simp
  obtain vs where vs: "lists_neighbors L cg v vs"
    "\<And>P. labelled_neighbors L P v cg = Inr (filter (\<lambda>w. P (the (cg_edges L cg (v, w)))) vs)"
    using graaf_lib.queries [OF assms(1,2), of v] by blast
  have "v \<in> set vs" using vs(1) assms(3) by (auto simp: lists_neighbors_def)
  then have n: "\<exists>ns. get_control_edge_neighbors L v cg = Inr ns \<and> v \<in> set ns"
    using vs(2) assms(3) by (simp add: get_control_edge_neighbors_def is_control_def)
  from graaf_lib.combine_vertex_exact [OF assms(1,2) v v disjI2 [OF refl]] obtain cg' where
    cg': "combine_vertex L v v cg = Inr cg'" "cg_inv L ok cg'"
    "func_call_map cg' = (func_call_map cg)(v := None)"
    "dom (cg_edges L cg') = merged_keys v v (dom (cg_edges L cg))" by blast
  have "v \<notin> dom (vertex_id_map cg')"
    using cg'(3) graaf_lib.inv_ids(3) [OF assms(1) cg'(2)] by auto
  moreover have "merged_keys v v (dom (cg_edges L cg)) =
      {(x, y) \<in> dom (cg_edges L cg). x \<noteq> v \<and> y \<noteq> v}"
    by (auto simp: merged_keys_def)
  ultimately show ?thesis using n cg'(1,4) by auto
qed

definition spin_graph :: "agraph callgraph" where
  "spin_graph = graph_of [(''a'', ''b'', ''control''), (''b'', ''b'', ''control''),
     (''b'', ''c'', ''control'')]"

theorem self_control_loop_removes_vertex_witness:
  "\<exists>ns cg'. get_control_edge_neighbors assoc_graaf ''b'' spin_graph = Inr ns \<and> ''b'' \<in> set ns \<and>
    combine_vertex assoc_graaf ''b'' ''b'' spin_graph = Inr cg' \<and> dom (cg_edges assoc_graaf cg') = {}"
proof -
  have "cg_inv assoc_graaf ag_ok spin_graph" unfolding spin_graph_def by (rule graph_of_inv)
  moreover have e: "cg_edges assoc_graaf spin_graph = [(''b'', ''c'') \<mapsto> ''control'',
      (''b'', ''b'') \<mapsto> ''control'', (''a'', ''b'') \<mapsto> ''control'']"
    by (auto simp: spin_graph_def ag_eval cg_edges_def emap_def fun_eq_iff)
  moreover have "cg_edges assoc_graaf spin_graph (''b'', ''b'') = Some ''control''" by (simp add: e)
  ultimately obtain ns cg' where "get_control_edge_neighbors assoc_graaf ''b'' spin_graph = Inr ns"
    "''b'' \<in> set ns" "combine_vertex assoc_graaf ''b'' ''b'' spin_graph = Inr cg'"
    "dom (cg_edges assoc_graaf cg') =
       {(x, y) \<in> dom (cg_edges assoc_graaf spin_graph). x \<noteq> ''b'' \<and> y \<noteq> ''b''}"
    using self_control_loop_removes_vertex [OF assoc.graaf_lib_axioms] by blast
  moreover have "{(x, y) \<in> dom (cg_edges assoc_graaf spin_graph). x \<noteq> ''b'' \<and> y \<noteq> ''b''} = {}"
    by (auto simp: e)
  ultimately show ?thesis by blast
qed

text \<open>
  A label is lost.  Two vertices with edges to the same vertex under different labels cannot
  keep both: there is one edge between two vertices, so after the combination one of two library
  calls that only these edges stand for is in no edge of the graph.
\<close>

theorem combine_loses_parallel_label:
  assumes "graaf_lib L ok" "cg_inv L ok cg" "u \<noteq> v" "y \<noteq> v"
    and "cg_edges L cg (u, y) = Some e1" "\<forall>k. cg_edges L cg k = Some e1 \<longrightarrow> k = (u, y)"
    and "cg_edges L cg (v, y) = Some e2" "\<forall>k. cg_edges L cg k = Some e2 \<longrightarrow> k = (v, y)"
  shows "\<exists>cg'. combine_vertex L u v cg = Inr cg' \<and>
    (e1 \<notin> ran (cg_edges L cg') \<or> e2 \<notin> ran (cg_edges L cg'))"
proof -
  have uv: "u \<in> dom (vertex_id_map cg)" "v \<in> dom (vertex_id_map cg)"
    using graaf_lib.edge_ends [OF assms(1,2,5)] graaf_lib.edge_ends [OF assms(1,2,7)] by simp_all
  from graaf_lib.combine_vertex_inv [OF assms(1,2) uv] obtain cg' where
    cg': "combine_vertex L u v cg = Inr cg'"
    "dom (cg_edges L cg') \<subseteq> merged_keys u v (dom (cg_edges L cg)) \<union> loop_key u v (dom (cg_edges L cg))"
    "\<forall>k e. cg_edges L cg' k = Some e \<longrightarrow> moved_label u v (cg_edges L cg) k e" by blast
  have only: "k = (u, y)" if e: "cg_edges L cg' k = Some e" "e = e1 \<or> e = e2" for k e
  proof -
    obtain a b where k: "k = (a, b)" by (metis surj_pair)
    have "(a, b) \<in> merged_keys u v (dom (cg_edges L cg)) \<union> loop_key u v (dom (cg_edges L cg))"
      using cg'(2) e(1) k by blast
    then have "a \<noteq> v" "b \<noteq> v" by (auto simp: merged_keys_def loop_key_def split: if_splits)
    moreover have "moved_label u v (cg_edges L cg) (a, b) e" using cg'(3) e(1) k by blast
    ultimately show ?thesis using assms(3,4,6,8) e(2) by (auto simp: moved_label_def merged_label_def k)
  qed
  have "e1 \<noteq> e2" using assms(3,6,7) by auto
  have "e1 \<notin> ran (cg_edges L cg') \<or> e2 \<notin> ran (cg_edges L cg')"
  proof (rule ccontr)
    assume "\<not> ?thesis"
    then obtain k1 k2 where "cg_edges L cg' k1 = Some e1" "cg_edges L cg' k2 = Some e2"
      unfolding ran_def by blast
    with only have "cg_edges L cg' (u, y) = Some e1" "cg_edges L cg' (u, y) = Some e2" by metis+
    with \<open>e1 \<noteq> e2\<close> show False by simp
  qed
  with cg'(1) show ?thesis by blast
qed

definition fork_graph :: "agraph callgraph" where
  "fork_graph = graph_of [(''u'', ''y'', ''libc:read''), (''v'', ''y'', ''libc:write''),
     (''u'', ''v'', ''control'')]"

lemma fork_graph_inv: "cg_inv assoc_graaf ag_ok fork_graph"
  unfolding fork_graph_def by (rule graph_of_inv)

lemma fork_graph_edges:
  "cg_edges assoc_graaf fork_graph = [(''u'', ''v'') \<mapsto> ''control'', (''v'', ''y'') \<mapsto> ''libc:write'',
     (''u'', ''y'') \<mapsto> ''libc:read'']"
  by (auto simp: fork_graph_def ag_eval cg_edges_def emap_def fun_eq_iff)

theorem combine_loses_parallel_label_witness:
  "\<exists>cg'. combine_vertex assoc_graaf ''u'' ''v'' fork_graph = Inr cg' \<and>
    (''libc:read'' \<notin> ran (cg_edges assoc_graaf cg') \<or> ''libc:write'' \<notin> ran (cg_edges assoc_graaf cg'))"
proof (rule combine_loses_parallel_label [OF assoc.graaf_lib_axioms])
  show "cg_inv assoc_graaf ag_ok fork_graph" by (rule fork_graph_inv)
qed (auto simp: fork_graph_edges split: if_splits)

text \<open>
  \<^verbatim>\<open>insert_graph\<close> forms the union of two graphs.  It never throws; afterwards there are the
  vertices and edges of both, a vertex of both keeps the flag it had, and a label comes from one
  of the two.
\<close>

theorem insert_graph_unites:
  assumes "graaf_lib L ok" "cg_inv L ok cg" "cg_inv L ok other"
  shows "\<exists>cg'. insert_graph L other cg = Inr cg' \<and> cg_inv L ok cg' \<and>
    func_call_map cg' = func_call_map other ++ func_call_map cg \<and>
    dom (cg_edges L cg') = dom (cg_edges L cg) \<union> dom (cg_edges L other) \<and>
    (\<forall>k e. cg_edges L cg' k = Some e \<longrightarrow> cg_edges L cg k = Some e \<or> cg_edges L other k = Some e)"
  using assms by (rule graaf_lib.insert_graph_inv)

theorem insert_graph_unites_witness:
  "\<exists>cg'. insert_graph assoc_graaf loop_graph fork_graph = Inr cg' \<and> cg_inv assoc_graaf ag_ok cg' \<and>
    dom (cg_edges assoc_graaf cg') = dom (cg_edges assoc_graaf fork_graph) \<union> dom (cg_edges assoc_graaf loop_graph)"
  using insert_graph_unites [OF assoc.graaf_lib_axioms fork_graph_inv loop_graph_inv] by blast

text \<open>
  The neighbour queries agree.  For any vertex the list of neighbours, the list of outgoing
  labels and the selections behind control and user-call edges walk the same duplicate-free list
  of the vertices an edge leads to, each label at the position of its target.
\<close>

theorem neighbor_queries_agree:
  assumes "graaf_lib L ok" "cg_inv L ok cg"
  shows "\<exists>vs. get_neighbors L u cg = Inr vs \<and> distinct vs \<and> set vs = {v. (u, v) \<in> dom (cg_edges L cg)} \<and>
    get_outgoing_edges L u cg = Inr (map (\<lambda>v. the (cg_edges L cg (u, v))) vs) \<and>
    get_control_edge_neighbors L u cg = Inr (filter (\<lambda>v. cg_edges L cg (u, v) = Some ''control'') vs) \<and>
    get_user_edge_neighbors L u cg =
      Inr (filter (\<lambda>v. starts_with ''user:'' (the (cg_edges L cg (u, v)))) vs)"
proof -
  obtain vs where vs: "lists_neighbors L cg u vs" "get_neighbors L u cg = Inr vs"
    "get_outgoing_edges L u cg = Inr (map (\<lambda>v. the (cg_edges L cg (u, v))) vs)"
    "\<And>P. labelled_neighbors L P u cg = Inr (filter (\<lambda>v. P (the (cg_edges L cg (u, v)))) vs)"
    using graaf_lib.queries [OF assms, of u] by blast
  have "filter (\<lambda>v. is_control (the (cg_edges L cg (u, v)))) vs =
      filter (\<lambda>v. cg_edges L cg (u, v) = Some ''control'') vs"
    using vs(1) by (intro filter_cong) (auto simp: lists_neighbors_def is_control_def)
  with vs show ?thesis
    by (simp add: lists_neighbors_def get_control_edge_neighbors_def get_user_edge_neighbors_def is_user_def)
qed

theorem neighbor_queries_agree_witness:
  "\<exists>vs. get_neighbors assoc_graaf ''u'' fork_graph = Inr vs \<and> distinct vs \<and>
    set vs = {v. (''u'', v) \<in> dom (cg_edges assoc_graaf fork_graph)}"
  using neighbor_queries_agree [OF assoc.graaf_lib_axioms fork_graph_inv, of "''u''"] by blast

end
