(* ===== verification/PassProperties.thy ===== *)
theory PassProperties
  imports CallGraphProperties PassSpec
begin

text \<open>
  The properties of the compiler pass and of the listing of library functions it reads, with
  an instance of each on a small function, graph or listing.
\<close>

section \<open>The pass\<close>

text \<open>
  C18. One function, from its instructions to its graph of library calls.  For a function whose
  blocks have different names and whose call vertices are new, the three steps of the pass
  (blocks to graph, expansion, merging along control edges) end without an exception, with more
  fuel than there are vertices.  The result has no control edge; every edge of it is the image,
  with the same label, of an edge of the expanded flow graph under a map that only identifies
  vertices linked by control edges, and the exit node is linked to the expanded exit.
\<close>

theorem function_call_graph:
  assumes "graaf_lib L ok"
    and "distinct (map bb_name (f_blocks f))"
    and "\<forall>bb\<in>set (f_blocks f). \<forall>i\<in>set (bb_succs bb). i < length (f_blocks f)"
    and "cs = list_calls r (f_blocks f) []"
    and "distinct (all_call_vertices cs)"
    and "set (all_call_vertices cs) \<inter> bb_name ` set (f_blocks f) = {}"
    and "length (f_blocks f) + length (all_call_vertices cs) < fuel"
  shows "\<exists>m x g x' g'. analyse_function L r f = Inr m \<and>
    expand_blocks L (bbToLibcMap m) (exitNode m, bbGraph m) = Inr (x, g) \<and>
    merge_loop L [is_control] fuel (x, g) = Some (Inr (x', g')) \<and> cg_inv L ok g' \<and>
    merged_from is_control (expand_maps cs (flow_map (f_blocks f))) x (cg_edges L g') x' \<and>
    (\<forall>k. cg_edges L g' k \<noteq> Some ''control'')"
proof -
  obtain m where m: "analyse_function L r f = Inr m" "cg_inv L ok (bbGraph m)"
    "dom (vertex_id_map (bbGraph m)) = bb_name ` set (f_blocks f)"
    "cg_edges L (bbGraph m) = flow_map (f_blocks f)" "bbToLibcMap m = cs"
    using graaf_lib.analyse_inv [OF assms(1,3), of r] assms(4) by blast
  have "fst ` set cs \<subseteq> dom (vertex_id_map (bbGraph m))"
    using list_calls_set [OF assms(2)] m(3) unfolding assms(4) by fastforce
  from graaf_lib.expand_blocks_inv [OF assms(1) m(2) this assms(5)] assms(6) obtain g where
    g: "expand_blocks L cs (exitNode m, bbGraph m) = Inr (expanded_exit cs (exitNode m), g)"
    "cg_inv L ok g" "dom (vertex_id_map g) = bb_name ` set (f_blocks f) \<union> set (all_call_vertices cs)"
    "cg_edges L g = expand_maps cs (flow_map (f_blocks f))"
    unfolding m(3,4) by blast
  have "card (dom (vertex_id_map g)) \<le> length (f_blocks f) + length (all_call_vertices cs)"
    unfolding g(3) by (intro order_trans [OF card_Un_le] add_mono card_length)
      (metis card_length length_map list.set_map)
  then have "card (dom (vertex_id_map g)) < fuel" using assms(7) by simp
  have "is_control e \<longleftrightarrow> (\<exists>P\<in>set [is_control]. P e)" for e by simp
  from graaf_lib.merge_loop_inv [OF assms(1) g(2) merged_from_refl this \<open>card _ < fuel\<close>,
      of "expanded_exit cs (exitNode m)"] obtain x' g' where
    "merge_loop L [is_control] fuel (expanded_exit cs (exitNode m), g) = Some (Inr (x', g'))"
    "cg_inv L ok g'"
    "merged_from is_control (cg_edges L g) (expanded_exit cs (exitNode m)) (cg_edges L g') x'"
    "\<forall>k e. cg_edges L g' k = Some e \<longrightarrow> \<not> is_control e" by blast
  with m(1,5) g(1,4) show ?thesis by (auto simp: is_control_def)
qed

text \<open>A function of two blocks: the first calls \<^verbatim>\<open>read\<close>, the second returns.\<close>

definition demo_reader :: file_map_reader where
  "demo_reader = \<lparr>stringMap = [''read'' \<mapsto> 7, ''write'' \<mapsto> 9], loaded = True\<rparr>"

definition lib_callee :: "string \<Rightarrow> callee" where
  "lib_callee n = \<lparr>fn_name = n, fn_intrinsic = False, fn_declaration = True\<rparr>"

definition demo_fun :: "unit ir_function" where
  "demo_fun = \<lparr>f_name = ''main'', f_declaration = False, f_blocks =
     [\<lparr>bb_operand = ''0'', bb_name = ''a'', bb_insts = [CallInst (Some (lib_callee ''read'')) [], OtherInst ()],
       bb_succs = [1]\<rparr>,
      \<lparr>bb_operand = ''1'', bb_name = ''b'', bb_insts = [ReturnInst ()], bb_succs = []\<rparr>]\<rparr>"

lemma demo_fun_calls: "list_calls demo_reader (f_blocks demo_fun) [] = [(''a'', [''libc:read''])]"
  "call_vertex ''a'' ''libc:read'' (Suc 0) = ''a-libc_1''"
  by (simp_all add: demo_fun_def demo_reader_def lib_callee_def getLibraryCalls_def isStringInMap_def
      call_vertex_def starts_with_def nat_string.simps [of "Suc 0"])
    (simp add: char_of_def bit_0)

theorem function_call_graph_witness:
  "\<exists>m x g x' g'. analyse_function assoc_graaf demo_reader demo_fun = Inr m \<and>
    expand_blocks assoc_graaf (bbToLibcMap m) (exitNode m, bbGraph m) = Inr (x, g) \<and>
    merge_loop assoc_graaf [is_control] 4 (x, g) = Some (Inr (x', g')) \<and>
    (\<forall>k. cg_edges assoc_graaf g' k \<noteq> Some ''control'')"
proof -
  have f: "f_blocks demo_fun = [f_blocks demo_fun ! 0, f_blocks demo_fun ! 1]"
    "bb_name (f_blocks demo_fun ! 0) = ''a''" "bb_name (f_blocks demo_fun ! 1) = ''b''"
    "bb_succs (f_blocks demo_fun ! 0) = [1]" "bb_succs (f_blocks demo_fun ! 1) = []"
    by (simp_all add: demo_fun_def)
  have "\<exists>m x g x' g'. analyse_function assoc_graaf demo_reader demo_fun = Inr m \<and>
    expand_blocks assoc_graaf (bbToLibcMap m) (exitNode m, bbGraph m) = Inr (x, g) \<and>
    merge_loop assoc_graaf [is_control] 4 (x, g) = Some (Inr (x', g')) \<and> cg_inv assoc_graaf ag_ok g' \<and>
    merged_from is_control (expand_maps [(''a'', [''libc:read''])] (flow_map (f_blocks demo_fun))) x
      (cg_edges assoc_graaf g') x' \<and>
    (\<forall>k. cg_edges assoc_graaf g' k \<noteq> Some ''control'')"
  proof (rule function_call_graph [OF assoc.graaf_lib_axioms])
  qed (simp_all add: demo_fun_calls, simp_all add: demo_fun_def)
  then show ?thesis by blast
qed

text \<open>
  The calls of a block become a path.  Expanding a block never throws and keeps the class
  invariant; from the block the result has one edge per call, in order, labelled with the call,
  along the call vertices; the edges the block had start, as control edges, at the end of that
  path, and the edges of all other vertices stay.
\<close>

theorem expand_block_spells_calls:
  assumes "graaf_lib L ok" "cg_inv L ok g" "bb \<in> dom (vertex_id_map g)" "calls \<noteq> []"
    and "set (call_vertices bb 1 calls) \<inter> dom (vertex_id_map g) = {}"
  shows "\<exists>x' g'. expand_block L bb calls (x, g) = Inr (x', g') \<and> cg_inv L ok g' \<and>
    (\<forall>k<length calls. cg_edges L g' ((bb # call_vertices bb 1 calls) ! k,
        call_vertices bb 1 calls ! k) = Some (calls ! k)) \<and>
    (\<forall>y. (bb, y) \<in> dom (cg_edges L g) \<longrightarrow> cg_edges L g' (last (call_vertices bb 1 calls), y) = Some ''control'') \<and>
    (\<forall>u\<in>dom (vertex_id_map g) - {bb}. \<forall>y. cg_edges L g' (u, y) = cg_edges L g (u, y)) \<and>
    x' = (if x = bb then last (call_vertices bb 1 calls) else x)"
proof -
  let ?vs = "call_vertices bb 1 calls" and ?E = "cg_edges L g"
  obtain g' where g': "expand_block L bb calls (x, g) = Inr (if x = bb then last ([] # ?vs) else x, g')"
    "cg_inv L ok g'" "cg_edges L g' = expand_map bb calls ?E"
    using graaf_lib.expand_block_inv [OF assms(1-3,5)] by blast
  have vs: "?vs \<noteq> []" "distinct ?vs" "length ?vs = length calls"
    using assms(4) call_vertices_distinct by simp_all
  have z: "chain_end bb calls = last ?vs" using vs(1) by (simp add: chain_end_def)
  have old: "u \<in> dom (vertex_id_map g) \<and> v \<in> dom (vertex_id_map g)" if "?E (u, v) = Some e" for u v e
    using graaf_lib.edge_ends [OF assms(1,2) that] by simp
  have new: "v \<notin> dom (vertex_id_map g)" if "v \<in> set ?vs" for v using that assms(5) by auto
  have path: "cg_edges L g' ((bb # ?vs) ! k, ?vs ! k) = Some (calls ! k)" if k: "k < length calls" for k
  proof -
    have v: "?vs ! k \<in> set ?vs" using k vs(3) by simp
    have "(w, ?vs ! k) \<notin> dom ?E" for w using old [of w] new [OF v] by blast
    moreover have "chain bb ?vs calls ((bb # ?vs) ! k, ?vs ! k) = Some (calls ! k)"
      using chain_label [OF vs(2,3) k] .
    ultimately show ?thesis by (simp add: g'(3) expand_map_def)
  qed
  have rest: "cg_edges L g' (u, y) = ?E (u, y)" if u: "u \<in> dom (vertex_id_map g)" "u \<noteq> bb" for u y
  proof -
    have "u \<notin> set ?vs" using u(1) new by blast
    then have "chain bb ?vs calls (u, y) = None" "u \<noteq> last ?vs"
      using chain_dom [of bb ?vs calls u y] u(2) vs(1) by (cases "chain bb ?vs calls (u, y)"; auto)+
    then show ?thesis using u(2) z by (simp add: g'(3) expand_map_def map_add_def)
  qed
  have ctl: "cg_edges L g' (last ?vs, y) = Some ''control''" if "(bb, y) \<in> dom ?E" for y
    using that by (simp add: g'(3) expand_map_def z)
  from g'(1,2) path rest ctl vs(1) show ?thesis by auto
qed

theorem expand_block_spells_calls_witness:
  "\<exists>x' g'. expand_block assoc_graaf ''u'' [''libc:read'', ''user:f''] (''u'', fork_graph) = Inr (x', g') \<and>
    (\<forall>y. (''u'', y) \<in> dom (cg_edges assoc_graaf fork_graph) \<longrightarrow>
       cg_edges assoc_graaf g' (last (call_vertices ''u'' 1 [''libc:read'', ''user:f'']), y) = Some ''control'')"
proof -
  have d: "dom (vertex_id_map fork_graph) = {''u'', ''v'', ''y''}"
    by (auto simp: fork_graph_def ag_eval split: if_splits)
  have "set (call_vertices ''u'' 1 [''libc:read'', ''user:f'']) \<inter> dom (vertex_id_map fork_graph) = {}"
    "''u'' \<in> dom (vertex_id_map fork_graph)"
    by (simp_all add: d call_vertex_def)
  from expand_block_spells_calls [OF assoc.graaf_lib_axioms fork_graph_inv this(2) _ this(1), of "''u''"]
  show ?thesis by blast
qed

text \<open>
  C19. The graph of the program.  When the graphs of the functions \<^verbatim>\<open>main\<close> calls share no vertex
  with the graph of \<^verbatim>\<open>main\<close> (\<^verbatim>\<open>main\<close> itself may be among them), \<^verbatim>\<open>CombineLibcgGraph\<close> ends without an exception for any fuel above a
  bound.  No control edge and no edge of a user call is left, and every label comes from the
  graph of \<^verbatim>\<open>main\<close> or of a function \<^verbatim>\<open>main\<close> calls directly.
\<close>

theorem combine_program_graph:
  assumes "graaf_lib L ok" "m = meta_of L ms ''main''" "cg_inv L ok (libcCallGraph m)"
    and "E = cg_edges L (libcCallGraph m)"
    and "\<forall>f\<in>direct_callees E. cg_inv L ok (libcCallGraph (meta_of L ms f)) \<and>
      (dom (vertex_id_map (libcCallGraph (meta_of L ms f))) \<inter> dom (vertex_id_map (libcCallGraph m)) = {} \<or>
       cg_edges L (libcCallGraph (meta_of L ms f)) = E)"
  shows "\<exists>n. \<forall>fuel>n. \<exists>ms' fg. CombineLibcgGraph L fuel ms = Some (Inr (ms', fg)) \<and>
    cg_inv L ok (finalGraph fg) \<and> finalGraphEntryNode fg = entryNode m \<and>
    (\<forall>e\<in>ran (cg_edges L (finalGraph fg)). \<not> is_control e \<and> \<not> is_user e) \<and>
    ran (cg_edges L (finalGraph fg)) \<subseteq>
      ran E \<union> (\<Union>f\<in>direct_callees E. ran (cg_edges L (libcCallGraph (meta_of L ms f))))"
proof -
  have "graaf_lib.separate L ok ms (dom (vertex_id_map (libcCallGraph m))) E"
    unfolding graaf_lib.separate_def [OF assms(1)] by (rule assms(5))
  from graaf_lib.combine_inv [OF assms(1-3), folded assms(4), OF this] show ?thesis by meson
qed

text \<open>Three functions: \<^verbatim>\<open>main\<close> calls \<^verbatim>\<open>f\<close>, which writes and calls \<^verbatim>\<open>g\<close>, which reads.\<close>

definition fun_meta :: "string \<Rightarrow> string \<Rightarrow> string \<Rightarrow> agraph callgraph \<Rightarrow> agraph func_meta" where
  "fun_meta n entry exit g = (meta_init assoc_graaf)
     \<lparr>funcName := n, entryNode := entry, exitNode := exit, libcCallGraph := g\<rparr>"

definition demo_metas :: "agraph metas" where
  "demo_metas =
     [(''f'', fun_meta ''f'' ''f0'' ''f2'' (graph_of [(''f0'', ''f1'', ''libc:write''), (''f1'', ''f2'', ''user:g'')])),
      (''g'', fun_meta ''g'' ''g0'' ''g1'' (graph_of [(''g0'', ''g1'', ''libc:read'')])),
      (''main'', fun_meta ''main'' ''a'' ''b'' (graph_of [(''a'', ''b'', ''user:f'')]))]"

lemma demo_metas_graphs:
  "libcCallGraph (meta_of assoc_graaf demo_metas ''main'') = graph_of [(''a'', ''b'', ''user:f'')]"
  "libcCallGraph (meta_of assoc_graaf demo_metas ''f'') =
     graph_of [(''f0'', ''f1'', ''libc:write''), (''f1'', ''f2'', ''user:g'')]"
  "cg_edges assoc_graaf (graph_of [(''a'', ''b'', ''user:f'')]) = [(''a'', ''b'') \<mapsto> ''user:f'']"
  "cg_edges assoc_graaf (graph_of [(''f0'', ''f1'', ''libc:write''), (''f1'', ''f2'', ''user:g'')]) =
     [(''f1'', ''f2'') \<mapsto> ''user:g'', (''f0'', ''f1'') \<mapsto> ''libc:write'']"
  "direct_callees [(''a'', ''b'') \<mapsto> ''user:f''] = {''f''}"
  by (auto simp: demo_metas_def meta_of_def fun_meta_def ag_eval cg_edges_def emap_def fun_eq_iff
      direct_callees_def)

lemma demo_metas_separate:
  "\<forall>f\<in>direct_callees [(''a'', ''b'') \<mapsto> ''user:f''].
     cg_inv assoc_graaf ag_ok (libcCallGraph (meta_of assoc_graaf demo_metas f)) \<and>
     (dom (vertex_id_map (libcCallGraph (meta_of assoc_graaf demo_metas f))) \<inter>
        dom (vertex_id_map (graph_of [(''a'', ''b'', ''user:f'')])) = {} \<or>
      cg_edges assoc_graaf (libcCallGraph (meta_of assoc_graaf demo_metas f)) = [(''a'', ''b'') \<mapsto> ''user:f''])"
proof -
  have "dom (vertex_id_map (graph_of [(''f0'', ''f1'', ''libc:write''), (''f1'', ''f2'', ''user:g'')])) =
      {''f0'', ''f1'', ''f2''}"
    "dom (vertex_id_map (graph_of [(''a'', ''b'', ''user:f'')])) = {''a'', ''b''}"
    by (auto simp: ag_eval split: if_splits)
  then show ?thesis unfolding demo_metas_graphs(5) by (simp add: demo_metas_graphs graph_of_inv del: graph_of.simps)
qed

theorem combine_program_graph_witness:
  "\<exists>n. \<forall>fuel>n. \<exists>ms' fg. CombineLibcgGraph assoc_graaf fuel demo_metas = Some (Inr (ms', fg)) \<and>
    (\<forall>e\<in>ran (cg_edges assoc_graaf (finalGraph fg)). \<not> is_control e \<and> \<not> is_user e)"
  using combine_program_graph [OF assoc.graaf_lib_axioms refl, of demo_metas, unfolded demo_metas_graphs,
      OF graph_of_inv refl demo_metas_separate] by blast

text \<open>
  Calls two levels deep are missing.  A library call that occurs only in functions \<^verbatim>\<open>main\<close>
  does not call directly is on no edge of the graph of the program, although it is guarded in the
  code: the kernel, given this graph, kills a process that makes the call.
\<close>

theorem nested_calls_missing:
  assumes "graaf_lib L ok" "m = meta_of L ms ''main''" "cg_inv L ok (libcCallGraph m)"
    and "E = cg_edges L (libcCallGraph m)"
    and "\<forall>f\<in>direct_callees E. cg_inv L ok (libcCallGraph (meta_of L ms f)) \<and>
      (dom (vertex_id_map (libcCallGraph (meta_of L ms f))) \<inter> dom (vertex_id_map (libcCallGraph m)) = {} \<or>
       cg_edges L (libcCallGraph (meta_of L ms f)) = E)"
    and "call \<notin> ran E"
    and "\<forall>f\<in>direct_callees E. call \<notin> ran (cg_edges L (libcCallGraph (meta_of L ms f)))"
  shows "\<exists>n. \<forall>fuel>n. \<exists>ms' fg. CombineLibcgGraph L fuel ms = Some (Inr (ms', fg)) \<and>
    call \<notin> ran (cg_edges L (finalGraph fg))"
proof -
  have "graaf_lib.separate L ok ms (dom (vertex_id_map (libcCallGraph m))) E"
    unfolding graaf_lib.separate_def [OF assms(1)] by (rule assms(5))
  note inv = graaf_lib.combine_inv [OF assms(1-3), folded assms(4), OF this]
  have "call \<notin> ran E \<union> (\<Union>f\<in>direct_callees E. ran (cg_edges L (libcCallGraph (meta_of L ms f))))"
    using assms(6,7) by blast
  with inv show ?thesis by (meson subsetD)
qed

theorem nested_calls_missing_witness:
  "\<exists>n. \<forall>fuel>n. \<exists>ms' fg. CombineLibcgGraph assoc_graaf fuel demo_metas = Some (Inr (ms', fg)) \<and>
    ''libc:read'' \<notin> ran (cg_edges assoc_graaf (finalGraph fg))"
proof (rule nested_calls_missing [OF assoc.graaf_lib_axioms refl, of demo_metas, unfolded demo_metas_graphs,
      OF graph_of_inv refl demo_metas_separate])
  show "''libc:read'' \<notin> ran [(''a'', ''b'') \<mapsto> ''user:f'']" by simp
  show "\<forall>f\<in>direct_callees [(''a'', ''b'') \<mapsto> ''user:f'']. ''libc:read'' \<notin>
      ran (cg_edges assoc_graaf (libcCallGraph (meta_of assoc_graaf demo_metas f)))"
    by (auto simp: demo_metas_graphs ran_def simp del: graph_of.simps split: if_splits)
qed

text \<open>
  C28. The in-memory graph.  For a call graph with \<open>n\<close> vertices and \<open>n * n < 1000\<close> the pass
  generates the in-memory graph without a fault, seals it, places the bytes of the pool in the
  module and destroys the graph; the pool holds exactly the nodes of \<open>generated_graph\<close>.
\<close>

theorem generate_embeds_graph:
  assumes "graaf_lib L ok" "cg_inv L ok g" "ample e"
    and "length (fst junk) = 1000" "length (snd junk) = 1000"
    and "length (get_vertices L g) * length (get_vertices L g) < 1000"
  shows "\<exists>m s'. GenerateInMemoryGraph L e hash junk r g M memgraph_init =
      Inr (SectionAddressHandler (map m [0..<1024 * 1024]) M, s') \<and>
    sealed m (generated_graph L hash junk r g) \<and> pool s' = None \<and> nodes s' = None"
  using graaf_lib.generate_inv [OF assms(1-5) refl] assms(6) by simp

definition demo_junk :: "u64 list \<times> u64 list" where
  "demo_junk = (replicate 1000 0, replicate 1000 0)"

lemma demo_junk_length: "length (fst demo_junk) = 1000" "length (snd demo_junk) = 1000"
  by (simp_all add: demo_junk_def)

definition demo_hash :: "string \<Rightarrow> u64" where
  "demo_hash v = of_nat (foldl (\<lambda>n c. 31 * n + of_char c) 7 v)"

lemma fork_graph_vertices: "get_vertices assoc_graaf fork_graph = [''y'', ''v'', ''u'']"
  by (simp add: fork_graph_def ag_eval get_vertices_def)

theorem generate_embeds_graph_witness:
  "\<exists>m s'. GenerateInMemoryGraph assoc_graaf (ample_env User) demo_hash demo_junk demo_reader fork_graph
      \<lparr>m_functions = [demo_fun], m_globals = []\<rparr> memgraph_init =
      Inr (SectionAddressHandler (map m [0..<1024 * 1024]) \<lparr>m_functions = [demo_fun], m_globals = []\<rparr>, s') \<and>
    sealed m (generated_graph assoc_graaf demo_hash demo_junk demo_reader fork_graph)"
proof -
  have "length (get_vertices assoc_graaf fork_graph) * length (get_vertices assoc_graaf fork_graph) < 1000"
    by (simp add: fork_graph_vertices)
  from generate_embeds_graph [OF assoc.graaf_lib_axioms fork_graph_inv ample_ample_env demo_junk_length this]
  show ?thesis by blast
qed

text \<open>
  Large programs cannot be compiled.  The two arrays of \<^verbatim>\<open>GenerateInMemoryGraph\<close> are indexed
  by a counter that is not reset between the nodes, so with \<open>n\<close> vertices and \<open>n * n \<ge> 1000\<close> (32
  vertices or more) the assertion of the inner loop fails.
\<close>

theorem generate_asserts_on_large_graph:
  assumes "graaf_lib L ok" "cg_inv L ok g" "ample e"
    and "length (fst junk) = 1000" "length (snd junk) = 1000" "32 \<le> length (get_vertices L g)"
  shows "GenerateInMemoryGraph L e hash junk r g M memgraph_init = Inl Assert_failed"
proof -
  have "32 * 32 \<le> length (get_vertices L g) * length (get_vertices L g)"
    using assms(6) by (intro mult_le_mono)
  then show ?thesis using graaf_lib.generate_inv [OF assms(1-5) refl] by simp
qed

text \<open>A call graph of \<open>n\<close> vertices.\<close>

fun wide :: "nat \<Rightarrow> agraph callgraph" where
  "wide 0 = cg_empty assoc_graaf"
| "wide (Suc n) = snd (CallGraph.add_vertex assoc_graaf (replicate n CHR ''x'') False (wide n))"

lemma wide_inv: "cg_inv assoc_graaf ag_ok (wide n) \<and>
    dom (func_call_map (wide n)) = (\<lambda>i. replicate i CHR ''x'') ` {..<n}"
proof (induction n)
  case 0
  then show ?case by (simp add: assoc.empty_inv cg_empty_def) (simp add: cg_empty_def [symmetric] assoc.empty_inv)
next
  case (Suc n)
  obtain i g where g: "CallGraph.add_vertex assoc_graaf (replicate n CHR ''x'') False (wide n) = (i, g)"
    by (metis surj_pair)
  from assoc.add_vertex_inv [OF conjunct1 [OF Suc] g] Suc g show ?case by (auto simp: lessThan_Suc)
qed

lemma wide_vertices: "length (get_vertices assoc_graaf (wide n)) = n"
proof -
  have i: "cg_inv assoc_graaf ag_ok (wide n)" using wide_inv by blast
  have "inj_on (\<lambda>i. replicate i CHR ''x'') {..<n}" by (simp add: inj_on_def)
  then have "card ((\<lambda>i. replicate i CHR ''x'') ` {..<n}) = n" by (simp add: card_image)
  then have "card (set (get_vertices assoc_graaf (wide n))) = n"
    using assoc.get_vertices_inv(2) [OF i] assoc.inv_ids(3) [OF i] wide_inv [of n] by simp
  with assoc.get_vertices_inv(1) [OF i] show ?thesis by (simp add: distinct_card)
qed

theorem generate_asserts_on_large_graph_witness:
  "GenerateInMemoryGraph assoc_graaf (ample_env User) demo_hash demo_junk demo_reader (wide 32)
     \<lparr>m_functions = [demo_fun], m_globals = []\<rparr> memgraph_init = Inl Assert_failed"
proof -
  have "32 \<le> length (get_vertices assoc_graaf (wide 32))" by (simp only: wide_vertices)
  from generate_asserts_on_large_graph [OF assoc.graaf_lib_axioms conjunct1 [OF wide_inv]
      ample_ample_env demo_junk_length this]
  show ?thesis .
qed

text \<open>
  The two numbers of an edge are exchanged, and every node gets the edges of all vertices.
  Node \<open>j\<close> of the generated graph has \<open>(j + 1) * n\<close> edges; the edge that stands for vertex \<open>i\<close>
  has in the place of the library call the hash of the last neighbour of that vertex, and in the
  place of the successor the number of the last library call.
\<close>

theorem generated_edges_are_exchanged:
  assumes "vs = get_vertices L g" "length vs * length vs \<le> 1000"
    and "length (fst junk) = 1000" "length (snd junk) = 1000"
    and "j < length vs" "i < length vs"
    and "get_neighbors L (vs ! i) g = Inr us" "us \<noteq> []"
    and "get_outgoing_edges L (vs ! i) g = Inr labels" "labels \<noteq> []"
  shows "length (generated_graph L hash junk r g) = length vs \<and>
    ps_id (generated_graph L hash junk r g ! j) = hash (vs ! j) mod MODULUS \<and>
    length (ps_edges (generated_graph L hash junk r g ! j)) = Suc j * length vs \<and>
    ps_edges (generated_graph L hash junk r g ! j) ! (j * length vs + i) =
      (hash (last us) mod MODULUS, edge_number r (last labels))"
proof -
  have us: "out_names L g (vs ! i) = us" "out_labels L g (vs ! i) = labels"
    using assms(7,9) by (simp_all add: out_names_def out_labels_def)
  have room: "0 + length vs * length vs \<le> length (fst junk)"
    "0 + length vs * length vs \<le> length (snd junk)" using assms(2-4) by simp_all
  obtain el nl where n: "generated_graph L hash junk r g ! j =
      node_of (hash (vs ! j) mod MODULUS) (Suc j * length vs) el nl"
    "length el = 1000" "length nl = 1000"
    "el ! (j * length vs + i) = edge_number r (last labels)"
    "nl ! (j * length vs + i) = hash (last us) mod MODULUS"
    using node_seq_nth [OF assms(5) room, where es = "\<lambda>v. map (edge_number r) (out_labels L g v)" and
        ns = "\<lambda>v. map (\<lambda>u. hash u mod MODULUS) (out_names L g v)" and h = "\<lambda>v. hash v mod MODULUS"]
      assms(3,4,6,8,10) us
    by (auto simp: generated_graph_def assms(1) [symmetric] last_map)
  have "Suc j * length vs \<le> length vs * length vs" using assms(5) by (intro mult_le_mono) auto
  with assms(2) have "Suc j * length vs \<le> 1000" by simp
  moreover have "j * length vs + i < Suc j * length vs" using assms(6) by simp
  moreover have "length (generated_graph L hash junk r g) = length vs"
    by (simp add: generated_graph_def node_seq_length assms(1))
  ultimately show ?thesis using n by (simp add: node_of_simps)
qed

theorem generated_edges_are_exchanged_witness:
  "ps_edges (generated_graph assoc_graaf demo_hash demo_junk demo_reader fork_graph ! 0) ! 1 =
     (demo_hash ''y'' mod MODULUS, 9)"
proof -
  have "get_neighbors assoc_graaf ''v'' fork_graph = Inr [''y'']"
    "get_outgoing_edges assoc_graaf ''v'' fork_graph = Inr [''libc:write'']"
    by (simp_all add: fork_graph_def ag_eval get_neighbors_def get_outgoing_edges_def)
  with generated_edges_are_exchanged [OF fork_graph_vertices [symmetric], of demo_junk 0 1]
  show ?thesis by (simp add: demo_junk_length edge_number_def starts_with_def getValueFromMap_def demo_reader_def)
qed

section \<open>The injected calls\<close>

text \<open>
  C30. Guards and labels agree.  In every block the numbers that the injected guards pass to the
  kernel are, in order, the numbers the pass gives to the library-call labels of the same block
  when it generates the graph; nothing else in the block is a guard.
\<close>

theorem guards_match_labels:
  assumes "k < length (f_blocks f)" "guard_numbers (bb_insts (f_blocks f ! k)) = []"
  shows "guard_numbers (bb_insts (f_blocks (inject_function r f) ! k)) =
    map (edge_number r) (filter (starts_with ''libc:'') (getLibraryCalls r (f_blocks f ! k)))"
  using assms injected_numbers [OF assms(2)] by (simp add: inject_function_def getLibraryCalls_def)

theorem guards_match_labels_witness:
  "guard_numbers (bb_insts (f_blocks (inject_function demo_reader demo_fun) ! 0)) = [7]"
proof -
  have "0 < length (f_blocks demo_fun)" "guard_numbers (bb_insts (f_blocks demo_fun ! 0)) = []"
    by (simp_all add: demo_fun_def guard_numbers_def lib_callee_def)
  from guards_match_labels [OF this, of demo_reader] show ?thesis
    by (simp add: demo_fun_def demo_reader_def lib_callee_def getLibraryCalls_def isStringInMap_def
        edge_number_def starts_with_def getValueFromMap_def)
qed

text \<open>
  No guard without a listing.  When the listing cannot be opened the pass goes on: it injects
  no guard and labels no edge as a library call, and nothing is reported but the missing file.
\<close>

theorem missing_listing_disables_guards:
  "pass_run L e uniq hash junk fuel None r M ms s =
     runOnModule L e uniq hash junk fuel (r\<lparr>loaded := False\<rparr>) M ms s \<and>
   inject_function (r\<lparr>loaded := False\<rparr>) f = f \<and> \<not> has_library_call (r\<lparr>loaded := False\<rparr>) f \<and>
   filter (starts_with ''libc:'') (getLibraryCalls (r\<lparr>loaded := False\<rparr>) bb) = []"
proof (intro conjI)
  let ?r = "r\<lparr>loaded := False\<rparr>"
  have off: "\<not> isStringInMap ?r n" for n by (simp add: isStringInMap_def)
  show "pass_run L e uniq hash junk fuel None r M ms s = runOnModule L e uniq hash junk fuel ?r M ms s"
    by (simp add: pass_run_def readFileToMap_def Let_def)
  show "inject_function ?r f = f" by (simp add: inject_function_def inject_unlisted [OF off])
  show "\<not> has_library_call ?r f"
    by (auto simp: has_library_call_def off split: inst.splits option.splits)
  show "filter (starts_with ''libc:'') (getLibraryCalls ?r bb) = []"
    by (simp add: getLibraryCalls_def filter_concat o_def unlisted_label [OF off])
qed

definition main_loop_fun :: "unit ir_function" where
  "main_loop_fun = demo_fun\<lparr>f_name := ''main_loop''\<rparr>"

text \<open>
  The cleanup finds its place.  After \<^verbatim>\<open>SectionAddressHandler\<close> every function whose name
  begins with \<^verbatim>\<open>main\<close> has an instruction before a return, so the search of \<^verbatim>\<open>MemoryCleanupHandler\<close>
  never ends with a null instruction.
\<close>

theorem cleanup_finds_instruction:
  assumes "\<forall>f\<in>set (m_functions M). is_main f \<longrightarrow> f_blocks f \<noteq> []"
  shows "\<exists>M'. MemoryCleanupHandler (SectionAddressHandler data M) = Inr M'"
  using assms by (rule cleanup_after_section)

theorem cleanup_finds_instruction_witness:
  "\<exists>M'. MemoryCleanupHandler (SectionAddressHandler [1, 2] \<lparr>m_functions = [demo_fun, main_loop_fun],
     m_globals = []\<rparr>) = Inr M'"
  by (rule cleanup_finds_instruction) (simp add: main_loop_fun_def demo_fun_def)

text \<open>
  There is one cleanup call per function.  A function whose name begins with \<^verbatim>\<open>main\<close> gets
  exactly one, before the last instruction that precedes a return in the order of the blocks; a
  function that returns from several blocks leaves the automaton in the kernel on the other paths.
\<close>

theorem one_cleanup_call:
  assumes "is_main f" "cleanup_function f = Inr f'"
    and "\<forall>bb\<in>set (f_blocks f). cleanup_call \<notin> set (bb_insts bb)"
  shows "\<exists>b k. last_inst 0 (f_blocks f) None = Some (b, k) \<and> b < length (f_blocks f) \<and>
    bb_insts (f_blocks f' ! b) =
      take k (bb_insts (f_blocks f ! b)) @ cleanup_call # drop k (bb_insts (f_blocks f ! b)) \<and>
    (\<forall>j<length (f_blocks f). j \<noteq> b \<longrightarrow> f_blocks f' ! j = f_blocks f ! j \<and>
       cleanup_call \<notin> set (bb_insts (f_blocks f' ! j)))"
proof -
  have in_range: "last_inst n bbs found = Some (b, k) \<Longrightarrow> found = Some (b, k) \<or> n \<le> b \<and> b < n + length bbs"
    for n b k and bbs :: "'a basic_block list" and found
    by (induction bbs arbitrary: n found) (fastforce simp: Let_def split: if_splits)+
  from assms(1,2) obtain b k where bk: "last_inst 0 (f_blocks f) None = Some (b, k)"
    "f' = f\<lparr>f_blocks := (f_blocks f)[b := (f_blocks f ! b)
       \<lparr>bb_insts := insert_at k cleanup_call (bb_insts (f_blocks f ! b))\<rparr>]\<rparr>"
    by (auto simp: cleanup_function_def Let_def split: option.splits)
  have "b < length (f_blocks f)" using in_range [OF bk(1)] by simp
  with bk assms(3) show ?thesis
    by (intro exI [of _ b] exI [of _ k]) (auto simp: insert_at_def)
qed

theorem one_cleanup_call_witness:
  "\<exists>f' b k. cleanup_function demo_fun = Inr f' \<and> last_inst 0 (f_blocks demo_fun) None = Some (b, k) \<and>
     bb_insts (f_blocks f' ! b) =
      take k (bb_insts (f_blocks demo_fun ! b)) @ cleanup_call # drop k (bb_insts (f_blocks demo_fun ! b))"
proof -
  have "is_main demo_fun" by (simp add: is_main_def demo_fun_def starts_with_def)
  moreover have "\<exists>f'. cleanup_function demo_fun = Inr f'"
    by (simp add: cleanup_function_def is_main_def demo_fun_def starts_with_def)
  moreover have "\<forall>bb\<in>set (f_blocks demo_fun). cleanup_call \<notin> set (bb_insts bb)"
    by (simp add: demo_fun_def cleanup_call_def)
  ultimately show ?thesis using one_cleanup_call [of demo_fun] by blast
qed

section \<open>The listing\<close>

text \<open>
  C29. The listing round trip.  \<^verbatim>\<open>readFileToMap\<close> reads every listing that \<^verbatim>\<open>extractFunctionNames\<close>
  writes, as long as no symbol name holds a line break: afterwards exactly the function symbols
  of the library are in the map, each with the index of its last entry in the symbol table.
\<close>

theorem dump_read_roundtrip:
  assumes "version_known E" "lib_opens E" "elf_begins E"
    and "find (\<lambda>s. sh_type s = SHT_SYMTAB \<or> sh_type s = SHT_DYNSYM) (elf_sections E) = Some shdr"
    and "has_data E shdr" "sh_entsize shdr \<noteq> 0"
    and "n = nat (sint (ucast (sh_size shdr div sh_entsize shdr) :: 32 word))"
    and "\<forall>j name. func_name E j = Some name \<longrightarrow> newline \<notin> set name"
  shows "\<exists>content r. extractFunctionNames E True = Inr (Some content) \<and>
    readFileToMap (Some content) reader_init = Inr (True, r) \<and>
    (\<forall>name. isStringInMap r name \<longleftrightarrow> (\<exists>i<n. func_name E i = Some name)) \<and>
    (\<forall>i<n. \<forall>name. func_name E i = Some name \<and> (\<forall>j<n. i < j \<longrightarrow> func_name E j \<noteq> Some name) \<longrightarrow>
       getValueFromMap r name = int i)"
proof -
  let ?c = "write_symbols E 0 n"
  let ?r = "\<lparr>stringMap = listing_map E 0 n Map.empty, loaded = True\<rparr>"
  have x: "extractFunctionNames E True = Inr (Some ?c)"
    using assms(1-7) by (simp add: extractFunctionNames_def)
  have "0 + n \<le> 2 ^ 31"
    using assms(7) sint_lt [of "ucast (sh_size shdr div sh_entsize shdr) :: 32 word"] by simp
  from read_written [OF assms(8) this]
  have "readFileToMap (Some ?c) reader_init = Inr (True, ?r)"
    by (simp add: readFileToMap_def reader_init_def Let_def)
  moreover have "isStringInMap ?r name \<longleftrightarrow> (\<exists>i<n. func_name E i = Some name)" for name
    using listing_map_defined [of E 0 n Map.empty name] by (simp add: isStringInMap_def)
  moreover have "getValueFromMap ?r name = int i"
    if "i < n" "func_name E i = Some name" "\<forall>j<n. i < j \<longrightarrow> func_name E j \<noteq> Some name" for i name
    using listing_map_last [OF that(2), of 0 n Map.empty] that(1,3) by (simp add: getValueFromMap_def)
  ultimately show ?thesis using x by blast
qed

definition demo_section :: elf_section where
  "demo_section = \<lparr>sh_type = SHT_DYNSYM, sh_size = 72, sh_entsize = 24\<rparr>"

definition demo_elf :: libelf where
  "demo_elf = \<lparr>version_known = True, lib_opens = True, elf_begins = True,
     elf_sections = [demo_section], has_data = (\<lambda>_. True),
     sym_info = (\<lambda>i. if i = 0 then 0 else 0x12),
     sym_string = (\<lambda>i. Some (if i = 1 then ''read'' else ''write''))\<rparr>"

lemma demo_elf_names: "func_name demo_elf i =
    (if i = 0 then None else if i = 1 then Some ''read'' else Some ''write'')"
  by (simp add: func_name_def demo_elf_def GELF_ST_TYPE_def STT_FUNC_def)

theorem dump_read_roundtrip_witness:
  "\<exists>content r. extractFunctionNames demo_elf True = Inr (Some content) \<and>
    readFileToMap (Some content) reader_init = Inr (True, r) \<and>
    isStringInMap r ''read'' \<and> getValueFromMap r ''write'' = 2"
proof -
  have "version_known demo_elf" "lib_opens demo_elf" "elf_begins demo_elf"
    "find (\<lambda>s. sh_type s = SHT_SYMTAB \<or> sh_type s = SHT_DYNSYM) (elf_sections demo_elf) = Some demo_section"
    "has_data demo_elf demo_section" "sh_entsize demo_section \<noteq> 0"
    by (simp_all add: demo_elf_def demo_section_def)
  moreover have "(3::nat) = nat (sint (ucast (sh_size demo_section div sh_entsize demo_section) :: 32 word))"
    by (simp add: demo_section_def)
  moreover have "\<forall>j name. func_name demo_elf j = Some name \<longrightarrow> newline \<notin> set name"
    by (auto simp: demo_elf_names newline_def)
  ultimately obtain content r where r: "extractFunctionNames demo_elf True = Inr (Some content)"
    "readFileToMap (Some content) reader_init = Inr (True, r)"
    "\<And>name. isStringInMap r name \<longleftrightarrow> (\<exists>i<3. func_name demo_elf i = Some name)"
    "\<And>i name. i < 3 \<Longrightarrow> func_name demo_elf i = Some name \<Longrightarrow>
       (\<forall>j<3. i < j \<longrightarrow> func_name demo_elf j \<noteq> Some name) \<Longrightarrow> getValueFromMap r name = int i"
    using dump_read_roundtrip [of demo_elf demo_section 3] by blast
  have "isStringInMap r ''read''" unfolding r(3) by (intro exI [of _ 1]) (simp add: demo_elf_names)
  moreover have "getValueFromMap r ''write'' = 2" using r(4) [of 2 "''write''"] by (simp add: demo_elf_names)
  ultimately show ?thesis using r(1,2) by blast
qed

text \<open>
  A first line that does not begin with a number stops the compiler: \<^verbatim>\<open>std::stoi\<close> throws and
  \<^verbatim>\<open>readFileToMap\<close> does not catch, so the line is not skipped like a line without a colon.
\<close>

theorem bad_line_is_fatal:
  assumes "\<forall>c\<in>set pre. \<not> is_digit c \<and> c \<noteq> CHR '':'' \<and> c \<noteq> newline" "newline \<notin> set key"
  shows "readFileToMap (Some (pre @ '':'' @ key @ newline # rest)) r =
    Inl (Uncaught ''invalid_argument'')"
proof -
  have "newline \<notin> set (pre @ '':'' @ key)" using assms by (auto simp: newline_def)
  from getlines_line [OF this, of rest]
  have "getlines (pre @ '':'' @ key @ newline # rest) = (pre @ '':'' @ key) # getlines rest" by simp
  moreover have "read_line (pre @ '':'' @ key) m = Inl (Uncaught ''invalid_argument'')" for m
    using assms(1) by (intro read_line_no_number) blast
  ultimately show ?thesis by (simp add: readFileToMap_def Let_def)
qed

theorem bad_line_is_fatal_witness:
  "readFileToMap (Some (''# libc'' @ '':'' @ '' functions'' @ newline # ''7:read'')) reader_init =
     Inl (Uncaught ''invalid_argument'')"
  by (rule bad_line_is_fatal) (auto simp: is_digit_def newline_def)

end
