(* ===== verification/Naming.thy ===== *)
theory Naming
  imports PathSpec
begin

text \<open>
  The names the pass gives to blocks and calls.  LLVM's \<^verbatim>\<open>setName\<close> is a parameter with its
  documented behaviour, the locale \<open>block_namer\<close>; the lemmas show that names of the form
  \<^verbatim>\<open>[function]operand\<close>, \<^verbatim>\<open>block-libc_n\<close> and \<^verbatim>\<open>block-user_n\<close> never meet in a module whose
  function names hold no bracket and no dash.
\<close>

section \<open>The naming of values\<close>

text \<open>
  The name asked for, up to LLVM's limit of 1024 characters, with digits behind it when it is
  taken.
\<close>

locale block_namer =
  fixes uniq :: "string list \<Rightarrow> string \<Rightarrow> string"
  assumes fresh: "uniq taken n \<notin> set taken"
    and extends: "length n \<le> 1024 \<Longrightarrow> \<exists>ds. uniq taken n = n @ ds \<and> list_all is_digit ds"
begin

lemma named_length [simp]: "length (name_blocks uniq fn taken bbs) = length bbs"
  by (induction bbs arbitrary: taken) (simp_all add: Let_def)

lemma named_kept:
  "map bb_insts (name_blocks uniq fn taken bbs) = map bb_insts bbs"
  "map bb_succs (name_blocks uniq fn taken bbs) = map bb_succs bbs"
  by (induction bbs arbitrary: taken) (simp_all add: Let_def)

lemma named_distinct:
  "distinct (map bb_name (name_blocks uniq fn taken bbs)) \<and>
   set (map bb_name (name_blocks uniq fn taken bbs)) \<inter> set taken = {}"
proof (induction bbs arbitrary: taken)
  case (Cons bb bbs)
  let ?n = "uniq taken (''['' @ fn @ '']'' @ bb_operand bb)"
  from Cons [of "?n # taken"] fresh [of taken "''['' @ fn @ '']'' @ bb_operand bb"]
  show ?case by (auto simp: Let_def)
qed simp

lemma named_form:
  assumes "\<forall>bb\<in>set bbs. length fn + length (bb_operand bb) \<le> 1022"
    and "n \<in> set (map bb_name (name_blocks uniq fn taken bbs))"
  shows "\<exists>bb\<in>set bbs. \<exists>ds. n = ''['' @ fn @ '']'' @ bb_operand bb @ ds \<and> list_all is_digit ds"
  using assms
proof (induction bbs arbitrary: taken)
  case (Cons bb bbs)
  let ?m = "uniq taken (''['' @ fn @ '']'' @ bb_operand bb)"
  have "length (''['' @ fn @ '']'' @ bb_operand bb) \<le> 1024" using Cons.prems(1) by simp
  from extends [OF this, of taken]
  have m: "\<exists>ds. ?m = ''['' @ fn @ '']'' @ bb_operand bb @ ds \<and> list_all is_digit ds" by simp
  from Cons.prems(2) consider "n = ?m"
    | "n \<in> set (map bb_name (name_blocks uniq fn (?m # taken) bbs))"
    by (auto simp: Let_def)
  then show ?case
  proof cases
    case 1
    with m show ?thesis by auto
  next
    case 2
    from Cons.IH [OF _ this] Cons.prems(1) show ?thesis by auto
  qed
qed simp

end

text \<open>A namer that counts until the name is free: the laws can be met.\<close>

definition counting_namer :: "string list \<Rightarrow> string \<Rightarrow> string" where
  "counting_namer taken n =
     hd (filter (\<lambda>m. m \<notin> set taken) (n # map (\<lambda>i. n @ nat_string i) [1..<Suc (length taken)]))"

lemma counting_namer_candidates:
  "distinct (n # map (\<lambda>i. n @ nat_string i) [1..<k])"
  using nat_string_spec by (auto simp: distinct_map inj_on_def dest: nat_string_inj)

lemma counting_namer_in:
  "counting_namer taken n \<notin> set taken \<and>
   counting_namer taken n \<in> set (n # map (\<lambda>i. n @ nat_string i) [1..<Suc (length taken)])"
proof -
  let ?cs = "n # map (\<lambda>i. n @ nat_string i) [1..<Suc (length taken)]"
  have "filter (\<lambda>m. m \<notin> set taken) ?cs \<noteq> []"
  proof
    assume "filter (\<lambda>m. m \<notin> set taken) ?cs = []"
    then have "set ?cs \<subseteq> set taken" unfolding filter_empty_conv by blast
    then have "card (set ?cs) \<le> card (set taken)" by (intro card_mono) simp_all
    moreover have "card (set ?cs) = length ?cs"
      by (rule distinct_card [OF counting_namer_candidates])
    moreover have "length ?cs = Suc (length taken)" by (simp del: upt_Suc)
    ultimately show False using card_length [of taken] by linarith
  qed
  from hd_in_set [OF this] show ?thesis by (simp only: counting_namer_def set_filter) blast
qed

interpretation counting: block_namer counting_namer
proof
  fix taken n
  show "counting_namer taken n \<notin> set taken" using counting_namer_in by blast
next
  fix taken and n :: string
  from counting_namer_in [of taken n] show "\<exists>ds. counting_namer taken n = n @ ds \<and> list_all is_digit ds"
    using nat_string_spec by auto
qed

section \<open>Names do not meet\<close>

text \<open>What the names of a module's functions and operands must not hold, and how long they are.\<close>

definition plain_function :: "'i ir_function \<Rightarrow> bool" where
  "plain_function f \<longleftrightarrow>
     CHR '']'' \<notin> set (f_name f) \<and> CHR ''-'' \<notin> set (f_name f) \<and>
     (\<forall>bb\<in>set (f_blocks f). CHR ''-'' \<notin> set (bb_operand bb) \<and>
        length (f_name f) + length (bb_operand bb) \<le> 1022)"

definition well_formed :: "'i ir_module \<Rightarrow> bool" where
  "well_formed M \<longleftrightarrow>
     (\<forall>f\<in>set (m_functions M). (\<not> skipped f \<longrightarrow> flow_ok f \<and> plain_function f) \<and>
        (is_main f \<longrightarrow> f_blocks f \<noteq> []))"

lemma takeWhile_stop: "c \<notin> set xs \<Longrightarrow> takeWhile (\<lambda>x. x \<noteq> c) (xs @ c # ys) = xs"
  by (induction xs) auto

lemma call_vertex_block: "CHR ''-'' \<notin> set bb \<Longrightarrow> takeWhile (\<lambda>c. c \<noteq> CHR ''-'') (call_vertex bb c n) = bb"
  by (simp add: call_vertex_def takeWhile_stop)

lemma call_vertex_dash: "CHR ''-'' \<in> set (call_vertex bb c n)"
  by (simp add: call_vertex_def)

lemma all_call_vertices_set:
  "v \<in> set (all_call_vertices cs) \<Longrightarrow> \<exists>bb\<in>fst ` set cs. \<exists>c n. v = call_vertex bb c n"
proof (induction cs rule: all_call_vertices.induct)
  case (2 bb calls bs)
  then show ?case using call_vertices_set [of v bb 1 calls] by auto
qed simp

lemma all_call_vertices_distinct:
  "distinct (map fst cs) \<Longrightarrow> \<forall>bb\<in>fst ` set cs. CHR ''-'' \<notin> set bb \<Longrightarrow> distinct (all_call_vertices cs)"
proof (induction cs rule: all_call_vertices.induct)
  case (2 bb calls bs)
  have "v \<notin> set (all_call_vertices bs)" if v: "v \<in> set (call_vertices bb 1 calls)" for v
  proof
    assume "v \<in> set (all_call_vertices bs)"
    then obtain bb' c n where "bb' \<in> fst ` set bs" "v = call_vertex bb' c n"
      using all_call_vertices_set by blast
    moreover obtain c' k where "v = call_vertex bb c' k" using v call_vertices_set by blast
    ultimately have "bb' = bb" using call_vertex_block 2(3) by (metis image_insert insertCI list.simps(15) fst_conv)
    with \<open>bb' \<in> fst ` set bs\<close> 2(2) show False by simp
  qed
  with 2 call_vertices_distinct show ?case by auto
qed simp

text \<open>Every vertex name begins with the name of its function in brackets.\<close>

lemma flow_ok_succs:
  "flow_ok f \<longleftrightarrow> (\<forall>ss\<in>set (map bb_succs (f_blocks f)). \<forall>s\<in>set ss. s < length (f_blocks f))"
  by (simp add: flow_ok_def)

definition names_of :: "string \<Rightarrow> string \<Rightarrow> bool" where
  "names_of fn v \<longleftrightarrow> takeWhile (\<lambda>c. c \<noteq> CHR '']'') v = CHR ''['' # fn"

context block_namer
begin

lemma block_names:
  assumes "plain_function f" "n \<in> bb_name ` set (f_blocks (nameBasicBlocks uniq f))"
  shows "CHR ''-'' \<notin> set n" "\<exists>xs. n = ''['' @ f_name f @ '']'' @ xs"
proof -
  have l: "\<forall>bb\<in>set (f_blocks f). length (f_name f) + length (bb_operand bb) \<le> 1022"
    using assms(1) by (simp add: plain_function_def)
  from assms(2) have "n \<in> set (map bb_name (name_blocks uniq (f_name f) [] (f_blocks f)))"
    by (simp add: nameBasicBlocks_def)
  from named_form [OF l this] obtain bb ds where
    n: "bb \<in> set (f_blocks f)" "n = ''['' @ f_name f @ '']'' @ bb_operand bb @ ds" "list_all is_digit ds"
    by blast
  show "\<exists>xs. n = ''['' @ f_name f @ '']'' @ xs" using n(2) by blast
  have "CHR ''-'' \<notin> set ds" using n(3) digit_not_special by (auto simp: list_all_iff)
  then show "CHR ''-'' \<notin> set n" using assms(1) n(1) by (auto simp: plain_function_def n(2))
qed

lemma vertex_names_named:
  assumes "plain_function f"
  shows "distinct (vertex_names r (nameBasicBlocks uniq f))"
    "v \<in> set (vertex_names r (nameBasicBlocks uniq f)) \<Longrightarrow> names_of (f_name f) v"
proof -
  let ?bbs = "f_blocks (nameBasicBlocks uniq f)" and ?cs = "list_calls r (f_blocks (nameBasicBlocks uniq f)) []"
  have d: "distinct (map bb_name ?bbs)" by (simp add: nameBasicBlocks_def named_distinct)
  note keys = list_calls_keys [OF d, of r]
  have k: "\<forall>bb\<in>fst ` set ?cs. CHR ''-'' \<notin> set bb"
    using block_names(1) [OF assms subsetD [OF keys(2)]] by (intro ballI)
  have "v \<notin> bb_name ` set ?bbs" if v: "v \<in> set (all_call_vertices ?cs)" for v
  proof
    assume "v \<in> bb_name ` set ?bbs"
    from block_names(1) [OF assms this] all_call_vertices_set [OF v] call_vertex_dash show False by fast
  qed
  then have "set (map bb_name ?bbs) \<inter> set (all_call_vertices ?cs) = {}" by auto
  with d all_call_vertices_distinct [OF keys(1) k] show "distinct (vertex_names r (nameBasicBlocks uniq f))"
    by (simp only: vertex_names_def distinct_append simp_thms)
  assume "v \<in> set (vertex_names r (nameBasicBlocks uniq f))"
  then consider "v \<in> bb_name ` set ?bbs" | "v \<in> set (all_call_vertices ?cs)"
    by (auto simp: vertex_names_def)
  then obtain n ys where n: "n \<in> bb_name ` set ?bbs" "v = n @ ys"
  proof cases
    case 1
    with that [of v "[]"] show thesis by simp
  next
    case 2
    from all_call_vertices_set [OF this] obtain bb c n where "bb \<in> fst ` set ?cs" "v = call_vertex bb c n"
      by blast
    with keys(2) that [of bb] show thesis by (auto simp: call_vertex_def)
  qed
  from block_names(2) [OF assms n(1)] obtain xs where "v = (CHR ''['' # f_name f) @ CHR '']'' # xs @ ys"
    using n(2) by auto
  moreover have "CHR '']'' \<notin> set (CHR ''['' # f_name f)" using assms by (simp add: plain_function_def)
  ultimately show "names_of (f_name f) v" unfolding names_of_def by (metis takeWhile_stop)
qed

lemma flow_ok_named: "flow_ok (nameBasicBlocks uniq f) = flow_ok f"
  by (simp only: flow_ok_succs) (simp add: nameBasicBlocks_def named_kept del: set_map)

lemma well_formed_ok:
  assumes "well_formed M"
  shows "module_ok uniq r M"
  unfolding module_ok_def
proof (intro conjI ballI impI)
  have P: "\<exists>f0. f = nameBasicBlocks uniq f0 \<and> flow_ok f0 \<and> plain_function f0" if "f \<in> processed uniq M" for f
    using that assms by (auto simp: processed_def well_formed_def)
  fix f assume "f \<in> processed uniq M"
  from P [OF this] obtain f0 where f: "f = nameBasicBlocks uniq f0" "flow_ok f0" "plain_function f0" by blast
  show "flow_ok f" using f(2) by (simp add: f(1) flow_ok_named)
  show "distinct (vertex_names r f)" unfolding f(1) by (rule vertex_names_named(1) [OF f(3)])
  fix h assume "h \<in> processed uniq M" and ne: "f_name f \<noteq> f_name h"
  from P [OF this(1)] obtain h0 where h: "h = nameBasicBlocks uniq h0" "plain_function h0" by blast
  show "set (vertex_names r f) \<inter> set (vertex_names r h) = {}"
    using vertex_names_named(2) [OF f(3)] vertex_names_named(2) [OF h(2)] ne
    by (fastforce simp: f(1) h(1) names_of_def)
next
  fix f assume "f \<in> set (m_functions M)" "is_main f"
  with assms show "f_blocks f \<noteq> []" by (simp add: well_formed_def)
qed

end

end
