(* ===== verification/GraphDump.thy ===== *)
theory GraphDump
  imports CallGraphSpec CallGraphGen
begin

text \<open>
  \<^verbatim>\<open>LibcCallgraph::dump_todot\<close>: the attributes of the vertices and edges that are handed to
  graaf's \<^verbatim>\<open>to_dot\<close>, which is a parameter (from the attributes to the file).
\<close>

section \<open>Attributes\<close>

definition quoted :: "string \<Rightarrow> string" where
  "quoted s = [CHR 0x22] @ s @ [CHR 0x22]"

definition vertex_attributes :: "string \<Rightarrow> string \<Rightarrow> string" where
  "vertex_attributes colour v = ''label='' @ quoted v @ '',fillcolor='' @ colour @ '', style=filled''"

text \<open>
  \<^verbatim>\<open>vertex_writer\<close>: \<^verbatim>\<open>operator[]\<close> on \<^verbatim>\<open>func_call_map\<close> inserts \<^verbatim>\<open>false\<close> for a missing key.
\<close>

definition vertex_writer ::
    "string \<Rightarrow> string \<Rightarrow> string \<Rightarrow> (string \<rightharpoonup> bool) \<Rightarrow> string \<times> (string \<rightharpoonup> bool)" where
  "vertex_writer entry exit v flags =
     (if v = entry then (vertex_attributes ''lightgreen'' v, flags)
      else if v = exit then (vertex_attributes ''darkorchid1'' v, flags)
      else case flags v of
             Some True \<Rightarrow> (vertex_attributes ''lightcoral'' v, flags)
           | Some False \<Rightarrow> (vertex_attributes ''lightcyan'' v, flags)
           | None \<Rightarrow> (vertex_attributes ''lightcyan'' v, flags(v \<mapsto> False)))"

definition edge_writer :: "string \<Rightarrow> string" where
  "edge_writer e =
     (if e = ''control'' then ''label='' @ quoted [] @ '', style=dashed, color=gray, fontcolor=gray''
      else ''label='' @ quoted e @ '', style=solid, color=red, fontcolor=red'')"

section \<open>The file\<close>

text \<open>\<^verbatim>\<open>to_dot\<close> visits the vertices and then the edges.\<close>

fun write_vertices ::
    "string \<Rightarrow> string \<Rightarrow> (vertex_id \<times> string) list \<Rightarrow> (string \<rightharpoonup> bool) \<Rightarrow>
     (vertex_id \<times> string) list \<times> (string \<rightharpoonup> bool)" where
  "write_vertices entry exit [] flags = ([], flags)"
| "write_vertices entry exit ((a, v) # vs) flags =
     (let (attrs, flags1) = vertex_writer entry exit v flags;
          (out, flags2) = write_vertices entry exit vs flags1
      in ((a, attrs) # out, flags2))"

definition dump_todot ::
    "'g graaf \<Rightarrow> ((vertex_id \<times> string) list \<Rightarrow> (edge_id \<times> string) list \<Rightarrow> string) \<Rightarrow>
     string \<Rightarrow> string \<Rightarrow> 'g callgraph \<Rightarrow> string \<times> 'g callgraph" where
  "dump_todot L to_dot entry exit cg =
     (let (vs, flags) = write_vertices entry exit (gr_vertices L (cg_graph cg)) (func_call_map cg)
      in (to_dot vs (map (\<lambda>(k, e). (k, edge_writer e)) (gr_edges L (cg_graph cg))),
          cg\<lparr>func_call_map := flags\<rparr>))"

text \<open>
  The end of \<^verbatim>\<open>CombineLibcgGraph\<close>: the name of the file, from the two options for its path and its
  name, and its contents.
\<close>

definition dump_final ::
    "'g graaf \<Rightarrow> ((vertex_id \<times> string) list \<Rightarrow> (edge_id \<times> string) list \<Rightarrow> string) \<Rightarrow>
     string \<Rightarrow> string \<Rightarrow> 'g final_graph \<Rightarrow> (string \<times> string) \<times> 'g final_graph" where
  "dump_final L to_dot path name fg =
     (let (content, g) = dump_todot L to_dot (finalGraphEntryNode fg) (finalGraphExitNode fg) (finalGraph fg)
      in ((path @ ''/'' @ name @ ''final.dot'', content), fg\<lparr>finalGraph := g\<rparr>))"

section \<open>A dump only looks\<close>

text \<open>The colour of a vertex whose flag is known.\<close>

definition colour_of :: "string \<Rightarrow> string \<Rightarrow> (string \<rightharpoonup> bool) \<Rightarrow> string \<Rightarrow> string" where
  "colour_of entry exit flags v =
     (if v = entry then ''lightgreen'' else if v = exit then ''darkorchid1''
      else if flags v = Some True then ''lightcoral'' else ''lightcyan'')"

lemma vertex_writer_known:
  "v \<in> dom flags \<Longrightarrow>
     vertex_writer entry exit v flags = (vertex_attributes (colour_of entry exit flags v) v, flags)"
  by (auto simp: vertex_writer_def colour_of_def split: bool.splits)

lemma write_vertices_known:
  "snd ` set vs \<subseteq> dom flags \<Longrightarrow> write_vertices entry exit vs flags =
     (map (\<lambda>(a, v). (a, vertex_attributes (colour_of entry exit flags v) v)) vs, flags)"
proof (induction vs)
  case (Cons x vs)
  obtain a v where x: "x = (a, v)" by (metis surj_pair)
  with Cons have "v \<in> dom flags" "snd ` set vs \<subseteq> dom flags" by auto
  with Cons.IH vertex_writer_known [of v flags entry exit] show ?case by (simp add: x)
qed simp


context graaf_lib
begin

lemma dump_inv:
  assumes "cg_inv L ok cg"
  shows "dump_todot L to_dot entry exit cg =
    (to_dot (map (\<lambda>(a, v). (a, vertex_attributes (colour_of entry exit (func_call_map cg) v) v))
               (gr_vertices L (cg_graph cg)))
       (map (\<lambda>(k, e). (k, edge_writer e)) (gr_edges L (cg_graph cg))), cg)"
proof -
  have "snd ` set (gr_vertices L (cg_graph cg)) \<subseteq> dom (func_call_map cg)"
  proof
    fix v assume "v \<in> snd ` set (gr_vertices L (cg_graph cg))"
    then obtain a where "(a, v) \<in> set (gr_vertices L (cg_graph cg))" by auto
    then have "vmap L (cg_graph cg) a = Some v" using assms vertices_listed by (simp add: cg_inv_def)
    with assms show "v \<in> dom (func_call_map cg)" by (auto simp: cg_inv_def)
  qed
  then show ?thesis by (simp add: dump_todot_def write_vertices_known)
qed

end

end
