(* ===== verification/ProgramProperties.thy ===== *)
theory ProgramProperties
  imports PassProperties Naming LineSpec GraphDump
begin

text \<open>
  The properties of the pass as a whole: from a module of LLVM's IR to the instrumented module
  with the embedded graph, for any graph library and any naming of values with the documented
  behaviour.
\<close>

section \<open>The walks of a function\<close>

text \<open>
  C4. The expanded graph of a function spells its control flow.  After the steps
  \<^verbatim>\<open>nameBasicBlocks\<close>, the graph of the blocks and \<^verbatim>\<open>ExpandBBGraph\<close>, the walks from a block to the
  end of a block are exactly the paths of the control-flow graph between them: the labels of the
  walk are the calls of the blocks on the path, in order, with a control label for each jump.
\<close>

theorem expanded_graph_spells_paths:
  assumes "graaf_lib L ok" "flow_ok f" "distinct (vertex_names r f)"
    and "b \<in> set (f_blocks f)" "c \<in> set (f_blocks f)"
  shows "\<exists>m x g. analyse_function L r f = Inr m \<and>
    expand_blocks L (bbToLibcMap m) (exitNode m, bbGraph m) = Inr (x, g) \<and> cg_inv L ok g \<and>
    (\<forall>es. spells (cg_edges L g) (bb_name b) es (block_end r c) \<longleftrightarrow>
       (\<exists>p. flow_path (f_blocks f) p \<and> hd p = b \<and> last p = c \<and> path_word r p = es))"
proof -
  obtain m where m: "analyse_function L r f = Inr m"
    using graaf_lib.analyse_inv [OF assms(1), of f r] assms(2) by (auto simp: flow_ok_def)
  from graaf_lib.expand_function [OF assms(1) m assms(2,3)] obtain x g where
    g: "expand_blocks L (bbToLibcMap m) (exitNode m, bbGraph m) = Inr (x, g)" "cg_inv L ok g"
    "cg_edges L g = expanded_map r f" by (auto simp: expanded_map_def)
  have "spells (cg_edges L g) (bb_name b) es (block_end r c) \<longleftrightarrow>
      (\<exists>p. flow_path (f_blocks f) p \<and> hd p = b \<and> last p = c \<and> path_word r p = es)" for es
    unfolding g(3) using spells_path [OF assms(2-5)] path_spells [OF assms(2,3)] by blast
  with m g(1,2) show ?thesis by blast
qed

lemma demo_fun_ok: "flow_ok demo_fun" "distinct (vertex_names demo_reader demo_fun)"
proof -
  show "flow_ok demo_fun" by (simp add: flow_ok_def demo_fun_def)
  show "distinct (vertex_names demo_reader demo_fun)"
    by (simp add: vertex_names_def demo_fun_calls) (simp add: demo_fun_def)
qed

theorem expanded_graph_spells_paths_witness:
  "\<exists>m x g. analyse_function assoc_graaf demo_reader demo_fun = Inr m \<and>
    expand_blocks assoc_graaf (bbToLibcMap m) (exitNode m, bbGraph m) = Inr (x, g) \<and>
    spells (cg_edges assoc_graaf g) ''a'' [''libc:read'', ''control''] ''b''"
proof -
  let ?b = "f_blocks demo_fun ! 0" and ?c = "f_blocks demo_fun ! Suc 0"
  have bc: "?b \<in> set (f_blocks demo_fun)" "?c \<in> set (f_blocks demo_fun)" by (simp_all add: demo_fun_def)
  from expanded_graph_spells_paths [OF assoc.graaf_lib_axioms demo_fun_ok bc] obtain m x g where
    m: "analyse_function assoc_graaf demo_reader demo_fun = Inr m"
    "expand_blocks assoc_graaf (bbToLibcMap m) (exitNode m, bbGraph m) = Inr (x, g)"
    "\<forall>es. spells (cg_edges assoc_graaf g) (bb_name ?b) es (block_end demo_reader ?c) \<longleftrightarrow>
       (\<exists>p. flow_path (f_blocks demo_fun) p \<and> hd p = ?b \<and> last p = ?c \<and> path_word demo_reader p = es)"
    by blast
  have c: "getLibraryCalls demo_reader ?b = [''libc:read'']" "getLibraryCalls demo_reader ?c = []"
    by (simp_all add: demo_fun_def demo_reader_def lib_callee_def getLibraryCalls_def isStringInMap_def)
  have "flow_path (f_blocks demo_fun) [?b, ?c]" by (simp add: demo_fun_def)
  moreover have "path_word demo_reader [?b, ?c] = [''libc:read'', ''control'']" by (simp add: c)
  ultimately have "spells (cg_edges assoc_graaf g) (bb_name ?b) [''libc:read'', ''control'']
      (block_end demo_reader ?c)" using m(3) by (metis last_ConsL last_ConsR list.distinct(1) list.sel(1))
  moreover have "bb_name ?b = ''a''" "block_end demo_reader ?c = ''b''"
    by (simp_all add: block_end_def chain_end_def c) (simp_all add: demo_fun_def)
  ultimately show ?thesis using m(1,2) by auto
qed

text \<open>
  C8. For a function without branches the graph of its calls is exact.  The three steps of the
  pass, merging included, turn a function whose blocks follow one another into a chain: the walks
  from the entry node spell exactly the prefixes of the sequence of the function's calls, and the
  walk to the exit node spells all of them.
\<close>

theorem straight_function_is_exact:
  assumes "graaf_lib L ok" "straight f" "distinct (vertex_names r f)"
    and "length (vertex_names r f) < fuel"
    and "calls = concat (map (getLibraryCalls r) (f_blocks f))"
  shows "\<exists>m x g x' g' vs. analyse_function L r f = Inr m \<and>
    expand_blocks L (bbToLibcMap m) (exitNode m, bbGraph m) = Inr (x, g) \<and>
    merge_loop L [is_control] fuel (x, g) = Some (Inr (x', g')) \<and>
    cg_edges L g' = chain (entryNode m) vs calls \<and> x' = last (entryNode m # vs) \<and>
    (\<forall>es w. spells (cg_edges L g') (entryNode m) es w \<longleftrightarrow>
       (\<exists>k\<le>length calls. es = take k calls \<and> w = (entryNode m # vs) ! k)) \<and>
    (\<forall>es. spells (cg_edges L g') (entryNode m) es x' \<longleftrightarrow> es = calls)"
proof -
  obtain m x g g' vs where m: "analyse_function L r f = Inr m"
    "expand_blocks L (bbToLibcMap m) (exitNode m, bbGraph m) = Inr (x, g)"
    "merge_loop L [is_control] fuel (x, g) = Some (Inr (last (entryNode m # vs), g'))"
    "distinct (entryNode m # vs)" "length vs = length calls"
    "cg_edges L g' = chain (entryNode m) vs calls"
    using graaf_lib.straight_policy [OF assms(1-4)] assms(5) by blast
  have walks: "spells (cg_edges L g') (entryNode m) es w \<longleftrightarrow>
      (\<exists>k\<le>length calls. es = take k calls \<and> w = (entryNode m # vs) ! k)" for es w
    using chain_walks [OF m(4,5), of 0 es w] m(6) by simp
  have last: "last (entryNode m # vs) = (entryNode m # vs) ! length calls"
    using last_conv_nth [of "entryNode m # vs"] m(5) by simp
  have "k = length calls" if "k \<le> length calls" "(entryNode m # vs) ! length calls = (entryNode m # vs) ! k" for k
    using nth_eq_iff_index_eq [OF m(4), of "length calls" k] that m(5) by simp
  then have "spells (cg_edges L g') (entryNode m) es (last (entryNode m # vs)) \<longleftrightarrow> es = calls" for es
    unfolding walks last by (metis order_refl take_all)
  with m(1-3,6) walks show ?thesis by blast
qed

theorem straight_function_is_exact_witness:
  "\<exists>m x g x' g'. analyse_function assoc_graaf demo_reader demo_fun = Inr m \<and>
    expand_blocks assoc_graaf (bbToLibcMap m) (exitNode m, bbGraph m) = Inr (x, g) \<and>
    merge_loop assoc_graaf [is_control] 4 (x, g) = Some (Inr (x', g')) \<and>
    (\<forall>es. spells (cg_edges assoc_graaf g') (entryNode m) es x' \<longleftrightarrow> es = [''libc:read''])"
proof -
  have s: "straight demo_fun" by (simp add: straight_def demo_fun_def returns_def less_Suc_eq)
  have n: "length (vertex_names demo_reader demo_fun) < 4"
    by (simp add: vertex_names_def demo_fun_calls) (simp add: demo_fun_def)
  have "[''libc:read''] = concat (map (getLibraryCalls demo_reader) (f_blocks demo_fun))"
    by (simp add: demo_fun_def demo_reader_def lib_callee_def getLibraryCalls_def isStringInMap_def)
  from straight_function_is_exact [OF assoc.graaf_lib_axioms s demo_fun_ok(2) n this] show ?thesis
    by (elim exE conjE) (intro exI conjI, assumption+)
qed

section \<open>Names\<close>

text \<open>
  C20. Vertex names never meet.  In a module whose function names hold no bracket and no dash and
  whose operands hold no dash, the vertices that the pass makes for the blocks and the calls of a
  function have different names, and functions with different names have no vertex name in
  common, whatever LLVM appends to a name that is taken.
\<close>

theorem vertex_names_differ:
  assumes "block_namer uniq" "well_formed M" "f \<in> set (m_functions M)" "\<not> skipped f"
    and "h \<in> set (m_functions M)" "\<not> skipped h"
  shows "distinct (vertex_names r (nameBasicBlocks uniq f)) \<and>
    (f_name f \<noteq> f_name h \<longrightarrow>
       set (vertex_names r (nameBasicBlocks uniq f)) \<inter> set (vertex_names r (nameBasicBlocks uniq h)) = {})"
proof -
  have "nameBasicBlocks uniq f \<in> processed uniq M" "nameBasicBlocks uniq h \<in> processed uniq M"
    using assms(3-6) by (auto simp: processed_def)
  with block_namer.well_formed_ok [OF assms(1,2), of r] show ?thesis
    unfolding module_ok_def by (metis f_name_named)
qed

text \<open>A module of two functions: \<^verbatim>\<open>main\<close>, and \<^verbatim>\<open>main_loop\<close> with the same body.\<close>

definition demo_module :: "unit ir_module" where
  "demo_module = \<lparr>m_functions = [demo_fun, main_loop_fun], m_globals = []\<rparr>"

lemma demo_module_ok: "well_formed demo_module"
  by (auto simp: well_formed_def demo_module_def main_loop_fun_def demo_fun_def flow_ok_def plain_function_def)

lemma demo_skipped: "\<not> skipped demo_fun" "\<not> skipped main_loop_fun"
  by (simp_all add: skipped_def main_loop_fun_def demo_fun_def starts_with_def)

theorem vertex_names_differ_witness:
  "set (vertex_names demo_reader (nameBasicBlocks counting_namer demo_fun)) \<inter>
   set (vertex_names demo_reader (nameBasicBlocks counting_namer main_loop_fun)) = {}"
proof -
  have "demo_fun \<in> set (m_functions demo_module)" "main_loop_fun \<in> set (m_functions demo_module)"
    by (simp_all add: demo_module_def)
  from vertex_names_differ [OF counting.block_namer_axioms demo_module_ok this(1) demo_skipped(1)
      this(2) demo_skipped(2)]
  show ?thesis by (simp add: main_loop_fun_def demo_fun_def)
qed

section \<open>The pass ends\<close>



text \<open>The vertices of all functions of a module: their blocks and their calls.\<close>

definition module_vertices ::
    "(string list \<Rightarrow> string \<Rightarrow> string) \<Rightarrow> file_map_reader \<Rightarrow> 'i ir_module \<Rightarrow> string list" where
  "module_vertices uniq r M =
     concat (map (\<lambda>f. vertex_names r (nameBasicBlocks uniq f)) (filter (\<lambda>f. \<not> skipped f) (m_functions M)))"

lemma set_module_vertices: "set (module_vertices uniq r M) = (\<Union>f\<in>processed uniq M. set (vertex_names r f))"
  by (auto simp: module_vertices_def processed_def)

lemma small_module_run:
  assumes "graaf_lib L ok" "block_namer uniq" "well_formed M" "ample e"
    and "length (fst junk) = 1000" "length (snd junk) = 1000"
    and "length (module_vertices uniq r M) < 32"
  obtains n m M' fg s' where
    "\<forall>fuel>n. runOnModule L e uniq hash junk fuel r M [] memgraph_init =
       Some (Inr (\<exists>f\<in>processed uniq M. has_library_call r f, M', fg, s'))"
    "MemoryCleanupHandler (SectionAddressHandler (map m [0..<1024 * 1024]) (instrumented uniq r M)) = Inr M'"
    "cg_inv L ok (finalGraph fg)" "length (get_vertices L (finalGraph fg)) \<le> length (module_vertices uniq r M)"
proof -
  note ok = block_namer.well_formed_ok [OF assms(2,3), of r]
  obtain n res fg where run:
    "\<forall>fuel>n. runOnModule L e uniq hash junk fuel r M [] memgraph_init = Some res"
    "graaf_lib.pass_result L ok uniq hash junk r M res fg"
    using graaf_lib.run_inv [OF assms(1) ok assms(4-6)] by blast
  note res = run(2) [unfolded graaf_lib.pass_result_def [OF assms(1)]]
  from res have inv: "cg_inv L ok (finalGraph fg)" by blast
  note vs = graaf_lib.get_vertices_inv [OF assms(1) inv]
  have "length (get_vertices L (finalGraph fg)) = card (dom (vertex_id_map (finalGraph fg)))"
    using vs distinct_card by metis
  also have "\<dots> \<le> card (set (module_vertices uniq r M))"
    using res by (intro card_mono finite_set) (simp only: set_module_vertices)
  also have "\<dots> \<le> length (module_vertices uniq r M)" by (rule card_length)
  finally have l: "length (get_vertices L (finalGraph fg)) \<le> length (module_vertices uniq r M)" .
  with res assms(7) obtain m M' s' where
    "res = Inr (\<exists>f\<in>processed uniq M. has_library_call r f, M', fg, s')"
    "MemoryCleanupHandler (SectionAddressHandler (map m [0..<1024 * 1024]) (instrumented uniq r M)) = Inr M'"
    by auto
  with run(1) l inv that show thesis by blast
qed

text \<open>
  C14. A small module compiles.  When the blocks and the calls of all functions together are fewer
  than 32, the assertion on the number of edges cannot fail: with enough fuel the pass returns a
  module, whatever the graph library and the allocator's user-space behaviour give.
\<close>

theorem small_module_compiles:
  assumes "graaf_lib L ok" "block_namer uniq" "well_formed M" "ample e"
    and "length (fst junk) = 1000" "length (snd junk) = 1000"
    and "length (module_vertices uniq r M) < 32"
  shows "\<exists>n M' fg s'. length (get_vertices L (finalGraph fg)) \<le> length (module_vertices uniq r M) \<and>
    (\<forall>fuel>n. runOnModule L e uniq hash junk fuel r M [] memgraph_init =
       Some (Inr (\<exists>f\<in>processed uniq M. has_library_call r f, M', fg, s')))"
  by (rule small_module_run [OF assms, where hash = hash]) blast

lemma demo_module_vertices: "length (module_vertices counting_namer demo_reader demo_module) < 32"
  by (simp add: module_vertices_def demo_module_def demo_skipped)
    (simp add: vertex_names_def nameBasicBlocks_def counting_namer_def main_loop_fun_def demo_fun_def
      demo_reader_def lib_callee_def getLibraryCalls_def isStringInMap_def)

theorem small_module_compiles_witness:
  "\<exists>n M' fg s'. \<forall>fuel>n. runOnModule assoc_graaf (ample_env User) counting_namer demo_hash demo_junk fuel
     demo_reader demo_module [] memgraph_init = Some (Inr (True, M', fg, s'))"
proof -
  have "has_library_call demo_reader (nameBasicBlocks counting_namer demo_fun)"
    by (simp add: has_library_call_def nameBasicBlocks_def demo_fun_def demo_reader_def lib_callee_def
        isStringInMap_def Let_def)
  then have "\<exists>f\<in>processed counting_namer demo_module. has_library_call demo_reader f"
    using demo_skipped(1) by (auto simp: processed_def demo_module_def)
  with small_module_compiles [OF assoc.graaf_lib_axioms counting.block_namer_axioms demo_module_ok
      ample_ample_env [of User] demo_junk_length demo_module_vertices, of demo_hash] show ?thesis by auto
qed






section \<open>The drawing of the graph\<close>

text \<open>
  Drawing the final graph only looks at it.  \<^verbatim>\<open>dump_todot\<close> hands every vertex and every edge to
  graaf's \<^verbatim>\<open>to_dot\<close>, the entry green, the exit violet, the vertices with a library call red and the
  others blue, and leaves the graph as it is: the \<^verbatim>\<open>operator[]\<close> of the vertex writer never inserts a
  flag.  The file is named by the two options, \<^verbatim>\<open>/final.dot\<close> when they are not given.
\<close>

theorem dump_only_looks:
  assumes "graaf_lib L ok" "cg_inv L ok (finalGraph fg)"
  shows "dump_final L to_dot path name fg =
    ((path @ ''/'' @ name @ ''final.dot'',
      to_dot (map (\<lambda>(a, v). (a, vertex_attributes (colour_of (finalGraphEntryNode fg) (finalGraphExitNode fg)
                 (func_call_map (finalGraph fg)) v) v)) (gr_vertices L (cg_graph (finalGraph fg))))
        (map (\<lambda>(k, e). (k, edge_writer e)) (gr_edges L (cg_graph (finalGraph fg))))), fg)"
  using graaf_lib.dump_inv [OF assms] by (simp add: dump_final_def)

theorem dump_only_looks_witness:
  "snd (dump_final assoc_graaf (\<lambda>vs es. concat (map snd vs) @ concat (map snd es)) [] []
     \<lparr>finalGraph = fork_graph, finalGraphEntryNode = ''u'', finalGraphExitNode = ''y''\<rparr>) =
   \<lparr>finalGraph = fork_graph, finalGraphEntryNode = ''u'', finalGraphExitNode = ''y''\<rparr>"
  by (subst dump_only_looks [OF assoc.graaf_lib_axioms]) (simp_all add: fork_graph_inv)

end
