(* ===== verification/ExactProperties.thy ===== *)
theory ExactProperties
  imports ProgramProperties MainSpec
begin

text \<open>
  When the graph of a function and the policy of a program with one function are exact.
\<close>

section \<open>Merging\<close>

text \<open>
  C6. When merging is exact.  Let the control edges of a function's expanded graph form a forest, and
  let the calls lead between different classes of control-connected vertices, with one label for
  each pair of classes.  Then, in whichever order the graph library iterates, the merged graph is
  exactly the quotient by these classes, the exit node is the class of the exit node, and the walks
  of the merged graph are those of the expanded graph that may also go back along control edges.  In
  particular the calls along every path of the control-flow graph, loops included, are a walk.
\<close>

theorem merging_is_exact:
  assumes "graaf_lib L ok" "flow_ok f" "distinct (vertex_names r f)"
    and "E = expanded_map r f" "forest is_control E" "lossless is_control E"
    and "length (vertex_names r f) < fuel"
  shows "\<exists>m x g x' g' q. analyse_function L r f = Inr m \<and>
    expand_blocks L (bbToLibcMap m) (exitNode m, bbGraph m) = Inr (x, g) \<and>
    merge_loop L [is_control] fuel (x, g) = Some (Inr (x', g')) \<and>
    exact_quotient is_control E (cg_edges L g') q \<and> x' = q x \<and>
    (\<forall>u es w. spells (cg_edges L g') (q u) es (q w) \<longleftrightarrow> slides is_control E u es w) \<and>
    (\<forall>p. flow_path (f_blocks f) p \<longrightarrow>
       spells (cg_edges L g') (q (bb_name (hd p))) (concat (map (getLibraryCalls r) p))
         (q (block_end r (last p))))"
proof -
  obtain m x g x' g' q where m: "analyse_function L r f = Inr m"
    "expand_blocks L (bbToLibcMap m) (exitNode m, bbGraph m) = Inr (x, g)"
    "merge_loop L [is_control] fuel (x, g) = Some (Inr (x', g'))"
    "exact_quotient is_control E (cg_edges L g') q" "x' = q x"
    using graaf_lib.quotient_policy [OF assms(1-3)] assms(4-7) by metis
  note walks = quotient_walks [OF m(4)]
  have "spells (cg_edges L g') (q (bb_name (hd p))) (concat (map (getLibraryCalls r) p))
      (q (block_end r (last p)))" if "flow_path (f_blocks f) p" for p
    unfolding walks path_word_calls [symmetric] assms(4)
    by (rule spells_slides [OF path_spells [OF assms(2,3) that]])
  with m walks show ?thesis by blast
qed

text \<open>A loop: \<^verbatim>\<open>do { read; write; } while (...)\<close>.\<close>

definition call_block :: "string \<Rightarrow> string list \<Rightarrow> nat list \<Rightarrow> unit basic_block" where
  "call_block n cs ss = \<lparr>bb_operand = n, bb_name = ''[main]'' @ n,
     bb_insts = map (\<lambda>c. CallInst (Some (lib_callee c)) []) cs @ [if ss = [] then ReturnInst () else OtherInst ()],
     bb_succs = ss\<rparr>"

definition fun_of :: "unit basic_block list \<Rightarrow> unit ir_function" where
  "fun_of bbs = \<lparr>f_name = ''main'', f_declaration = False, f_blocks = bbs\<rparr>"

definition loop_fun :: "unit ir_function" where
  "loop_fun = fun_of [call_block ''a'' [] [1], call_block ''b'' [''read'', ''write''] [1, 2], call_block ''c'' [] []]"

lemmas demo_blocks = call_block_def fun_of_def demo_reader_def lib_callee_def getLibraryCalls_def
  isStringInMap_def

lemma demo_digits: "nat_string (Suc 0) = ''1''" "nat_string (Suc (Suc 0)) = ''2''"
  by (simp_all add: nat_string.simps [of "Suc 0"] nat_string.simps [of "Suc (Suc 0)"])
    (simp_all add: char_of_def bit_0)

lemma loop_fun_calls: "list_calls demo_reader (f_blocks loop_fun) [] = [(''[main]b'', [''libc:read'', ''libc:write''])]"
  "call_vertex ''[main]b'' ''libc:read'' (Suc 0) = ''[main]b-libc_1''"
  "call_vertex ''[main]b'' ''libc:write'' (Suc (Suc 0)) = ''[main]b-libc_2''"
  by (simp_all add: loop_fun_def demo_blocks call_vertex_def starts_with_def demo_digits)


lemma loop_fun_ok: "flow_ok loop_fun" "distinct (vertex_names demo_reader loop_fun)"
  "length (vertex_names demo_reader loop_fun) = 5"
proof -
  show "flow_ok loop_fun" by (simp add: flow_ok_def loop_fun_def demo_blocks)
  show "distinct (vertex_names demo_reader loop_fun)" "length (vertex_names demo_reader loop_fun) = 5"
    by (simp_all add: vertex_names_def loop_fun_calls) (simp_all add: loop_fun_def demo_blocks)
qed

lemma loop_fun_edges:
  assumes "expanded_map demo_reader loop_fun (u, v) = Some e"
  shows "(u, v, e) \<in> {(''[main]a'', ''[main]b'', ''control''), (''[main]b'', ''[main]b-libc_1'', ''libc:read''),
    (''[main]b-libc_1'', ''[main]b-libc_2'', ''libc:write''), (''[main]b-libc_2'', ''[main]b'', ''control''),
    (''[main]b-libc_2'', ''[main]c'', ''control'')}"
proof -
  have "flow_map (f_blocks loop_fun) =
      [(''[main]a'', ''[main]b'') \<mapsto> ''control'', (''[main]b'', ''[main]b'') \<mapsto> ''control'', (''[main]b'', ''[main]c'') \<mapsto> ''control'']"
    by (rule ext) (auto simp: flow_map_def flow_edge_def loop_fun_def demo_blocks split: if_splits)
  with assms show ?thesis
    by (auto simp: expanded_map_def loop_fun_calls expand_map_def chain_end_def map_add_def
        split: if_splits option.splits)
qed

lemma loop_fun_merging:
  "forest is_control (expanded_map demo_reader loop_fun)"
  "lossless is_control (expanded_map demo_reader loop_fun)"
proof -
  let ?E = "expanded_map demo_reader loop_fun"
  show "lossless is_control ?E"
    by (rule losslessI [where c = "\<lambda>x. x = ''[main]b-libc_1''"]) (auto dest!: loop_fun_edges simp: is_control_def)
  show "forest is_control ?E"
  proof (rule forestI)
    fix u v e assume "?E (u, v) = Some e" "is_control e"
    then consider "(u, v) = (''[main]a'', ''[main]b'')" | "(u, v) = (''[main]b-libc_2'', ''[main]b'')" | "(u, v) = (''[main]b-libc_2'', ''[main]c'')"
      by (auto dest!: loop_fun_edges simp: is_control_def)
    then show "\<exists>c :: string \<Rightarrow> bool. c u \<noteq> c v \<and>
        (\<forall>x y d. ?E (x, y) = Some d \<and> is_control d \<and> (x, y) \<noteq> (u, v) \<longrightarrow> c x = c y)"
    proof cases
      case 1
      then show ?thesis
        by (intro exI [of _ "\<lambda>x. x = ''[main]a''"]) (auto dest!: loop_fun_edges simp: is_control_def)
    next
      case 2
      then show ?thesis
        by (intro exI [of _ "\<lambda>x. x \<in> {''[main]a'', ''[main]b''}"]) (auto dest!: loop_fun_edges simp: is_control_def)
    next
      case 3
      then show ?thesis
        by (intro exI [of _ "\<lambda>x. x = ''[main]c''"]) (auto dest!: loop_fun_edges simp: is_control_def)
    qed
  qed
qed

theorem merging_is_exact_witness:
  "\<exists>m x g x' g' q. analyse_function assoc_graaf demo_reader loop_fun = Inr m \<and>
    expand_blocks assoc_graaf (bbToLibcMap m) (exitNode m, bbGraph m) = Inr (x, g) \<and>
    merge_loop assoc_graaf [is_control] 6 (x, g) = Some (Inr (x', g')) \<and>
    (\<forall>k. spells (cg_edges assoc_graaf g') (q ''[main]a'')
       (concat (replicate (Suc k) [''libc:read'', ''libc:write''])) (q ''[main]c''))"
proof -
  let ?b = "f_blocks loop_fun ! 1" and ?calls = "\<lambda>p. concat (map (getLibraryCalls demo_reader) p)"
  let ?p = "\<lambda>k. f_blocks loop_fun ! 0 # replicate (Suc k) ?b @ [f_blocks loop_fun ! 2]"
  have "flow_path (f_blocks loop_fun) (replicate (Suc k) ?b @ [f_blocks loop_fun ! 2])" for k
    by (induction k) (simp_all add: loop_fun_def demo_blocks)
  then have path: "flow_path (f_blocks loop_fun) (?p k)" for k
    by (simp add: loop_fun_def demo_blocks)
  have calls: "?calls (?p k) = concat (replicate (Suc k) [''libc:read'', ''libc:write''])" for k
    by (simp add: loop_fun_def demo_blocks)
  have ends: "bb_name (hd (?p k)) = ''[main]a''" "block_end demo_reader (last (?p k)) = ''[main]c''" for k
    by (simp_all add: block_end_def chain_end_def loop_fun_def demo_blocks)
  have "length (vertex_names demo_reader loop_fun) < 6" by (simp add: loop_fun_ok)
  from merging_is_exact [OF assoc.graaf_lib_axioms loop_fun_ok(1,2) refl loop_fun_merging this] obtain m x g x' g' q
    where m: "analyse_function assoc_graaf demo_reader loop_fun = Inr m"
    "expand_blocks assoc_graaf (bbToLibcMap m) (exitNode m, bbGraph m) = Inr (x, g)"
    "merge_loop assoc_graaf [is_control] 6 (x, g) = Some (Inr (x', g'))"
    "\<forall>p. flow_path (f_blocks loop_fun) p \<longrightarrow>
       spells (cg_edges assoc_graaf g') (q (bb_name (hd p))) (?calls p) (q (block_end demo_reader (last p)))"
    by blast
  have "spells (cg_edges assoc_graaf g') (q ''[main]a'') (concat (replicate (Suc k) [''libc:read'', ''libc:write'']))
      (q ''[main]c'')" for k
    using m(4) [rule_format, OF path [of k]] unfolding calls ends .
  with m(1-3) show ?thesis by blast
qed

section \<open>The graph of the program\<close>

text \<open>A run comes to an end, and its graph has the property unless the assertion fails.\<close>

definition finishes ::
    "(bool \<times> 'i ir_module \<times> 'g final_graph \<times> memgraph) res option \<Rightarrow> ('g final_graph \<Rightarrow> bool) \<Rightarrow> bool" where
  "finishes run P \<longleftrightarrow>
     (case run of
        None \<Rightarrow> False
      | Some (Inl x) \<Rightarrow> x = Assert_failed
      | Some (Inr (ch, M', fg, s')) \<Rightarrow> P fg)"

lemma finishes_mono: "finishes run P \<Longrightarrow> (\<And>fg. P fg \<Longrightarrow> P' fg) \<Longrightarrow> finishes run P'"
  by (auto simp: finishes_def split: option.splits sum.splits)

lemma finishes_run:
  assumes "graaf_lib L ok" "module_ok uniq r M" "ample e" "length (fst junk) = 1000" "length (snd junk) = 1000"
    and "\<And>fuel ch M' fg s'.
      runOnModule L e uniq hash junk fuel r M [] memgraph_init = Some (Inr (ch, M', fg, s')) \<Longrightarrow> P fg"
  shows "\<exists>n. \<forall>fuel>n. finishes (runOnModule L e uniq hash junk fuel r M [] memgraph_init) P"
proof -
  obtain n res where run: "\<forall>fuel>n. runOnModule L e uniq hash junk fuel r M [] memgraph_init = Some res"
    using graaf_lib.run_inv [OF assms(1-5)] by blast
  have "finishes (Some res) P" if r: "runOnModule L e uniq hash junk fuel r M [] memgraph_init = Some res" for fuel
  proof (cases res)
    case (Inl x)
    obtain fg where "graaf_lib.pass_result L ok uniq hash junk r M res fg"
      using graaf_lib.run_outcome [OF assms(1-5) r] by blast
    with Inl show ?thesis
      by (auto simp: finishes_def graaf_lib.pass_result_def [OF assms(1)] split: if_splits)
  next
    case (Inr y)
    with assms(6) r show ?thesis by (cases y) (auto simp: finishes_def)
  qed
  with run show ?thesis by (intro exI [of _ n] allI impI) metis
qed

text \<open>
  C5. The policy of a program.  Let \<^verbatim>\<open>main\<close> call no other function of the program and let its
  expanded graph meet the conditions under which merging is exact.  Then the pass comes to an end,
  and unless the assertion fails the graph of the program is exactly the quotient of the expanded
  graph of \<^verbatim>\<open>main\<close>, whatever other functions the module holds: it lets through the calls along
  every path of \<^verbatim>\<open>main\<close> and, beyond these, only walks that go back along control edges.
\<close>

theorem main_policy_is_exact:
  assumes "graaf_lib L ok" "block_namer uniq" "well_formed M" "ample e"
    and "length (fst junk) = 1000" "length (snd junk) = 1000"
    and "distinct (map f_name (m_functions M))" "f \<in> set (m_functions M)" "f_name f = ''main''" "\<not> skipped f"
    and "f' = nameBasicBlocks uniq f" "E = expanded_map r f'"
    and "forest is_control E" "lossless is_control E" "\<forall>l\<in>call_labels r f'. \<not> is_user l"
  shows "\<exists>n. \<forall>fuel>n. finishes (runOnModule L e uniq hash junk fuel r M [] memgraph_init)
    (\<lambda>fg. \<exists>q. exact_quotient is_control E (cg_edges L (finalGraph fg)) q \<and>
       (\<forall>u es w. spells (cg_edges L (finalGraph fg)) (q u) es (q w) \<longleftrightarrow> slides is_control E u es w) \<and>
       (\<forall>p. flow_path (f_blocks f') p \<longrightarrow>
          spells (cg_edges L (finalGraph fg)) (q (bb_name (hd p))) (concat (map (getLibraryCalls r) p))
            (q (block_end r (last p)))))"
    (is "\<exists>n. \<forall>fuel>n. finishes (?run fuel) ?policy")
proof -
  note ok = block_namer.well_formed_ok [OF assms(2,3), of r]
  have "f' \<in> processed uniq M" using assms(8,10,11) by (auto simp: processed_def)
  with ok have f': "flow_ok f'" "distinct (vertex_names r f')" by (auto simp: module_ok_def)
  show ?thesis
  proof (rule finishes_run [OF assms(1) ok assms(4-6)])
    fix fuel ch M' and fg :: "'a final_graph" and s'
    assume "?run fuel = Some (Inr (ch, M', fg, s'))"
    from graaf_lib.run_main [OF assms(1) this assms(7-11) f'] assms(12-15) obtain q where
      q: "exact_quotient is_control E (cg_edges L (finalGraph fg)) q" by blast
    note walks = quotient_walks [OF q]
    have "spells (cg_edges L (finalGraph fg)) (q (bb_name (hd p))) (concat (map (getLibraryCalls r) p))
        (q (block_end r (last p)))" if "flow_path (f_blocks f') p" for p
      unfolding walks path_word_calls [symmetric] assms(12)
      by (rule spells_slides [OF path_spells [OF f' that]])
    with q walks show "?policy fg" by blast
  qed
qed

lemma loop_fun_named: "nameBasicBlocks counting_namer loop_fun = loop_fun"
  by (simp add: nameBasicBlocks_def counting_namer_def loop_fun_def fun_of_def call_block_def Let_def)

lemma loop_module_ok: "well_formed \<lparr>m_functions = [loop_fun, main_loop_fun], m_globals = []\<rparr>"
  by (auto simp: well_formed_def loop_fun_def fun_of_def call_block_def main_loop_fun_def demo_fun_def
      flow_ok_def plain_function_def)

theorem main_policy_is_exact_witness:
  "\<exists>n. \<forall>fuel>n. finishes (runOnModule assoc_graaf (ample_env User) counting_namer demo_hash demo_junk fuel
       demo_reader \<lparr>m_functions = [loop_fun, main_loop_fun], m_globals = []\<rparr> [] memgraph_init)
     (\<lambda>fg. \<exists>q. spells (cg_edges assoc_graaf (finalGraph fg)) (q ''[main]a'')
        [''libc:read'', ''libc:write''] (q ''[main]c''))"
proof -
  let ?M = "\<lparr>m_functions = [loop_fun, main_loop_fun], m_globals = []\<rparr>" and ?p = "f_blocks loop_fun"
  have m: "distinct (map f_name (m_functions ?M))" "loop_fun \<in> set (m_functions ?M)"
    "f_name loop_fun = ''main''" "\<not> skipped loop_fun"
    by (simp_all add: loop_fun_def fun_of_def main_loop_fun_def skipped_def starts_with_def)
  have u: "\<forall>l\<in>call_labels demo_reader loop_fun. \<not> is_user l"
    by (simp add: call_labels_def loop_fun_def demo_blocks is_user_def starts_with_def)
  have p: "flow_path (f_blocks loop_fun) ?p"
    "concat (map (getLibraryCalls demo_reader) ?p) = [''libc:read'', ''libc:write'']"
    "bb_name (hd ?p) = ''[main]a''" "block_end demo_reader (last ?p) = ''[main]c''"
    by (simp_all add: block_end_def chain_end_def loop_fun_def demo_blocks)
  from main_policy_is_exact [OF assoc.graaf_lib_axioms counting.block_namer_axioms loop_module_ok
      ample_ample_env demo_junk_length m loop_fun_named [symmetric] refl loop_fun_merging u, of User demo_hash]
  obtain n where n: "\<And>fuel. n < fuel \<Longrightarrow>
      finishes (runOnModule assoc_graaf (ample_env User) counting_namer demo_hash demo_junk fuel
        demo_reader ?M [] memgraph_init)
      (\<lambda>fg. \<exists>q. exact_quotient is_control (expanded_map demo_reader loop_fun)
            (cg_edges assoc_graaf (finalGraph fg)) q \<and>
          (\<forall>u es w. spells (cg_edges assoc_graaf (finalGraph fg)) (q u) es (q w) \<longleftrightarrow>
             slides is_control (expanded_map demo_reader loop_fun) u es w) \<and>
          (\<forall>p. flow_path (f_blocks loop_fun) p \<longrightarrow>
             spells (cg_edges assoc_graaf (finalGraph fg)) (q (bb_name (hd p)))
               (concat (map (getLibraryCalls demo_reader) p)) (q (block_end demo_reader (last p)))))"
    by blast
  show ?thesis
    by (intro exI [of _ n] allI impI, rule finishes_mono [OF n], assumption) (use p in metis)
qed

end
