(* ===== verification/CalleeProperties.thy ===== *)
theory CalleeProperties
  imports SplicedSpec ExactProperties
begin

text \<open>
  The policy of a program whose \<^verbatim>\<open>main\<close> calls another function: what splicing makes of the two
  graphs, and when the graph of the program is exactly the quotient of the two expanded graphs.
\<close>

text \<open>
  C7. A called function is spliced in.  Let \<^verbatim>\<open>main\<close> call the function \<open>f\<close> at one place, from \<open>v\<close> to
  \<open>w\<close>, and let no call connect or run parallel between vertices that are made one.  Then
  \<^verbatim>\<open>CombineLibcgGraph\<close> ends with the union of the two graphs in which \<open>v\<close>, \<open>w\<close>, the entry and the exit of
  \<open>f\<close>, and nothing else, are one vertex.  A path of \<^verbatim>\<open>main\<close> to the call, a path through \<open>f\<close>
  and a path of \<^verbatim>\<open>main\<close> from there on are let through one after the other; so is
  \<^verbatim>\<open>main\<close> without \<open>f\<close>.
\<close>

theorem called_function_is_spliced:
  assumes "graaf_lib L ok" "m = meta_of L ms ''main''" "h = meta_of L ms f" "calls_once L ok m h f v w"
    and "E = cg_edges L (libcCallGraph m)" "H = cg_edges L (libcCallGraph h)"
    and "c = spliced v w (entryNode h) (exitNode h)" "apart c (E ++ H)"
  shows "\<exists>n. \<forall>fuel>n. \<exists>ms' fg q. CombineLibcgGraph L fuel ms = Some (Inr (ms', fg)) \<and>
    (\<forall>x y. q x = q y \<longleftrightarrow> c x = c y) \<and>
    (\<forall>a b e. cg_edges L (finalGraph fg) (a, b) = Some e \<longleftrightarrow>
       (\<exists>x y. (E ++ H) (x, y) = Some e \<and> \<not> to_merge e \<and> q x = a \<and> q y = b)) \<and>
    (\<forall>u es es' es'' z. spells E u es v \<longrightarrow> spells H (entryNode h) es' (exitNode h) \<longrightarrow> spells E w es'' z \<longrightarrow>
       spells (cg_edges L (finalGraph fg)) (q u) (filter (\<lambda>e. \<not> to_merge e) (es @ es' @ es'')) (q z) \<and>
       spells (cg_edges L (finalGraph fg)) (q u) (filter (\<lambda>e. \<not> to_merge e) (es @ es'')) (q z))"
    (is "\<exists>n. \<forall>fuel>n. ?spliced fuel")
proof -
  note F = arg_cong2 [OF assms(5,6), where f = map_add]
  obtain n where n: "\<And>fuel. n < fuel \<Longrightarrow> \<exists>ms' fg q. CombineLibcgGraph L fuel ms = Some (Inr (ms', fg)) \<and>
      (\<forall>x y. q x = q y \<longleftrightarrow> c x = c y) \<and>
      (\<forall>a b e. cg_edges L (finalGraph fg) (a, b) = Some e \<longleftrightarrow>
         (\<exists>x y. (E ++ H) (x, y) = Some e \<and> \<not> to_merge e \<and> q x = a \<and> q y = b))"
    using graaf_lib.combine_called [OF assms(1-4) F assms(7,8)] by blast
  note called = graaf_lib.called_edges [OF assms(1,4) F, folded assms(5,6)]
  show ?thesis
  proof (intro exI [of _ n] allI impI)
    fix fuel assume "n < fuel"
    from n [OF this] obtain ms' fg q where
      r: "CombineLibcgGraph L fuel ms = Some (Inr (ms', fg))" "\<forall>x y. q x = q y \<longleftrightarrow> c x = c y"
      "\<forall>a b e. cg_edges L (finalGraph fg) (a, b) = Some e \<longleftrightarrow>
         (\<exists>x y. (E ++ H) (x, y) = Some e \<and> \<not> to_merge e \<and> q x = a \<and> q y = b)" by blast
    have one: "q v = q w" "q v = q (entryNode h)" "q (exitNode h) = q w"
      using r(2) by (simp_all add: assms(7) spliced_def)
    have step: "if to_merge e then q x = q y else cg_edges L (finalGraph fg) (q x, q y) = Some e"
      if "(E ++ H) (x, y) = Some e" for x y e
    proof (cases "to_merge e")
      case True
      with called(3) [OF that] one(1) show ?thesis by simp
    next
      case False
      with that have "cg_edges L (finalGraph fg) (q x, q y) = Some e"
        unfolding r(3) [rule_format] by (intro exI [of _ x] exI [of _ y] conjI refl)
      with False show ?thesis by simp
    qed
    note walk = graaf_lib.walk_united [OF assms(1), of _ "E ++ H" q "cg_edges L (finalGraph fg)", OF _ step]
    have parts: "spells E u es z \<Longrightarrow>
        spells (cg_edges L (finalGraph fg)) (q u) (filter (\<lambda>e. \<not> to_merge e) es) (q z)"
      "spells H u es z \<Longrightarrow>
        spells (cg_edges L (finalGraph fg)) (q u) (filter (\<lambda>e. \<not> to_merge e) es) (q z)" for u es z
      using walk [of E u es z] walk [of H u es z] called(1,2) by blast+
    have "spells (cg_edges L (finalGraph fg)) (q u) (filter (\<lambda>e. \<not> to_merge e) (es @ es' @ es'')) (q z) \<and>
        spells (cg_edges L (finalGraph fg)) (q u) (filter (\<lambda>e. \<not> to_merge e) (es @ es'')) (q z)"
      if "spells E u es v" "spells H (entryNode h) es' (exitNode h)" "spells E w es'' z" for u es es' es'' z
      using parts(1) [OF that(1)] parts(2) [OF that(2)] parts(1) [OF that(3)] one spells_append by fastforce
    with r show "?spliced fuel"
      by (intro exI [of _ ms'] exI [of _ fg] exI [of _ q]) blast
  qed
qed

text \<open>\<^verbatim>\<open>main\<close> reads, calls \<^verbatim>\<open>h\<close> and writes; \<^verbatim>\<open>h\<close> reads and writes.\<close>

definition called_metas :: "agraph metas" where
  "called_metas =
     [(''h'', (meta_init assoc_graaf)\<lparr>funcName := ''h'', entryNode := ''en'', exitNode := ''ex'',
        libcCallGraph := graph_of [(''en'', ''m'', ''libc:read''), (''m'', ''ex'', ''libc:write'')]\<rparr>),
      (''main'', (meta_init assoc_graaf)\<lparr>funcName := ''main'', entryNode := ''s'', exitNode := ''z'',
        libcCallGraph := graph_of [(''s'', ''v'', ''libc:read''), (''v'', ''w'', ''user:h''), (''w'', ''z'', ''libc:write'')]\<rparr>)]"

lemma called_metas_graphs:
  "cg_edges assoc_graaf (libcCallGraph (meta_of assoc_graaf called_metas ''main'')) =
     [(''s'', ''v'') \<mapsto> ''libc:read'', (''v'', ''w'') \<mapsto> ''user:h'', (''w'', ''z'') \<mapsto> ''libc:write'']"
  "cg_edges assoc_graaf (libcCallGraph (meta_of assoc_graaf called_metas ''h'')) =
     [(''en'', ''m'') \<mapsto> ''libc:read'', (''m'', ''ex'') \<mapsto> ''libc:write'']"
  "dom (vertex_id_map (libcCallGraph (meta_of assoc_graaf called_metas ''main''))) = {''s'', ''v'', ''w'', ''z''}"
  "dom (vertex_id_map (libcCallGraph (meta_of assoc_graaf called_metas ''h''))) = {''en'', ''m'', ''ex''}"
  "entryNode (meta_of assoc_graaf called_metas ''h'') = ''en''" "exitNode (meta_of assoc_graaf called_metas ''h'') = ''ex''"
  by (auto simp: called_metas_def meta_of_def meta_init_def ag_eval cg_edges_def emap_def fun_eq_iff)

theorem called_function_is_spliced_witness:
  "\<exists>n. \<forall>fuel>n. \<exists>ms' fg q. CombineLibcgGraph assoc_graaf fuel called_metas = Some (Inr (ms', fg)) \<and>
    spells (cg_edges assoc_graaf (finalGraph fg)) (q ''s'')
      [''libc:read'', ''libc:read'', ''libc:write'', ''libc:write''] (q ''z'') \<and>
    spells (cg_edges assoc_graaf (finalGraph fg)) (q ''s'') [''libc:read'', ''libc:write''] (q ''z'')"
proof -
  let ?m = "meta_of assoc_graaf called_metas ''main''" and ?h = "meta_of assoc_graaf called_metas ''h''"
  let ?E = "cg_edges assoc_graaf (libcCallGraph ?m)" and ?H = "cg_edges assoc_graaf (libcCallGraph ?h)"
  note graphs = called_metas_graphs
  have i: "cg_inv assoc_graaf ag_ok (libcCallGraph ?m)" "cg_inv assoc_graaf ag_ok (libcCallGraph ?h)"
    by (simp_all add: called_metas_def meta_of_def graph_of_inv del: graph_of.simps)
  have u: "to_merge ''user:h''" "\<not> to_merge ''libc:read''" "\<not> to_merge ''libc:write''"
    by (simp_all add: to_merge_def is_control_def is_user_def starts_with_def)
  have once: "calls_once assoc_graaf ag_ok ?m ?h ''h'' ''v'' ''w''"
    using i u unfolding calls_once_def graphs by (auto split: if_splits)
  have ap: "apart (spliced ''v'' ''w'' (entryNode ?h) (exitNode ?h)) (?E ++ ?H)"
    using u unfolding apart_def graphs by (auto simp: spliced_def split: if_splits)
  have w: "spells ?E ''s'' [''libc:read''] ''v''" "spells ?H (entryNode ?h) [''libc:read'', ''libc:write''] (exitNode ?h)"
    "spells ?E ''w'' [''libc:write''] ''z''"
    by (simp_all add: graphs spells_Cons spells_Nil)
  show ?thesis
    using called_function_is_spliced [OF assoc.graaf_lib_axioms refl refl once refl refl refl ap]
  proof (elim exE, goal_cases)
    case (1 n)
    have "\<exists>ms' fg q. CombineLibcgGraph assoc_graaf fuel called_metas = Some (Inr (ms', fg)) \<and>
        spells (cg_edges assoc_graaf (finalGraph fg)) (q ''s'')
          [''libc:read'', ''libc:read'', ''libc:write'', ''libc:write''] (q ''z'') \<and>
        spells (cg_edges assoc_graaf (finalGraph fg)) (q ''s'') [''libc:read'', ''libc:write''] (q ''z'')"
      if "n < fuel" for fuel
      using 1 [THEN spec, THEN mp, OF that]
    proof (elim exE conjE, goal_cases)
      case (1 ms' fg q)
      from 1(4) [rule_format, OF w] u 1(1) show ?case
        by (intro exI [of _ ms'] exI [of _ fg] exI [of _ q]) simp
    qed
    then show ?case by blast
  qed
qed

text \<open>
  \<^verbatim>\<open>main\<close> reads, calls \<^verbatim>\<open>h\<close> and writes.
\<close>

definition busy_caller_fun :: "unit ir_function" where
  "busy_caller_fun = fun_of [\<lparr>bb_operand = ''a'', bb_name = [],
     bb_insts = [CallInst (Some (lib_callee ''read'')) [],
       CallInst (Some \<lparr>fn_name = ''h'', fn_intrinsic = False, fn_declaration = False\<rparr>) [],
       CallInst (Some (lib_callee ''write'')) [], ReturnInst ()], bb_succs = []\<rparr>]"

definition two_call_fun :: "unit ir_function" where
  "two_call_fun = fun_of [call_block ''a'' [''read'', ''write''] []] \<lparr>f_name := ''h''\<rparr>"

lemma called_program_blocks:
  "list_calls demo_reader (f_blocks (nameBasicBlocks counting_namer busy_caller_fun)) [] =
     [(''[main]a'', [''libc:read'', ''user:h'', ''libc:write''])]"
  "list_calls demo_reader (f_blocks (nameBasicBlocks counting_namer two_call_fun)) [] =
     [(''[h]a'', [''libc:read'', ''libc:write''])]"
  "call_vertices ''[main]a'' 1 [''libc:read'', ''user:h'', ''libc:write''] =
     [''[main]a-libc_1'', ''[main]a-user_2'', ''[main]a-libc_3'']"
  "call_vertices ''[h]a'' 1 [''libc:read'', ''libc:write''] = [''[h]a-libc_1'', ''[h]a-libc_2'']"
  "map bb_succs (f_blocks (nameBasicBlocks counting_namer busy_caller_fun)) = [[]]"
  "map bb_succs (f_blocks (nameBasicBlocks counting_namer two_call_fun)) = [[]]"
  by code_simp+

lemma called_program_edges:
  "expanded_map demo_reader (nameBasicBlocks counting_namer busy_caller_fun) =
     [(''[main]a'', ''[main]a-libc_1'') \<mapsto> ''libc:read'', (''[main]a-libc_1'', ''[main]a-user_2'') \<mapsto> ''user:h'',
      (''[main]a-user_2'', ''[main]a-libc_3'') \<mapsto> ''libc:write'']"
  "expanded_map demo_reader (nameBasicBlocks counting_namer two_call_fun) =
     [(''[h]a'', ''[h]a-libc_1'') \<mapsto> ''libc:read'', (''[h]a-libc_1'', ''[h]a-libc_2'') \<mapsto> ''libc:write'']"
proof -
  have "flow_map bbs = Map.empty" if "map bb_succs bbs = [[]]" for bbs :: "unit basic_block list"
    using that by (auto simp: flow_map_def flow_edge_def fun_eq_iff)
  note flow = this [OF called_program_blocks(5)] this [OF called_program_blocks(6)]
  have single: "expand_map bb calls Map.empty = chain bb (call_vertices bb 1 calls) calls" for bb calls
    by (auto simp: expand_map_def fun_eq_iff)
  show "expanded_map demo_reader (nameBasicBlocks counting_namer busy_caller_fun) =
     [(''[main]a'', ''[main]a-libc_1'') \<mapsto> ''libc:read'', (''[main]a-libc_1'', ''[main]a-user_2'') \<mapsto> ''user:h'',
      (''[main]a-user_2'', ''[main]a-libc_3'') \<mapsto> ''libc:write'']"
    unfolding expanded_map_def called_program_blocks(1) flow expand_maps.simps single called_program_blocks(3)
    by (simp add: fun_upd_twist)
  show "expanded_map demo_reader (nameBasicBlocks counting_namer two_call_fun) =
     [(''[h]a'', ''[h]a-libc_1'') \<mapsto> ''libc:read'', (''[h]a-libc_1'', ''[h]a-libc_2'') \<mapsto> ''libc:write'']"
    unfolding expanded_map_def called_program_blocks(2) flow expand_maps.simps single called_program_blocks(4)
    by (simp add: fun_upd_twist)
qed

lemma called_program_entry:
  "\<exists>m. analyse_function assoc_graaf demo_reader (nameBasicBlocks counting_namer two_call_fun) = Inr m \<and>
     entryNode m = ''[h]a'' \<and> exitNode m = ''[h]a''"
proof -
  let ?h = "nameBasicBlocks counting_namer two_call_fun"
  have s: "straight ?h" "bb_name (hd (f_blocks ?h)) = ''[h]a''" "bb_name (last (f_blocks ?h)) = ''[h]a''"
    by code_simp+
  obtain m where m: "analyse_function assoc_graaf demo_reader ?h = Inr m"
    using assoc.analyse_inv [of ?h demo_reader] straight_flow [OF s(1)] by (auto simp: flow_ok_def)
  from straight_entry_exit [OF s(1) m] m s(2,3) show ?thesis by auto
qed

section \<open>The policy of a program with one call\<close>

text \<open>
  C37. A program with a called function.  Let \<^verbatim>\<open>main\<close> call the function \<open>h\<close> at one place, from \<open>v\<close> to
  \<open>w\<close>, and let \<open>U\<close> be the expanded graphs of the two with a control edge from \<open>v\<close> to the entry of \<open>h\<close>
  and one from its exit to \<open>w\<close>.  If the control and user edges of \<open>U\<close> form a forest and its library
  calls lead between different classes with one label each, the pass comes to an end, and unless the
  assertion fails the graph of the program is exactly the quotient of \<open>U\<close>: the policy lets through the
  calls of \<^verbatim>\<open>main\<close> up to the call, then those along a path through \<open>h\<close>, then those of \<^verbatim>\<open>main\<close> from there on.
\<close>

theorem called_policy_is_exact:
  assumes "graaf_lib L ok" "block_namer uniq" "well_formed M" "ample e"
    and "length (fst junk) = 1000" "length (snd junk) = 1000"
    and "distinct (map f_name (m_functions M))" "f \<in> set (m_functions M)" "f_name f = ''main''" "\<not> skipped f"
    and "h \<in> set (m_functions M)" "\<not> skipped h"
    and "f' = nameBasicBlocks uniq f" "h' = nameBasicBlocks uniq h" "analyse_function L r h' = Inr m"
    and "en = entryNode m" "ex = expanded_exit (list_calls r (f_blocks h') []) (exitNode m)"
    and "E = expanded_map r f'" "H = expanded_map r h'" "one_call E H (f_name h) v w en ex"
    and "U = united E H v en ex w" "forest to_merge U" "lossless to_merge U"
  shows "\<exists>n. \<forall>fuel>n. finishes (runOnModule L e uniq hash junk fuel r M [] memgraph_init)
    (\<lambda>fg. \<exists>q. exact_quotient to_merge U (cg_edges L (finalGraph fg)) q \<and>
       (\<forall>u es z. spells (cg_edges L (finalGraph fg)) (q u) es (q z) \<longleftrightarrow> slides to_merge U u es z) \<and>
       (\<forall>u es es' es'' z. spells E u es v \<longrightarrow> spells H en es' ex \<longrightarrow> spells E w es'' z \<longrightarrow>
          spells (cg_edges L (finalGraph fg)) (q u) (filter (\<lambda>e. \<not> to_merge e) (es @ es' @ es'')) (q z)))"
    (is "\<exists>n. \<forall>fuel>n. finishes (?run fuel) ?policy")
proof -
  note ok = block_namer.well_formed_ok [OF assms(2,3), of r]
  note call = one_callD [OF assms(20)]
  have p: "f' \<in> processed uniq M" "h' \<in> processed uniq M" using assms(8,10-14) by (auto simp: processed_def)
  with ok have F: "flow_ok f'" "distinct (vertex_names r f')" "flow_ok h'" "distinct (vertex_names r h')"
    by (auto simp: module_ok_def)
  have "f \<noteq> h" using call(1,4) assms(13,14,18,19) to_merge_labels(2) [of "f_name h"] user_call_kind by (auto simp: to_merge_def)
  with assms(7,8,11) have "f_name f \<noteq> f_name h" by (auto simp: distinct_map inj_on_def)
  with ok p have disj: "set (vertex_names r f') \<inter> set (vertex_names r h') = {}"
    using assms(13,14) by (auto simp: module_ok_def)
  have sub: "E k = Some l \<Longrightarrow> U k = Some l" "H k = Some l \<Longrightarrow> U k = Some l" "U (v, en) = Some ''control''"
    "U (ex, w) = Some ''control''" for k l
    using graaf_lib.program_edges [OF assms(1) F disj, folded assms(18,19), OF assms(20), folded assms(21)] by blast+
  show ?thesis
  proof (rule finishes_run [OF assms(1) ok assms(4-6)])
    fix fuel ch M' and fg :: "'a final_graph" and s'
    assume "?run fuel = Some (Inr (ch, M', fg, s'))"
    from graaf_lib.run_called [OF assms(1) this assms(7-10,13,11,12,14) F disj assms(15-23)] obtain q where
      q: "exact_quotient to_merge U (cg_edges L (finalGraph fg)) q" by blast
    note walks = quotient_walks [OF q]
    have "spells (cg_edges L (finalGraph fg)) (q u) (filter (\<lambda>e. \<not> to_merge e) (es @ es' @ es'')) (q z)"
      if "spells E u es v" "spells H en es' ex" "spells E w es'' z" for u es es' es'' z
    proof -
      have "spells U u (es @ ''control'' # es' @ ''control'' # es'') z"
        using that [THEN spells_mono, of U] sub by (blast intro: spells_append spells.step)
      from spells_slides [OF this, of to_merge] show ?thesis by (simp add: walks)
    qed
    with q walks show "?policy fg" by blast
  qed
qed

lemma called_program_call:
  assumes "E = expanded_map demo_reader (nameBasicBlocks counting_namer busy_caller_fun)"
    and "H = expanded_map demo_reader (nameBasicBlocks counting_namer two_call_fun)"
    and "U = united E H ''[main]a-libc_1'' ''[h]a'' ''[h]a-libc_2'' ''[main]a-user_2''"
  shows "one_call E H ''h'' ''[main]a-libc_1'' ''[main]a-user_2'' ''[h]a'' ''[h]a-libc_2''"
    "forest to_merge U" "lossless to_merge U"
proof -
  have k: "is_user ''user:h''" "\<not> is_user ''libc:read''" "\<not> is_user ''libc:write''" "\<not> is_control ''user:h''"
    "\<not> is_control ''libc:read''" "\<not> is_control ''libc:write''"
    by (simp_all add: is_user_def is_control_def starts_with_def)
  note E = assms(1) [unfolded called_program_edges] and H = assms(2) [unfolded called_program_edges]
  have eE: "(x, y, e) \<in> {(''[main]a'', ''[main]a-libc_1'', ''libc:read''), (''[main]a-libc_1'', ''[main]a-user_2'', ''user:h''),
      (''[main]a-user_2'', ''[main]a-libc_3'', ''libc:write'')}" if "E (x, y) = Some e" for x y e
    using that by (simp add: E split: if_splits)
  have eH: "(x, y, e) \<in> {(''[h]a'', ''[h]a-libc_1'', ''libc:read''), (''[h]a-libc_1'', ''[h]a-libc_2'', ''libc:write'')}"
    if "H (x, y) = Some e" for x y e
    using that by (simp add: H split: if_splits)
  have cE: "\<not> is_control e" if "E (x, y) = Some e" for x y e using eE [OF that] k by auto
  have cH: "\<not> is_control e" "\<not> is_user e" if "H (x, y) = Some e" for x y e using eH [OF that] k by auto
  have only: "x = y" if "(x, y) \<in> merge_link is_control E" for x y
    using link_class [of E is_control "\<lambda>x. x", OF _ that] cE by blast
  have root: "rooted is_control H ''[h]a''" using cH(1) by (auto simp: rooted_def)
  have path: "spells H ''[h]a'' [''libc:read'', ''libc:write''] ''[h]a-libc_2''"
    by (simp add: H spells_Cons spells_Nil)
  have user: "(x, y) = (''[main]a-libc_1'', ''[main]a-user_2'')" if "E (x, y) = Some e" "is_user e" for x y e
    using eE [OF that(1)] that(2) k by auto
  show "one_call E H ''h'' ''[main]a-libc_1'' ''[main]a-user_2'' ''[h]a'' ''[h]a-libc_2''"
    unfolding one_call_def
  proof (intro conjI)
    show "E (''[main]a-libc_1'', ''[main]a-user_2'') = Some (''user:'' @ ''h'')" by (simp add: E)
    show "\<forall>k e. E k = Some e \<and> is_user e \<longrightarrow> k = (''[main]a-libc_1'', ''[main]a-user_2'')"
      by (simp only: split_paired_All) (use user in blast)
    show "\<forall>x y e. E (x, y) = Some e \<and> \<not> is_control e \<and> (x, ''[main]a-libc_1'') \<in> merge_link is_control E \<longrightarrow>
        (x, y) = (''[main]a-libc_1'', ''[main]a-user_2'')"
      using only eE by fastforce
    show "\<forall>k e. H k = Some e \<longrightarrow> \<not> is_user e" by (simp only: split_paired_All) (use cH(2) in blast)
  qed (use root path in auto)
  let ?F = "E ++ H"
  have F: "E (x, y) = Some e \<or> H (x, y) = Some e" if "?F (x, y) = Some e" for x y e
    using that by (auto simp: map_add_def split: option.splits)
  have site: "call_site ?F ''[main]a-libc_1'' ''[main]a-user_2'' ''[h]a'' ''[h]a-libc_2'' ''[main]a-user_2''"
    unfolding call_site_def
  proof (intro conjI)
    show "\<exists>e. ?F (''[main]a-libc_1'', ''[main]a-user_2'') = Some e \<and> to_merge e"
      using k(1) by (simp add: E H map_add_def to_merge_def)
    show "\<forall>k e. ?F k = Some e \<and> to_merge e \<longrightarrow> k = (''[main]a-libc_1'', ''[main]a-user_2'')"
      by (simp only: split_paired_All) (use F user cE cH in \<open>auto simp: to_merge_def\<close>)
  qed (simp_all add: E H map_add_def)
  show "forest to_merge U" by (rule united_forest [OF site assms(3) [unfolded united_def]])
  have lib: "(x, y, e) \<in> {(''[main]a'', ''[main]a-libc_1'', ''libc:read''), (''[main]a-user_2'', ''[main]a-libc_3'', ''libc:write''),
      (''[h]a'', ''[h]a-libc_1'', ''libc:read''), (''[h]a-libc_1'', ''[h]a-libc_2'', ''libc:write'')}"
    if "?F (x, y) = Some e" "\<not> to_merge e" for x y e
  proof -
    have "e \<noteq> ''user:h''" using that(2) k(1) by (auto simp: to_merge_def)
    with F [OF that(1)] show ?thesis
    proof (elim disjE)
      assume "E (x, y) = Some e"
      from eE [OF this] \<open>e \<noteq> ''user:h''\<close> show ?thesis by (elim insertE emptyE) simp_all
    next
      assume "H (x, y) = Some e"
      from eH [OF this] show ?thesis by (elim insertE emptyE) simp_all
    qed
  qed
  let ?c = "spliced ''[main]a-libc_1'' ''[main]a-user_2'' ''[h]a'' ''[h]a-libc_2''"
  have ends: "(?c x, ?c y, e) \<in> {(''[main]a'', ''[main]a-libc_1'', ''libc:read''),
      (''[main]a-libc_1'', ''[main]a-libc_3'', ''libc:write''), (''[main]a-libc_1'', ''[h]a-libc_1'', ''libc:read''),
      (''[h]a-libc_1'', ''[main]a-libc_1'', ''libc:write'')}" (is "_ \<in> ?S")
    if "?F (x, y) = Some e" "\<not> to_merge e" for x y e
    using lib [OF that] by (elim insertE emptyE) (simp_all add: spliced_def)
  have "apart ?c ?F"
    unfolding apart_def
  proof (intro allI impI conjI, goal_cases)
    case (1 x y e)
    with ends [of x y e] show ?case by auto
  next
    case (2 x y e x' y' e')
    then have "?c x' = ?c x" "?c y' = ?c y" by blast+
    with 2 ends [of x y e] ends [of x' y' e'] have "(?c x, ?c y, e) \<in> ?S" "(?c x, ?c y, e') \<in> ?S" by metis+
    then show ?case by (elim insertE emptyE) simp_all
  qed
  with site show "lossless to_merge U" by (rule united_lossless [OF _ assms(3) [unfolded united_def]])
qed

theorem called_policy_is_exact_witness:
  "\<exists>n. \<forall>fuel>n. finishes (runOnModule assoc_graaf (ample_env User) counting_namer demo_hash demo_junk fuel
       demo_reader \<lparr>m_functions = [two_call_fun, busy_caller_fun], m_globals = []\<rparr> [] memgraph_init)
     (\<lambda>fg. \<exists>q. spells (cg_edges assoc_graaf (finalGraph fg)) (q ''[main]a'')
        [''libc:read'', ''libc:read'', ''libc:write'', ''libc:write''] (q ''[main]a-libc_3''))"
proof -
  let ?M = "\<lparr>m_functions = [two_call_fun, busy_caller_fun], m_globals = []\<rparr>"
  let ?h = "nameBasicBlocks counting_namer two_call_fun"
  have M: "well_formed ?M" "distinct (map f_name (m_functions ?M))" "busy_caller_fun \<in> set (m_functions ?M)"
    "f_name busy_caller_fun = ''main''" "\<not> skipped busy_caller_fun" "two_call_fun \<in> set (m_functions ?M)"
    "\<not> skipped two_call_fun"
    by (auto simp: well_formed_def flow_ok_def plain_function_def two_call_fun_def busy_caller_fun_def fun_of_def
        call_block_def skipped_def starts_with_def)
  obtain m where m: "analyse_function assoc_graaf demo_reader ?h = Inr m" "entryNode m = ''[h]a''" "exitNode m = ''[h]a''"
    using called_program_entry by blast
  have ex: "''[h]a-libc_2'' = expanded_exit (list_calls demo_reader (f_blocks ?h) []) (exitNode m)"
    unfolding called_program_blocks(2) m(3) expanded_exit.simps called_program_blocks(4) by simp
  note call = called_program_call [OF refl refl refl]
  have name: "f_name two_call_fun = ''h''" by (simp add: two_call_fun_def)
  from called_policy_is_exact [OF assoc.graaf_lib_axioms counting.block_namer_axioms M(1) ample_ample_env
      demo_junk_length M(2-7) refl refl m(1) m(2) [symmetric] ex refl refl call(1) [folded name] refl call(2,3),
      of User demo_hash]
  obtain n where n: "\<And>fuel. n < fuel \<Longrightarrow>
      finishes (runOnModule assoc_graaf (ample_env User) counting_namer demo_hash demo_junk fuel
        demo_reader ?M [] memgraph_init)
      (\<lambda>fg. \<exists>q. \<forall>u es es' es'' z.
          spells (expanded_map demo_reader (nameBasicBlocks counting_namer busy_caller_fun)) u es ''[main]a-libc_1'' \<longrightarrow>
          spells (expanded_map demo_reader ?h) ''[h]a'' es' ''[h]a-libc_2'' \<longrightarrow>
          spells (expanded_map demo_reader (nameBasicBlocks counting_namer busy_caller_fun)) ''[main]a-user_2'' es'' z \<longrightarrow>
          spells (cg_edges assoc_graaf (finalGraph fg)) (q u) (filter (\<lambda>e. \<not> to_merge e) (es @ es' @ es'')) (q z))"
    by (elim exE) (blast intro: finishes_mono)
  have paths: "spells (expanded_map demo_reader (nameBasicBlocks counting_namer busy_caller_fun)) ''[main]a''
      [''libc:read''] ''[main]a-libc_1''"
    "spells (expanded_map demo_reader ?h) ''[h]a'' [''libc:read'', ''libc:write''] ''[h]a-libc_2''"
    "spells (expanded_map demo_reader (nameBasicBlocks counting_namer busy_caller_fun)) ''[main]a-user_2''
      [''libc:write''] ''[main]a-libc_3''"
    unfolding called_program_edges by (simp_all add: spells_Cons spells_Nil)
  have kept: "filter (\<lambda>e. \<not> to_merge e) ([''libc:read''] @ [''libc:read'', ''libc:write''] @ [''libc:write'']) =
      [''libc:read'', ''libc:read'', ''libc:write'', ''libc:write'']"
    by (simp add: to_merge_def is_control_def is_user_def starts_with_def)
  show ?thesis
  proof (intro exI [of _ n] allI impI, rule finishes_mono [OF n], assumption, elim exE)
    fix fg :: "agraph final_graph" and q
    assume *: "\<forall>u es es' es'' z.
        spells (expanded_map demo_reader (nameBasicBlocks counting_namer busy_caller_fun)) u es ''[main]a-libc_1'' \<longrightarrow>
        spells (expanded_map demo_reader ?h) ''[h]a'' es' ''[h]a-libc_2'' \<longrightarrow>
        spells (expanded_map demo_reader (nameBasicBlocks counting_namer busy_caller_fun)) ''[main]a-user_2'' es'' z \<longrightarrow>
        spells (cg_edges assoc_graaf (finalGraph fg)) (q u) (filter (\<lambda>e. \<not> to_merge e) (es @ es' @ es'')) (q z)"
    from * [rule_format, OF paths] show "\<exists>q. spells (cg_edges assoc_graaf (finalGraph fg)) (q ''[main]a'')
        [''libc:read'', ''libc:read'', ''libc:write'', ''libc:write''] (q ''[main]a-libc_3'')"
      unfolding kept by blast
  qed
qed

end
