(* ===== verification/KernelSafety.thy ===== *)
theory KernelSafety
  imports Sandboxing
begin

text \<open>
  What the kernel guarantees, and what it does not, over every sequence of system calls with
  arbitrary arguments: the reachable states, the pointers the module keeps in them, and the
  lookup table that is never reallocated.
\<close>

section \<open>Reachable states\<close>

inductive kernel_step :: "bool \<Rightarrow> (nat \<Rightarrow> u64 \<Rightarrow> bool) \<Rightarrow> ksys \<Rightarrow> syscall \<times> sysres \<Rightarrow> ksys \<Rightarrow> bool"
  for cfg al where
  call: "do_syscall cfg al ev k = Inr (r, k') \<Longrightarrow> kernel_step cfg al k (ev, r) k'"

inductive_cases kernel_stepE: "kernel_step cfg al k er k'"
inductive_simps kernel_step_iff: "kernel_step cfg al k (ev, r) k'"

inductive kernel_reach :: "bool \<Rightarrow> (nat \<Rightarrow> u64 \<Rightarrow> bool) \<Rightarrow> ksys \<Rightarrow> bool" for cfg al where
  boot: "kernel_reach cfg al ksys_init"
| step: "kernel_reach cfg al k \<Longrightarrow> kernel_step cfg al k er k' \<Longrightarrow> kernel_reach cfg al k'"

section \<open>The pointers the module keeps\<close>

definition ptr_ok :: "memgraph \<Rightarrow> ptr \<Rightarrow> bool" where
  "ptr_ok s p \<longleftrightarrow> p = NullP \<or> pool s \<noteq> None \<and> (\<exists>a. p = PoolP (pool_gen s) a)"

definition pointers_ok :: "memgraph \<Rightarrow> bool" where
  "pointers_ok s \<longleftrightarrow>
     ptr_ok s (start_node s) \<and>
     (\<forall>t i. nodes s = Some t \<longrightarrow> i < tbl_cap t \<longrightarrow> ptr_ok s (tbl_slot t i)) \<and>
     (pool s = None \<longrightarrow> nodes s = None)"

text \<open>The ways of stopping that a valid or null pointer into a live pool excludes.\<close>

definition memory_fault :: "stop \<Rightarrow> bool" where
  "memory_fault e \<longleftrightarrow> e = Null_deref \<or> e = Out_of_bounds"

lemma pointers_ok_init: "pointers_ok memgraph_init"
  by (simp add: pointers_ok_def ptr_ok_def memgraph_init_def)

lemma ptr_ok_cong:
  "(pool s = None) = (pool s' = None) \<Longrightarrow> pool_gen s' = pool_gen s \<Longrightarrow> ptr_ok s p = ptr_ok s' p"
  by (simp add: ptr_ok_def)

lemma ptr_load_PoolP_stop:
  "pool s = Some m \<Longrightarrow> ptr_load s (PoolP (pool_gen s) a) k = Inl e \<Longrightarrow> e = Out_of_bounds"
  by (auto simp: ptr_load_def deref_def split: if_splits option.splits)

lemma ptr_ok_load_stop:
  "ptr_ok s p \<Longrightarrow> ptr_load s p k = Inl e \<Longrightarrow> memory_fault e"
  using ptr_load_PoolP_stop [of s _ _ k e]
  by (auto simp: ptr_ok_def memory_fault_def) (auto simp: ptr_load_def deref_def)

lemma slot_stop:
  "get_slot s i = Inl e \<Longrightarrow> memory_fault e" "set_slot s i p = Inl e \<Longrightarrow> memory_fault e"
  by (auto simp: get_slot_def set_slot_def memory_fault_def split: option.splits if_splits)

lemma get_slot_ok: "pointers_ok s \<Longrightarrow> get_slot s i = Inr p \<Longrightarrow> ptr_ok s p"
  by (auto simp: get_slot_def pointers_ok_def split: option.splits if_splits)

section \<open>Verification of arbitrary data\<close>

definition table_keeps :: "nat \<Rightarrow> node_table \<Rightarrow> node_table \<Rightarrow> bool" where
  "table_keeps g t t' \<longleftrightarrow>
     tbl_cap t' = tbl_cap t \<and>
     (\<forall>j. tbl_slot t' j = tbl_slot t j \<or> (\<exists>a. tbl_slot t' j = PoolP g a))"

lemma verify_nodes_table:
  assumes "verify_nodes r i (PoolP (pool_gen s) a) s = Inr (rc, s')" "nodes s = Some t" "pool s \<noteq> None"
  shows "\<exists>t'. s' = s\<lparr>nodes := Some t'\<rparr> \<and> table_keeps (pool_gen s) t t'"
  using assms
proof (induction r arbitrary: i a s t)
  case 0
  then show ?case by (intro exI [of _ t]) (auto simp: table_keeps_def)
next
  case (Suc r)
  let ?t = "t\<lparr>tbl_slot := (tbl_slot t)(i := PoolP (pool_gen s) a)\<rparr>"
  let ?s1 = "s\<lparr>nodes := Some ?t\<rparr>" and ?p = "PoolP (pool_gen s) (a + 24)"
  have t: "table_keeps (pool_gen s) t ?t" by (simp add: table_keeps_def)
  have slot: "set_slot s i (PoolP (pool_gen s) a) = Inr ?s1"
    using Suc.prems(1,2) by (cases "i < tbl_cap t") (auto simp: set_slot_def)
  show ?case
  proof (cases "s' = ?s1")
    case False
    then obtain n p where e: "verify_edges ?s1 ?p n 0 ?p = Inr (Some p)"
      "verify_nodes r (Suc i) p ?s1 = Inr (rc, s')"
      using Suc.prems(1) slot
      by (auto simp: res_simps layout_simps Let_def split: if_splits option.splits)
    obtain m where "pool ?s1 = Some m" using Suc.prems(3) by auto
    with verify_edges_sound [OF e(1)] have "p = PoolP (pool_gen ?s1) (a + 24 + 24 * n)" by simp
    with Suc.IH [where s = ?s1 and t = ?t and a = "a + 24 + 24 * n" and i = "Suc i"] e(2) Suc.prems(3)
    obtain t' where "s' = s\<lparr>nodes := Some t'\<rparr>" "table_keeps (pool_gen s) ?t t'" by auto
    with t show ?thesis by (auto simp: table_keeps_def) metis
  qed (use t in auto)
qed

lemma verify_edges_stop:
  "pool s = Some m \<Longrightarrow> verify_edges s (PoolP (pool_gen s) a) r j p = Inl e \<Longrightarrow> e = Out_of_bounds"
  by (induction r arbitrary: j p)
    (auto simp: res_simps dest: ptr_load_PoolP_stop split: if_splits)

lemma verify_nodes_stop:
  assumes "verify_nodes r i (PoolP (pool_gen s) a) s = Inl e" "pool s \<noteq> None"
  shows "memory_fault e"
  using assms
proof (induction r arbitrary: i a s)
  case (Suc r)
  show ?case
  proof (cases "set_slot s i (PoolP (pool_gen s) a)")
    case (Inl e')
    with Suc.prems(1) show ?thesis by (auto dest: slot_stop)
  next
    case (Inr s1)
    then have s1: "pool s1 = pool s" "pool_gen s1 = pool_gen s"
      by (auto simp: set_slot_def split: option.splits if_splits)
    have "memory_fault e" if "verify_nodes r (Suc i) p s1 = Inl e"
      "verify_edges s1 (PoolP (pool_gen s1) b) n 0 (PoolP (pool_gen s1) b) = Inr (Some p)" for b n p
    proof -
      obtain m where "pool s1 = Some m" using Suc.prems(2) s1 by auto
      with verify_edges_sound [OF that(2)] have "p = PoolP (pool_gen s1) (b + 24 * n)" by simp
      with that(1) Suc.IH [where s = s1 and a = "b + 24 * n" and i = "Suc i"] Suc.prems(2) s1 show ?thesis by simp
    qed
    moreover have oob: "memory_fault Out_of_bounds" by (simp add: memory_fault_def)
    moreover obtain m where "pool s1 = Some m" using Suc.prems(2) s1 by auto
    ultimately show ?thesis
      using Suc.prems Inr s1 ptr_load_PoolP_stop [of s1 m] verify_edges_stop [of s1 m]
      by (fastforce simp: res_simps layout_simps Let_def split: if_splits option.splits)
  qed
qed simp

lemma malloc_nodes_kernel:
  "malloc_nodes (kernel_env al) z s =
     s\<lparr>nodes := (if al (requests s) z
                 then Some \<lparr>tbl_cap = unat z div 8, tbl_slot = (\<lambda>_. NullP)\<rparr> else None),
       requests := Suc (requests s)\<rparr>"
  by (simp add: malloc_nodes_def kernel_env_def fresh_slot_def)

text \<open>
  After verification of any pool contents the pointers are still good, and a lookup table that
  was there before is the same size.
\<close>

definition keeps :: "memgraph \<Rightarrow> memgraph \<Rightarrow> bool" where
  "keeps s s' \<longleftrightarrow>
     pointers_ok s' \<and> (pool s \<noteq> None \<longrightarrow> pool s' \<noteq> None \<and> pool_gen s' = pool_gen s) \<and>
     (\<forall>t. nodes s = Some t \<longrightarrow> (\<exists>t'. nodes s' = Some t' \<and> tbl_cap t' = tbl_cap t))"

lemma verify_prepared:
  "pointers_ok s \<Longrightarrow> pool s \<noteq> None \<Longrightarrow>
     pointers_ok (if nodes s = None then malloc_nodes (kernel_env al) z s else s)"
  "pool (if nodes s = None then malloc_nodes (kernel_env al) z s else s) = pool s"
  "pool_gen (if nodes s = None then malloc_nodes (kernel_env al) z s else s) = pool_gen s"
  "nodes s = Some t \<Longrightarrow>
     nodes (if nodes s = None then malloc_nodes (kernel_env al) z s else s) = Some t"
  "pointers_ok s \<Longrightarrow> pool s \<noteq> None \<Longrightarrow>
     keeps s (if nodes s = None then malloc_nodes (kernel_env al) z s else s)"
  by (auto simp: malloc_nodes_kernel pointers_ok_def ptr_ok_def keeps_def)

lemma keeps_trans: "keeps s s1 \<Longrightarrow> keeps s1 s2 \<Longrightarrow> keeps s s2"
  by (auto simp: keeps_def)

lemma verify_nodes_keeps:
  assumes "verify_nodes r i (PoolP (pool_gen s) a) s = Inr (rc, s')" "pointers_ok s" "pool s \<noteq> None"
  shows "keeps s s'"
proof (cases "nodes s")
  case None
  then have "r = 0" using assms(1) by (cases r) (auto simp: res_simps set_slot_def)
  with assms show ?thesis by (simp add: keeps_def)
next
  case (Some t)
  from verify_nodes_table [OF assms(1) Some assms(3)] obtain t' where
    t': "s' = s\<lparr>nodes := Some t'\<rparr>" "table_keeps (pool_gen s) t t'" by blast
  have "ptr_ok s' (tbl_slot t' j)" if "j < tbl_cap t'" for j
  proof -
    from that t'(2) assms(2) Some
    have "tbl_slot t' j = tbl_slot t j \<or> (\<exists>a. tbl_slot t' j = PoolP (pool_gen s) a)"
      "ptr_ok s (tbl_slot t j)"
      by (auto simp: table_keeps_def pointers_ok_def)
    with assms(3) show ?thesis by (auto simp: ptr_ok_def t'(1))
  qed
  with t' assms(2,3) Some show ?thesis
    by (auto simp: keeps_def pointers_ok_def table_keeps_def ptr_ok_def)
qed

lemma verify_graph_kernel:
  assumes "pointers_ok s"
  shows "verify_graph (kernel_env al) s = Inr (rc, s') \<Longrightarrow> keeps s s'"
    and "verify_graph (kernel_env al) s = Inl e \<Longrightarrow> memory_fault e"
proof -
  let ?s = "\<lambda>z. if nodes s = None then malloc_nodes (kernel_env al) z s else s"
  have refl: "keeps s s" using assms by (auto simp: keeps_def)
  show "keeps s s'" if v: "verify_graph (kernel_env al) s = Inr (rc, s')"
  proof (cases "s' = s")
    case False
    with v obtain m r z off where "pool s = Some m"
      "verify_nodes r 0 (PoolP (pool_gen (?s z)) off) (?s z) = Inr (rc, s')"
      by (auto simp: verify_graph_def Let_def verify_prepared(3) split: option.splits if_splits)
    then have "keeps (?s z) s'" "keeps s (?s z)"
      using verify_nodes_keeps [of r 0 "?s z" off rc s'] verify_prepared [of s] assms by auto
    then show ?thesis by (blast intro: keeps_trans)
  qed (use refl in simp)
  show "memory_fault e" if v: "verify_graph (kernel_env al) s = Inl e"
  proof -
    from v obtain m r z off where "pool s = Some m"
      "verify_nodes r 0 (PoolP (pool_gen (?s z)) off) (?s z) = Inl e"
      by (auto simp: verify_graph_def Let_def verify_prepared(3) split: option.splits if_splits)
    then show ?thesis using verify_nodes_stop verify_prepared(2) by (metis option.distinct(1))
  qed
qed

section \<open>Initialisation from arbitrary data\<close>

lemma create_pool_kernel:
  assumes "pointers_ok s" "pool s = None"
  shows "\<exists>s'. create_pool (kernel_env al) s = Inr s' \<and> pointers_ok s' \<and> nodes s' = None"
proof (cases "al (requests s) (of_nat MEMORY_POOL_SIZE)")
  case True
  then show ?thesis
    using assms by (simp add: create_pool_spec kernel_env_def pointers_ok_def ptr_ok_def)
next
  case False
  then show ?thesis
    using assms by (simp add: create_pool_def kernel_env_def PRINT_ERROR_AND_EXIT_def
        pointers_ok_def ptr_ok_def)
qed

lemma prepared_keeps:
  assumes "pointers_ok s"
  obtains s1 where "(if pool s = None then create_pool (kernel_env al) s else Inr s) = Inr s1"
    "keeps s s1"
proof (cases "pool s")
  case None
  with assms have "nodes s = None" by (simp add: pointers_ok_def)
  with create_pool_kernel [OF assms None, of al] None that show thesis by (auto simp: keeps_def)
qed (use assms that [of s] in \<open>auto simp: keeps_def\<close>)

lemma keeps_pool_update:
  "keeps s s1 \<Longrightarrow> pool s1 \<noteq> None \<Longrightarrow> keeps s (s1\<lparr>pool := Some m\<rparr>)"
  by (auto simp: keeps_def pointers_ok_def ptr_ok_def)

lemma initialize_graph_kernel:
  assumes "pointers_ok s" "0 < sz"
  shows "initialize_graph (kernel_env al) (Some d) sz s = Inr s' \<Longrightarrow> keeps s s' \<and> pool s' \<noteq> None"
    and "initialize_graph (kernel_env al) (Some d) sz s = Inl e \<Longrightarrow> memory_fault e"
proof -
  obtain s1 where s1: "(if pool s = None then create_pool (kernel_env al) s else Inr s) = Inr s1"
    "keeps s s1"
    using prepared_keeps [OF assms(1)] .
  have P: "PRINT_ERROR_AND_EXIT (kernel_env al) x = Inr x"
    "(if b then PRINT_ERROR_AND_EXIT (kernel_env al) x else Inr x) = Inr x" for b and x :: memgraph
    by (simp_all add: PRINT_ERROR_AND_EXIT_def kernel_env_def split: if_split)
  let ?s2 = "\<lambda>m. s1\<lparr>pool := Some (mem_copy (mem_set m 0 (unat sz)) (buf_bytes d) (unat sz))\<rparr>"
  have init: "initialize_graph (kernel_env al) (Some d) sz s =
      (case pool s1 of
         None \<Rightarrow> Inl Null_deref
       | Some m \<Rightarrow>
           if unat sz \<le> MEMORY_POOL_SIZE \<and> unat sz \<le> buf_len d
           then and_then (verify_graph (kernel_env al) (?s2 m)) (\<lambda>(rc, s3). Inr s3)
           else Inl Out_of_bounds)"
    using s1(1) assms(2) by (auto simp: initialize_graph_def P case_prod_beta' split: option.splits)
  have k: "keeps s (?s2 m)" "pointers_ok (?s2 m)" if "pool s1 = Some m" for m
    using keeps_pool_update [OF s1(2)] that by (auto simp: keeps_def)
  show "keeps s s' \<and> pool s' \<noteq> None"
    if i: "initialize_graph (kernel_env al) (Some d) sz s = Inr s'"
  proof -
    from i init obtain m rc where m: "pool s1 = Some m"
      "verify_graph (kernel_env al) (?s2 m) = Inr (rc, s')"
      by (auto simp: res_simps split: option.splits if_splits)
    with verify_graph_kernel(1) [OF k(2)] have "keeps (?s2 m) s'" by blast
    with k(1) [OF m(1)] show ?thesis by (auto simp: keeps_def)
  qed
  show "memory_fault e" if i: "initialize_graph (kernel_env al) (Some d) sz s = Inl e"
    using i init verify_graph_kernel(2) k(2)
    by (fastforce simp: res_simps memory_fault_def split: option.splits if_splits)
qed

section \<open>The invariant of the reachable states\<close>

lemma reset_kernel:
  assumes "pointers_ok s"
  shows "reset_progstate s = Inr s' \<Longrightarrow> keeps s s'"
    and "reset_progstate s = Inl e \<Longrightarrow> memory_fault e"
  using assms get_slot_ok [OF assms, of 0]
  by (auto simp: reset_progstate_def res_simps keeps_def pointers_ok_def ptr_ok_def dest: slot_stop)

lemma find_transition_stop:
  "pool s = Some m \<Longrightarrow> find_transition s (PoolP (pool_gen s) a) c r i = Inl e \<Longrightarrow> e = Out_of_bounds"
  by (induction r arbitrary: i)
    (auto simp: res_simps dest: ptr_load_PoolP_stop split: if_splits)

lemma valid_stop:
  assumes "pointers_ok s" "is_state_transition_valid s c = Inl e"
  shows "memory_fault e"
proof (cases "start_node s")
  case NullP
  with assms(2) show ?thesis
    by (simp add: is_state_transition_valid_def ptr_load_def deref_def memory_fault_def)
next
  case WildP
  with assms(1) show ?thesis by (simp add: pointers_ok_def ptr_ok_def)
next
  case (PoolP g a)
  with assms(1) obtain m where m: "pool s = Some m" "g = pool_gen s"
    by (auto simp: pointers_ok_def ptr_ok_def)
  have "e = Out_of_bounds"
    using assms(2) PoolP m ptr_load_PoolP_stop [OF m(1)] find_transition_stop [OF m(1)]
    by (auto simp: is_state_transition_valid_def Let_def res_simps split: if_splits)
  then show ?thesis by (simp add: memory_fault_def)
qed

lemma transition_kernel:
  assumes "pointers_ok s"
  shows "transition_to_state s c = Inr (r, s') \<Longrightarrow> keeps s s'"
    and "transition_to_state s c = Inl e \<Longrightarrow> memory_fault e"
proof -
  show "keeps s s'" if "transition_to_state s c = Inr (r, s')"
  proof (cases "s' = s")
    case False
    with that obtain t p where
      "get_slot s (unat t) = Inr p" "s' = s\<lparr>current_progstate := t, start_node := p\<rparr>"
      by (auto simp: transition_to_state_def res_simps Let_def split: if_splits)
    with get_slot_ok [OF assms] assms show ?thesis
      by (auto simp: keeps_def pointers_ok_def ptr_ok_def)
  qed (use assms in \<open>auto simp: keeps_def\<close>)
  show "memory_fault e" if "transition_to_state s c = Inl e"
    using that valid_stop [OF assms]
    by (auto simp: transition_to_state_def res_simps Let_def meta_load_def memory_fault_def
        get_slot_def split: if_splits option.splits)
qed

text \<open>
  Every reachable state has good pointers, whatever arguments the calls were made with, and every
  call that does not stop keeps the size of an existing lookup table.
\<close>

lemma kfree_stop: "kfree b = Inl e \<Longrightarrow> e = Double_free"
  by (cases b) auto

lemma pointers_ok_requests:
  "pointers_ok (g\<lparr>requests := n\<rparr>) = pointers_ok g" "keeps (g\<lparr>requests := n\<rparr>) s = keeps g s"
  by (simp_all add: pointers_ok_def keeps_def ptr_ok_def)

lemma keeps_requests: "pointers_ok g \<Longrightarrow> keeps g (g\<lparr>requests := n\<rparr>)"
  by (auto simp: keeps_def pointers_ok_requests)

lemma sandbox_init_keeps:
  assumes "pointers_ok (ks_graph k)" "sandbox_init cfg al data sz k = Inr (r, k')"
  shows "keeps (ks_graph k) (ks_graph k')"
proof -
  let ?g = "ks_graph k"
  let ?g1 = "?g\<lparr>requests := Suc (requests ?g)\<rparr>"
  consider "ks_graph k' = ?g" | "ks_graph k' = ?g1"
    | b g2 g3 where "0 < sz" "initialize_graph (kernel_env al) (Some b) sz ?g1 = Inr g2"
        "reset_progstate g2 = Inr g3" "ks_graph k' = g3"
    using assms(2) by (auto simp: sandbox_init_def Let_def res_simps word_gt_0
        split: if_splits option.splits)
  then show ?thesis
  proof cases
    case 3
    from initialize_graph_kernel(1) [OF _ 3(1,2)] assms(1) have "keeps ?g g2"
      by (simp add: pointers_ok_requests)
    with reset_kernel(1) [OF _ 3(3)] 3(4) show ?thesis by (auto simp: keeps_def)
  qed (use assms(1) keeps_requests in \<open>auto simp: keeps_def pointers_ok_requests\<close>)
qed

lemma sandbox_init_stop:
  assumes "pointers_ok (ks_graph k)" "sandbox_init cfg al data sz k = Inl e"
  shows "memory_fault e \<or> e = Double_free"
proof -
  let ?g = "ks_graph k"
  let ?g1 = "?g\<lparr>requests := Suc (requests ?g)\<rparr>"
  consider "e = Double_free" | "e = Out_of_bounds"
    | b where "0 < sz" "initialize_graph (kernel_env al) (Some b) sz ?g1 = Inl e"
    | b g2 where "0 < sz" "initialize_graph (kernel_env al) (Some b) sz ?g1 = Inr g2"
        "reset_progstate g2 = Inl e"
    using assms(2) by (auto simp: sandbox_init_def Let_def res_simps word_gt_0 print_data_def
        dest: kfree_stop split: if_splits option.splits)
  then show ?thesis
  proof cases
    case 3
    with initialize_graph_kernel(2) assms(1) show ?thesis by (metis pointers_ok_requests(1))
  next
    case 4
    from initialize_graph_kernel(1) [OF _ 4(1,2)] assms(1) have "pointers_ok g2"
      by (simp add: pointers_ok_requests keeps_def)
    with reset_kernel(2) 4(3) show ?thesis by blast
  qed (auto simp: memory_fault_def)
qed

lemma do_syscall_keeps:
  assumes "pointers_ok (ks_graph k)" "do_syscall cfg al ev k = Inr (r, k')"
  shows "keeps (ks_graph k) (ks_graph k')"
proof (cases ev)
  case (Sandbox_init data sz)
  with assms sandbox_init_keeps show ?thesis by simp
next
  case Sandbox_cleanup
  with assms show ?thesis
    by (auto simp: sandbox_cleanup_def res_simps keeps_def split: if_splits)
next
  case (Sandbox_dummycall n)
  with assms transition_kernel(1) [OF assms(1)] show ?thesis
    by (auto simp: sandbox_dummycall_def res_simps keeps_def split: if_splits)
qed

lemma do_syscall_stop:
  assumes "pointers_ok (ks_graph k)" "do_syscall cfg al ev k = Inl e"
  shows "memory_fault e \<or> e = Double_free"
proof (cases ev)
  case (Sandbox_init data sz)
  with assms sandbox_init_stop show ?thesis by simp
next
  case Sandbox_cleanup
  with assms show ?thesis
    by (auto simp: sandbox_cleanup_def res_simps split: if_splits dest: kfree_stop)
next
  case (Sandbox_dummycall n)
  with assms transition_kernel(2) [OF assms(1)] valid_stop [OF assms(1)] show ?thesis
    by (auto simp: sandbox_dummycall_def res_simps split: if_splits)
qed

lemma kernel_step_keeps:
  assumes "kernel_step cfg al k er k'" "pointers_ok (ks_graph k)"
  shows "keeps (ks_graph k) (ks_graph k')"
  using assms do_syscall_keeps by (auto elim: kernel_stepE)

lemma reach_pointers_ok: "kernel_reach cfg al k \<Longrightarrow> pointers_ok (ks_graph k)"
proof (induction rule: kernel_reach.induct)
  case boot
  show ?case by (simp add: ksys_init_def pointers_ok_init)
next
  case (step k er k')
  with kernel_step_keeps show ?case by (auto simp: keeps_def)
qed

end
