(* ===== verification/Demo.thy ===== *)
theory Demo
  imports KernelSafety GraphFaults
begin

text \<open>
  Building a whole graph with the library, and the concrete graphs, buffers and kernel states in
  which the properties are instantiated.
\<close>

section \<open>Building a graph\<close>

definition build_graph :: "env \<Rightarrow> graph \<Rightarrow> memgraph \<Rightarrow> memgraph res" where
  "build_graph e g s =
     and_then (initialize_graph e None 0 s) (\<lambda>s1.
     and_then (add_all (alloc_progstate e) g s1) finalize_graph)"

lemma fresh_pool:
  "\<exists>s. initialize_graph (ample_env User) None 0 memgraph_init = Inr s \<and> building s []"
proof -
  have "num_nodes_listings memgraph_init = 0 \<or> num_nodes_listings memgraph_init = 4096"
    "env_alloc (ample_env User) (requests memgraph_init) (of_nat MEMORY_POOL_SIZE)"
    "pool memgraph_init = None"
    by (simp_all add: memgraph_init_def ample_env_def)
  from initialize_empty [OF this(3,2,1)] show ?thesis by blast
qed

lemma empty_graph: "\<exists>s. building s []"
  using fresh_pool by blast

lemma build_graph_spec:
  assumes "room_for g"
  obtains s m where "build_graph (ample_env User) g memgraph_init = Inr s" "pool s = Some m"
    "sealed m g" "table_inv s (length g)"
proof -
  let ?e = "ample_env User"
  obtain s1 where s1: "initialize_graph ?e None 0 memgraph_init = Inr s1" "building s1 []"
    using fresh_pool by blast
  obtain s2 where s2: "add_all (alloc_progstate ?e) g s1 = Inr s2" "building s2 g"
    using pool_builder.add_all_nodes [of s1 "[]" ?e g] s1(2) assms by auto
  obtain s m where "finalize_graph s2 = Inr s" "pool s = Some m" "sealed m g" "table_inv s (length g)"
    using finalize_spec [OF s2(2)] by metis
  with s1(1) s2(1) that show thesis by (simp add: build_graph_def)
qed

text \<open>A two-state example: from the entry, call 7 leads to state 1, where call 9 loops.\<close>

definition demo :: graph where
  "demo = [\<lparr>ps_id = 0, ps_edges = [(7, 1)]\<rparr>, \<lparr>ps_id = 1, ps_edges = [(9, 1)]\<rparr>]"

lemma demo_ok: "wf_graph demo" "demo \<noteq> []" "fits demo" "room_for demo" "length demo = 2"
  "graph_size demo = 96"
  by (simp_all add: demo_def wf_graph_def fits_def room_for_def node_size_def layout_simps
      all_less_Suc_split less_Suc_eq numeral_2_eq_2)

lemma ksys_init_ready: "table_large (ks_graph ksys_init) n" "kernel_buffer ksys_init \<noteq> KFreed"
  by (simp_all add: ksys_init_def memgraph_init_def table_large_def)

section \<open>Examples\<close>

text \<open>States and buffers for the concrete instances of the theorems.\<close>

lemma demo_pool: "\<exists>s m. building s demo \<and> finalize_graph s = Inr (s\<lparr>pool := Some m\<rparr>) \<and> sealed m demo"
proof -
  obtain s1 where s1: "building s1 []" using empty_graph by blast
  obtain s where s: "building s demo"
    using pool_builder.add_all_nodes [of s1 "[]" "ample_env User" demo] s1 demo_ok(4) by auto
  then obtain m where "pool s = Some m" by (auto simp: building_def)
  then have "finalize_graph s = Inr (s\<lparr>pool := Some (store8 m 32 1)\<rparr>)"
    by (simp add: finalize_graph_def layout_simps)
  with finalize_spec [OF s] s show ?thesis by fastforce
qed

definition whole_buffer :: "bytes \<Rightarrow> buffer" where
  "whole_buffer m = \<lparr>buf_len = MEMORY_POOL_SIZE, buf_bytes = m\<rparr>"

lemma whole_carries:
  "sealed m g \<Longrightarrow> wf_graph g \<Longrightarrow> g \<noteq> [] \<Longrightarrow> fits g \<Longrightarrow>
     carries (whole_buffer m) (of_nat MEMORY_POOL_SIZE) g"
  by (simp add: carries_def fits_def whole_buffer_def layout_simps unat_of_nat_small)

lemma demo_carried: "\<exists>d. carries d (of_nat MEMORY_POOL_SIZE) demo"
  using demo_pool whole_carries demo_ok by blast

lemma demo_enforced: "\<exists>k. enforces demo k 0 \<and> kernel_reach True (\<lambda>_ _. True) k \<and>
    kernel_buffer k \<noteq> KFreed \<and> (\<exists>t. nodes (ks_graph k) = Some t \<and> tbl_cap t = 2)"
proof -
  obtain d where d: "carries d (of_nat MEMORY_POOL_SIZE) demo" using demo_carried by blast
  have al: "\<forall>j z. (\<lambda>_ _. True) (j :: nat) (z :: u64)" by simp
  have n: "nodes (ks_graph ksys_init) = None" by (simp add: ksys_init_def memgraph_init_def)
  obtain k t where k: "sandbox_init True (\<lambda>_ _. True) (Some d) (of_nat MEMORY_POOL_SIZE) ksys_init =
      Inr (Returned 0, k)" "enforces demo k 0" "kernel_buffer k \<noteq> KFreed"
    "nodes (ks_graph k) = Some t" "tbl_cap t = length demo"
    using first_init_table [OF al d n ksys_init_ready(2)] by blast
  have "kernel_step True (\<lambda>_ _. True) ksys_init
      (Sandbox_init (Some d) (of_nat MEMORY_POOL_SIZE), Returned 0) k"
    by (rule kernel_step.call) (simp add: k(1))
  with kernel_reach.boot have "kernel_reach True (\<lambda>_ _. True) k" by (rule kernel_reach.step)
  with k demo_ok(5) show ?thesis by auto
qed

definition looping :: graph where
  "looping = [\<lparr>ps_id = 0, ps_edges = [(7, 0)]\<rparr>]"

lemma looping_ok: "wf_graph looping" "looping \<noteq> []" "fits looping" "room_for looping" "length looping = 1"
  by (simp_all add: looping_def wf_graph_def fits_def room_for_def node_size_def layout_simps)

lemma looping_enforced: "\<exists>k. enforces looping k 0"
proof -
  obtain s m where "sealed m looping" using build_graph_spec [OF looping_ok(4)] by metis
  then have c: "carries (whole_buffer m) (of_nat MEMORY_POOL_SIZE) looping"
    by (rule whole_carries) (simp_all add: looping_ok)
  have al: "\<forall>j z. (\<lambda>_ _. True) (j :: nat) (z :: u64)" by simp
  obtain k where "enforces looping k 0" using init_installs [OF al c ksys_init_ready] by blast
  then show ?thesis by blast
qed

end
