(* ===== verification/Interleave.thy ===== *)
theory Interleave
  imports Demo
begin

text \<open>
  The system calls of \<^verbatim>\<open>sandboxing.c\<close> as sequences of statements that several threads execute
  over the one state of the module, which takes no lock.  A step of the model is one statement of
  the C function, and \<^verbatim>\<open>is_state_transition_valid\<close> and \<^verbatim>\<open>transition_to_state\<close>, which a guarded call
  runs through, are statements too: each reads or writes \<^verbatim>\<open>start_node\<close> or \<^verbatim>\<open>current_progstate\<close> once,
  except \<^verbatim>\<open>start_node = nodes[current_progstate]\<close>, which reads one and writes the other.  The
  search through the edges behind the two pointers it was given is one step; no guarded call writes
  what it reads.  A call of the allocator, of \<^verbatim>\<open>copy_from_user\<close> or of \<^verbatim>\<open>initialize_graph\<close> runs to its
  end.  The pointer \<^verbatim>\<open>kernel_buffer\<close> is read afresh by every statement that names it.  The program
  has at least the behaviours shown here; a preemption inside one of these steps is left out, so the
  theorems state that an interleaving exists, never that all of them behave.
\<close>

section \<open>Statements\<close>

text \<open>\<^verbatim>\<open>is_state_transition_valid\<close> is called by the handler and by \<^verbatim>\<open>transition_to_state\<close>.\<close>

datatype caller = Checking | Moving

datatype stmt =
    Init_args "buffer option" u64
  | Init_release buffer u64
  | Init_allocate buffer u64
  | Init_allocated buffer u64
  | Init_copy buffer u64
  | Init_print u64
  | Init_graph u64
  | Init_reset
  | Cleanup
  | Valid_node caller u64
  | Valid_libs caller u64 ptr
  | Valid_search caller u64 ptr ptr
  | Move_bound u64
  | Move_state u64
  | Move_start
  | Move_return

text \<open>A thread is at a statement of a system call, or the call has ended.\<close>

datatype thread = At stmt | Done sysres

fun entry_stmt :: "syscall \<Rightarrow> stmt" where
  "entry_stmt (Sandbox_init data sz) = Init_args data sz"
| "entry_stmt Sandbox_cleanup = Cleanup"
| "entry_stmt (Sandbox_dummycall n) = Valid_node Checking n"

text \<open>The memory behind \<^verbatim>\<open>kernel_buffer\<close>, and the pointer as an argument of \<^verbatim>\<open>initialize_graph\<close>.\<close>

fun live_buffer :: "kbuffer \<Rightarrow> buffer res" where
  "live_buffer KNull = Inl Null_deref"
| "live_buffer (KLive b) = Inr b"
| "live_buffer KFreed = Inl Use_after_free"

fun buffer_arg :: "kbuffer \<Rightarrow> buffer option res" where
  "buffer_arg KNull = Inr None"
| "buffer_arg (KLive b) = Inr (Some b)"
| "buffer_arg KFreed = Inl Use_after_free"

text \<open>
  The body of \<^verbatim>\<open>is_state_transition_valid\<close> behind its two local pointers, and what its caller does
  with the result \<open>r\<close>.
\<close>

definition search_node :: "memgraph \<Rightarrow> ptr \<Rightarrow> ptr \<Rightarrow> u64 \<Rightarrow> i32 res" where
  "search_node s node libs libccall =
     and_then (ptr_load s node (offset_of abstract_progstate ''magic'')) (\<lambda>mg.
       if mg \<noteq> NODE_MAGIC_NUMBER then Inr 0
       else and_then (ptr_load s libs (offset_of libcalls ''magic'')) (\<lambda>mg'.
         if mg' \<noteq> EDGE_MAGIC_NUMBER then Inr 0
         else and_then (ptr_load s node (offset_of abstract_progstate ''num_libcalls'')) (\<lambda>n.
           find_transition s libs libccall (unat n) 0)))"

fun after_valid :: "caller \<Rightarrow> u64 \<Rightarrow> i32 \<Rightarrow> thread" where
  "after_valid Checking n r = (if r \<noteq> 0 then At (Move_bound n) else Done Killed)"
| "after_valid Moving n r =
     (if (scast r :: u64) \<noteq> 0 then At (Move_state (scast r))
      else Done (Returned (scast ERROR_INVALID_STATE)))"

text \<open>
  \<open>junk\<close> is what a block of \<^verbatim>\<open>kmalloc\<close> holds before it is written.  \<^verbatim>\<open>copy_from_user\<close> writes all
  \<open>sz\<close> bytes of its target: what it cannot read it fills with zeros.
\<close>

fun exec_stmt ::
    "bool \<Rightarrow> (nat \<Rightarrow> u64 \<Rightarrow> bool) \<Rightarrow> bytes \<Rightarrow> stmt \<Rightarrow> ksys \<Rightarrow> (thread \<times> ksys) res" where
  "exec_stmt cfg al junk (Init_args data sz) k =
     (if \<not> cfg then Inr (Done (Returned (- ENOSYS)), k)
      else case data of
        None \<Rightarrow> Inr (Done (Returned (- EINVAL)), k)
      | Some d \<Rightarrow> if sz = 0 then Inr (Done (Returned (- EINVAL)), k) else Inr (At (Init_release d sz), k))"
| "exec_stmt cfg al junk (Init_release d sz) k =
     (if kernel_buffer k \<noteq> KNull
      then and_then (kfree (kernel_buffer k)) (\<lambda>kb.
             Inr (At (Init_allocate d sz), k\<lparr>kernel_buffer := kb\<rparr>))
      else Inr (At (Init_allocate d sz), k))"
| "exec_stmt cfg al junk (Init_allocate d sz) k =
     (let g = ks_graph k
      in Inr (At (Init_allocated d sz),
              k\<lparr>ks_graph := g\<lparr>requests := Suc (requests g)\<rparr>,
                kernel_buffer := (if al (requests g) sz
                  then KLive \<lparr>buf_len = unat sz, buf_bytes = junk\<rparr> else KNull)\<rparr>))"
| "exec_stmt cfg al junk (Init_allocated d sz) k =
     (if kernel_buffer k = KNull then Inr (Done (Returned (- ENOMEM)), k)
      else Inr (At (Init_copy d sz), k))"
| "exec_stmt cfg al junk (Init_copy d sz) k =
     and_then (live_buffer (kernel_buffer k)) (\<lambda>b.
     if buf_len b < unat sz then Inl Out_of_bounds
     else if buf_len d < unat sz
     then and_then (kfree (kernel_buffer k)) (\<lambda>kb.
            Inr (Done (Returned (- EFAULT)), k\<lparr>kernel_buffer := kb\<rparr>))
     else Inr (At (Init_print sz),
            k\<lparr>kernel_buffer := KLive (b\<lparr>buf_bytes := mem_copy (buf_bytes b) (buf_bytes d) (unat sz)\<rparr>)\<rparr>))"
| "exec_stmt cfg al junk (Init_print sz) k =
     and_then (live_buffer (kernel_buffer k)) (\<lambda>b.
     and_then (print_data b) (\<lambda>_. Inr (At (Init_graph sz), k)))"
| "exec_stmt cfg al junk (Init_graph sz) k =
     and_then (buffer_arg (kernel_buffer k)) (\<lambda>d.
     and_then (initialize_graph (kernel_env al) d sz (ks_graph k)) (\<lambda>g.
     Inr (At Init_reset, k\<lparr>ks_graph := g\<rparr>)))"
| "exec_stmt cfg al junk Init_reset k =
     and_then (reset_progstate (ks_graph k)) (\<lambda>g. Inr (Done (Returned 0), k\<lparr>ks_graph := g\<rparr>))"
| "exec_stmt cfg al junk Cleanup k =
     (if \<not> cfg then Inr (Done (Returned (- ENOSYS)), k)
      else and_then (kfree (kernel_buffer k)) (\<lambda>kb.
        Inr (Done (Returned 0), k\<lparr>kernel_buffer := kb\<rparr>)))"
| "exec_stmt cfg al junk (Valid_node c n) k =
     (if \<not> cfg then Inr (Done (Returned 0), k)
      else Inr (At (Valid_libs c n (start_node (ks_graph k))), k))"
| "exec_stmt cfg al junk (Valid_libs c n node) k =
     Inr (At (Valid_search c n node
       (ptr_add (start_node (ks_graph k)) (sizeof_struct abstract_progstate))), k)"
| "exec_stmt cfg al junk (Valid_search c n node libs) k =
     and_then (search_node (ks_graph k) node libs n) (\<lambda>r. Inr (after_valid c n r, k))"
| "exec_stmt cfg al junk (Move_bound n) k =
     and_then (meta_load (ks_graph k) ''num_nodes'') (\<lambda>m.
       if current_progstate (ks_graph k) \<ge> m then Inr (Done (Returned (scast ERROR_INVALID_STATE)), k)
       else Inr (At (Valid_node Moving n), k))"
| "exec_stmt cfg al junk (Move_state temp) k =
     Inr (At Move_start, k\<lparr>ks_graph := (ks_graph k)\<lparr>current_progstate := temp\<rparr>\<rparr>)"
| "exec_stmt cfg al junk Move_start k =
     and_then (get_slot (ks_graph k) (unat (current_progstate (ks_graph k)))) (\<lambda>p.
       Inr (At Move_return, k\<lparr>ks_graph := (ks_graph k)\<lparr>start_node := p\<rparr>\<rparr>))"
| "exec_stmt cfg al junk Move_return k =
     Inr (Done (Returned (scast (ucast (current_progstate (ks_graph k)) :: i32))), k)"

section \<open>A thread that runs alone\<close>

fun stmt_rank :: "stmt \<Rightarrow> nat" where
  "stmt_rank (Init_args data sz) = 8"
| "stmt_rank (Init_release d sz) = 7"
| "stmt_rank (Init_allocate d sz) = 6"
| "stmt_rank (Init_allocated d sz) = 5"
| "stmt_rank (Init_copy d sz) = 4"
| "stmt_rank (Init_print sz) = 3"
| "stmt_rank (Init_graph sz) = 2"
| "stmt_rank Init_reset = 1"
| "stmt_rank Cleanup = 1"
| "stmt_rank (Valid_node c n) = (case c of Checking \<Rightarrow> 10 | Moving \<Rightarrow> 6)"
| "stmt_rank (Valid_libs c n node) = (case c of Checking \<Rightarrow> 9 | Moving \<Rightarrow> 5)"
| "stmt_rank (Valid_search c n node libs) = (case c of Checking \<Rightarrow> 8 | Moving \<Rightarrow> 4)"
| "stmt_rank (Move_bound n) = 7"
| "stmt_rank (Move_state temp) = 3"
| "stmt_rank Move_start = 2"
| "stmt_rank Move_return = 1"

fun thread_rank :: "thread \<Rightarrow> nat" where
  "thread_rank (At s) = stmt_rank s"
| "thread_rank (Done r) = 0"

lemma after_rank: "thread_rank (after_valid c n r) < (case c of Checking \<Rightarrow> 8 | Moving \<Rightarrow> 4)"
  by (cases c) simp_all

lemma exec_rank:
  "exec_stmt cfg al junk s k = Inr (th, k') \<Longrightarrow> thread_rank th < stmt_rank s"
  by (cases s)
    (auto simp: res_simps Let_def split: if_splits option.splits caller.splits
      intro: after_rank [THEN less_le_trans])

function run_thread ::
    "bool \<Rightarrow> (nat \<Rightarrow> u64 \<Rightarrow> bool) \<Rightarrow> bytes \<Rightarrow> thread \<Rightarrow> ksys \<Rightarrow> (sysres \<times> ksys) res" where
  "run_thread cfg al junk (Done r) k = Inr (r, k)"
| "run_thread cfg al junk (At s) k =
     and_then (exec_stmt cfg al junk s k) (\<lambda>x. run_thread cfg al junk (fst x) (snd x))"
  by pat_completeness auto
termination
  by (relation "measure (\<lambda>(cfg, al, junk, th, k). thread_rank th)") (auto dest: exec_rank)

text \<open>
  What can be read of the state: the buffer counts up to its length only.
\<close>

fun buffer_view :: "kbuffer \<Rightarrow> u8 list option option" where
  "buffer_view KNull = None"
| "buffer_view KFreed = Some None"
| "buffer_view (KLive b) = Some (Some (map (buf_bytes b) [0..<buf_len b]))"

definition same_view :: "(sysres \<times> ksys) res \<Rightarrow> (sysres \<times> ksys) res \<Rightarrow> bool" where
  "same_view x y \<longleftrightarrow>
     (case (x, y) of
        (Inr (r, k), Inr (r', k')) \<Rightarrow>
          r = r' \<and> ks_graph k = ks_graph k' \<and>
          buffer_view (kernel_buffer k) = buffer_view (kernel_buffer k')
      | (Inl e, Inl e') \<Rightarrow> e = e'
      | _ \<Rightarrow> False)"

lemma mem_copy_twice: "mem_copy m (mem_copy m' src n) n = mem_copy m src n"
  by (auto simp: mem_copy_def)

lemma initialize_copied:
  "initialize_graph e (Some \<lparr>buf_len = unat sz, buf_bytes = mem_copy junk src (unat sz)\<rparr>) sz s =
   initialize_graph e (Some \<lparr>buf_len = unat sz, buf_bytes = src\<rparr>) sz s"
  unfolding initialize_graph_def
  by (intro arg_cong2 [where f = and_then] ext) (simp_all add: mem_copy_twice split: option.split)

lemma view_copied:
  "map (mem_copy junk src n) [0..<n] = map src [0..<n]"
  by (simp add: mem_copy_def)

lemma run_init_copy:
  assumes "kernel_buffer k = KLive \<lparr>buf_len = unat sz, buf_bytes = junk\<rparr>"
  shows "same_view (run_thread True al junk (At (Init_copy d sz)) k)
    (let b = \<lparr>buf_len = unat sz, buf_bytes = buf_bytes d\<rparr>
     in if buf_len d < unat sz
        then and_then (kfree (KLive b)) (\<lambda>kb. Inr (Returned (- EFAULT), k\<lparr>kernel_buffer := kb\<rparr>))
        else and_then (print_data b) (\<lambda>_.
             and_then (initialize_graph (kernel_env al) (Some b) sz (ks_graph k)) (\<lambda>g2.
             and_then (reset_progstate g2) (\<lambda>g3.
             Inr (Returned 0, k\<lparr>ks_graph := g3, kernel_buffer := KLive b\<rparr>)))))"
proof (cases "buf_len d < unat sz \<or> unat sz < 20")
  case True
  then show ?thesis using assms by (auto simp: same_view_def print_data_def)
next
  case False
  let ?b = "\<lparr>buf_len = unat sz, buf_bytes = buf_bytes d\<rparr>"
  show ?thesis
  proof (cases "initialize_graph (kernel_env al) (Some ?b) sz (ks_graph k)")
    case (Inl e)
    with False assms show ?thesis by (simp add: same_view_def print_data_def initialize_copied)
  next
    case (Inr g2)
    with False assms show ?thesis
      by (cases "reset_progstate g2")
        (simp_all add: same_view_def print_data_def initialize_copied view_copied)
  qed
qed

text \<open>The sequential functions are these statements one after the other.\<close>

lemma valid_search:
  "is_state_transition_valid s n =
     search_node s (start_node s) (ptr_add (start_node s) (sizeof_struct abstract_progstate)) n"
  by (simp add: is_state_transition_valid_def search_node_def Let_def)

lemma get_slot_current: "get_slot (s\<lparr>current_progstate := c\<rparr>) i = get_slot s i"
  by (simp add: get_slot_def)

lemma run_alone: "same_view (run_thread cfg al junk (At (entry_stmt ev)) k) (do_syscall cfg al ev k)"
proof (cases ev)
  case (Sandbox_init data sz)
  show ?thesis
  proof (cases "cfg \<and> data \<noteq> None \<and> sz \<noteq> 0 \<and> kernel_buffer k \<noteq> KFreed \<and> al (requests (ks_graph k)) sz")
    case True
    then obtain d where d: "data = Some d" by blast
    let ?k = "k\<lparr>ks_graph := (ks_graph k)\<lparr>requests := Suc (requests (ks_graph k))\<rparr>,
      kernel_buffer := KLive \<lparr>buf_len = unat sz, buf_bytes = junk\<rparr>\<rparr>"
    have "run_thread cfg al junk (At (entry_stmt ev)) k = run_thread True al junk (At (Init_copy d sz)) ?k"
      using True by (cases "kernel_buffer k") (simp_all add: Sandbox_init d Let_def del: exec_stmt.simps(5))
    then show ?thesis using run_init_copy [of ?k sz junk al d] True
      by (cases "kernel_buffer k"; cases "buf_len d < unat sz")
        (simp_all add: Sandbox_init d sandbox_init_def Let_def del: run_thread.simps)
  next
    case False
    then show ?thesis
      by (cases "kernel_buffer k")
        (auto simp: Sandbox_init same_view_def sandbox_init_def Let_def split: option.splits)
  qed
next
  case Sandbox_cleanup
  then show ?thesis
    by (cases "kernel_buffer k") (simp_all add: same_view_def sandbox_cleanup_def)
next
  case (Sandbox_dummycall n)
  let ?g = "ks_graph k"
  show ?thesis
  proof (cases "is_state_transition_valid ?g n")
    case (Inr v)
    then show ?thesis
      by (cases "meta_load ?g ''num_nodes''"; cases "get_slot ?g (unat (scast v :: u64))")
        (auto simp: Sandbox_dummycall same_view_def sandbox_dummycall_def transition_to_state_def
          valid_search get_slot_current Let_def)
  qed (simp add: Sandbox_dummycall same_view_def sandbox_dummycall_def valid_search)
qed

section \<open>Interleaving\<close>

text \<open>
  A thread whose last system call has ended enters another one, or a thread executes the
  statement it is at.  An execution carries the sequence of these events.
\<close>

datatype event = Enters nat syscall | Moves nat

type_synonym threads = "nat \<Rightarrow> thread"

inductive thread_step ::
    "bool \<Rightarrow> (nat \<Rightarrow> u64 \<Rightarrow> bool) \<Rightarrow> bytes \<Rightarrow> threads \<times> ksys \<Rightarrow> event \<Rightarrow> threads \<times> ksys \<Rightarrow> bool"
  for cfg al junk where
  enters: "th t = Done r \<Longrightarrow>
    thread_step cfg al junk (th, k) (Enters t ev) (th(t := At (entry_stmt ev)), k)"
| moves: "th t = At s \<Longrightarrow> exec_stmt cfg al junk s k = Inr (x, k') \<Longrightarrow>
    thread_step cfg al junk (th, k) (Moves t) (th(t := x), k')"

inductive_cases thread_stepE: "thread_step cfg al junk st e st'"
inductive_simps thread_step_enters: "thread_step cfg al junk (th, k) (Enters t ev) st'"
inductive_simps thread_step_moves: "thread_step cfg al junk (th, k) (Moves t) st'"

inductive interleaved ::
    "bool \<Rightarrow> (nat \<Rightarrow> u64 \<Rightarrow> bool) \<Rightarrow> bytes \<Rightarrow> threads \<times> ksys \<Rightarrow> event list \<Rightarrow> threads \<times> ksys \<Rightarrow> bool"
  for cfg al junk where
  nothing: "interleaved cfg al junk st [] st"
| more: "interleaved cfg al junk st tr st' \<Longrightarrow> thread_step cfg al junk st' e st'' \<Longrightarrow>
    interleaved cfg al junk st (tr @ [e]) st''"

lemma interleaved_append:
  "interleaved cfg al junk st' tr' st'' \<Longrightarrow> interleaved cfg al junk st tr st' \<Longrightarrow>
     interleaved cfg al junk st (tr @ tr') st''"
proof (induction rule: interleaved.induct)
  case (more st1 tr1 st2 e st3)
  then have "interleaved cfg al junk st ((tr @ tr1) @ [e]) st3" by (blast intro: interleaved.more)
  then show ?case by simp
qed simp

lemma interleaved_enter:
  "th t = Done r \<Longrightarrow>
     interleaved cfg al junk (th, k) [Enters t ev] (th(t := At (entry_stmt ev)), k)"
  using interleaved.more [OF interleaved.nothing thread_step.enters] by fastforce

text \<open>\<open>n\<close> statements of one thread, without another in between.\<close>

fun statements ::
    "bool \<Rightarrow> (nat \<Rightarrow> u64 \<Rightarrow> bool) \<Rightarrow> bytes \<Rightarrow> nat \<Rightarrow> thread \<Rightarrow> ksys \<Rightarrow> (thread \<times> ksys) option" where
  "statements cfg al junk 0 x k = Some (x, k)"
| "statements cfg al junk (Suc n) (Done r) k = None"
| "statements cfg al junk (Suc n) (At s) k =
     (case exec_stmt cfg al junk s k of
        Inl e \<Rightarrow> None | Inr (x, k') \<Rightarrow> statements cfg al junk n x k')"

lemma interleaved_statements:
  "statements cfg al junk n (th t) k = Some (x, k') \<Longrightarrow>
     interleaved cfg al junk (th, k) (replicate n (Moves t)) (th(t := x), k')"
proof (induction n arbitrary: th k)
  case 0
  then have "x = th t" "k' = k" by auto
  then show ?case by (simp add: interleaved.nothing)
next
  case (Suc n)
  then obtain s y k1 where s: "th t = At s" "exec_stmt cfg al junk s k = Inr (y, k1)"
    "statements cfg al junk n y k1 = Some (x, k')"
    by (cases "th t") (auto split: sum.splits)
  from Suc.IH [of "th(t := y)" k1] s(3)
  have a: "interleaved cfg al junk (th(t := y), k1) (replicate n (Moves t)) (th(t := x), k')"
    by (simp only: fun_upd_same fun_upd_upd)
  have "interleaved cfg al junk (th, k) [Moves t] (th(t := y), k1)"
    using interleaved.more [OF interleaved.nothing thread_step.moves [of th t, OF s(1,2)]] by simp
  from interleaved_append [OF a this] show ?case by (simp only: replicate_Suc append_Cons append_Nil)
qed

section \<open>Guarded calls statement by statement\<close>

lemma small_state_code: "q < 43691 \<Longrightarrow> (of_nat q :: u64) \<noteq> scast ERROR_INVALID_STATE"
proof -
  assume "q < 43691"
  then have "unat (of_nat q :: u64) < 43691" by (simp add: unat_of_nat_small)
  moreover have "unat (scast ERROR_INVALID_STATE :: u64) = 2 ^ 64 - 5"
    by (simp add: ERROR_INVALID_STATE_def)
  ultimately show ?thesis by force
qed

text \<open>
  The two pointers and the search: three statements that leave the state alone.  They agree with
  the automaton as long as no other thread moves between them.
\<close>

lemma valid_statements:
  "is_state_transition_valid (ks_graph k) n = Inr r \<Longrightarrow>
     statements True al junk 3 (At (Valid_node c n)) k = Some (after_valid c n r, k)"
  by (simp add: valid_search numeral_3_eq_3)

lemma check_allowed:
  "enforces g k q \<Longrightarrow> astep g q n = Some q' \<Longrightarrow>
     statements True al junk 3 (At (Valid_node Checking n)) k = Some (At (Move_bound n), k)"
  using transition_allowed [of NODE_TABLE_OFFSET g "ks_graph k" q n q']
  by (simp add: enforces_def valid_statements)

text \<open>The state in which the automaton is in state \<open>q\<close>.\<close>

definition moved_to :: "graph \<Rightarrow> nat \<Rightarrow> ksys \<Rightarrow> ksys" where
  "moved_to g q k = k\<lparr>ks_graph := (ks_graph k)\<lparr>current_progstate := of_nat q,
     start_node := PoolP (pool_gen (ks_graph k)) (node_pos NODE_TABLE_OFFSET g q)\<rparr>\<rparr>"

lemma moved_enforces: "enforces g k q \<Longrightarrow> q' < length g \<Longrightarrow> enforces g (moved_to g q' k) q'"
  using at_state_step [of NODE_TABLE_OFFSET g "ks_graph k" q q'] by (simp add: enforces_def moved_to_def)

lemma astep_length: "enforces g k q \<Longrightarrow> astep g q n = Some q' \<Longrightarrow> q' < length g"
  using astep_bound [of g q n q'] by (auto simp: enforces_def at_state_def)

lemma enforced_length: "enforces g k q \<Longrightarrow> q < length g \<and> length g < 43691"
  using holds_length by (auto simp: enforces_def at_state_def)

lemma dummycall_moved:
  assumes "enforces g k q" "astep g q n = Some q'"
  shows "sandbox_dummycall True n k = Inr (Returned (of_nat q'), moved_to g q' k)"
proof -
  have "q' < 43691" using astep_length [OF assms] enforced_length [OF assms(1)] by linarith
  with assms show ?thesis using transition_allowed [of NODE_TABLE_OFFSET g "ks_graph k" q n q']
    by (simp add: enforces_def sandbox_dummycall_def moved_to_def scast_of_nat_small)
qed

text \<open>The decision to move: the bound and the search again, still nothing written.\<close>

lemma bound_statement:
  assumes "enforces g k q"
  shows "exec_stmt True al junk (Move_bound n) k = Inr (At (Valid_node Moving n), k)"
proof -
  have "\<not> (of_nat (length g) :: u64) \<le> of_nat q"
    using enforced_length [OF assms] by (simp add: word_le_nat_alt unat_of_nat_small)
  with assms show ?thesis
    by (simp add: enforces_def at_state_def holds_meta [of NODE_TABLE_OFFSET g])
qed

lemma decide_statements:
  assumes "enforces g k q" "is_state_transition_valid (ks_graph k) n = Inr r"
  shows "statements True al junk 4 (At (Move_bound n)) k = Some (after_valid Moving n r, k)"
proof -
  have "statements True al junk (Suc 3) (At (Move_bound n)) k = Some (after_valid Moving n r, k)"
    by (simp only: statements.simps bound_statement [OF assms(1)] valid_statements [OF assms(2)]
        sum.case prod.case)
  then show ?thesis by simp
qed

lemma decide_allowed:
  assumes "enforces g k q" "astep g q n = Some q'"
  shows "statements True al junk 4 (At (Move_bound n)) k = Some (At (Move_state (of_nat q')), k)"
proof -
  note t = transition_allowed [of NODE_TABLE_OFFSET g "ks_graph k" q n q']
  have "q' \<noteq> 0" using t assms by (auto simp: enforces_def intro!: gr0I)
  moreover have small: "q' < 43691" using astep_length [OF assms] enforced_length [OF assms(1)] by linarith
  moreover have "unat (of_nat q' :: u64) = q'" using small by (simp add: unat_of_nat_small)
  ultimately have "(of_nat q' :: u64) \<noteq> 0" by (metis unat_0)
  moreover have "(scast (of_nat q' :: i32) :: u64) = of_nat q'" using small by (simp add: scast_of_nat_small)
  ultimately show ?thesis using decide_statements [OF assms(1)] t assms by (simp add: enforces_def)
qed

lemma decide_refused:
  "enforces g k q \<Longrightarrow> astep g q n = None \<Longrightarrow>
     statements True al junk 4 (At (Move_bound n)) k = Some (Done (Returned (scast ERROR_INVALID_STATE)), k)"
  using decide_statements transition_refused [of NODE_TABLE_OFFSET g "ks_graph k" q n]
  by (simp add: enforces_def)

text \<open>The move itself, whatever state the automaton is in by then.\<close>

lemma write_statements:
  assumes "enforces g k q" "q' < length g"
  shows "statements True al junk 3 (At (Move_state (of_nat q'))) k =
    Some (Done (Returned (of_nat q')), moved_to g q' k)"
proof -
  let ?g = "(ks_graph k)\<lparr>current_progstate := of_nat q'\<rparr>"
  have small: "q' < 43691" using assms enforced_length by fastforce
  have "holds NODE_TABLE_OFFSET g ?g"
    using assms(1) by (simp add: enforces_def at_state_def holds_def)
  from holds_get_slot [OF this assms(2)] small small_index_casts(1) [of "of_nat q'"] show ?thesis
    by (simp add: numeral_3_eq_3 moved_to_def unat_of_nat_small)
qed

lemma statements_add:
  "statements cfg al junk n x k = Some (y, k') \<Longrightarrow>
     statements cfg al junk (n + m) x k = statements cfg al junk m y k'"
proof (induction n arbitrary: x k)
  case (Suc n)
  then show ?case by (cases x) (auto split: sum.splits)
qed simp

lemma move_statements:
  assumes "enforces g k q" "astep g q n = Some q'"
  shows "statements True al junk 7 (At (Move_bound n)) k = Some (Done (Returned (of_nat q')), moved_to g q' k)"
  using statements_add [OF decide_allowed [OF assms], of al junk 3]
    write_statements [OF assms(1) astep_length [OF assms]] by simp

text \<open>A search through the edges of state \<open>q1\<close> that counts as many as state \<open>q\<close> has.\<close>

lemma search_mixed:
  assumes "holds b g s" "q < length g" "q1 < length g"
    and "length (ps_edges (g ! q)) \<le> length (ps_edges (g ! q1))" "ps_edges (g ! q1) \<noteq> []"
  shows "search_node s (PoolP (pool_gen s) (node_pos b g q)) (PoolP (pool_gen s) (node_pos b g q1 + 24)) c =
    Inr (case map_of (take (length (ps_edges (g ! q))) (ps_edges (g ! q1))) c of None \<Rightarrow> 0 | Some t \<Rightarrow> ucast t)"
proof -
  let ?p = "node_pos b g q" and ?p1 = "node_pos b g q1 + 24" and ?n = "length (ps_edges (g ! q))"
  let ?es = "take ?n (ps_edges (g ! q1))"
  obtain m where m: "pool s = Some m" "words_at m ?p (node_words (g ! q))"
    "?p + node_size (g ! q) + 8 \<le> MEMORY_POOL_SIZE" using holds_node [OF assms(1,2)] .
  obtain m' where m': "pool s = Some m'" "words_at m' (node_pos b g q1) (node_words (g ! q1))"
    "node_pos b g q1 + node_size (g ! q1) + 8 \<le> MEMORY_POOL_SIZE" using holds_node [OF assms(1,3)] .
  have e: "words_at m ?p1 (edges_words (ps_edges (g ! q1)))" using words_at_node(4) [OF m'(2)] m(1) m'(1) by simp
  then have "words_at m ?p1 (edges_words (?es @ drop ?n (ps_edges (g ! q1))))" by simp
  then have w: "words_at m ?p1 (edges_words ?es)" by (simp only: edges_words_simps(3) words_at_append)
  have fits: "?p + 32 \<le> MEMORY_POOL_SIZE" "?p1 + 24 * length ?es \<le> MEMORY_POOL_SIZE" "?p1 + 8 \<le> MEMORY_POOL_SIZE"
    using m(3) m'(3) assms(4) by (simp_all add: node_size_def)
  have len: "?n < 2 ^ 64" using m(3) by (simp add: node_size_def layout_simps)
  have "find_transition s (PoolP (pool_gen s) ?p1) c ?n 0 =
      Inr (case map_of ?es c of None \<Rightarrow> 0 | Some t \<Rightarrow> ucast t)"
    using find_transition_spec [OF m(1) w fits(2), of 0 ?n] assms(4) by simp
  moreover have "load64 m ?p1 = EDGE_MAGIC_NUMBER" using words_at_edge [OF e, of 0] assms(5) by simp
  ultimately show ?thesis using fits words_at_node [OF m(2)] len
    by (simp add: search_node_def ptr_load_PoolP [OF m(1)] layout_simps unat_of_nat_small)
qed

section \<open>Schedules\<close>

text \<open>All threads outside of system calls.\<close>

definition idle :: threads where
  "idle = (\<lambda>_. Done (Returned 0))"

text \<open>
  Two threads check a call each before either moves: both are let through.  In \<open>race\<close> thread \<open>t\<close>
  then moves before \<open>u\<close> decides whether to; in \<open>double_move\<close> both decide before either writes.  In
  \<open>torn_read\<close> thread \<open>t\<close> makes its whole call between the statements of \<open>u\<close> that read the two pointers.
\<close>

definition both_checked :: "nat \<Rightarrow> u64 \<Rightarrow> nat \<Rightarrow> u64 \<Rightarrow> event list" where
  "both_checked t c u d =
     [Enters t (Sandbox_dummycall c)] @ [Enters u (Sandbox_dummycall d)] @
     replicate 3 (Moves t) @ replicate 3 (Moves u)"

definition race :: "nat \<Rightarrow> u64 \<Rightarrow> nat \<Rightarrow> u64 \<Rightarrow> event list" where
  "race t c u d = both_checked t c u d @ replicate 7 (Moves t) @ replicate 4 (Moves u)"

definition double_move :: "nat \<Rightarrow> u64 \<Rightarrow> nat \<Rightarrow> u64 \<Rightarrow> event list" where
  "double_move t c u d = both_checked t c u d @
     replicate 4 (Moves t) @ replicate 4 (Moves u) @ replicate 3 (Moves t) @ replicate 3 (Moves u)"

definition torn_read :: "nat \<Rightarrow> u64 \<Rightarrow> nat \<Rightarrow> u64 \<Rightarrow> event list" where
  "torn_read t c u d =
     [Enters u (Sandbox_dummycall d)] @ replicate 1 (Moves u) @
     [Enters t (Sandbox_dummycall c)] @ replicate 10 (Moves t) @ replicate 2 (Moves u)"

lemma then_statements:
  "interleaved cfg al junk st tr (th, k) \<Longrightarrow> statements cfg al junk n (th t) k = Some (x, k') \<Longrightarrow>
     interleaved cfg al junk st (tr @ replicate n (Moves t)) (th(t := x), k')"
  by (rule interleaved_append [OF interleaved_statements])

lemma then_enters:
  "interleaved cfg al junk st tr (th, k) \<Longrightarrow> th t = Done r \<Longrightarrow>
     interleaved cfg al junk st (tr @ [Enters t ev]) (th(t := At (entry_stmt ev)), k)"
  by (rule interleaved_append [OF interleaved_enter])

lemma both_pass:
  assumes "enforces g k q" "astep g q c = Some q1" "astep g q d = Some q2"
    and "t \<noteq> u" "th t = Done r" "th u = Done r'"
  shows "interleaved True al junk (th, k) (both_checked t c u d)
    (th(t := At (Move_bound c), u := At (Move_bound d)), k)"
proof -
  let ?th = "th(t := At (Valid_node Checking c))"
  let ?th1 = "?th(u := At (Valid_node Checking d))"
  let ?th2 = "?th1(t := At (Move_bound c))"
  have "interleaved True al junk (th, k) ([] @ [Enters t (Sandbox_dummycall c)]) (?th, k)"
    using then_enters [OF interleaved.nothing [of True al junk "(th, k)"] assms(5), of "Sandbox_dummycall c"] by simp
  from then_enters [OF this, of u r' "Sandbox_dummycall d"] assms(4,6)
  have "interleaved True al junk (th, k)
      (([] @ [Enters t (Sandbox_dummycall c)]) @ [Enters u (Sandbox_dummycall d)]) (?th1, k)" by simp
  from then_statements [OF this, of 3 t] check_allowed [OF assms(1,2)] assms(4)
  have "interleaved True al junk (th, k) ((([] @ [Enters t (Sandbox_dummycall c)]) @
      [Enters u (Sandbox_dummycall d)]) @ replicate 3 (Moves t)) (?th2, k)" by simp
  from then_statements [OF this, of 3 u] check_allowed [OF assms(1,3)] assms(4)
  show ?thesis by (simp add: both_checked_def fun_upd_twist)
qed

lemma race_run:
  assumes "enforces g k q" "astep g q c = Some q1" "astep g q d = Some q2" "astep g q1 d = None"
    and "t \<noteq> u" "th t = Done r" "th u = Done r'"
  shows "interleaved True al junk (th, k) (race t c u d)
    (th(t := Done (Returned (of_nat q1)), u := Done (Returned (scast ERROR_INVALID_STATE))), moved_to g q1 k)"
proof -
  let ?th = "th(t := At (Move_bound c), u := At (Move_bound d))"
  let ?k = "moved_to g q1 k"
  have k: "enforces g ?k q1" using moved_enforces [OF assms(1) astep_length [OF assms(1,2)]] .
  from then_statements [OF both_pass [OF assms(1-3,5-7)], of al junk 7 t] move_statements [OF assms(1,2)] assms(5)
  have "interleaved True al junk (th, k) (both_checked t c u d @ replicate 7 (Moves t))
      (?th(t := Done (Returned (of_nat q1))), ?k)" by simp
  from then_statements [OF this, of 4 u] decide_refused [OF k assms(4)] assms(5)
  show ?thesis by (simp add: race_def fun_upd_twist)
qed

lemma double_move_run:
  assumes "enforces g k q" "astep g q c = Some q1" "astep g q d = Some q2"
    and "t \<noteq> u" "th t = Done r" "th u = Done r'"
  shows "interleaved True al junk (th, k) (double_move t c u d)
    (th(t := Done (Returned (of_nat q1)), u := Done (Returned (of_nat q2))), moved_to g q2 (moved_to g q1 k))"
proof -
  let ?th = "th(t := At (Move_bound c), u := At (Move_bound d))"
  let ?th1 = "?th(t := At (Move_state (of_nat q1)))"
  let ?th2 = "?th1(u := At (Move_state (of_nat q2)))"
  have q: "q1 < length g" "q2 < length g" using astep_length [OF assms(1)] assms(2,3) by blast+
  from then_statements [OF both_pass [OF assms], of al junk 4 t] decide_allowed [OF assms(1,2)] assms(4)
  have "interleaved True al junk (th, k) (both_checked t c u d @ replicate 4 (Moves t)) (?th1, k)" by simp
  from then_statements [OF this, of 4 u] decide_allowed [OF assms(1,3)] assms(4)
  have "interleaved True al junk (th, k) ((both_checked t c u d @ replicate 4 (Moves t)) @
      replicate 4 (Moves u)) (?th2, k)" by simp
  from then_statements [OF this, of 3 t] write_statements [OF assms(1) q(1)] assms(4)
  have "interleaved True al junk (th, k) (((both_checked t c u d @ replicate 4 (Moves t)) @
      replicate 4 (Moves u)) @ replicate 3 (Moves t)) (?th2(t := Done (Returned (of_nat q1))), moved_to g q1 k)"
    by simp
  from then_statements [OF this, of 3 u] write_statements [OF moved_enforces [OF assms(1) q(1)] q(2)] assms(4)
  show ?thesis by (simp add: double_move_def fun_upd_twist)
qed

lemma torn_read_run:
  assumes "enforces g k q" "astep g q c = Some q1" "astep g q1 d = Some q2"
    and "length (ps_edges (g ! q)) \<le> length (ps_edges (g ! q1))"
    and "map_of (take (length (ps_edges (g ! q))) (ps_edges (g ! q1))) d = None"
    and "t \<noteq> u" "th t = Done r" "th u = Done r'"
  shows "interleaved True al junk (th, k) (torn_read t c u d)
    (th(t := Done (Returned (of_nat q1)), u := Done Killed), moved_to g q1 k)"
proof -
  let ?k = "moved_to g q1 k" and ?p = "PoolP (pool_gen (ks_graph k)) (node_pos NODE_TABLE_OFFSET g q)"
  let ?th = "th(u := At (Valid_node Checking d))"
  let ?th1 = "?th(u := At (Valid_libs Checking d ?p))"
  let ?th2 = "?th1(t := At (Valid_node Checking c))"
  have s: "start_node (ks_graph k) = ?p" using assms(1) by (simp add: enforces_def at_state_def)
  have k1: "enforces g ?k q1" using moved_enforces [OF assms(1) astep_length [OF assms(1,2)]] .
  have "ps_edges (g ! q1) \<noteq> []" using assms(3) by (auto simp: astep_def)
  then have "search_node (ks_graph ?k) ?p (ptr_add (start_node (ks_graph ?k)) 24) d = Inr 0"
    using search_mixed [of NODE_TABLE_OFFSET g "ks_graph ?k" q q1 d] k1 assms(4,5) enforced_length [OF assms(1)]
    by (simp add: enforces_def at_state_def moved_to_def)
  then have fin: "statements True al junk 2 (At (Valid_libs Checking d ?p)) ?k = Some (Done Killed, ?k)"
    by (simp add: numeral_2_eq_2 layout_simps)
  have "interleaved True al junk (th, k) ([] @ [Enters u (Sandbox_dummycall d)]) (?th, k)"
    using then_enters [OF interleaved.nothing [of True al junk "(th, k)"] assms(8), of "Sandbox_dummycall d"] by simp
  from then_statements [OF this, of 1 u]
  have "interleaved True al junk (th, k) (([] @ [Enters u (Sandbox_dummycall d)]) @ replicate 1 (Moves u))
      (?th1, k)" by (simp add: s)
  from then_enters [OF this, of t r "Sandbox_dummycall c"] assms(6,7)
  have "interleaved True al junk (th, k) ((([] @ [Enters u (Sandbox_dummycall d)]) @ replicate 1 (Moves u)) @
      [Enters t (Sandbox_dummycall c)]) (?th2, k)" by simp
  note pre = this
  have "statements True al junk 10 (At (Valid_node Checking c)) k =
      Some (Done (Returned (of_nat q1)), ?k)"
    using statements_add [OF check_allowed [OF assms(1,2)], of al junk 7] move_statements [OF assms(1,2)] by simp
  with then_statements [OF pre, of 10 t] have "interleaved True al junk (th, k) (((([] @ [Enters u (Sandbox_dummycall d)]) @
      replicate 1 (Moves u)) @ [Enters t (Sandbox_dummycall c)]) @ replicate 10 (Moves t))
      (?th2(t := Done (Returned (of_nat q1))), ?k)"
    by simp
  from then_statements [OF this, of 2 u] fin assms(6)
  show ?thesis by (simp add: torn_read_def fun_upd_twist)
qed

text \<open>A graph in which call 7 is allowed again after call 7, as the second edge of its state.\<close>

definition again :: graph where
  "again = [\<lparr>ps_id = 0, ps_edges = [(7, 1)]\<rparr>, \<lparr>ps_id = 1, ps_edges = [(9, 1), (7, 1)]\<rparr>]"

lemma again_enforced: "\<exists>k. enforces again k 0"
proof -
  have g: "wf_graph again" "again \<noteq> []" "fits again" "room_for again"
    by (simp_all add: again_def wf_graph_def fits_def room_for_def node_size_def layout_simps
        all_less_Suc_split less_Suc_eq numeral_2_eq_2)
  obtain s m where "sealed m again" using build_graph_spec [OF g(4)] by metis
  then have c: "carries (whole_buffer m) (of_nat MEMORY_POOL_SIZE) again"
    by (rule whole_carries) (simp_all add: g)
  have al: "\<forall>j z. (\<lambda>_ _. True) (j :: nat) (z :: u64)" by simp
  obtain k where "enforces again k 0" using init_installs [OF al c ksys_init_ready] by blast
  then show ?thesis by blast
qed

lemma demo_steps: "astep demo 0 7 = Some 1" "astep demo 1 7 = None"
  by (simp_all add: astep_def demo_def)

text \<open>
  While thread \<open>t\<close> is between its allocation and its copy, thread \<open>u\<close> runs up to its own copy.
\<close>

definition overtaken :: "nat \<Rightarrow> buffer \<Rightarrow> u64 \<Rightarrow> nat \<Rightarrow> buffer \<Rightarrow> u64 \<Rightarrow> event list" where
  "overtaken t d1 sz1 u d2 sz2 =
     [Enters t (Sandbox_init (Some d1) sz1)] @ replicate 4 (Moves t) @
     [Enters u (Sandbox_init (Some d2) sz2)] @ replicate 4 (Moves u)"

end
