(* ===== verification/ThreadProperties.thy ===== *)
theory ThreadProperties
  imports Interleave
begin

text \<open>
  What the system calls of the module guarantee when threads interleave, and what they lose
  compared with system calls that exclude each other.
\<close>

text \<open>
  C31. Two calls that exclude each other both move the automaton.  In state \<open>q\<close> both \<open>c\<close> and \<open>d\<close> are
  allowed, but neither is allowed after the other: made one after the other, in either order, the
  second kills its caller.  \<^verbatim>\<open>transition_to_state\<close> takes no lock: made by two threads, both can find
  their call allowed before either writes \<^verbatim>\<open>current_progstate\<close>.  Then both system calls succeed, and
  the automaton is left where the last of them put it, as if the other had not been made.
\<close>

theorem interleaved_moves_both:
  assumes "enforces g k q" "astep g q c = Some q1" "astep g q d = Some q2"
    and "astep g q1 d = None" "astep g q2 c = None"
    and "t \<noteq> u" "th t = Done r" "th u = Done r'"
  shows "\<exists>k1 k2 k'. interleaved True al junk (th, k) (double_move t c u d)
      (th(t := Done (Returned (of_nat q1)), u := Done (Returned (of_nat q2))), k') \<and> enforces g k' q2 \<and>
    sandbox_dummycall True c k = Inr (Returned (of_nat q1), k1) \<and>
    sandbox_dummycall True d k1 = Inr (Killed, k1) \<and>
    sandbox_dummycall True d k = Inr (Returned (of_nat q2), k2) \<and>
    sandbox_dummycall True c k2 = Inr (Killed, k2)"
proof -
  note q = astep_length [OF assms(1,2)] astep_length [OF assms(1,3)]
  note k = moved_enforces [OF assms(1) q(1)] moved_enforces [OF assms(1) q(2)]
  show ?thesis
    using double_move_run [OF assms(1-3,6-8)] moved_enforces [OF k(1) q(2)]
      dummycall_moved [OF assms(1,2)] dummycall_moved [OF assms(1,3)]
      dummycall_refused [OF k(1) assms(4)] dummycall_refused [OF k(2) assms(5)] by blast
qed

theorem interleaved_moves_both_witness:
  "\<exists>k k1 k'. enforces demo k 0 \<and> enforces demo k' 1 \<and>
    interleaved True (\<lambda>_ _. True) (\<lambda>_. 0) (idle, k) (double_move 0 7 1 7)
      (idle(0 := Done (Returned 1), 1 := Done (Returned 1)), k') \<and>
    sandbox_dummycall True 7 k = Inr (Returned 1, k1) \<and> sandbox_dummycall True 7 k1 = Inr (Killed, k1)"
proof -
  obtain k where k: "enforces demo k 0" using demo_enforced by blast
  have "(0 :: nat) \<noteq> 1" "idle 0 = Done (Returned 0)" "idle 1 = Done (Returned 0)"
    by (simp_all add: idle_def)
  from interleaved_moves_both [OF k demo_steps(1,1,2,2) this] k show ?thesis by fastforce
qed

text \<open>
  C32. A call that is allowed at every moment kills its caller.  \<^verbatim>\<open>is_state_transition_valid\<close> reads
  \<^verbatim>\<open>start_node\<close> twice, for the number of edges and for the edges.  Call \<open>d\<close> is allowed in state \<open>q\<close> and
  in the state \<open>q1\<close> that call \<open>c\<close> leads to, but not among the first edges of \<open>q1\<close>, as many as \<open>q\<close> has.  When
  another thread makes the call \<open>c\<close> between the two reads, the search looks at these only.
\<close>

theorem interleaved_check_torn:
  assumes "enforces g k q" "astep g q c = Some q1" "astep g q d = Some q2" "astep g q1 d = Some q3"
    and "length (ps_edges (g ! q)) \<le> length (ps_edges (g ! q1))"
    and "map_of (take (length (ps_edges (g ! q))) (ps_edges (g ! q1))) d = None"
    and "t \<noteq> u" "th t = Done r" "th u = Done r'"
  shows "\<exists>k1. interleaved True al junk (th, k) (torn_read t c u d)
      (th(t := Done (Returned (of_nat q1)), u := Done Killed), k1) \<and> enforces g k1 q1 \<and>
    sandbox_dummycall True c k = Inr (Returned (of_nat q1), k1) \<and>
    (\<exists>k2 k3. sandbox_dummycall True d k = Inr (Returned (of_nat q2), k2) \<and>
      sandbox_dummycall True d k1 = Inr (Returned (of_nat q3), k3))"
  using torn_read_run [OF assms(1,2,4-9)] moved_enforces [OF assms(1) astep_length [OF assms(1,2)]]
    dummycall_moved [OF assms(1,2)] dummycall_moved [OF assms(1,3)] dummycall_moved [OF _ assms(4)] by blast

theorem interleaved_check_torn_witness:
  "\<exists>k k1 k3. enforces again k 0 \<and>
    interleaved True (\<lambda>_ _. True) (\<lambda>_. 0) (idle, k) (torn_read 0 7 1 7)
      (idle(0 := Done (Returned 1), 1 := Done Killed), k1) \<and>
    sandbox_dummycall True 7 k1 = Inr (Returned 1, k3)"
proof -
  obtain k where k: "enforces again k 0" using again_enforced by blast
  have "astep again 0 7 = Some 1" "astep again 1 7 = Some 1" by (simp_all add: astep_def again_def)
  moreover have "length (ps_edges (again ! 0)) \<le> length (ps_edges (again ! 1))"
    "map_of (take (length (ps_edges (again ! 0))) (ps_edges (again ! 1))) 7 = None"
    by (simp_all add: again_def)
  moreover have "(0 :: nat) \<noteq> 1" "idle 0 = Done (Returned 0)" "idle 1 = Done (Returned 0)"
    by (simp_all add: idle_def)
  ultimately show ?thesis
    using interleaved_check_torn [of again k 0 7 1 7 1 1 0 1 idle "Returned 0" "Returned 0"] k by fastforce
qed

text \<open>
  C33. A guarded call is let through that the automaton refuses.  In state \<open>q\<close> both \<open>c\<close> and \<open>d\<close> are
  allowed, but \<open>d\<close> is not allowed after \<open>c\<close>.  Made one after the other the second call kills its
  caller.  Made by two threads, both can pass the check before either moves the automaton; the
  second move then fails, its error code is returned to user space, and the caller goes on to the
  library call.
\<close>

theorem interleaved_check_passes:
  assumes "enforces g k q" "astep g q c = Some q1" "astep g q d = Some q2" "astep g q1 d = None"
    and "t \<noteq> u" "th t = Done r" "th u = Done r'"
  shows "\<exists>k'. enforces g k' q1 \<and>
    interleaved True al junk (th, k) (race t c u d)
      (th(t := Done (Returned (of_nat q1)), u := Done (Returned (scast ERROR_INVALID_STATE))), k') \<and>
    sandbox_dummycall True c k = Inr (Returned (of_nat q1), k') \<and>
    sandbox_dummycall True d k' = Inr (Killed, k')"
  using race_run [OF assms] dummycall_moved [OF assms(1,2)]
    moved_enforces [OF assms(1) astep_length [OF assms(1,2)]] dummycall_refused [OF _ assms(4)] by blast

theorem interleaved_check_passes_witness:
  "\<exists>k k'. enforces demo k 0 \<and> enforces demo k' 1 \<and>
    interleaved True (\<lambda>_ _. True) (\<lambda>_. 0) (idle, k) (race 0 7 1 7)
      (idle(0 := Done (Returned 1), 1 := Done (Returned (scast ERROR_INVALID_STATE))), k') \<and>
    sandbox_dummycall True 7 k' = Inr (Killed, k')"
proof -
  obtain k where k: "enforces demo k 0" using demo_enforced by blast
  have "(0 :: nat) \<noteq> 1" "idle 0 = Done (Returned 0)" "idle 1 = Done (Returned 0)"
    by (simp_all add: idle_def)
  from interleaved_check_passes [OF k demo_steps(1,1,2) this] k show ?thesis by fastforce
qed

text \<open>
  Two threads initialise sandboxes with data of different sizes.  The second can free the
  buffer that the first has just allocated and put a smaller one in its place; the first then copies
  all its data from user space into the smaller buffer, past its end.
\<close>

theorem interleaved_init_overruns:
  assumes "\<forall>j z. al j z" "kernel_buffer k \<noteq> KFreed" "sz1 \<noteq> 0" "sz2 \<noteq> 0" "unat sz2 < unat sz1"
    and "t \<noteq> u" "th t = Done r" "th u = Done r'"
  shows "\<exists>th' k'. interleaved True al junk (th, k) (overtaken t d1 sz1 u d2 sz2) (th', k') \<and>
    th' t = At (Init_copy d1 sz1) \<and> (\<exists>b. kernel_buffer k' = KLive b \<and> buf_len b = unat sz2) \<and>
    exec_stmt True al junk (Init_copy d1 sz1) k' = Inl Out_of_bounds"
proof -
  let ?g = "ks_graph k"
  define k1 where "k1 = k\<lparr>kernel_buffer := (if kernel_buffer k = KNull then KNull else KFreed)\<rparr>"
  define k2 where "k2 = k1\<lparr>ks_graph := ?g\<lparr>requests := Suc (requests ?g)\<rparr>,
    kernel_buffer := KLive \<lparr>buf_len = unat sz1, buf_bytes = junk\<rparr>\<rparr>"
  define k3 where "k3 = k2\<lparr>kernel_buffer := KFreed\<rparr>"
  define k4 where "k4 = k3\<lparr>ks_graph := (ks_graph k3)\<lparr>requests := Suc (requests (ks_graph k3))\<rparr>,
    kernel_buffer := KLive \<lparr>buf_len = unat sz2, buf_bytes = junk\<rparr>\<rparr>"
  have run: "exec_stmt True al junk (Init_args (Some d1) sz1) k = Inr (At (Init_release d1 sz1), k)"
    "exec_stmt True al junk (Init_release d1 sz1) k = Inr (At (Init_allocate d1 sz1), k1)"
    "exec_stmt True al junk (Init_allocate d1 sz1) k1 = Inr (At (Init_allocated d1 sz1), k2)"
    "exec_stmt True al junk (Init_allocated d1 sz1) k2 = Inr (At (Init_copy d1 sz1), k2)"
    "exec_stmt True al junk (Init_args (Some d2) sz2) k2 = Inr (At (Init_release d2 sz2), k2)"
    "exec_stmt True al junk (Init_release d2 sz2) k2 = Inr (At (Init_allocate d2 sz2), k3)"
    "exec_stmt True al junk (Init_allocate d2 sz2) k3 = Inr (At (Init_allocated d2 sz2), k4)"
    "exec_stmt True al junk (Init_allocated d2 sz2) k4 = Inr (At (Init_copy d2 sz2), k4)"
    using assms(1-4) by (cases "kernel_buffer k"; simp add: k1_def k2_def k3_def k4_def Let_def)+
  have a: "statements True al junk 4 (At (Init_args (Some d1) sz1)) k = Some (At (Init_copy d1 sz1), k2)"
    "statements True al junk 4 (At (Init_args (Some d2) sz2)) k2 = Some (At (Init_copy d2 sz2), k4)"
    by (simp_all add: eval_nat_numeral run del: exec_stmt.simps)
  let ?th = "th(t := At (Init_args (Some d1) sz1))"
  let ?th1 = "?th(t := At (Init_copy d1 sz1))"
  have "interleaved True al junk (th, k) ([] @ [Enters t (Sandbox_init (Some d1) sz1)]) (?th, k)"
    using then_enters [OF interleaved.nothing [of True al junk "(th, k)"] assms(7), of "Sandbox_init (Some d1) sz1"] by simp
  from then_statements [OF this, of 4 t] a(1)
  have "interleaved True al junk (th, k) ([Enters t (Sandbox_init (Some d1) sz1)] @ replicate 4 (Moves t))
      (?th1, k2)" by simp
  from then_enters [OF this, of u r' "Sandbox_init (Some d2) sz2"] assms(6,8)
  have "interleaved True al junk (th, k) (([Enters t (Sandbox_init (Some d1) sz1)] @ replicate 4 (Moves t)) @
      [Enters u (Sandbox_init (Some d2) sz2)]) (?th1(u := At (Init_args (Some d2) sz2)), k2)" by simp
  from then_statements [OF this, of 4 u] a(2)
  have "interleaved True al junk (th, k) (overtaken t d1 sz1 u d2 sz2)
      (th(t := At (Init_copy d1 sz1), u := At (Init_copy d2 sz2)), k4)"
    by (simp add: overtaken_def)
  moreover have "exec_stmt True al junk (Init_copy d1 sz1) k4 = Inl Out_of_bounds"
    "kernel_buffer k4 = KLive \<lparr>buf_len = unat sz2, buf_bytes = junk\<rparr>"
    using assms(5) by (simp_all add: k4_def)
  ultimately show ?thesis using assms(6) by fastforce
qed

theorem interleaved_init_overruns_witness:
  "\<exists>th' k'. interleaved True (\<lambda>_ _. True) (\<lambda>_. 0) (idle, ksys_init)
      (overtaken 0 (whole_buffer (\<lambda>_. 0)) 100 1 (whole_buffer (\<lambda>_. 0)) 40) (th', k') \<and>
    exec_stmt True (\<lambda>_ _. True) (\<lambda>_. 0) (Init_copy (whole_buffer (\<lambda>_. 0)) 100) k' = Inl Out_of_bounds"
  using interleaved_init_overruns [of "\<lambda>_ _. True" ksys_init 100 40 0 1 idle "Returned 0" "Returned 0"]
  by (simp add: idle_def ksys_init_def) blast

end
