(* ===== verification/TestData.thy ===== *)
theory TestData
  imports Listing Automaton
begin

text \<open>
  The reader of the test data of the graph library, \<^verbatim>\<open>memgraphlib/tests/test_utils.h\<close>: the number of
  states, one line of edges per state, and one line per test case with its expected result.  The
  static variables of the file are the record \<open>test_data\<close>, which outlives a test.
\<close>

section \<open>Reading numbers\<close>

text \<open>The digits after white space and a sign, whether the sign was a minus, and what follows.\<close>

definition scan_number :: "string \<Rightarrow> bool \<times> string \<times> string" where
  "scan_number s =
     (let t = dropWhile is_space s;
          u = (if t \<noteq> [] \<and> (hd t = CHR ''-'' \<or> hd t = CHR ''+'') then tl t else t)
      in (t \<noteq> [] \<and> hd t = CHR ''-'', takeWhile is_digit u, dropWhile is_digit u))"

text \<open>\<^verbatim>\<open>std::stoul\<close>: a minus sign negates modulo the width of an \<^verbatim>\<open>unsigned long\<close>.\<close>

definition stoul :: "string \<Rightarrow> u64 res" where
  "stoul s =
     (case scan_number s of (neg, ds, rest) \<Rightarrow>
        if ds = [] then Inl (Uncaught ''invalid_argument'')
        else if 2 ^ 64 \<le> digits_value ds then Inl (Uncaught ''out_of_range'')
        else Inr (if neg then - of_nat (digits_value ds) else of_nat (digits_value ds)))"

text \<open>
  A \<^verbatim>\<open>std::istringstream\<close>: the characters left, its fail bit and its end-of-file bit.  Extraction
  into an \<^verbatim>\<open>unsigned long\<close> leaves the variable alone when the stream is not good or has only white
  space left; it stores 0 when there is no digit and the largest value when the number is too large.
  A variable that was never assigned is \<open>None\<close>.
\<close>

record stream =
  chars :: string
  fail_bit :: bool
  eof_bit :: bool

definition iss :: "string \<Rightarrow> stream" where
  "iss line = \<lparr>chars = line, fail_bit = False, eof_bit = False\<rparr>"

definition get_ulong :: "u64 option \<Rightarrow> stream \<Rightarrow> u64 option \<times> stream" where
  "get_ulong v s =
     (if fail_bit s \<or> eof_bit s then (v, s\<lparr>fail_bit := True\<rparr>)
      else if dropWhile is_space (chars s) = []
      then (v, \<lparr>chars = [], fail_bit = True, eof_bit = True\<rparr>)
      else case scan_number (chars s) of (neg, ds, rest) \<Rightarrow>
        if ds = [] then (Some 0, \<lparr>chars = rest, fail_bit = True, eof_bit = (rest = [])\<rparr>)
        else if 2 ^ 64 \<le> digits_value ds
        then (Some (- 1), \<lparr>chars = rest, fail_bit = True, eof_bit = (rest = [])\<rparr>)
        else (Some (if neg then - of_nat (digits_value ds) else of_nat (digits_value ds)),
              \<lparr>chars = rest, fail_bit = False, eof_bit = (rest = [])\<rparr>))"

text \<open>The value of a variable that is read.\<close>

fun assigned :: "u64 option \<Rightarrow> u64 res" where
  "assigned None = Inl Indeterminate"
| "assigned (Some v) = Inr v"

section \<open>The lines of the file\<close>

datatype tc_data_type = TC_DATA_NODE_COUNT | TC_DATA_EDGE_LISTING | TC_DATA_TEST_CASES_LISTING

record test_data =
  tc_data_size :: u64
  test_cases :: "u64 list list"
  test_cases_results :: "u64 list"
  tc_edge_listings :: "u64 list list"
  tc_libcall_listings :: "u64 list list"

definition test_data_init :: test_data where
  "test_data_init =
     \<lparr>tc_data_size = 0, test_cases = [], test_cases_results = [], tc_edge_listings = [],
      tc_libcall_listings = []\<rparr>"

definition cleanup_test_data :: "test_data \<Rightarrow> test_data" where
  "cleanup_test_data td =
     td\<lparr>tc_data_size := 0, test_cases := [], tc_edge_listings := [], tc_libcall_listings := []\<rparr>"

text \<open>The loop over the successors of a line: \<open>r\<close> are left.\<close>

fun read_successors ::
    "nat \<Rightarrow> u64 option \<Rightarrow> u64 option \<Rightarrow> stream \<Rightarrow> (u64 list \<times> u64 list) res" where
  "read_successors 0 next_node_id libcall_id s = Inr ([], [])"
| "read_successors (Suc r) next_node_id libcall_id s =
     (let (n, s1) = get_ulong next_node_id s; (c, s2) = get_ulong libcall_id s1
      in if fail_bit s2 then read_successors r n c s2
         else and_then (assigned n) (\<lambda>n'. and_then (assigned c) (\<lambda>c'.
              and_then (read_successors r n c s2) (\<lambda>(edges, labels).
              Inr (n' # edges, c' # labels)))))"

text \<open>
  A line of edges.  The number of the state is read and not used.  The counter of the loop is an
  \<^verbatim>\<open>int\<close>, which overflows when the line announces too many successors.
\<close>

definition read_edges :: "string \<Rightarrow> test_data \<Rightarrow> test_data res" where
  "read_edges line td =
     (let (src_node_id, s1) = get_ulong None (iss line); (successor_count, s2) = get_ulong None s1
      in if fail_bit s2 then Inr td
         else and_then (assigned successor_count) (\<lambda>k.
              if 2 ^ 31 \<le> unat k then Inl Signed_overflow
              else and_then (read_successors (unat k) None None s2) (\<lambda>(edges, labels).
                   Inr (td\<lparr>tc_edge_listings := tc_edge_listings td @ [edges],
                          tc_libcall_listings := tc_libcall_listings td @ [labels]\<rparr>))))"

text \<open>The numbers of a test case, as long as the extraction succeeds.\<close>

lemma scan_number_rest:
  assumes "scan_number s = (neg, ds, rest)" "ds \<noteq> []"
  shows "length rest < length s"
proof -
  let ?t = "dropWhile is_space s"
  let ?u = "if ?t \<noteq> [] \<and> (hd ?t = CHR ''-'' \<or> hd ?t = CHR ''+'') then tl ?t else ?t"
  have "ds = takeWhile is_digit ?u" "rest = dropWhile is_digit ?u"
    using assms(1) by (simp_all add: scan_number_def Let_def)
  then have "length ds + length rest = length ?u"
    by (metis length_append takeWhile_dropWhile_id)
  moreover have "length ?u \<le> length s"
    using length_dropWhile_le [of is_space s] by auto
  ultimately show ?thesis using assms(2) by (cases ds) auto
qed

lemma get_ulong_shorter:
  "\<not> fail_bit (snd (get_ulong v s)) \<Longrightarrow> length (chars (snd (get_ulong v s))) < length (chars s)"
proof -
  assume a: "\<not> fail_bit (snd (get_ulong v s))"
  obtain neg ds rest where n: "scan_number (chars s) = (neg, ds, rest)" by (metis prod_cases3)
  from a have "ds \<noteq> []" "chars (snd (get_ulong v s)) = rest"
    by (auto simp: get_ulong_def n split: if_splits)
  with scan_number_rest [OF n] show ?thesis by simp
qed

function read_numbers :: "u64 option \<Rightarrow> stream \<Rightarrow> u64 list res" where
  "read_numbers number s =
     (let (n, s1) = get_ulong number s
      in if fail_bit s1 then Inr []
         else and_then (assigned n) (\<lambda>n'. and_then (read_numbers n s1) (\<lambda>ns. Inr (n' # ns))))"
  by pat_completeness auto
termination
proof (relation "measure (\<lambda>(number, s). length (chars s))")
  fix number s x n s1 n'
  assume "x = get_ulong number s" "(n, s1) = x" "\<not> fail_bit s1"
  then show "((n, s1), number, s) \<in> measure (\<lambda>(number, s). length (chars s))"
    using get_ulong_shorter [of number s] by (metis case_prod_conv in_measure snd_conv)
qed simp

declare read_numbers.simps [simp del]

definition read_case :: "string \<Rightarrow> test_data \<Rightarrow> test_data res" where
  "read_case line td =
     (let (result, s) = get_ulong None (iss line)
      in and_then (read_numbers None s) (\<lambda>numbers.
         and_then (assigned result) (\<lambda>r.
         Inr (td\<lparr>test_cases_results := test_cases_results td @ [r],
                test_cases := test_cases td @ [numbers]\<rparr>))))"

section \<open>Reading the file\<close>

definition read_data_line ::
    "string \<Rightarrow> tc_data_type \<times> test_data \<Rightarrow> (tc_data_type \<times> test_data) res" where
  "read_data_line line = (\<lambda>(type, td).
     if line = ''##'' then Inr (TC_DATA_EDGE_LISTING, td)
     else if line = ''--'' then Inr (TC_DATA_TEST_CASES_LISTING, td)
     else case type of
       TC_DATA_NODE_COUNT \<Rightarrow>
         and_then (stoul line) (\<lambda>n. Inr (TC_DATA_EDGE_LISTING, td\<lparr>tc_data_size := n\<rparr>))
     | TC_DATA_EDGE_LISTING \<Rightarrow> and_then (read_edges line td) (\<lambda>td'. Inr (type, td'))
     | TC_DATA_TEST_CASES_LISTING \<Rightarrow> and_then (read_case line td) (\<lambda>td'. Inr (type, td')))"

fun read_data_lines ::
    "string list \<Rightarrow> tc_data_type \<times> test_data \<Rightarrow> (tc_data_type \<times> test_data) res" where
  "read_data_lines [] st = Inr st"
| "read_data_lines (line # lines) st = and_then (read_data_line line st) (read_data_lines lines)"

text \<open>The argument is the contents of the file, \<open>None\<close> when it cannot be opened.\<close>

definition read_test_data :: "string option \<Rightarrow> test_data \<Rightarrow> (bool \<times> test_data) res" where
  "read_test_data file td =
     (case file of
        None \<Rightarrow> Inr (False, cleanup_test_data td)
      | Some text \<Rightarrow>
          and_then (read_data_lines (getlines text) (TC_DATA_NODE_COUNT, cleanup_test_data td))
            (\<lambda>(_, td'). Inr (True, td')))"

section \<open>The format of the file\<close>

text \<open>
  How the announced number of states \<open>k\<close>, the states with their edges (call and successor), and the
  cases with their expected results are written.  The line of a case ends with white space \<open>w\<close>.
\<close>

definition show_numbers :: "u64 list \<Rightarrow> string" where
  "show_numbers ns = concat (map (\<lambda>n. CHR '' '' # nat_string (unat n)) ns)"

definition show_edges :: "nat \<times> (u64 \<times> u64) list \<Rightarrow> string" where
  "show_edges = (\<lambda>(i, es). nat_string i @
     show_numbers (of_nat (length es) # concat (map (\<lambda>(c, t). [t, c]) es)))"

definition show_case :: "string \<Rightarrow> u64 \<times> u64 list \<Rightarrow> string" where
  "show_case w = (\<lambda>(r, cs). nat_string (unat r) @ show_numbers cs @ w)"

definition data_lines ::
    "nat \<Rightarrow> string \<Rightarrow> (u64 \<times> u64) list list \<Rightarrow> (u64 \<times> u64 list) list \<Rightarrow> string list" where
  "data_lines k w rows cases =
     nat_string k # ''##'' # map show_edges (zip [0..<length rows] rows) @
     ''--'' # map (show_case w) cases"

definition show_test_data ::
    "nat \<Rightarrow> string \<Rightarrow> (u64 \<times> u64) list list \<Rightarrow> (u64 \<times> u64 list) list \<Rightarrow> string" where
  "show_test_data k w rows cases = concat (map (\<lambda>l. l @ [newline]) (data_lines k w rows cases))"

text \<open>White space within a line.\<close>

definition blank :: "string \<Rightarrow> bool" where
  "blank w \<longleftrightarrow> list_all (\<lambda>c. is_space c \<and> c \<noteq> newline) w"

section \<open>Reading what the format says\<close>

definition stream_of :: "string \<Rightarrow> stream" where
  "stream_of s = \<lparr>chars = s, fail_bit = False, eof_bit = (s = [])\<rparr>"

definition no_digit_first :: "string \<Rightarrow> bool" where
  "no_digit_first s \<longleftrightarrow> s = [] \<or> \<not> is_digit (hd s)"

lemma scan_nat_string:
  assumes "no_digit_first rest"
  shows "scan_number (nat_string n @ rest) = (False, nat_string n, rest)"
    "scan_number (CHR '' '' # nat_string n @ rest) = (False, nat_string n, rest)"
proof -
  obtain c cs where s: "nat_string n = c # cs" using nat_string_spec [of n] by (cases "nat_string n") auto
  with nat_string_spec [of n] have d: "is_digit c" "\<forall>x\<in>set cs. is_digit x"
    by (simp_all add: list_all_iff)
  have "takeWhile is_digit rest = []" "dropWhile is_digit rest = rest"
    using assms by (cases rest; simp add: no_digit_first_def)+
  then have "takeWhile is_digit ((c # cs) @ rest) = c # cs" "dropWhile is_digit ((c # cs) @ rest) = rest"
    using d by (simp_all add: takeWhile_append dropWhile_append)
  moreover have "is_space (CHR '' '')" by (simp add: is_space_def)
  ultimately show "scan_number (nat_string n @ rest) = (False, nat_string n, rest)"
    "scan_number (CHR '' '' # nat_string n @ rest) = (False, nat_string n, rest)"
    using digit_not_special [OF d(1)] by (simp_all add: scan_number_def s Let_def)
qed

lemma get_ulong_string:
  assumes "no_digit_first rest" "n < 2 ^ 64"
  shows "get_ulong v \<lparr>chars = nat_string n @ rest, fail_bit = False, eof_bit = False\<rparr> =
      (Some (of_nat n), stream_of rest)"
    "get_ulong v \<lparr>chars = CHR '' '' # nat_string n @ rest, fail_bit = False, eof_bit = False\<rparr> =
      (Some (of_nat n), stream_of rest)"
proof -
  obtain c cs where s: "nat_string n = c # cs" using nat_string_spec [of n] by (cases "nat_string n") auto
  with nat_string_spec [of n] have d: "is_digit c" by simp
  have sp: "is_space (CHR '' '')" by (simp add: is_space_def)
  have ne: "dropWhile is_space (nat_string n @ rest) \<noteq> []"
    "dropWhile is_space (CHR '' '' # nat_string n @ rest) \<noteq> []"
    using digit_not_special [OF d] sp by (simp_all add: s)
  note facts = scan_nat_string [OF assms(1), of n] nat_string_spec [of n] assms(2)
  show "get_ulong v \<lparr>chars = nat_string n @ rest, fail_bit = False, eof_bit = False\<rparr> =
      (Some (of_nat n), stream_of rest)"
    using ne(1) facts by (simp add: get_ulong_def stream_of_def del: dropWhile_eq_Nil_conv)
  show "get_ulong v \<lparr>chars = CHR '' '' # nat_string n @ rest, fail_bit = False, eof_bit = False\<rparr> =
      (Some (of_nat n), stream_of rest)"
    using ne(2) facts by (simp add: get_ulong_def stream_of_def del: dropWhile_eq_Nil_conv)
qed

lemma no_digit_numbers: "blank w \<Longrightarrow> no_digit_first (show_numbers ns @ w)"
  by (cases ns; cases w)
    (auto simp: no_digit_first_def show_numbers_def is_digit_def is_space_def blank_def)

lemma unat_u64: "unat (n :: u64) < 2 ^ 64"
proof -
  have "unat n < 2 ^ LENGTH(64)" by (rule unsigned_less)
  then show ?thesis by simp
qed

lemma blank_Nil: "blank []"
  by (simp add: blank_def)

lemma get_ulong_numbers:
  assumes "blank w"
  shows "get_ulong v (stream_of (show_numbers (n # ns) @ w)) = (Some n, stream_of (show_numbers ns @ w))"
    "fail_bit (snd (get_ulong v (stream_of w)))"
    "k < 2 ^ 64 \<Longrightarrow> get_ulong v (iss (nat_string k @ show_numbers ns @ w)) =
      (Some (of_nat k), stream_of (show_numbers ns @ w))"
proof -
  note a = no_digit_numbers [OF assms, of ns]
  show "get_ulong v (stream_of (show_numbers (n # ns) @ w)) = (Some n, stream_of (show_numbers ns @ w))"
    using get_ulong_string(2) [OF a unat_u64 [of n], of v] by (simp add: stream_of_def show_numbers_def)
  show "fail_bit (snd (get_ulong v (stream_of w)))"
    using assms by (auto simp: stream_of_def get_ulong_def blank_def list_all_iff)
  show "get_ulong v (iss (nat_string k @ show_numbers ns @ w)) = (Some (of_nat k), stream_of (show_numbers ns @ w))"
    if "k < 2 ^ 64"
    using get_ulong_string(1) [OF a that, of v] by (simp add: iss_def)
qed

lemmas get_ulong_shown = get_ulong_numbers [OF blank_Nil, simplified]

lemma stream_of_fail [simp]: "fail_bit (stream_of s) = False"
  by (simp add: stream_of_def)

lemma read_numbers_shown: "blank w \<Longrightarrow> read_numbers v (stream_of (show_numbers ns @ w)) = Inr ns"
proof (induction ns arbitrary: v)
  case Nil
  obtain n s where "get_ulong v (stream_of w) = (n, s)" by fastforce
  with get_ulong_numbers(2) [OF Nil, of v] show ?case
    by (subst read_numbers.simps) (simp add: show_numbers_def)
next
  case (Cons n ns)
  then show ?case by (subst read_numbers.simps) (simp add: get_ulong_numbers)
qed

lemma read_successors_shown:
  "read_successors (length es) x y (stream_of (show_numbers (concat (map (\<lambda>(c, t). [t, c]) es)))) =
     Inr (map snd es, map fst es)"
proof (induction es arbitrary: x y)
  case (Cons e es)
  then show ?case by (cases e) (simp add: get_ulong_shown)
qed simp

lemma read_edges_shown:
  assumes "length es < 2 ^ 31" "i < 2 ^ 64"
  shows "read_edges (show_edges (i, es)) td =
    Inr (td\<lparr>tc_edge_listings := tc_edge_listings td @ [map snd es],
            tc_libcall_listings := tc_libcall_listings td @ [map fst es]\<rparr>)"
  using assms read_successors_shown [of es None None]
  by (simp add: read_edges_def show_edges_def get_ulong_shown unat_of_nat_small)

lemma read_case_shown:
  "blank w \<Longrightarrow> read_case (show_case w (r, cs)) td =
     Inr (td\<lparr>test_cases_results := test_cases_results td @ [r], test_cases := test_cases td @ [cs]\<rparr>)"
  by (simp add: read_case_def show_case_def get_ulong_numbers(3) [OF _ unat_u64] read_numbers_shown)

lemma nat_string_line:
  "nat_string n @ s \<noteq> ''##''" "nat_string n @ s \<noteq> ''--''" "newline \<notin> set (nat_string n)"
proof -
  obtain c cs where s: "nat_string n = c # cs" using nat_string_spec [of n] by (cases "nat_string n") auto
  with nat_string_spec [of n] have d: "\<forall>x\<in>set (c # cs). is_digit x" by (simp add: list_all_iff)
  then show "nat_string n @ s \<noteq> ''##''" "nat_string n @ s \<noteq> ''--''"
    by (auto simp: s is_digit_def)
  show "newline \<notin> set (nat_string n)" using d digit_not_special unfolding s by blast
qed

lemma getlines_lines:
  "\<forall>l\<in>set ls. newline \<notin> set l \<Longrightarrow> getlines (concat (map (\<lambda>l. l @ [newline]) ls)) = ls"
  by (induction ls) (simp_all add: getlines_line getlines.simps [of "[]"])

lemma newline_numbers: "newline \<notin> set (show_numbers ns)"
  using nat_string_line(3) by (auto simp: show_numbers_def newline_def)

lemma newline_data_lines: "blank w \<Longrightarrow> \<forall>l\<in>set (data_lines k w rows cases). newline \<notin> set l"
  by (auto simp: data_lines_def show_edges_def show_case_def nat_string_line newline_numbers blank_def list_all_iff)
    (simp_all add: newline_def)

lemma read_edge_lines:
  assumes "\<forall>(i, es)\<in>set ps. length es < 2 ^ 31 \<and> i < 2 ^ 64"
  shows "read_data_lines (map show_edges ps @ lines) (TC_DATA_EDGE_LISTING, td) =
    read_data_lines lines (TC_DATA_EDGE_LISTING,
      td\<lparr>tc_edge_listings := tc_edge_listings td @ map (map snd \<circ> snd) ps,
         tc_libcall_listings := tc_libcall_listings td @ map (map fst \<circ> snd) ps\<rparr>)"
  using assms
proof (induction ps arbitrary: td)
  case (Cons p ps)
  obtain i es where p: "p = (i, es)" by (cases p)
  let ?td = "td\<lparr>tc_edge_listings := tc_edge_listings td @ [map snd es],
    tc_libcall_listings := tc_libcall_listings td @ [map fst es]\<rparr>"
  have "show_edges p \<noteq> ''##''" "show_edges p \<noteq> ''--''"
    by (simp_all add: p show_edges_def nat_string_line)
  with Cons.prems have "read_data_line (show_edges p) (TC_DATA_EDGE_LISTING, td) = Inr (TC_DATA_EDGE_LISTING, ?td)"
    by (simp add: read_data_line_def p read_edges_shown)
  with Cons.IH [of ?td] Cons.prems show ?case by (simp add: p)
qed simp

lemma read_case_lines:
  "blank w \<Longrightarrow> read_data_lines (map (show_case w) cases) (TC_DATA_TEST_CASES_LISTING, td) =
    Inr (TC_DATA_TEST_CASES_LISTING,
      td\<lparr>test_cases_results := test_cases_results td @ map fst cases,
         test_cases := test_cases td @ map snd cases\<rparr>)"
proof (induction cases arbitrary: td)
  case (Cons x cases)
  obtain r cs where x: "x = (r, cs)" by (cases x)
  let ?td = "td\<lparr>test_cases_results := test_cases_results td @ [r], test_cases := test_cases td @ [cs]\<rparr>"
  have "show_case w x \<noteq> ''##''" "show_case w x \<noteq> ''--''"
    by (simp_all add: x show_case_def nat_string_line)
  with Cons.prems have "read_data_line (show_case w x) (TC_DATA_TEST_CASES_LISTING, td) = Inr (TC_DATA_TEST_CASES_LISTING, ?td)"
    by (simp add: read_data_line_def x read_case_shown)
  with Cons.IH [OF Cons.prems, of ?td] show ?case by (simp add: x)
qed simp

lemma stoul_nat_string: "n < 2 ^ 64 \<Longrightarrow> stoul (nat_string n) = Inr (of_nat n)"
  using scan_nat_string(1) [of "[]" n] nat_string_spec [of n]
  by (simp add: stoul_def no_digit_first_def)

text \<open>What the file says, with the results of earlier files before its own.\<close>

definition data_of ::
    "nat \<Rightarrow> (u64 \<times> u64) list list \<Rightarrow> (u64 \<times> u64 list) list \<Rightarrow> u64 list \<Rightarrow> test_data" where
  "data_of k rows cases old =
     \<lparr>tc_data_size = of_nat k, test_cases = map snd cases,
      test_cases_results = old @ map fst cases,
      tc_edge_listings = map (map snd) rows, tc_libcall_listings = map (map fst) rows\<rparr>"

lemma read_shown:
  assumes "k < 2 ^ 64" "length rows < 2 ^ 64" "blank w" "\<forall>es\<in>set rows. length es < 2 ^ 31"
  shows "read_test_data (Some (show_test_data k w rows cases)) td =
    Inr (True, data_of k rows cases (test_cases_results td))"
proof -
  let ?ps = "zip [0..<length rows] rows"
  have ps: "\<forall>(i, es)\<in>set ?ps. length es < 2 ^ 31 \<and> i < 2 ^ 64"
    using assms by (auto simp: in_set_zip dest: nth_mem)
  have "read_data_line (nat_string k) (TC_DATA_NODE_COUNT, cleanup_test_data td) =
      Inr (TC_DATA_EDGE_LISTING, (cleanup_test_data td)\<lparr>tc_data_size := of_nat k\<rparr>)"
    using nat_string_line(1,2) [of k "[]"] assms(1)
    by (simp add: read_data_line_def stoul_nat_string)
  moreover have "map (map snd \<circ> snd) ?ps = map (map snd) rows" "map (map fst \<circ> snd) ?ps = map (map fst) rows"
    by (simp_all flip: map_map)
  ultimately have "read_data_lines (data_lines k w rows cases) (TC_DATA_NODE_COUNT, cleanup_test_data td) =
      Inr (TC_DATA_TEST_CASES_LISTING, data_of k rows cases (test_cases_results td))"
    using read_edge_lines [OF ps] read_case_lines [OF assms(3)]
    by (simp add: data_lines_def read_data_line_def cleanup_test_data_def data_of_def)
  then show ?thesis
    by (simp add: read_test_data_def show_test_data_def getlines_lines [OF newline_data_lines [OF assms(3)]])
qed

text \<open>The last line need not end with a newline.\<close>

lemma getlines_single: "newline \<notin> set s \<Longrightarrow> s \<noteq> [] \<Longrightarrow> getlines s = [s]"
proof -
  assume a: "newline \<notin> set s" "s \<noteq> []"
  then have d: "takeWhile (\<lambda>c. c \<noteq> newline) s = s" "dropWhile (\<lambda>c. c \<noteq> newline) s = []"
    by auto
  show ?thesis using a(2) by (simp add: getlines.simps [of s] getlines.simps [of "[]"] d)
qed

lemma getlines_last: "s \<noteq> [] \<Longrightarrow> last s \<noteq> newline \<Longrightarrow> getlines (s @ [newline]) = getlines s"
proof (induction "length s" arbitrary: s rule: less_induct)
  case less
  show ?case
  proof (cases "newline \<in> set s")
    case True
    then obtain l s' where s: "s = l @ newline # s'" "newline \<notin> set l" by (blast dest: split_list_first)
    from s(1) less.prems(2) have "s' \<noteq> []" by auto
    moreover from this have "last s' \<noteq> newline" using s(1) less.prems(2) by simp
    ultimately have "s' \<noteq> []" "last s' \<noteq> newline" .
    with less.hyps [of s'] s show ?thesis by (simp add: getlines_line)
  next
    case False
    then show ?thesis
      using getlines_line [of s "[]"] less.prems(1) getlines_single [of s]
      by (simp add: getlines.simps [of "[]"])
  qed
qed

lemma read_last_line:
  "s \<noteq> [] \<Longrightarrow> last s \<noteq> newline \<Longrightarrow> read_test_data (Some s) td = read_test_data (Some (s @ [newline])) td"
  by (simp add: read_test_data_def getlines_last)

end
