(* ===== verification/LibraryTests.thy ===== *)
theory LibraryTests
  imports TestData Demo
begin

text \<open>
  The tests of the graph library that read test data, \<^verbatim>\<open>memgraphlib/tests/test_memgraph.cc\<close>:
  \<^verbatim>\<open>GraphRead1\<close> builds and verifies a graph, \<^verbatim>\<open>GraphReadnTraverseln\<close> also tries sequences of calls.
  A failed \<^verbatim>\<open>EXPECT\<close> is recorded and the test goes on; a failed \<^verbatim>\<open>ASSERT\<close> returns from it.
\<close>

section \<open>The tests\<close>

datatype verdict = Passed | Failed | Aborted

definition EXPECT :: "bool \<Rightarrow> verdict \<Rightarrow> verdict" where
  "EXPECT b v = (if b then v else Failed)"

text \<open>
  The loop that allocates the nodes: \<open>r\<close> are left, \<open>i\<close> is the next.  The address of the first element of an
  empty vector is only passed on, with the length 0, and never read.
\<close>

fun populate :: "env \<Rightarrow> test_data \<Rightarrow> nat \<Rightarrow> nat \<Rightarrow> verdict \<Rightarrow> memgraph \<Rightarrow> (verdict \<times> memgraph) res" where
  "populate e td 0 i v s = Inr (v, s)"
| "populate e td (Suc r) i v s =
     (if length (tc_edge_listings td) \<le> i \<or> length (tc_libcall_listings td) \<le> i then Inl Out_of_bounds
      else let edge_list = tc_edge_listings td ! i; libcall_list = tc_libcall_listings td ! i
      in and_then (alloc_node e (of_nat i) (of_nat (length edge_list)) edge_list libcall_list s) (\<lambda>(_, s1).
         if get_graph s1 = NullP then Inr (Aborted, s1)
         else and_then (meta_load s1 ''num_nodes'') (\<lambda>n.
              populate e td r (Suc i) (EXPECT (n = of_nat i + 1) v) s1)))"

text \<open>The common beginning of the two tests.\<close>

definition read_and_build ::
    "env \<Rightarrow> string option \<Rightarrow> test_data \<Rightarrow> memgraph \<Rightarrow> (verdict \<times> test_data \<times> memgraph) res" where
  "read_and_build e file td s =
     and_then (read_test_data file td) (\<lambda>(ok, td1).
     if \<not> ok then Inr (Aborted, td1, s)
     else and_then (initialize_graph e None 0 s) (\<lambda>s1.
     and_then (populate e td1 (unat (tc_data_size td1)) 0 (EXPECT (get_graph s1 \<noteq> NullP) Passed) s1) (\<lambda>(v, s2).
     if v = Aborted then Inr (Aborted, td1, s2)
     else and_then (finalize_graph s2) (\<lambda>s3.
     if get_graph s3 = NullP then Inr (Aborted, td1, s3)
     else and_then (verify_graph e s3) (\<lambda>(rc, s4).
     and_then (meta_load s4 ''num_nodes'') (\<lambda>n.
     Inr (EXPECT (n = tc_data_size td1) (EXPECT (rc = 1) v), td1, s4)))))))"

definition GraphRead1 ::
    "env \<Rightarrow> string option \<Rightarrow> test_data \<Rightarrow> memgraph \<Rightarrow> (verdict \<times> test_data \<times> memgraph) res" where
  "GraphRead1 e file td s =
     and_then (read_and_build e file td s) (\<lambda>(v, td1, s1).
     if v = Aborted then Inr (Aborted, td1, s1)
     else Inr (v, cleanup_test_data td1, destroy_graph s1))"

text \<open>The loop over the test cases, from number \<open>i\<close> on.\<close>

fun try_cases ::
    "u64 list list \<Rightarrow> nat \<Rightarrow> u64 list \<Rightarrow> verdict \<Rightarrow> memgraph \<Rightarrow> (verdict \<times> memgraph) res" where
  "try_cases [] i results v s = Inr (v, s)"
| "try_cases (calls # cases) i results v s =
     and_then (reset_progstate s) (\<lambda>s1.
     and_then (run_calls try_call s1 calls) (\<lambda>(ok, s2).
     if length results \<le> i then Inl Out_of_bounds
     else try_cases cases (Suc i) results (EXPECT ((if ok then 1 else 0) = results ! i) v) s2))"

definition GraphReadnTraverseln ::
    "env \<Rightarrow> string option \<Rightarrow> test_data \<Rightarrow> memgraph \<Rightarrow> (verdict \<times> test_data \<times> memgraph) res" where
  "GraphReadnTraverseln e file td s =
     and_then (read_and_build e file td s) (\<lambda>(v, td1, s1).
     if v = Aborted then Inr (Aborted, td1, s1)
     else and_then (try_cases (test_cases td1) 0 (test_cases_results td1) v s1) (\<lambda>(v', s2).
     Inr (v', cleanup_test_data td1, destroy_graph s2)))"

section \<open>Building the graph of the data\<close>

definition listed_graph :: "(u64 \<times> u64) list list \<Rightarrow> graph" where
  "listed_graph rows = map (\<lambda>i. \<lparr>ps_id = of_nat i, ps_edges = rows ! i\<rparr>) [0..<length rows]"

lemma length_listed_graph [simp]: "length (listed_graph rows) = length rows"
  by (simp add: listed_graph_def)

lemma listed_graph_take: "i < length rows \<Longrightarrow>
  take (Suc i) (listed_graph rows) = take i (listed_graph rows) @
    [node_of (of_nat i) (length (rows ! i)) (map snd (rows ! i)) (map fst (rows ! i))]"
  by (simp add: take_Suc_conv_app_nth listed_graph_def node_of_def zip_map_fst_snd)

lemma room_listed_graph: "fits (listed_graph rows) \<Longrightarrow> room_for (listed_graph rows)"
proof -
  assume f: "fits (listed_graph rows)"
  then have "length rows < 43691" using fits_length [OF f] by simp
  with f show ?thesis
    by (auto simp: fits_def room_for_def listed_graph_def unat_of_nat_small)
qed

lemma building_counts: "building s g \<Longrightarrow> meta_load s ''num_nodes'' = Inr (of_nat (length g)) \<and> get_graph s \<noteq> NullP"
  by (auto simp: building_def encodes_def meta_load_def get_graph_def)

lemma populate_step:
  assumes "ample e" "room_for (listed_graph rows)" "tc_edge_listings td = map (map snd) rows"
    "tc_libcall_listings td = map (map fst) rows"
    and i: "i < length rows" and "building s (take i (listed_graph rows))"
  obtains s1 where "building s1 (take (Suc i) (listed_graph rows))"
    "\<And>r v. populate e td (Suc r) i v s = populate e td r (Suc i) v s1"
proof -
  let ?g = "take (Suc i) (listed_graph rows)"
  have "room_for ?g" using room_for_prefix [of ?g "drop (Suc i) (listed_graph rows)"] assms(2) by simp
  then obtain s1 p where s1: "alloc_node e (of_nat i) (of_nat (length (rows ! i))) (map snd (rows ! i))
      (map fst (rows ! i)) s = Inr (p, s1)" "building s1 ?g"
    using alloc_node_spec [OF assms(6,1), of "of_nat i" "length (rows ! i)"
        "map snd (rows ! i)" "map fst (rows ! i)"]
    unfolding listed_graph_take [OF i] by auto
  have "meta_load s1 ''num_nodes'' = Inr (of_nat i + 1)" "get_graph s1 \<noteq> NullP"
    using building_counts [OF s1(2)] i by (simp_all add: add.commute)
  with s1(1) i have "populate e td (Suc r) i v s = populate e td r (Suc i) v s1" for r v
    by (simp add: assms(3,4) EXPECT_def)
  with that s1(2) show thesis by blast
qed

lemma populate_spec:
  assumes "ample e" "room_for (listed_graph rows)" "tc_edge_listings td = map (map snd) rows"
    "tc_libcall_listings td = map (map fst) rows"
  shows "i + r = length rows \<Longrightarrow> building s (take i (listed_graph rows)) \<Longrightarrow>
    \<exists>s'. populate e td r i v s = Inr (v, s') \<and> building s' (listed_graph rows)"
proof (induction r arbitrary: i s)
  case (Suc r)
  then obtain s1 where s1: "building s1 (take (Suc i) (listed_graph rows))"
    "\<And>r v. populate e td (Suc r) i v s = populate e td r (Suc i) v s1"
    using populate_step [OF assms, of i s] by auto
  with Suc.IH [OF _ s1(1)] Suc.prems(1) show ?case by simp
qed simp

section \<open>Trying the cases\<close>

text \<open>The monitor of the test, which also leaves the recorded capacity alone.\<close>

interpretation test_driver:
  monitor try_call "astep g" "\<lambda>s q. at_state b g s q \<and> num_nodes_listings s = n" for b g n
proof
  fix s q c q'
  assume a: "at_state b g s q \<and> num_nodes_listings s = n" and st: "astep g q c = Some q'"
  then have "q' < length g" using astep_bound [of g q c q'] by (auto simp: at_state_def)
  with transition_allowed [OF conjunct1 [OF a] st] at_state_step [OF conjunct1 [OF a]] a
  show "\<exists>s'. try_call s c = Inr (True, s') \<and> at_state b g s' q' \<and> num_nodes_listings s' = n"
    by (auto simp: try_call_def)
next
  fix s q c
  assume a: "at_state b g s q \<and> num_nodes_listings s = n" and "astep g q c = None"
  with transition_refused [OF conjunct1 [OF a]]
  show "\<exists>s'. try_call s c = Inr (False, s') \<and> at_state b g s' q \<and> num_nodes_listings s' = n"
    by (simp add: try_call_def)
qed

text \<open>What a case should yield.\<close>

definition accepted :: "graph \<Rightarrow> u64 list \<Rightarrow> u64" where
  "accepted g cs = (if arun (astep g) 0 cs = None then 0 else 1)"

lemma try_cases_spec:
  assumes "wf_graph g" "g \<noteq> []"
  shows "holds b g s \<Longrightarrow> i + length cases \<le> length results \<Longrightarrow>
    \<exists>s'. try_cases cases i results v s =
        Inr (if map (accepted g) cases = take (length cases) (drop i results) then v else Failed, s') \<and>
      holds b g s' \<and> num_nodes_listings s' = num_nodes_listings s"
proof (induction cases arbitrary: i s v)
  case (Cons cs cases)
  obtain s1 where s1: "reset_progstate s = Inr s1" "at_state b g s1 0"
    using reset_spec [OF assms(1) Cons.prems(1) assms(2)] by blast
  then have "num_nodes_listings s1 = num_nodes_listings s"
    by (auto simp: reset_progstate_def res_simps)
  with s1 obtain s2 q where s2: "run_calls try_call s1 cs = Inr (arun (astep g) 0 cs \<noteq> None, s2)"
    "at_state b g s2 q" "num_nodes_listings s2 = num_nodes_listings s"
    using test_driver.run_keeps [of b g s1 0 "num_nodes_listings s" cs] by blast
  let ?v = "EXPECT (accepted g cs = results ! i) v"
  have "holds b g s2" using s2(2) by (simp add: at_state_def)
  from Cons.IH [OF this, of "Suc i" ?v] Cons.prems(2) obtain s' where
    s': "try_cases cases (Suc i) results ?v s2 =
      Inr (if map (accepted g) cases = take (length cases) (drop (Suc i) results) then ?v else Failed, s')"
    "holds b g s'" "num_nodes_listings s' = num_nodes_listings s2" by auto
  have "drop i results = results ! i # drop (Suc i) results"
    using Cons.prems(2) by (simp add: Cons_nth_drop_Suc)
  moreover have "EXPECT ((if arun (astep g) 0 cs \<noteq> None then 1 else 0) = results ! i) v = ?v"
    by (simp add: accepted_def)
  ultimately have "try_cases (cs # cases) i results v s =
      Inr (if map (accepted g) (cs # cases) = take (length (cs # cases)) (drop i results) then v else Failed, s')"
    using s1(1) s2(1) s'(1) Cons.prems(2) by (auto simp: EXPECT_def)
  with s'(2,3) s2(3) show ?case by auto
qed simp

section \<open>The outcome of a test\<close>

text \<open>The module as a process finds it, or as a test of a small graph leaves it.\<close>

definition fresh_module :: "memgraph \<Rightarrow> bool" where
  "fresh_module s \<longleftrightarrow> pool s = None \<and> (num_nodes_listings s = 0 \<or> num_nodes_listings s = 4096)"

lemma fresh_init: "fresh_module memgraph_init"
  by (simp add: fresh_module_def memgraph_init_def)

lemma small_table: "table_inv s n \<Longrightarrow> n \<le> 4096 \<Longrightarrow> num_nodes_listings s = 0 \<or> num_nodes_listings s = 4096"
proof -
  assume t: "table_inv s n" "n \<le> 4096"
  have "num_nodes_listings s = 4096"
    if "4096 dvd unat (num_nodes_listings s)" "4096 \<le> unat (num_nodes_listings s)"
      "unat (num_nodes_listings s) < n + 4096"
  proof -
    have "unat (num_nodes_listings s) = 4096" using that t(2) by (auto elim!: dvdE)
    then show ?thesis by (simp add: word_unat_eq_iff)
  qed
  with t show ?thesis by (auto simp: table_inv_def split: option.splits)
qed

lemma destroyed_fresh:
  assumes "pool s \<noteq> None" "num_nodes_listings s = 0 \<or> num_nodes_listings s = 4096"
  shows "fresh_module (destroy_graph s)"
  using assms by (auto simp: fresh_module_def destroy_graph_def destroy_pool_def Let_def split: option.splits)

lemma read_and_build_spec:
  assumes "ample e" "fresh_module s" "read_test_data file td = Inr (True, data_of (length rows) rows cases old)"
    "fits (listed_graph rows)" "length rows \<le> 4096"
  obtains s' where "read_and_build e file td s = Inr (Passed, data_of (length rows) rows cases old, s')"
    "holds NODE_TABLE_OFFSET (listed_graph rows) s'" "pool s' \<noteq> None"
    "num_nodes_listings s' = 0 \<or> num_nodes_listings s' = 4096"
proof -
  let ?g = "listed_graph rows" and ?td = "data_of (length rows) rows cases old"
  have "env_alloc e (requests s) (of_nat MEMORY_POOL_SIZE)" using assms(1) by (simp add: ample_def)
  with assms(2) obtain s1 where s1: "initialize_graph e None 0 s = Inr s1" "building s1 []"
    using initialize_empty [of s e] by (auto simp: fresh_module_def)
  have td: "tc_edge_listings ?td = map (map snd) rows" "tc_libcall_listings ?td = map (map fst) rows"
    "tc_data_size ?td = of_nat (length rows)" "unat (tc_data_size ?td) = length rows"
    using assms(5) by (simp_all add: data_of_def unat_of_nat_small)
  obtain s2 where s2: "populate e ?td (length rows) 0 Passed s1 = Inr (Passed, s2)" "building s2 ?g"
    using populate_spec [OF assms(1) room_listed_graph [OF assms(4)] td(1,2), of 0 "length rows" s1 Passed] s1(2)
    by auto
  obtain s3 m where s3: "finalize_graph s2 = Inr s3" "pool s3 = Some m" "sealed m ?g" "table_inv s3 (length rows)"
    using finalize_spec [OF s2(2)] by (metis length_listed_graph)
  then obtain s4 t q where s4: "verify_graph e s3 = Inr (1, s4)" "holds NODE_TABLE_OFFSET ?g s4"
    "s4 = s3\<lparr>nodes := Some (t :: node_table), requests := q\<rparr>"
    using verify_complete [OF s3(2,3) assms(4)] table_inv_ready [OF s3(4) assms(1)] by (metis length_listed_graph)
  have "get_graph s1 \<noteq> NullP" "get_graph s3 \<noteq> NullP"
    using building_counts [OF s1(2)] s3(2) by (simp_all add: get_graph_def)
  moreover have "meta_load s4 ''num_nodes'' = Inr (tc_data_size ?td)"
    using holds_meta [OF s4(2)] td(3) by simp
  ultimately have "read_and_build e file td s = Inr (Passed, ?td, s4)"
    using assms(3) s1(1) s2(1) s3(1) s4(1) td(4) by (simp add: read_and_build_def EXPECT_def)
  moreover have "num_nodes_listings s4 = 0 \<or> num_nodes_listings s4 = 4096" "pool s4 \<noteq> None"
    using small_table [OF s3(4) assms(5)] s3(2) s4(3) by simp_all
  ultimately show thesis using that s4(2) by blast
qed

lemma test_spec:
  assumes "ample e" "fresh_module s" "read_test_data file td = Inr (True, data_of (length rows) rows cases old)"
    "fits (listed_graph rows)" "length rows \<le> 4096" "wf_graph (listed_graph rows)" "rows \<noteq> []"
  shows "\<exists>s'. GraphReadnTraverseln e file td s =
      Inr (if map (accepted (listed_graph rows)) (map snd cases) = take (length cases) (old @ map fst cases)
           then Passed else Failed, cleanup_test_data (data_of (length rows) rows cases old), s') \<and> fresh_module s'"
proof -
  obtain s1 where s1: "read_and_build e file td s = Inr (Passed, data_of (length rows) rows cases old, s1)"
    "holds NODE_TABLE_OFFSET (listed_graph rows) s1"
    "num_nodes_listings s1 = 0 \<or> num_nodes_listings s1 = 4096"
    using read_and_build_spec [OF assms(1-5)] by metis
  have "listed_graph rows \<noteq> []" using assms(7) by (simp add: listed_graph_def)
  from try_cases_spec [OF assms(6) this s1(2), of 0 "map snd cases" "old @ map fst cases" Passed]
  obtain s2 where s2: "try_cases (map snd cases) 0 (old @ map fst cases) Passed s1 =
      Inr (if map (accepted (listed_graph rows)) (map snd cases) = take (length cases) (old @ map fst cases)
           then Passed else Failed, s2)" "holds NODE_TABLE_OFFSET (listed_graph rows) s2"
    "num_nodes_listings s2 = num_nodes_listings s1" by auto
  have "fresh_module (destroy_graph s2)"
    using s2(2,3) s1(3) by (intro destroyed_fresh) (auto simp: holds_def)
  then show ?thesis using s1(1) s2(1)
    by (simp add: GraphReadnTraverseln_def data_of_def)
qed

section \<open>Data in the format of the files\<close>

lemma fits_rows: "fits (listed_graph rows) \<Longrightarrow> \<forall>es\<in>set rows. length es < 2 ^ 31"
proof
  fix es assume f: "fits (listed_graph rows)" and "es \<in> set rows"
  then obtain i where i: "i < length rows" "es = rows ! i" by (auto simp: in_set_conv_nth)
  then have "node_size (listed_graph rows ! i) \<le> graph_size (listed_graph rows)"
    using graph_size_split [of i "listed_graph rows"] by simp
  moreover have "ps_edges (listed_graph rows ! i) = es" using i by (simp add: listed_graph_def)
  ultimately show "length es < 2 ^ 31" using f by (simp add: fits_def node_size_def layout_simps)
qed

lemma shown_test_spec:
  assumes "ample e" "fresh_module s" "blank w" "fits (listed_graph rows)" "length rows \<le> 4096"
    "wf_graph (listed_graph rows)" "rows \<noteq> []"
  shows "\<exists>s'. GraphReadnTraverseln e (Some (show_test_data (length rows) w rows cases)) td s =
      Inr (if map (accepted (listed_graph rows)) (map snd cases) =
             take (length cases) (test_cases_results td @ map fst cases) then Passed else Failed,
           cleanup_test_data (data_of (length rows) rows cases (test_cases_results td)), s') \<and>
    fresh_module s'"
proof -
  have "read_test_data (Some (show_test_data (length rows) w rows cases)) td =
      Inr (True, data_of (length rows) rows cases (test_cases_results td))"
    using read_shown [OF _ _ assms(3) fits_rows [OF assms(4)]] assms(5) by simp
  from test_spec [OF assms(1,2) this assms(4-7)] show ?thesis .
qed

text \<open>More states announced than listed: the loop reads past the end of the vector of listings.\<close>

lemma populate_overrun:
  assumes "ample e" "room_for (listed_graph rows)" "tc_edge_listings td = map (map snd) rows"
    "tc_libcall_listings td = map (map fst) rows"
  shows "length rows < i + r \<Longrightarrow> i \<le> length rows \<Longrightarrow> building s (take i (listed_graph rows)) \<Longrightarrow>
    populate e td r i v s = Inl Out_of_bounds"
proof (induction r arbitrary: i s)
  case (Suc r)
  show ?case
  proof (cases "i < length rows")
    case True
    then obtain s1 where "building s1 (take (Suc i) (listed_graph rows))"
      "populate e td (Suc r) i v s = populate e td r (Suc i) v s1"
      using populate_step [OF assms True Suc.prems(3)] by metis
    with Suc.IH [of "Suc i" s1] Suc.prems(1) True show ?thesis by simp
  next
    case False
    with assms(3) show ?thesis by simp
  qed
qed simp

lemma overrun_spec:
  assumes "ample e" "fresh_module s" "read_test_data file td = Inr (True, data_of k rows cases old)"
    "fits (listed_graph rows)" "length rows < k" "k < 2 ^ 64"
  shows "GraphRead1 e file td s = Inl Out_of_bounds" "GraphReadnTraverseln e file td s = Inl Out_of_bounds"
proof -
  let ?td = "data_of k rows cases old"
  have "env_alloc e (requests s) (of_nat MEMORY_POOL_SIZE)" using assms(1) by (simp add: ample_def)
  with assms(2) obtain s1 where s1: "initialize_graph e None 0 s = Inr s1" "building s1 []"
    using initialize_empty [of s e] by (auto simp: fresh_module_def)
  have td: "tc_edge_listings ?td = map (map snd) rows" "tc_libcall_listings ?td = map (map fst) rows"
    "unat (tc_data_size ?td) = k"
    using assms(6) by (simp_all add: data_of_def unat_of_nat_small)
  have "populate e ?td k 0 v s1 = Inl Out_of_bounds" for v
    using populate_overrun [OF assms(1) room_listed_graph [OF assms(4)] td(1,2), of 0 k s1] s1(2) assms(5)
    by simp
  then have "read_and_build e file td s = Inl Out_of_bounds"
    using assms(3) s1(1) td(3) by (simp add: read_and_build_def)
  then show "GraphRead1 e file td s = Inl Out_of_bounds" "GraphReadnTraverseln e file td s = Inl Out_of_bounds"
    by (simp_all add: GraphRead1_def GraphReadnTraverseln_def)
qed

text \<open>The parameterised test on several files, in one process.\<close>

fun run_tests :: "env \<Rightarrow> string option list \<Rightarrow> test_data \<Rightarrow> memgraph \<Rightarrow> verdict list res" where
  "run_tests e [] td s = Inr []"
| "run_tests e (file # rest) td s =
     and_then (GraphReadnTraverseln e file td s) (\<lambda>(v, td', s').
     and_then (run_tests e rest td' s') (\<lambda>vs. Inr (v # vs)))"

end
