(* ===== verification/UnitTests.thy ===== *)
theory UnitTests
  imports LibraryTests
begin

text \<open>
  The other tests of \<^verbatim>\<open>memgraphlib/tests/test_memgraph.cc\<close>, each as it runs in a process of its own:
  creation and destruction of the pool, its metadata, verification, nodes and their edges, saving
  and loading.  The result is the verdict with the state of the library the test leaves.
\<close>

section \<open>Assertions\<close>

type_synonym test_result = "(verdict \<times> memgraph) res"

definition ASSERT :: "bool \<Rightarrow> memgraph \<Rightarrow> test_result \<Rightarrow> test_result" where
  "ASSERT b s cont = (if b then cont else Inr (Aborted, s))"

lemma ASSERT_simps [simp]: "ASSERT True s c = c" "ASSERT False s c = Inr (Aborted, s)"
  by (simp_all add: ASSERT_def)

lemma EXPECT_True [simp]: "EXPECT True v = v"
  by (simp add: EXPECT_def)

text \<open>The metadata of the pool: magic number, version and the flag of a finished graph.\<close>

definition check_metadata :: "memgraph \<Rightarrow> u8 \<Rightarrow> verdict \<Rightarrow> verdict res" where
  "check_metadata s flag v =
     (case pool s of
        None \<Rightarrow> Inl Null_deref
      | Some m \<Rightarrow>
          Inr (EXPECT (load8 m (offset_of graph_metadata ''graph_finalized'') = flag)
              (EXPECT (load64 m (offset_of graph_metadata ''version'') = MEMPOOL_VERSION)
              (EXPECT (load64 m (offset_of graph_metadata ''magic'') = GRAPH_META_MAGIC_NUMBER) v))))"

section \<open>Pool and metadata\<close>

definition InitializeGraph :: "env \<Rightarrow> memgraph \<Rightarrow> test_result" where
  "InitializeGraph e s =
     and_then (initialize_graph e None 0 s) (\<lambda>s1.
     ASSERT (get_graph s1 \<noteq> NullP) s1
       (let s2 = destroy_graph s1 in ASSERT (get_graph s2 = NullP) s2 (Inr (Passed, s2))))"

definition GetGraph :: "memgraph \<Rightarrow> test_result" where
  "GetGraph s =
     ASSERT (get_graph s = NullP) s
       (let s1 = destroy_graph s in ASSERT (get_graph s1 = NullP) s1 (Inr (Passed, s1)))"

definition DestroyGraph1 :: "memgraph \<Rightarrow> test_result" where
  "DestroyGraph1 s = (let s1 = destroy_graph s in ASSERT (get_graph s1 = NullP) s1 (Inr (Passed, s1)))"

definition DestroyGraph2 :: "env \<Rightarrow> memgraph \<Rightarrow> test_result" where
  "DestroyGraph2 e s =
     and_then (initialize_graph e None 0 s) (\<lambda>s1.
     ASSERT (get_graph s1 \<noteq> NullP) s1
       (let s2 = destroy_graph s1; graph = get_graph s2
        in ASSERT (graph = NullP) s2
             (let s3 = destroy_graph s2 in ASSERT (graph = NullP) s3 (Inr (Passed, s3)))))"

definition PoolInitCheck1 :: "env \<Rightarrow> memgraph \<Rightarrow> test_result" where
  "PoolInitCheck1 e s =
     and_then (initialize_graph e None 0 s) (\<lambda>s1.
     ASSERT (get_graph s1 \<noteq> NullP) s1
       (and_then (check_metadata s1 0 Passed) (\<lambda>v.
        and_then (finalize_graph s1) (\<lambda>s2.
        and_then (check_metadata s2 1 v) (\<lambda>v'.
        Inr (EXPECT (get_graph s2 \<noteq> NullP) v', destroy_graph s2))))))"

text \<open>The pool is copied to a buffer of its recorded size, destroyed, and taken over from the buffer.\<close>

definition PoolInitCheck2 :: "env \<Rightarrow> memgraph \<Rightarrow> test_result" where
  "PoolInitCheck2 e s =
     and_then (initialize_graph e None 0 s) (\<lambda>s1.
     ASSERT (get_graph s1 \<noteq> NullP) s1
       (and_then (check_metadata s1 0 Passed) (\<lambda>v.
        and_then (finalize_graph s1) (\<lambda>s2.
        and_then (check_metadata s2 1 v) (\<lambda>v'.
        and_then (meta_load s2 ''total_size'') (\<lambda>size.
        case pool s2 of
          None \<Rightarrow> Inl Null_deref
        | Some m \<Rightarrow>
            if MEMORY_POOL_SIZE < unat size then Inl Out_of_bounds
            else let buffer = \<lparr>buf_len = unat size, buf_bytes = m\<rparr>
            in and_then (initialize_graph e (Some buffer)
                           (load64 (buf_bytes buffer) (offset_of graph_metadata ''total_size''))
                           (destroy_graph s2)) (\<lambda>s3.
               ASSERT (get_graph s3 \<noteq> NullP) s3
                 (and_then (check_metadata s3 1 (EXPECT (get_graph s2 \<noteq> NullP) v')) (\<lambda>v''.
                  let s4 = destroy_graph s3 in Inr (EXPECT (get_graph s4 = NullP) v'', s4))))))))))"

definition VerifyCheckBasicSanity :: "env \<Rightarrow> memgraph \<Rightarrow> test_result" where
  "VerifyCheckBasicSanity e s =
     and_then (verify_graph e s) (\<lambda>(rc, s1).
     and_then (initialize_graph e None 0 s1) (\<lambda>s2.
     and_then (verify_graph e s2) (\<lambda>(rc', s3).
     and_then (finalize_graph s3) (\<lambda>s4.
     and_then (verify_graph e s4) (\<lambda>(rc'', s5).
     Inr (EXPECT (rc'' = 1) (EXPECT (rc' = ERROR_INVALID_STATE) (EXPECT (rc = ERROR_INVALID_GRAPH) Passed)),
          s5))))))"

section \<open>Nodes\<close>

fun check_edges ::
    "memgraph \<Rightarrow> ptr \<Rightarrow> u64 list \<Rightarrow> u64 list \<Rightarrow> nat \<Rightarrow> nat \<Rightarrow> verdict \<Rightarrow> verdict res" where
  "check_edges s libs succs calls 0 i v = Inr v"
| "check_edges s libs succs calls (Suc r) i v =
     (let at = (\<lambda>f. i * sizeof_struct libcalls + offset_of libcalls f)
      in and_then (ptr_load s libs (at ''magic'')) (\<lambda>mg.
         and_then (ptr_load s libs (at ''libcallid'')) (\<lambda>c.
         and_then (ptr_load s libs (at ''next_progstate'')) (\<lambda>t.
         check_edges s libs succs calls r (Suc i)
           (EXPECT (t = succs ! i) (EXPECT (c = calls ! i) (EXPECT (mg = EDGE_MAGIC_NUMBER) v)))))))"

text \<open>A node is allocated and read back through the returned pointer, then the number of nodes is checked.\<close>

definition create_node ::
    "env \<Rightarrow> u64 \<Rightarrow> u64 list \<Rightarrow> u64 list \<Rightarrow> u64 \<Rightarrow> verdict \<Rightarrow> memgraph \<Rightarrow> test_result" where
  "create_node e nid succs calls count v s =
     and_then (alloc_node e nid (of_nat (length succs)) succs calls s) (\<lambda>(node, s1).
     ASSERT (node \<noteq> NullP) s1
       (and_then (ptr_load s1 node (offset_of abstract_progstate ''magic'')) (\<lambda>mg.
        and_then (ptr_load s1 node (offset_of abstract_progstate ''id'')) (\<lambda>i.
        and_then (ptr_load s1 node (offset_of abstract_progstate ''num_libcalls'')) (\<lambda>n.
        and_then (check_edges s1 (ptr_add node (sizeof_struct abstract_progstate)) succs calls (length succs) 0
          (EXPECT (n = of_nat (length succs)) (EXPECT (i = nid) (EXPECT (mg = NODE_MAGIC_NUMBER) v)))) (\<lambda>v'.
        ASSERT (get_graph s1 \<noteq> NullP) s1
          (and_then (meta_load s1 ''num_nodes'') (\<lambda>k. Inr (EXPECT (k = count) v', s1)))))))))"

definition CreateGraph :: "env \<Rightarrow> memgraph \<Rightarrow> test_result" where
  "CreateGraph e s =
     and_then (initialize_graph e None 0 s) (\<lambda>s1.
     ASSERT (get_graph s1 \<noteq> NullP) s1
       (and_then (create_node e 0 [0, 1] [0, 1] 1 Passed s1) (\<lambda>(v1, s2).
        if v1 = Aborted then Inr (v1, s2)
        else and_then (create_node e 1 [2, 1] [100, 12] 2 v1 s2) (\<lambda>(v2, s3).
        if v2 = Aborted then Inr (v2, s3)
        else and_then (create_node e 20 [0, 1, 2] [10, 1, 10] 3 v2 s3) (\<lambda>(v3, s4).
        if v3 = Aborted then Inr (v3, s4)
        else let s5 = destroy_graph s4 in ASSERT (get_graph s5 = NullP) s5 (Inr (v3, s5)))))))"

text \<open>The arrays of ten elements of the last two tests, with their leading elements set.\<close>

definition ten :: "u64 list \<Rightarrow> u64 list" where
  "ten xs = xs @ replicate (10 - length xs) 0"

definition two_nodes :: "env \<Rightarrow> memgraph \<Rightarrow> memgraph res" where
  "two_nodes e s =
     and_then (alloc_node e 0 3 (ten [0, 1, 2]) (ten [10, 1, 10]) s) (\<lambda>(_, s1).
     and_then (alloc_node e 1 2 (ten [1, 2, 2]) (ten [20, 10, 10]) s1) (\<lambda>(_, s2).
     finalize_graph s2))"

definition GraphVerify :: "env \<Rightarrow> memgraph \<Rightarrow> test_result" where
  "GraphVerify e s =
     and_then (initialize_graph e None 0 s) (\<lambda>s1.
     ASSERT (get_graph s1 \<noteq> NullP) s1
       (and_then (two_nodes e s1) (\<lambda>s2.
        ASSERT (get_graph s2 \<noteq> NullP) s2
          (and_then (verify_graph e s2) (\<lambda>(rc, s3). Inr (EXPECT (rc = 1) Passed, s3))))))"

definition SaveLoadVerify1 :: "env \<Rightarrow> filesys \<Rightarrow> memgraph \<Rightarrow> test_result" where
  "SaveLoadVerify1 e fs s =
     and_then (initialize_graph e None 0 s) (\<lambda>s1.
     and_then (two_nodes e s1) (\<lambda>s2.
     and_then (store_graph e ''test.graph'' s2 fs) (\<lambda>fs1.
     let s3 = destroy_graph s2; v = EXPECT (files fs1 ''test.graph'' \<noteq> None) Passed
     in and_then (load_graph e ''test.graph'' fs1 s3) (\<lambda>s4.
        ASSERT (get_graph s4 \<noteq> NullP) s4 (Inr (EXPECT (files fs1 ''test.graph'' \<noteq> None) v, s4))))))"

section \<open>Every test passes in a process of its own\<close>

lemma fresh_start:
  assumes "ample e"
  obtains s1 where "initialize_graph e None 0 memgraph_init = Inr s1" "building s1 []"
    "pool s1 = Some fresh_pool" "num_nodes_listings s1 = 0"
  using initialize_empty [of memgraph_init e] assms by (auto simp: memgraph_init_def ample_def)

lemma building_graph: "building s g \<Longrightarrow> get_graph s \<noteq> NullP"
  using building_counts by blast

lemma destroyed: "get_graph (destroy_graph s) = NullP" "pool (destroy_graph s) = None"
  by (auto simp: destroy_graph_def destroy_pool_def get_graph_def Let_def split: option.splits)

lemma metadata_checked:
  assumes "pool s = Some m" "\<forall>k<64. m k = (store8 fresh_pool 32 flag) k"
  shows "check_metadata s flag v = Inr v"
proof -
  have "load64 m 0 = load64 fresh_pool 0" "load64 m 8 = load64 fresh_pool 8" "load8 m 32 = flag"
    using assms(2) by (auto intro!: cell64.load_cong simp: load8_def store8_def)
  then show ?thesis
    by (simp add: check_metadata_def assms(1) layout_simps fresh_pool_loads)
qed

lemma fresh_checked: "pool s = Some fresh_pool \<Longrightarrow> check_metadata s 0 v = Inr v"
  using fresh_pool_loads(6) by (intro metadata_checked) (auto simp: load8_def store8_def)

lemma finalized:
  "pool s = Some fresh_pool \<Longrightarrow> finalize_graph s = Inr (s\<lparr>pool := Some (store8 fresh_pool 32 1)\<rparr>)"
  by (simp add: finalize_graph_def layout_simps)

lemma pool_tests_pass:
  assumes "ample e"
  shows "\<exists>s. InitializeGraph e memgraph_init = Inr (Passed, s)" "\<exists>s. GetGraph memgraph_init = Inr (Passed, s)"
    "\<exists>s. DestroyGraph1 memgraph_init = Inr (Passed, s)" "\<exists>s. DestroyGraph2 e memgraph_init = Inr (Passed, s)"
    "\<exists>s. PoolInitCheck1 e memgraph_init = Inr (Passed, s)"
proof -
  obtain s1 where s1: "initialize_graph e None 0 memgraph_init = Inr s1" "building s1 []" "pool s1 = Some fresh_pool"
    using fresh_start [OF assms] by metis
  note facts = s1(1) building_graph [OF s1(2)] destroyed
  show "\<exists>s. InitializeGraph e memgraph_init = Inr (Passed, s)"
    using facts by (simp add: InitializeGraph_def)
  show "\<exists>s. GetGraph memgraph_init = Inr (Passed, s)"
    using destroyed by (simp add: GetGraph_def) (simp add: get_graph_def memgraph_init_def)
  show "\<exists>s. DestroyGraph1 memgraph_init = Inr (Passed, s)"
    using destroyed by (simp add: DestroyGraph1_def)
  show "\<exists>s. DestroyGraph2 e memgraph_init = Inr (Passed, s)"
    using facts by (simp add: DestroyGraph2_def)
  have "check_metadata (s1\<lparr>pool := Some (store8 fresh_pool 32 1)\<rparr>) 1 v = Inr v" for v
    using metadata_checked [of "s1\<lparr>pool := Some (store8 fresh_pool 32 1)\<rparr>" "store8 fresh_pool 32 1" 1] by simp
  then show "\<exists>s. PoolInitCheck1 e memgraph_init = Inr (Passed, s)"
    using facts fresh_checked [OF s1(3)] finalized [OF s1(3)]
    by (simp add: PoolInitCheck1_def) (simp add: get_graph_def)
qed

lemma pool_taken_over:
  assumes "ample e"
  shows "\<exists>s. PoolInitCheck2 e memgraph_init = Inr (Passed, s)"
proof -
  obtain s1 where s1: "initialize_graph e None 0 memgraph_init = Inr s1" "building s1 []" "pool s1 = Some fresh_pool"
    using fresh_start [OF assms] by metis
  let ?m = "store8 fresh_pool 32 1"
  let ?s2 = "s1\<lparr>pool := Some ?m\<rparr>" and ?d = "\<lparr>buf_len = MEMORY_POOL_SIZE, buf_bytes = ?m\<rparr>"
  have sz: "unat (of_nat MEMORY_POOL_SIZE :: u64) = MEMORY_POOL_SIZE" by (simp add: layout_simps unat_of_nat_small)
  have "sealed (buf_bytes ?d) []"
    using encodes_fresh_pool by (simp add: sealed_def encodes_store_flag layout_simps mem_simps)
  moreover have "table_large (destroy_graph ?s2) (length ([] :: graph))"
    by (auto simp: table_large_def split: option.split)
  moreover have "fits []" "NODE_TABLE_OFFSET + graph_size [] \<le> unat (of_nat MEMORY_POOL_SIZE :: u64)"
    "unat (of_nat MEMORY_POOL_SIZE :: u64) \<le> buf_len ?d"
    "unat (of_nat MEMORY_POOL_SIZE :: u64) \<le> MEMORY_POOL_SIZE"
    unfolding sz by (simp_all add: fits_def layout_simps)
  ultimately obtain s3 m where s3:
    "initialize_graph e (Some ?d) (of_nat MEMORY_POOL_SIZE) (destroy_graph ?s2) = Inr s3" "pool s3 = Some m"
    "\<forall>k<unat (of_nat MEMORY_POOL_SIZE :: u64). m k = buf_bytes ?d k"
    using initialize_buffer [OF assms] by blast
  have c: "check_metadata ?s2 1 v = Inr v" "check_metadata s3 1 v = Inr v" for v
    using metadata_checked [of ?s2 ?m 1] metadata_checked [OF s3(2), of 1] s3(3) unfolding sz
    by (simp_all add: layout_simps)
  have size: "load64 ?m 24 = of_nat MEMORY_POOL_SIZE" "meta_load ?s2 ''total_size'' = Inr (of_nat MEMORY_POOL_SIZE)"
    by (simp_all add: meta_load_def layout_simps mem_simps fresh_pool_loads)
  have "get_graph ?s2 \<noteq> NullP" "get_graph s3 \<noteq> NullP" using s3(2) by (simp_all add: get_graph_def)
  then show ?thesis
    using s1(1) building_graph [OF s1(2)] fresh_checked [OF s1(3)] finalized [OF s1(3)] c size s3(1) destroyed
    by (simp add: PoolInitCheck2_def sz layout_simps)
qed

lemma sanity_passes:
  assumes "ample e"
  shows "\<exists>s. VerifyCheckBasicSanity e memgraph_init = Inr (Passed, s)"
proof -
  have v0: "verify_graph e memgraph_init = Inr (ERROR_INVALID_GRAPH, memgraph_init)"
    by (simp add: verify_graph_def memgraph_init_def)
  obtain s1 where s1: "initialize_graph e None 0 memgraph_init = Inr s1" "building s1 []" "pool s1 = Some fresh_pool"
    using fresh_start [OF assms] by metis
  have v1: "verify_graph e s1 = Inr (ERROR_INVALID_STATE, s1)"
    by (simp add: verify_graph_def s1(3) layout_simps fresh_pool_loads)
  obtain s2 m where s2: "finalize_graph s1 = Inr s2" "pool s2 = Some m" "sealed m []" "table_inv s2 (length ([] :: graph))"
    using finalize_spec [OF s1(2)] by metis
  have "fits []" by (simp add: fits_def layout_simps)
  then obtain s3 where "verify_graph e s2 = Inr (1, s3)"
    using verify_complete [OF s2(2,3) _ table_inv_ready [OF s2(4) assms]] by blast
  then show ?thesis using v0 s1(1) v1 s2(1) by (simp add: VerifyCheckBasicSanity_def)
qed

lemma check_edges_spec:
  assumes "pool s = Some m" "words_at m a (edges_words (zip calls succs))"
    "a + 24 * length succs \<le> MEMORY_POOL_SIZE" "length calls = length succs"
  shows "i + r = length succs \<Longrightarrow> check_edges s (PoolP (pool_gen s) a) succs calls r i v = Inr v"
proof (induction r arbitrary: i)
  case (Suc r)
  then have i: "i < length (zip calls succs)" using assms(4) by simp
  have "a + (i * 24 + 16) + 8 \<le> MEMORY_POOL_SIZE" using assms(3,4) i by simp
  then have "ptr_load s (PoolP (pool_gen s) a) (i * 24) = Inr EDGE_MAGIC_NUMBER"
    "ptr_load s (PoolP (pool_gen s) a) (i * 24 + 8) = Inr (calls ! i)"
    "ptr_load s (PoolP (pool_gen s) a) (i * 24 + 16) = Inr (succs ! i)"
    using words_at_edge [OF assms(2) i] i assms(4) by (simp_all add: ptr_load_PoolP [OF assms(1)] add.assoc)
  with Suc.IH [of "Suc i"] Suc.prems show ?case by (simp add: layout_simps)
qed simp

lemma create_node_spec:
  assumes "building s g" "ample e" "room_for (g @ [node_of nid (length succs) succs calls])"
    "length calls = length succs"
  obtains s' where "create_node e nid succs calls (of_nat (Suc (length g))) v s = Inr (v, s')"
    "building s' (g @ [node_of nid (length succs) succs calls])"
proof -
  let ?n = "node_of nid (length succs) succs calls" and ?a = "NODE_TABLE_OFFSET + graph_size g"
  obtain s' where s': "alloc_node e nid (of_nat (length succs)) succs calls s = Inr (PoolP (pool_gen s) ?a, s')"
    "building s' (g @ [?n])" and gen: "pool_gen s' = pool_gen s"
    using alloc_node_gen [OF assms(1-3)] assms(4) by auto
  from s'(2) obtain m where m: "pool s' = Some m" "encodes m (g @ [?n])" by (auto simp: building_def)
  then have "words_at m ?a (node_words ?n)"
    using words_at_graph_nth [of m NODE_TABLE_OFFSET "g @ [?n]" "length g"]
    by (simp add: encodes_def node_pos_def)
  note w = words_at_node [OF this]
  have fit: "?a + 24 + 24 * length succs \<le> MEMORY_POOL_SIZE"
    using assms(3,4) by (simp add: room_for_def node_size_def node_of_simps(1))
  then have "ptr_load s' (PoolP (pool_gen s) ?a) 0 = Inr NODE_MAGIC_NUMBER"
    "ptr_load s' (PoolP (pool_gen s) ?a) 8 = Inr nid"
    "ptr_load s' (PoolP (pool_gen s) ?a) 16 = Inr (of_nat (length succs))"
    using w(1-3) assms(4) by (simp_all add: ptr_load_PoolP [OF m(1), unfolded gen] node_of_def)
  moreover have "check_edges s' (PoolP (pool_gen s) (?a + 24)) succs calls (length succs) 0 v' = Inr v'" for v'
    using check_edges_spec [OF m(1), of "?a + 24" calls succs] w(4) fit assms(4)
    by (simp add: gen node_of_def)
  ultimately have "create_node e nid succs calls (of_nat (Suc (length g))) v s = Inr (v, s')"
    using s'(1) building_counts [OF s'(2)] by (simp add: create_node_def layout_simps)
  with that s'(2) show thesis by blast
qed

lemma create_passes:
  assumes "ample e"
  shows "\<exists>s. CreateGraph e memgraph_init = Inr (Passed, s)"
proof -
  obtain s1 where s1: "initialize_graph e None 0 memgraph_init = Inr s1" "building s1 []"
    using fresh_start [OF assms] by metis
  let ?n1 = "node_of 0 2 [0, 1] [0, 1]" and ?n2 = "node_of 1 2 [2, 1] [100, 12]"
    and ?n3 = "node_of 20 3 [0, 1, 2] [10, 1, 10]"
  have room: "room_for [?n1]" "room_for [?n1, ?n2]" "room_for [?n1, ?n2, ?n3]"
    by (simp_all add: room_for_def node_of_def node_size_def layout_simps all_less_Suc_split)
  obtain s2 where s2: "create_node e 0 [0, 1] [0, 1] 1 Passed s1 = Inr (Passed, s2)" "building s2 [?n1]"
    using create_node_spec [OF s1(2) assms, of 0 "[0, 1]" "[0, 1]" Passed] room(1) by (auto simp: numeral_2_eq_2 numeral_3_eq_3)
  obtain s3 where s3: "create_node e 1 [2, 1] [100, 12] 2 Passed s2 = Inr (Passed, s3)" "building s3 [?n1, ?n2]"
    using create_node_spec [OF s2(2) assms, of 1 "[2, 1]" "[100, 12]" Passed] room(2) by (auto simp: numeral_2_eq_2 numeral_3_eq_3)
  obtain s4 where "create_node e 20 [0, 1, 2] [10, 1, 10] 3 Passed s3 = Inr (Passed, s4)"
    using create_node_spec [OF s3(2) assms, of 20 "[0, 1, 2]" "[10, 1, 10]" Passed] room(3) by (auto simp: numeral_2_eq_2 numeral_3_eq_3)
  with s1(1) building_graph [OF s1(2)] s2(1) s3(1) destroyed show ?thesis by (simp add: CreateGraph_def)
qed

definition two_states :: graph where
  "two_states = [node_of 0 3 (ten [0, 1, 2]) (ten [10, 1, 10]), node_of 1 2 (ten [1, 2, 2]) (ten [20, 10, 10])]"

lemma two_states_ok: "room_for [hd two_states]" "room_for two_states" "fits two_states"
  by (simp_all add: two_states_def room_for_def fits_def node_of_def ten_def node_size_def layout_simps
      all_less_Suc_split)

lemma two_nodes_spec:
  assumes "building s []" "ample e"
  obtains s' m where "two_nodes e s = Inr s'" "pool s' = Some m" "sealed m two_states" "table_inv s' (length two_states)"
proof -
  obtain p1 s1 where s1: "alloc_node e 0 3 (ten [0, 1, 2]) (ten [10, 1, 10]) s = Inr (p1, s1)"
    "building s1 [hd two_states]"
    using alloc_node_spec [OF assms, of 0 3 "ten [0, 1, 2]" "ten [10, 1, 10]"] two_states_ok(1)
    by (auto simp: two_states_def ten_def)
  obtain p2 s2 where s2: "alloc_node e 1 2 (ten [1, 2, 2]) (ten [20, 10, 10]) s1 = Inr (p2, s2)"
    "building s2 two_states"
    using alloc_node_spec [OF s1(2) assms(2), of 1 2 "ten [1, 2, 2]" "ten [20, 10, 10]"] two_states_ok(2)
    by (auto simp: two_states_def ten_def)
  obtain s' m where "finalize_graph s2 = Inr s'" "pool s' = Some m" "sealed m two_states"
    "table_inv s' (length two_states)"
    using finalize_spec [OF s2(2)] by metis
  with that s1(1) s2(1) show thesis by (simp add: two_nodes_def)
qed

lemma verify_passes:
  assumes "ample e"
  shows "\<exists>s. GraphVerify e memgraph_init = Inr (Passed, s)"
proof -
  obtain s1 where s1: "initialize_graph e None 0 memgraph_init = Inr s1" "building s1 []"
    using fresh_start [OF assms] by metis
  obtain s2 m where s2: "two_nodes e s1 = Inr s2" "pool s2 = Some m" "sealed m two_states"
    "table_inv s2 (length two_states)"
    using two_nodes_spec [OF s1(2) assms] .
  obtain s3 where "verify_graph e s2 = Inr (1, s3)"
    using verify_complete [OF s2(2,3) two_states_ok(3) table_inv_ready [OF s2(4) assms]] by blast
  with s1(1) building_graph [OF s1(2)] s2(1,2) show ?thesis
    by (simp add: GraphVerify_def) (simp add: get_graph_def)
qed

lemma save_load_passes:
  assumes "ample e" "can_write fs ''test.graph''" "MEMORY_POOL_SIZE \<le> accepts fs ''test.graph''"
  shows "\<exists>s. SaveLoadVerify1 e fs memgraph_init = Inr (Passed, s)"
proof -
  obtain s1 where s1: "initialize_graph e None 0 memgraph_init = Inr s1" "building s1 []"
    using fresh_start [OF assms(1)] by metis
  obtain s2 m where s2: "two_nodes e s1 = Inr s2" "pool s2 = Some m" "sealed m two_states"
    using two_nodes_spec [OF s1(2) assms(1)] by metis
  let ?fs = "fs\<lparr>files := (files fs)(''test.graph'' \<mapsto> \<lparr>buf_len = MEMORY_POOL_SIZE, buf_bytes = m\<rparr>)\<rparr>"
  have st: "store_graph e ''test.graph'' s2 fs = Inr ?fs" by (rule store_spec [OF assms(2,3) s2(2)])
  have "table_large (destroy_graph s2) (length two_states)"
    by (auto simp: table_large_def destroy_graph_def Let_def split: option.split)
  moreover have "files ?fs ''test.graph'' = Some \<lparr>buf_len = MEMORY_POOL_SIZE, buf_bytes = m\<rparr>" by simp
  ultimately obtain s3 m' where "load_graph e ''test.graph'' ?fs (destroy_graph s2) = Inr s3" "pool s3 = Some m'"
    using load_spec [OF assms(1) _ s2(3) two_states_ok(3)] by blast
  with s1(1) s2(1) st show ?thesis by (simp add: SaveLoadVerify1_def Let_def get_graph_def)
qed

end
