(* ===== verification/TestProperties.thy ===== *)
theory TestProperties
  imports UnitTests
begin

text \<open>
  The tests of the graph library as a specification: when they pass, what one test leaves to the
  next, and the three data files that come with them.
\<close>

section \<open>The data files\<close>

definition test_case_1 :: string where
  "test_case_1 =
     ''8\<newline>##\<newline>0 1 1 201\<newline>1 1 2 354\<newline>2 2 3 410 4 101\<newline>3 1 5 10\<newline>4 1 5 20\<newline>5 1 6 11\<newline>6 2 1 147 7 66\<newline>--\<newline>1 201 354 101 20 11 66\<newline>1 201 354 410 10 11 66\<newline>1 201 354 410 10 11 147 354 410 10 11 66\<newline>0 201 354 410 10 11 147 354 410 10 11 60\<newline>1 201 354 410 10 11 147 354 101 20 11 66\<newline>0 201 354 410 10 11 147 354 101 10 11 66\<newline>0 201 354 410 12 11 66''"

definition test_case_2 :: string where
  "test_case_2 =
     ''3\<newline>##\<newline>0 1 1 201\<newline>1 2 2 354 1 505\<newline>2 0\<newline>--\<newline>1 201 354 \<newline>1 201 505 354 \<newline>1 201 505 505 354 \<newline>0 201 505 56 354 \<newline>0 201 505 56 354 \<newline>''"

definition test_case_3 :: string where
  "test_case_3 =
     ''6\<newline>##\<newline>0 3 1 201 2 205 3 354\<newline>1 1 4 101\<newline>2 1 4 101\<newline>3 1 4 101\<newline>4 1 5 307\<newline>5 0\<newline>--\<newline>1 201 101 307 \<newline>''"

text \<open>What they say.\<close>

definition rows_1 :: "(u64 \<times> u64) list list" where
  "rows_1 = [[(201, 1)], [(354, 2)], [(410, 3), (101, 4)], [(10, 5)], [(20, 5)], [(11, 6)], [(147, 1), (66, 7)]]"

definition cases_1 :: "(u64 \<times> u64 list) list" where
  "cases_1 =
     [(1, [201, 354, 101, 20, 11, 66]), (1, [201, 354, 410, 10, 11, 66]),
      (1, [201, 354, 410, 10, 11, 147, 354, 410, 10, 11, 66]),
      (0, [201, 354, 410, 10, 11, 147, 354, 410, 10, 11, 60]),
      (1, [201, 354, 410, 10, 11, 147, 354, 101, 20, 11, 66]),
      (0, [201, 354, 410, 10, 11, 147, 354, 101, 10, 11, 66]), (0, [201, 354, 410, 12, 11, 66])]"

definition rows_2 :: "(u64 \<times> u64) list list" where
  "rows_2 = [[(201, 1)], [(354, 2), (505, 1)], []]"

definition cases_2 :: "(u64 \<times> u64 list) list" where
  "cases_2 =
     [(1, [201, 354]), (1, [201, 505, 354]), (1, [201, 505, 505, 354]), (0, [201, 505, 56, 354]),
      (0, [201, 505, 56, 354])]"

definition rows_3 :: "(u64 \<times> u64) list list" where
  "rows_3 = [[(201, 1), (205, 2), (354, 3)], [(101, 4)], [(101, 4)], [(101, 4)], [(307, 5)], []]"

definition cases_3 :: "(u64 \<times> u64 list) list" where
  "cases_3 = [(1, [201, 101, 307])]"

lemmas data_defs = rows_1_def cases_1_def rows_2_def cases_2_def rows_3_def cases_3_def

lemma files_shown:
  "test_case_2 = show_test_data 3 '' '' rows_2 cases_2"
  "test_case_3 = show_test_data 6 '' '' rows_3 cases_3"
  "test_case_1 @ [newline] = show_test_data 8 [] rows_1 cases_1"
  by code_simp+

lemma data_lengths:
  "length rows_1 = 7" "length rows_2 = 3" "length rows_3 = 6" "rows_2 \<noteq> []" "rows_3 \<noteq> []"
  by (simp_all add: data_defs)

lemma data_fits:
  "fits (listed_graph rows_1)" "fits (listed_graph rows_2)" "fits (listed_graph rows_3)"
  by (simp_all add: fits_def listed_graph_def data_defs node_size_def layout_simps upt_conv_Cons)

lemma data_wf: "wf_graph (listed_graph rows_2)" "wf_graph (listed_graph rows_3)"
  by (simp_all add: wf_graph_def listed_graph_def data_defs upt_conv_Cons)

lemma data_accepted:
  "map (accepted (listed_graph rows_2)) (map snd cases_2) = [1, 1, 1, 0, 0]"
  "map (accepted (listed_graph rows_3)) (map snd cases_3) = [1]"
  "map fst cases_2 = [1, 1, 1, 0, 0]" "map fst cases_3 = [1]" "length cases_2 = 5" "length cases_3 = 1"
  by (simp_all add: accepted_def listed_graph_def data_defs astep_def upt_conv_Cons)

lemma blank_space: "blank '' ''"
  by (simp add: blank_def is_space_def newline_def)

section \<open>Properties\<close>

text \<open>
  C35. Test data in the format of the files is read back: the announced number of states, the edges of
  every state split into successors and calls, the cases, and their results behind the results of
  the files read before, which \<^verbatim>\<open>cleanup_test_data\<close> keeps.
\<close>

theorem test_data_roundtrip:
  assumes "k < 2 ^ 64" "length rows < 2 ^ 64" "blank w" "\<forall>es\<in>set rows. length es < 2 ^ 31"
  shows "read_test_data (Some (show_test_data k w rows cases)) td =
    Inr (True,
      \<lparr>tc_data_size = of_nat k, test_cases = map snd cases,
       test_cases_results = test_cases_results td @ map fst cases,
       tc_edge_listings = map (map snd) rows, tc_libcall_listings = map (map fst) rows\<rparr>)"
  using read_shown [OF assms] by (simp add: data_of_def)

theorem test_data_roundtrip_witness:
  "read_test_data (Some test_case_2) test_data_init =
    Inr (True,
      \<lparr>tc_data_size = of_nat 3, test_cases = map snd cases_2,
       test_cases_results = test_cases_results test_data_init @ map fst cases_2,
       tc_edge_listings = map (map snd) rows_2, tc_libcall_listings = map (map fst) rows_2\<rparr>)"
  unfolding files_shown
  by (rule test_data_roundtrip) (simp_all add: blank_space data_lengths, simp add: rows_2_def)

text \<open>
  C34. The parameterised test is a faithful oracle.  In a process of its own, on a file that describes
  a well-formed graph that fits the pool, the test runs to its end and passes exactly when the
  expected result of every case is whether the automaton accepts its calls.
\<close>

theorem test_decides_acceptance:
  assumes "ample e" "blank w" "fits (listed_graph rows)" "length rows \<le> 4096" "wf_graph (listed_graph rows)" "rows \<noteq> []"
  shows "\<exists>td' s'. GraphReadnTraverseln e (Some (show_test_data (length rows) w rows cases)) test_data_init
      memgraph_init =
    Inr (if \<forall>(r, cs)\<in>set cases. r = (if arun (astep (listed_graph rows)) 0 cs = None then 0 else 1)
         then Passed else Failed, td', s')"
proof -
  have c: "map (accepted (listed_graph rows)) (map snd cases) =
        take (length cases) (test_cases_results test_data_init @ map fst cases) \<longleftrightarrow>
      (\<forall>(r, cs)\<in>set cases. r = (if arun (astep (listed_graph rows)) 0 cs = None then 0 else 1))"
    by (auto simp: accepted_def test_data_init_def)
  show ?thesis
    using shown_test_spec [OF assms(1) fresh_init assms(2-6), of cases test_data_init] unfolding c by blast
qed

theorem test_decides_acceptance_witness:
  "\<exists>td' s'. GraphReadnTraverseln (ample_env User) (Some (show_test_data (length rows_2) '' '' rows_2 cases_2))
      test_data_init memgraph_init =
    Inr (if \<forall>(r, cs)\<in>set cases_2. r = (if arun (astep (listed_graph rows_2)) 0 cs = None then 0 else 1)
         then Passed else Failed, td', s')"
  by (rule test_decides_acceptance) (simp_all add: blank_space data_fits data_wf data_lengths)

lemma map_eq_take:
  "length xs \<le> length ys \<Longrightarrow> map f xs = take (length xs) ys \<longleftrightarrow> (\<forall>i<length xs. f (xs ! i) = ys ! i)"
  by (auto simp: list_eq_iff_nth_eq)

text \<open>
  C40. Tests that share a process disturb each other.  \<^verbatim>\<open>cleanup_test_data\<close> keeps the expected results
  of a file.  When a second file is tested in the same process, the results of its cases are looked up
  from the beginning of both files' results together: unless the first file has no cases, a case of
  the second is compared with what another case expects.  In a process of its own each case of the second file is
  compared with its own result.
\<close>

theorem results_of_earlier_files_count:
  assumes "ample e" "blank w1" "fits (listed_graph rows1)" "length rows1 \<le> 4096"
      "wf_graph (listed_graph rows1)" "rows1 \<noteq> []"
    and "blank w2" "fits (listed_graph rows2)" "length rows2 \<le> 4096"
      "wf_graph (listed_graph rows2)" "rows2 \<noteq> []"
  shows "(\<exists>v. run_tests e [Some (show_test_data (length rows1) w1 rows1 cases1),
      Some (show_test_data (length rows2) w2 rows2 cases2)] test_data_init memgraph_init =
    Inr [v, if \<forall>i<length cases2. accepted (listed_graph rows2) (snd (cases2 ! i)) =
                 (map fst cases1 @ map fst cases2) ! i then Passed else Failed]) \<and>
    run_tests e [Some (show_test_data (length rows2) w2 rows2 cases2)] test_data_init memgraph_init =
    Inr [if \<forall>i<length cases2. accepted (listed_graph rows2) (snd (cases2 ! i)) = fst (cases2 ! i)
         then Passed else Failed]"
proof -
  let ?f = "\<lambda>td. map (accepted (listed_graph rows2)) (map snd cases2) =
    take (length cases2) (test_cases_results td @ map fst cases2)"
  have r0: "test_cases_results test_data_init = []" by (simp add: test_data_init_def)
  from shown_test_spec [OF assms(1) fresh_init assms(2-6), of cases1 test_data_init] obtain v td s where
    one: "GraphReadnTraverseln e (Some (show_test_data (length rows1) w1 rows1 cases1)) test_data_init memgraph_init =
      Inr (v, td, s)" "fresh_module s" "test_cases_results td = map fst cases1"
    by (auto simp: cleanup_test_data_def data_of_def r0)
  note two = shown_test_spec [OF assms(1) _ assms(7-11), of _ cases2]
  have same: "?f td = (\<forall>i<length cases2. accepted (listed_graph rows2) (snd (cases2 ! i)) =
      (test_cases_results td @ map fst cases2) ! i)" for td
    using map_eq_take [of "map snd cases2" "test_cases_results td @ map fst cases2" "accepted (listed_graph rows2)"]
    by (simp del: take_append map_map)
  from two [OF one(2), of td] obtain td2 s2 where t2:
    "GraphReadnTraverseln e (Some (show_test_data (length rows2) w2 rows2 cases2)) td s =
       Inr (if ?f td then Passed else Failed, td2, s2)" by blast
  from two [OF fresh_init, of test_data_init] obtain td3 s3 where t3:
    "GraphReadnTraverseln e (Some (show_test_data (length rows2) w2 rows2 cases2)) test_data_init memgraph_init =
       Inr (if ?f test_data_init then Passed else Failed, td3, s3)" by blast
  have A: "run_tests e [Some (show_test_data (length rows1) w1 rows1 cases1),
      Some (show_test_data (length rows2) w2 rows2 cases2)] test_data_init memgraph_init =
    Inr [v, if ?f td then Passed else Failed]" by (simp add: one(1) t2 del: take_append map_map)
  have B: "run_tests e [Some (show_test_data (length rows2) w2 rows2 cases2)] test_data_init memgraph_init =
    Inr [if ?f test_data_init then Passed else Failed]" by (simp only: run_tests.simps t3) simp
  have Fb: "?f test_data_init = (\<forall>i<length cases2. accepted (listed_graph rows2) (snd (cases2 ! i)) =
      fst (cases2 ! i))" unfolding same r0 by (simp add: all_set_conv_all_nth)
  have Fa: "?f td = (\<forall>i<length cases2. accepted (listed_graph rows2) (snd (cases2 ! i)) =
      (map fst cases1 @ map fst cases2) ! i)" using same [of td] by (simp only: one(3))
  from A B show ?thesis unfolding Fa Fb by blast
qed

text \<open>The third data file before the second, which passes alone.\<close>

theorem results_of_earlier_files_count_witness:
  "run_tests (ample_env User) [Some test_case_2] test_data_init memgraph_init = Inr [Passed] \<and>
   (\<exists>v. run_tests (ample_env User) [Some test_case_3, Some test_case_2] test_data_init memgraph_init =
     Inr [v, Failed])"
proof -
  have a: "accepted (listed_graph rows_2) (snd (cases_2 ! i)) = [1, 1, 1, 0, 0] ! i" if "i < 5" for i
    using data_accepted(1,5) that by (metis length_map nth_map)
  have ok: "\<forall>i<5. accepted (listed_graph rows_2) (snd (cases_2 ! i)) = fst (cases_2 ! i)"
    using a data_accepted(3,5) by (metis nth_map)
  have bad: "\<not> (\<forall>i<5. accepted (listed_graph rows_2) (snd (cases_2 ! i)) = ([1] @ [1, 1, 1, 0, 0]) ! i)"
    using a [of 3] by (auto simp: data_accepted intro!: exI [of _ 3])
  have "length rows_3 \<le> 4096" "length rows_2 \<le> 4096" by (simp_all add: data_lengths)
  from results_of_earlier_files_count [OF ample_ample_env blank_space data_fits(3) this(1) data_wf(2) data_lengths(5)
      blank_space data_fits(2) this(2) data_wf(1) data_lengths(4), of User cases_3 cases_2]
  show ?thesis
    unfolding data_lengths data_accepted files_shown [symmetric] if_P [OF ok] if_not_P [OF bad] by blast
qed

text \<open>
  C39. A file that announces more states than it lists stops both tests past the end of the vector of
  listings; the first data file announces eight states and lists seven.
\<close>

theorem short_listing_overruns:
  assumes "ample e" "fresh_module s" "blank w" "fits (listed_graph rows)" "length rows < k" "k < 2 ^ 64"
  shows "GraphRead1 e (Some (show_test_data k w rows cases)) td s = Inl Out_of_bounds \<and>
    GraphReadnTraverseln e (Some (show_test_data k w rows cases)) td s = Inl Out_of_bounds"
  using overrun_spec [OF assms(1,2) read_shown [OF assms(6) _ assms(3) fits_rows [OF assms(4)]] assms(4-6)]
    assms(5,6) by auto

theorem short_listing_overruns_witness:
  "run_tests (ample_env User) [Some test_case_1] test_data_init memgraph_init = Inl Out_of_bounds"
proof -
  have "test_case_1 \<noteq> []" "last test_case_1 \<noteq> newline"
    by (simp_all add: test_case_1_def newline_def)
  then have "read_test_data (Some test_case_1) td =
      read_test_data (Some (show_test_data 8 [] rows_1 cases_1)) td" for td
    using read_last_line [of test_case_1 td] unfolding files_shown by blast
  then have "GraphReadnTraverseln e (Some test_case_1) td s =
      GraphReadnTraverseln e (Some (show_test_data 8 [] rows_1 cases_1)) td s" for e td s
    by (simp add: GraphReadnTraverseln_def read_and_build_def)
  with short_listing_overruns [OF ample_ample_env fresh_init blank_Nil data_fits(1), of 8 User cases_1 test_data_init]
  show ?thesis by (simp add: data_lengths)
qed

definition passes :: "(memgraph \<Rightarrow> test_result) \<Rightarrow> bool" where
  "passes t \<longleftrightarrow> (\<exists>s. t memgraph_init = Inr (Passed, s))"

text \<open>
  The remaining tests of the library pass, each in a process of its own in which no allocation fails
  and the test's file can be written.
\<close>

theorem unit_tests_pass:
  assumes "ample e" "can_write fs ''test.graph''" "MEMORY_POOL_SIZE \<le> accepts fs ''test.graph''"
  shows "list_all passes [InitializeGraph e, GetGraph, DestroyGraph1, DestroyGraph2 e, PoolInitCheck1 e, PoolInitCheck2 e,
      VerifyCheckBasicSanity e, CreateGraph e, GraphVerify e, SaveLoadVerify1 e fs]"
  using pool_tests_pass [OF assms(1)] pool_taken_over [OF assms(1)] sanity_passes [OF assms(1)]
    create_passes [OF assms(1)] verify_passes [OF assms(1)] save_load_passes [OF assms]
  by (simp add: passes_def)

theorem unit_tests_pass_witness:
  "list_all passes [InitializeGraph (ample_env User), GetGraph, DestroyGraph1, DestroyGraph2 (ample_env User),
      PoolInitCheck1 (ample_env User), PoolInitCheck2 (ample_env User), VerifyCheckBasicSanity (ample_env User),
      CreateGraph (ample_env User), GraphVerify (ample_env User),
      SaveLoadVerify1 (ample_env User) \<lparr>files = (\<lambda>_. None), can_write = (\<lambda>_. True), accepts = (\<lambda>_. MEMORY_POOL_SIZE)\<rparr>]"
  by (rule unit_tests_pass) simp_all

end
