(* ===== verification/Machine.thy ===== *)
theory Machine
  imports Sandboxing LlvmIR
begin

text \<open>
  Executing an instrumented program on a patched kernel: the system call tables that the two
  patches under \<^verbatim>\<open>kernel/\<close> install, the dispatch of a system call with its registers to the three
  handlers, and the effect of a sequence of executed instructions.  The ideal monitor is the
  specification: what the injected calls are meant to do.
\<close>

section \<open>The system call tables\<close>

datatype sysent = Sys_dummycall | Sys_init | Sys_cleanup

definition syscall_tbl_6_11_9 :: "u64 \<Rightarrow> sysent option" where
  "syscall_tbl_6_11_9 = map_of [(336, Sys_dummycall), (337, Sys_init), (338, Sys_cleanup)]"

definition syscall_tbl_6_8_11 :: "u64 \<Rightarrow> sysent option" where
  "syscall_tbl_6_8_11 = map_of [(335, Sys_dummycall), (336, Sys_init), (337, Sys_cleanup)]"

lemma table_entries:
  "syscall_tbl_6_11_9 336 = Some Sys_dummycall" "syscall_tbl_6_11_9 337 = Some Sys_init"
  "syscall_tbl_6_11_9 338 = Some Sys_cleanup"
  "syscall_tbl_6_8_11 336 = Some Sys_init" "syscall_tbl_6_8_11 337 = Some Sys_cleanup"
  "syscall_tbl_6_8_11 338 = None"
  by (simp_all add: syscall_tbl_6_11_9_def syscall_tbl_6_8_11_def)

section \<open>The machine\<close>

text \<open>
  The configuration of the kernel, its allocator and its table; the readable memory of the process
  from an address on; the address at which \<^verbatim>\<open>SanboxInitData\<close> is loaded; the values of operands
  the pass does not create; and the contents of the argument registers that a call leaves unset,
  which can change from step to step.
\<close>

record 'i machine =
  mc_config :: bool
  mc_alloc :: "nat \<Rightarrow> u64 \<Rightarrow> bool"
  mc_table :: "u64 \<Rightarrow> sysent option"
  mc_memory :: "u64 \<Rightarrow> buffer"
  mc_image :: u64
  mc_value :: "'i \<Rightarrow> u64"
  mc_junk :: "nat \<Rightarrow> nat \<Rightarrow> u64"

fun operand_value :: "'i machine \<Rightarrow> 'i operand \<Rightarrow> u64" where
  "operand_value mc (Int64 w) = w"
| "operand_value mc BufferPtr = mc_image mc"
| "operand_value mc (Opaque i) = mc_value mc i"

definition register :: "'i machine \<Rightarrow> nat \<Rightarrow> 'i operand list \<Rightarrow> nat \<Rightarrow> u64" where
  "register mc t args n = (if n < length args then operand_value mc (args ! n) else mc_junk mc t n)"

definition user_pointer :: "'i machine \<Rightarrow> u64 \<Rightarrow> buffer option" where
  "user_pointer mc a = (if a = 0 then None else Some (mc_memory mc a))"

text \<open>The handlers read one register per parameter; a number without an entry has no effect.\<close>

fun handler_call :: "'i machine \<Rightarrow> (nat \<Rightarrow> u64) \<Rightarrow> sysent \<Rightarrow> syscall" where
  "handler_call mc reg Sys_dummycall = Sandbox_dummycall (reg 1)"
| "handler_call mc reg Sys_init = Sandbox_init (user_pointer mc (reg 1)) (reg 2)"
| "handler_call mc reg Sys_cleanup = Sandbox_cleanup"

definition system_call :: "'i machine \<Rightarrow> (nat \<Rightarrow> u64) \<Rightarrow> ksys \<Rightarrow> (sysres \<times> ksys) res" where
  "system_call mc reg k =
     (case mc_table mc (reg 0) of
        None \<Rightarrow> Inr (Returned (- ENOSYS), k)
      | Some h \<Rightarrow> do_syscall (mc_config mc) (mc_alloc mc) (handler_call mc reg h) k)"

text \<open>
  The instructions a process executes, in order: the answer is whether the process is still alive
  at the end, and the names of the functions it called.  The library's \<^verbatim>\<open>syscall\<close> enters the
  kernel.
\<close>

fun exec_insts ::
    "'i machine \<Rightarrow> nat \<Rightarrow> 'i inst list \<Rightarrow> ksys \<Rightarrow> (bool \<times> string list \<times> ksys) res" where
  "exec_insts mc t [] k = Inr (True, [], k)"
| "exec_insts mc t (CallInst (Some c) args # is) k =
     (if fn_name c = ''syscall''
      then and_then (system_call mc (register mc t args) k) (\<lambda>(x, k1).
             case x of
               Killed \<Rightarrow> Inr (False, [], k1)
             | Returned _ \<Rightarrow> exec_insts mc (Suc t) is k1)
      else and_then (exec_insts mc (Suc t) is k) (\<lambda>(alive, tr, k1). Inr (alive, fn_name c # tr, k1)))"
| "exec_insts mc t (i # is) k = exec_insts mc (Suc t) is k"

section \<open>The ideal monitor\<close>

text \<open>What an instruction means to the sandbox.\<close>

datatype action = Begin u64 | End | Guard u64 | Calls string | Silent | Foreign

fun action_of :: "'i inst \<Rightarrow> action" where
  "action_of (CallInst (Some c) args) =
     (if fn_name c \<noteq> ''syscall'' then Calls (fn_name c)
      else case args of
        [Int64 n, Int64 w] \<Rightarrow> if n = 336 then Guard w else Foreign
      | [Int64 n, BufferPtr, Int64 w] \<Rightarrow> if n = 337 then Begin w else Foreign
      | [Int64 n] \<Rightarrow> if n = 338 then End else Foreign
      | _ \<Rightarrow> Foreign)"
| "action_of _ = Silent"

lemma action_injected [simp]:
  "action_of (dummy_call n) = Guard (of_int n)"
  "action_of (init_call sz) = Begin sz" "action_of cleanup_call = End"
  by (simp_all add: dummy_call_def init_call_def cleanup_call_def syscall_callee_def)

text \<open>
  The ideal monitor is in a state of the automaton; each beginning of a session puts it in the
  entry state, each guard is a step.  The only fault is the kernel's: its buffer is freed at the
  end of a session and must not be freed again.
\<close>

fun ideal_run :: "graph \<Rightarrow> nat \<Rightarrow> bool \<Rightarrow> action list \<Rightarrow> (bool \<times> string list \<times> nat) res" where
  "ideal_run g q ended [] = Inr (True, [], q)"
| "ideal_run g q ended (Begin sz # as) = (if ended then Inl Double_free else ideal_run g 0 False as)"
| "ideal_run g q ended (End # as) = (if ended then Inl Double_free else ideal_run g q True as)"
| "ideal_run g q ended (Guard c # as) =
     (case astep g q c of
        None \<Rightarrow> Inr (False, [], q)
      | Some q' \<Rightarrow> ideal_run g q' ended as)"
| "ideal_run g q ended (Calls f # as) =
     and_then (ideal_run g q ended as) (\<lambda>(alive, tr, q'). Inr (alive, f # tr, q'))"
| "ideal_run g q ended (a # as) = ideal_run g q ended as"

section \<open>The kernel is the ideal monitor\<close>

text \<open>
  The system calls of the pass have the size of the embedded data; no other system call goes
  through \<^verbatim>\<open>syscall\<close>.
\<close>

fun pass_action :: "u64 \<Rightarrow> action \<Rightarrow> bool" where
  "pass_action sz (Begin w) \<longleftrightarrow> w = sz"
| "pass_action sz Foreign \<longleftrightarrow> False"
| "pass_action sz a \<longleftrightarrow> True"

text \<open>A kernel of the newer version whose process carries the data of an automaton.\<close>

definition hosts :: "'i machine \<Rightarrow> u64 \<Rightarrow> graph \<Rightarrow> bool" where
  "hosts mc sz g \<longleftrightarrow> mc_config mc \<and> (\<forall>j z. mc_alloc mc j z) \<and> mc_table mc = syscall_tbl_6_11_9 \<and>
     mc_image mc \<noteq> 0 \<and> carries (mc_memory mc (mc_image mc)) sz g"

text \<open>
  A session: the kernel enforces the automaton at a state, and its buffer is live, or freed once
  the session has ended.
\<close>

definition in_session :: "graph \<Rightarrow> ksys \<Rightarrow> nat \<Rightarrow> bool \<Rightarrow> bool" where
  "in_session g k q ended \<longleftrightarrow> enforces g k q \<and>
     (if ended then kernel_buffer k = KFreed else \<exists>b. kernel_buffer k = KLive b)"

lemma enforces_table: "enforces g k q \<Longrightarrow> table_large (ks_graph k) (length g)"
  by (auto simp: enforces_def at_state_def holds_def table_large_def split: option.splits)

lemma action_cases [consumes 2, case_names Begin End Guard]:
  assumes "action_of (CallInst (Some c) args) \<noteq> Foreign" "fn_name c = ''syscall''"
  obtains w where "args = [Int64 337, BufferPtr, Int64 w]" "action_of (CallInst (Some c) args) = Begin w"
  | "args = [Int64 338]" "action_of (CallInst (Some c) args) = End"
  | w where "args = [Int64 336, Int64 w]" "action_of (CallInst (Some c) args) = Guard w"
  using assms by (auto split: list.splits operand.splits if_splits)

lemma begin_call:
  assumes "hosts mc sz g" "table_large (ks_graph k) (length g)" "kernel_buffer k \<noteq> KFreed"
  obtains k' where "system_call mc (register mc t [Int64 337, BufferPtr, Int64 sz]) k = Inr (Returned 0, k')"
    "in_session g k' 0 False"
proof -
  let ?d = "mc_memory mc (mc_image mc)"
  from assms(1) have h: "mc_config mc" "\<forall>j z. mc_alloc mc j z" "mc_table mc = syscall_tbl_6_11_9"
    "mc_image mc \<noteq> 0" "carries ?d sz g" by (simp_all add: hosts_def)
  from init_installs [OF h(2,5) assms(2,3)] obtain k' where k': "enforces g k' 0" "\<exists>b. kernel_buffer k' = KLive b"
    "sandbox_init True (mc_alloc mc) (Some ?d) sz k = Inr (Returned 0, k')" by blast
  then have "system_call mc (register mc t [Int64 337, BufferPtr, Int64 sz]) k = Inr (Returned 0, k')"
    using h(1,3,4) by (simp add: system_call_def register_def user_pointer_def table_entries)
  with that k' show thesis by (simp add: in_session_def)
qed

lemma begin_freed:
  assumes "hosts mc sz g" "kernel_buffer k = KFreed"
  shows "system_call mc (register mc t [Int64 337, BufferPtr, Int64 sz]) k = Inl Double_free"
proof -
  have "sz \<noteq> 0" using assms(1) by (auto simp: hosts_def carries_def layout_simps)
  with assms show ?thesis
    by (simp add: hosts_def system_call_def register_def user_pointer_def table_entries sandbox_init_def)
qed

lemma end_call:
  assumes "hosts mc sz g"
  shows "system_call mc (register mc t [Int64 338]) k =
    (case kernel_buffer k of
       KFreed \<Rightarrow> Inl Double_free
     | KNull \<Rightarrow> Inr (Returned 0, k\<lparr>kernel_buffer := KNull\<rparr>)
     | KLive b \<Rightarrow> Inr (Returned 0, k\<lparr>kernel_buffer := KFreed\<rparr>))"
  using assms
  by (auto simp: hosts_def system_call_def register_def table_entries sandbox_cleanup_def split: kbuffer.splits)

lemma guard_system_call:
  assumes "hosts mc sz g"
  shows "system_call mc (register mc t [Int64 336, Int64 w]) k = sandbox_dummycall True w k"
  using assms by (simp add: hosts_def system_call_def register_def table_entries)

fun matches :: "graph \<Rightarrow> (bool \<times> string list \<times> nat) res \<Rightarrow> (bool \<times> string list \<times> ksys) res \<Rightarrow> bool" where
  "matches g (Inl e) x \<longleftrightarrow> x = Inl e"
| "matches g (Inr (alive, tr, q)) x \<longleftrightarrow> (\<exists>k. x = Inr (alive, tr, k) \<and> enforces g k q)"

lemma system_step:
  assumes "hosts mc sz g" "in_session g k q ended" "fn_name c = ''syscall''"
    and "a = action_of (CallInst (Some c) args)" "pass_action sz a"
  obtains (fault) "system_call mc (register mc t args) k = Inl Double_free"
      "\<And>as. ideal_run g q ended (a # as) = Inl Double_free"
  | (kill) "system_call mc (register mc t args) k = Inr (Killed, k)"
      "\<And>as. ideal_run g q ended (a # as) = Inr (False, [], q)"
  | (go) v k' q' ended' where "system_call mc (register mc t args) k = Inr (Returned v, k')"
      "in_session g k' q' ended'" "\<And>as. ideal_run g q ended (a # as) = ideal_run g q' ended' as"
proof -
  have e: "enforces g k q" using assms(2) by (simp add: in_session_def)
  have "action_of (CallInst (Some c) args) \<noteq> Foreign" using assms(4,5) by auto
  from this assms(3) show thesis
  proof (cases rule: action_cases)
    case (Begin w)
    with assms(4,5) have w: "w = sz" "a = Begin sz" by auto
    show thesis
    proof (cases ended)
      case True
      then show thesis using fault assms(2) begin_freed [OF assms(1)] Begin(1) w by (simp add: in_session_def)
    next
      case False
      with assms(2) have "kernel_buffer k \<noteq> KFreed" by (auto simp: in_session_def)
      from begin_call [OF assms(1) enforces_table [OF e] this] obtain k' where
        "system_call mc (register mc t args) k = Inr (Returned 0, k')" "in_session g k' 0 False"
        using Begin(1) w(1) by metis
      then show thesis by (rule go) (simp add: False w(2))
    qed
  next
    case End
    note sc = end_call [OF assms(1), of t k, folded End(1)]
    show thesis
    proof (cases ended)
      case True
      then show thesis using fault assms(2,4) sc End(2) by (simp add: in_session_def)
    next
      case False
      with assms(2) obtain b where b: "kernel_buffer k = KLive b" by (auto simp: in_session_def)
      have "in_session g (k\<lparr>kernel_buffer := KFreed\<rparr>) q True" using e by (simp add: in_session_def enforces_def)
      from go [OF _ this] show thesis using False b sc End(2) assms(4) by simp
    qed
  next
    case (Guard w)
    note sc = guard_system_call [OF assms(1), of t w k, folded Guard(1)]
    show thesis
    proof (cases "astep g q w")
      case None
      then show thesis using kill sc dummycall_refused [OF e None] Guard(2) assms(4) by simp
    next
      case (Some q')
      from dummycall_allowed [OF e Some] obtain k' where
        k': "sandbox_dummycall True w k = Inr (Returned (of_nat q'), k')" "enforces g k' q'"
        "kernel_buffer k' = kernel_buffer k" .
      then have "in_session g k' q' ended" using assms(2) by (simp add: in_session_def)
      from go [OF _ this] show thesis using sc k'(1) Some Guard(2) assms(4) by simp
    qed
  qed
qed

lemma exec_silent:
  assumes "\<nexists>c args. i = CallInst (Some c) args"
  shows "action_of i = Silent" "exec_insts mc t (i # is) k = exec_insts mc (Suc t) is k"
proof -
  have "action_of i = Silent \<and> exec_insts mc t (i # is) k = exec_insts mc (Suc t) is k"
  proof (cases i)
    case (CallInst co args)
    with assms show ?thesis by (cases co) auto
  qed simp_all
  then show "action_of i = Silent" "exec_insts mc t (i # is) k = exec_insts mc (Suc t) is k" by simp_all
qed

lemma exec_ideal:
  assumes "hosts mc sz g"
  shows "in_session g k q ended \<Longrightarrow> list_all (pass_action sz) (map action_of is) \<Longrightarrow>
    matches g (ideal_run g q ended (map action_of is)) (exec_insts mc t is k)"
proof (induction "is" arbitrary: t k q ended)
  case (Cons i "is")
  from Cons.prems have p: "pass_action sz (action_of i)"
    and ps: "list_all (pass_action sz) (map action_of is)" by simp_all
  note IH = Cons.IH [OF _ ps]
  consider (silent) "\<nexists>c args. i = CallInst (Some c) args"
    | (calls) c args where "i = CallInst (Some c) args" "fn_name c \<noteq> ''syscall''"
    | (kernel) c args where "i = CallInst (Some c) args" "fn_name c = ''syscall''" by blast
  then show ?case
  proof cases
    case silent
    with IH [OF Cons.prems(1), of "Suc t"] show ?thesis by (simp add: exec_silent)
  next
    case calls
    with IH [OF Cons.prems(1), of "Suc t"] show ?thesis
      by (cases "ideal_run g q ended (map action_of is)") auto
  next
    case (kernel c args)
    from p kernel(1) have "pass_action sz (action_of (CallInst (Some c) args))" by (simp only:)
    from assms Cons.prems(1) kernel(2) refl this show ?thesis
    proof (cases rule: system_step [where t = t])
      case (kill)
      then show ?thesis using kernel Cons.prems(1) by (simp add: in_session_def)
    next
      case (go v k' q' ended')
      with IH [OF go(2), of "Suc t"] kernel show ?thesis by (simp del: action_of.simps ideal_run.simps)
    qed (use kernel in simp)
  qed
qed (simp add: in_session_def)

text \<open>From the beginning of a session on.\<close>

lemma session_ideal:
  assumes "hosts mc sz g" "table_large (ks_graph k) (length g)" "kernel_buffer k \<noteq> KFreed"
    and "list_all (pass_action sz) (map action_of is)"
  shows "matches g (ideal_run g q False (Begin sz # map action_of is)) (exec_insts mc t (init_call sz # is) k)"
proof -
  from begin_call [OF assms(1-3)] obtain k1 where
    k1: "system_call mc (register mc t [Int64 337, BufferPtr, Int64 sz]) k = Inr (Returned 0, k1)"
    "in_session g k1 0 False" .
  have "exec_insts mc t (init_call sz # is) k = exec_insts mc (Suc t) is k1"
    using k1(1) by (simp add: init_call_def syscall_callee_def)
  with exec_ideal [OF assms(1) k1(2) assms(4)] show ?thesis by simp
qed


section \<open>The other kernel version\<close>

text \<open>
  In the table of version 6.8.11 the numbers the pass uses are those of other calls: 336 is
  \<^verbatim>\<open>sandbox_init\<close>, 337 \<^verbatim>\<open>sandbox_cleanup\<close> and 338 nothing.
\<close>

fun called :: "'i inst \<Rightarrow> string list" where
  "called (CallInst (Some c) _) = (if fn_name c = ''syscall'' then [] else [fn_name c])"
| "called _ = []"

lemma init_not_killed: "sandbox_init cfg al d sz k = Inr (x, k') \<Longrightarrow> x \<noteq> Killed"
  by (auto simp: sandbox_init_def Let_def res_simps split: if_splits option.splits)

lemma older_not_killed:
  assumes "mc_table mc = syscall_tbl_6_8_11" "action_of (CallInst (Some c) args) \<noteq> Foreign" "fn_name c = ''syscall''"
    and "system_call mc (register mc t args) k = Inr (x, k')"
  shows "x \<noteq> Killed"
  using assms(2,3)
proof (cases rule: action_cases)
  case (Begin w)
  with assms(1,4) show ?thesis
    by (auto simp: system_call_def register_def table_entries sandbox_cleanup_def res_simps split: if_splits)
next
  case End
  with assms(1,4) show ?thesis by (auto simp: system_call_def register_def table_entries)
next
  case (Guard w)
  with assms(1,4) show ?thesis
    by (auto simp: system_call_def register_def table_entries dest: init_not_killed)
qed

lemma older_exec:
  assumes "mc_table mc = syscall_tbl_6_8_11"
  shows "list_all (\<lambda>i. action_of i \<noteq> Foreign) is \<Longrightarrow> exec_insts mc t is k = Inr (alive, tr, k') \<Longrightarrow>
    alive \<and> tr = concat (map called is)"
proof (induction "is" arbitrary: t k tr)
  case (Cons i "is")
  consider (silent) "\<nexists>c args. i = CallInst (Some c) args"
    | (calls) c args where "i = CallInst (Some c) args" "fn_name c \<noteq> ''syscall''"
    | (kernel) c args where "i = CallInst (Some c) args" "fn_name c = ''syscall''" by blast
  then show ?case
  proof cases
    case silent
    then have "called i = []" by (cases i rule: called.cases) auto
    moreover have "exec_insts mc (Suc t) is k = Inr (alive, tr, k')"
      using Cons.prems(2) silent by (simp add: exec_silent)
    from Cons.IH [OF _ this] have "alive \<and> tr = concat (map called is)" using Cons.prems(1) by simp
    ultimately show ?thesis by simp
  next
    case calls
    with Cons show ?thesis by (auto simp: res_simps simp del: action_of.simps)
  next
    case (kernel c args)
    with Cons.prems obtain x k1 where x: "system_call mc (register mc t args) k = Inr (x, k1)"
      "(case x of Killed \<Rightarrow> Inr (False, [], k1) | Returned v \<Rightarrow> exec_insts mc (Suc t) is k1) = Inr (alive, tr, k')"
      by (auto simp: res_simps simp del: action_of.simps)
    have "x \<noteq> Killed"
      using older_not_killed [OF assms _ kernel(2) x(1)] Cons.prems(1) kernel(1) by simp
    with x(2) have "exec_insts mc (Suc t) is k1 = Inr (alive, tr, k')" by (cases x) simp_all
    with Cons.IH [OF _ this] Cons.prems(1) kernel show ?thesis by simp
  qed
qed simp

text \<open>A guard whose number is no readable address fails in \<^verbatim>\<open>copy_from_user\<close>, after the allocation.\<close>

definition unmapped :: "'i machine \<Rightarrow> u64 \<Rightarrow> bool" where
  "unmapped mc a \<longleftrightarrow> a \<noteq> 0 \<and> buf_len (mc_memory mc a) = 0"

lemma older_guard:
  assumes "mc_config mc" "\<forall>j z. mc_alloc mc j z" "mc_table mc = syscall_tbl_6_8_11"
    and "unmapped mc w" "mc_junk mc t 2 \<noteq> 0"
  shows "kernel_buffer k \<noteq> KFreed \<Longrightarrow> \<exists>v k'. kernel_buffer k' = KFreed \<and>
      system_call mc (register mc t [Int64 336, Int64 w]) k = Inr (Returned v, k')"
    "kernel_buffer k = KFreed \<Longrightarrow> system_call mc (register mc t [Int64 336, Int64 w]) k = Inl Double_free"
proof -
  let ?sz = "mc_junk mc t 2"
  have s: "system_call mc (register mc t [Int64 336, Int64 w]) k =
      sandbox_init True (mc_alloc mc) (Some (mc_memory mc w)) ?sz k"
    using assms(1,3,4) by (simp add: system_call_def register_def table_entries user_pointer_def unmapped_def)
  have "0 < unat ?sz" using assms(5) by (simp add: unat_gt_0)
  then show "\<exists>v k'. kernel_buffer k' = KFreed \<and>
      system_call mc (register mc t [Int64 336, Int64 w]) k = Inr (Returned v, k')"
    if "kernel_buffer k \<noteq> KFreed"
    using that assms(2,4,5) unfolding s
    by (cases "kernel_buffer k") (auto simp: sandbox_init_def Let_def unmapped_def)
  show "system_call mc (register mc t [Int64 336, Int64 w]) k = Inl Double_free"
    if "kernel_buffer k = KFreed"
    using that assms(5) unfolding s by (simp add: sandbox_init_def)
qed

end
