(* ===== verification/Execution.thy ===== *)
theory Execution
  imports Machine PassSpec
begin

text \<open>
  Programs in execution: the steps of a module of LLVM's IR over a stack of frames, and the
  simulation that relates the executions of the module the pass returns to those of the module it
  was given.
\<close>

section \<open>Executions of a module\<close>

record 'i frame =
  fr_blocks :: "'i basic_block list"
  fr_block :: nat
  fr_rest :: "'i inst list"

definition enter :: "'i ir_function \<Rightarrow> 'i frame" where
  "enter f = \<lparr>fr_blocks = f_blocks f, fr_block = 0, fr_rest = bb_insts (f_blocks f ! 0)\<rparr>"

definition enterable :: "'i ir_module \<Rightarrow> 'i ir_function \<Rightarrow> bool" where
  "enterable M f \<longleftrightarrow> f \<in> set (m_functions M) \<and> \<not> f_declaration f \<and> f_blocks f \<noteq> []"

fun target :: "'i ir_module \<Rightarrow> callee option \<Rightarrow> 'i ir_function option" where
  "target M None = None"
| "target M (Some c) = find (\<lambda>f. \<not> f_declaration f \<and> f_name f = fn_name c) (m_functions M)"

text \<open>
  A step executes the next instruction of the innermost frame or jumps at the end of its block.
  A call of a function of the module opens a frame.  A call of anything else, or through a
  pointer, can call functions of the module one after the other, as \<^verbatim>\<open>qsort\<close> does; the library's
  \<^verbatim>\<open>syscall\<close> does not.
\<close>

inductive istep :: "'i ir_module \<Rightarrow> 'i frame list \<Rightarrow> 'i inst list \<Rightarrow> 'i frame list \<Rightarrow> bool" for M where
  jump: "fr_rest fr = [] \<Longrightarrow> fr_block fr < length (fr_blocks fr) \<Longrightarrow> s < length (fr_blocks fr) \<Longrightarrow>
    s \<in> set (bb_succs (fr_blocks fr ! fr_block fr)) \<Longrightarrow>
    istep M (fr # st) [] (fr\<lparr>fr_block := s, fr_rest := bb_insts (fr_blocks fr ! s)\<rparr> # st)"
| ret: "fr_rest fr = ReturnInst i # is \<Longrightarrow> istep M (fr # st) [ReturnInst i] st"
| other: "fr_rest fr = OtherInst i # is \<Longrightarrow> istep M (fr # st) [OtherInst i] (fr\<lparr>fr_rest := is\<rparr> # st)"
| call: "fr_rest fr = CallInst co args # is \<Longrightarrow> target M co = Some f \<Longrightarrow> f_blocks f \<noteq> [] \<Longrightarrow>
    istep M (fr # st) [CallInst co args] (enter f # fr\<lparr>fr_rest := is\<rparr> # st)"
| outside: "fr_rest fr = CallInst co args # is \<Longrightarrow> target M co = None \<Longrightarrow>
    \<forall>f\<in>set hs. enterable M f \<Longrightarrow> hs = [] \<or> map_option fn_name co \<noteq> Some ''syscall'' \<Longrightarrow>
    istep M (fr # st) [CallInst co args] (map enter hs @ fr\<lparr>fr_rest := is\<rparr> # st)"

inductive executes :: "'i ir_module \<Rightarrow> 'i frame list \<Rightarrow> 'i inst list \<Rightarrow> 'i frame list \<Rightarrow> bool" for M where
  finish: "executes M st [] st"
| more: "istep M st es st1 \<Longrightarrow> executes M st1 es' st2 \<Longrightarrow> executes M st (es @ es') st2"

lemma executes_step: "istep M st es st' \<Longrightarrow> executes M st es st'"
  using executes.more [OF _ executes.finish, of M st es st'] by simp

lemma executes_trans: "executes M st es st1 \<Longrightarrow> executes M st1 es' st2 \<Longrightarrow> executes M st (es @ es') st2"
  by (induction rule: executes.induct) (auto intro: executes.more)

text \<open>Instructions that neither return nor call a function of the module.\<close>

fun proceeds :: "'i ir_module \<Rightarrow> 'i inst \<Rightarrow> bool" where
  "proceeds M (CallInst co args) \<longleftrightarrow> target M co = None"
| "proceeds M (OtherInst i) \<longleftrightarrow> True"
| "proceeds M (ReturnInst i) \<longleftrightarrow> False"

lemma executes_passing:
  "list_all (proceeds M) is \<Longrightarrow> fr_rest fr = is @ js \<Longrightarrow> executes M (fr # st) is (fr\<lparr>fr_rest := js\<rparr> # st)"
proof (induction "is" arbitrary: fr)
  case Nil
  then have "fr\<lparr>fr_rest := js\<rparr> = fr" by (cases fr) simp
  then show ?case using executes.finish [of M "fr # st"] by simp
next
  case (Cons i "is")
  let ?fr = "fr\<lparr>fr_rest := is @ js\<rparr>"
  have "istep M (fr # st) [i] (?fr # st)"
  proof (cases i)
    case (CallInst co args)
    with Cons.prems istep.outside [of fr co args "is @ js" M "[]" st] show ?thesis by simp
  qed (use Cons.prems in \<open>simp_all add: istep.other\<close>)
  moreover have "executes M (?fr # st) is (fr\<lparr>fr_rest := js\<rparr> # st)"
    using Cons.IH [of ?fr] Cons.prems(1) by simp
  ultimately show ?case using executes.more by fastforce
qed

section \<open>What can be executed\<close>

definition block_all :: "('i inst \<Rightarrow> bool) \<Rightarrow> 'i basic_block list \<Rightarrow> bool" where
  "block_all P bbs \<longleftrightarrow> (\<forall>bb\<in>set bbs. list_all P (bb_insts bb))"

definition stack_all :: "('i inst \<Rightarrow> bool) \<Rightarrow> 'i frame list \<Rightarrow> bool" where
  "stack_all P st \<longleftrightarrow> (\<forall>fr\<in>set st. block_all P (fr_blocks fr) \<and> list_all P (fr_rest fr))"

definition module_all :: "('i inst \<Rightarrow> bool) \<Rightarrow> 'i ir_module \<Rightarrow> bool" where
  "module_all P M \<longleftrightarrow> (\<forall>f\<in>set (m_functions M). \<not> f_declaration f \<longrightarrow> block_all P (f_blocks f))"

lemma stack_all_simps [simp]:
  "stack_all P []"
  "stack_all P (fr # st) \<longleftrightarrow> block_all P (fr_blocks fr) \<and> list_all P (fr_rest fr) \<and> stack_all P st"
  "stack_all P (st @ st') \<longleftrightarrow> stack_all P st \<and> stack_all P st'"
  by (auto simp: stack_all_def)

lemma target_in: "target M co = Some f \<Longrightarrow> f \<in> set (m_functions M) \<and> \<not> f_declaration f"
  by (cases co) (auto simp: find_Some_iff)

lemma enter_all:
  assumes "module_all P M" "f \<in> set (m_functions M)" "\<not> f_declaration f" "f_blocks f \<noteq> []"
  shows "stack_all P [enter f]"
proof -
  have "block_all P (f_blocks f)" using assms(1-3) by (simp add: module_all_def)
  moreover have "f_blocks f ! 0 \<in> set (f_blocks f)" using assms(4) by (simp add: nth_mem)
  ultimately show ?thesis by (simp add: enter_def block_all_def)
qed

lemma istep_all:
  assumes "istep M st es st'" "module_all P M" "stack_all P st"
  shows "list_all P es \<and> stack_all P st'"
  using assms(1)
proof (cases rule: istep.cases)
  case (jump fr s st)
  then show ?thesis using assms(3) by (auto simp: block_all_def)
next
  case (call fr co args "is" f st)
  then show ?thesis using assms(3) enter_all [OF assms(2), of f] target_in [of M co f] by simp
next
  case (outside fr co args "is" hs st)
  have "stack_all P (map enter hs)"
    using outside(6) enter_all [OF assms(2)] by (auto simp: stack_all_def enterable_def)
  then show ?thesis using outside assms(3) by simp
qed (use assms(3) in simp_all)

lemma executes_all:
  assumes "executes M st es st'" "module_all P M" "stack_all P st"
  shows "list_all P es"
  using assms(1,3) by (induction rule: executes.induct) (auto dest: istep_all [OF _ assms(2)])

section \<open>Instructions of the pass\<close>

fun calls_syscall :: "'i inst \<Rightarrow> bool" where
  "calls_syscall (CallInst (Some c) _) \<longleftrightarrow> fn_name c = ''syscall''"
| "calls_syscall _ \<longleftrightarrow> False"

fun session_action :: "action \<Rightarrow> bool" where
  "session_action (Begin _) \<longleftrightarrow> True"
| "session_action End \<longleftrightarrow> True"
| "session_action _ \<longleftrightarrow> False"

text \<open>The instructions without the calls that begin and end a session.\<close>

definition own :: "'i inst list \<Rightarrow> 'i inst list" where
  "own is = filter (\<lambda>i. \<not> session_action (action_of i)) is"

lemma own_simps [simp]:
  "own [] = []"
  "own (i # is) = (if session_action (action_of i) then own is else i # own is)"
  "own (is @ js) = own is @ own js"
  by (simp_all add: own_def)

lemma inject_append: "injectDummySyscall r (is @ js) = injectDummySyscall r is @ injectDummySyscall r js"
  by (induction r "is" rule: injectDummySyscall.induct) simp_all

lemma inject_Cons: "injectDummySyscall r (i # is) = injectDummySyscall r [i] @ injectDummySyscall r is"
  using inject_append [of r "[i]" "is"] by simp

fun listed_call :: "file_map_reader \<Rightarrow> 'i inst \<Rightarrow> string list" where
  "listed_call r (CallInst (Some c) _) = (if isStringInMap r (fn_name c) then [fn_name c] else [])"
| "listed_call r _ = []"

lemma inject_one:
  "injectDummySyscall r [i] = map (\<lambda>f. dummy_call (getValueFromMap r f)) (listed_call r i) @ [i]"
  by (induction r "[i]" rule: injectDummySyscall.induct) auto

lemma calls_syscall_dummy [simp]: "calls_syscall (dummy_call n)"
  by (simp add: dummy_call_def syscall_callee_def)

lemma plain_action: "\<not> calls_syscall i \<Longrightarrow> (\<exists>f. action_of i = Calls f) \<or> action_of i = Silent"
  by (cases i rule: calls_syscall.cases) auto

lemma own_plain: "list_all (\<lambda>i. \<not> calls_syscall i) is \<Longrightarrow> own (injectDummySyscall r is) = injectDummySyscall r is"
proof (induction "is")
  case (Cons i "is")
  have "\<not> session_action (action_of i)" using plain_action [of i] Cons.prems by auto
  moreover have "own (map (\<lambda>f. dummy_call (getValueFromMap r f)) fs) = map (\<lambda>f. dummy_call (getValueFromMap r f)) fs" for fs
    by (induction fs) simp_all
  ultimately show ?case using Cons by (simp add: inject_Cons [of r i "is"] inject_one)
qed simp


section \<open>The program and its instrumented form\<close>

text \<open>
  Block by block, the instrumented program has the injected instructions, and calls that begin or
  end a session anywhere; the original calls \<^verbatim>\<open>syscall\<close> nowhere.
\<close>

abbreviation plain :: "'i inst list \<Rightarrow> bool" where
  "plain is \<equiv> list_all (\<lambda>i. \<not> calls_syscall i) is"

definition block_rel :: "file_map_reader \<Rightarrow> 'i basic_block \<Rightarrow> 'i basic_block \<Rightarrow> bool" where
  "block_rel r b b' \<longleftrightarrow> bb_succs b' = bb_succs b \<and> plain (bb_insts b) \<and>
     own (bb_insts b') = injectDummySyscall r (bb_insts b)"

definition function_rel :: "file_map_reader \<Rightarrow> 'i ir_function \<Rightarrow> 'i ir_function \<Rightarrow> bool" where
  "function_rel r f f' \<longleftrightarrow> f_name f' = f_name f \<and> f_declaration f' = f_declaration f \<and>
     (\<not> f_declaration f \<longrightarrow> f_name f \<noteq> ''syscall'' \<and> list_all2 (block_rel r) (f_blocks f) (f_blocks f'))"

definition module_rel :: "file_map_reader \<Rightarrow> 'i ir_module \<Rightarrow> 'i ir_module \<Rightarrow> bool" where
  "module_rel r M M' \<longleftrightarrow> list_all2 (function_rel r) (m_functions M) (m_functions M')"

text \<open>A guard that was executed before its call: \<open>p\<close>.\<close>

definition frame_rel :: "file_map_reader \<Rightarrow> 'i inst list \<Rightarrow> 'i frame \<Rightarrow> 'i frame \<Rightarrow> bool" where
  "frame_rel r p fr fr' \<longleftrightarrow> list_all2 (block_rel r) (fr_blocks fr) (fr_blocks fr') \<and>
     fr_block fr' = fr_block fr \<and> plain (fr_rest fr) \<and>
     p @ own (fr_rest fr') = injectDummySyscall r (fr_rest fr)"

fun stack_rel :: "file_map_reader \<Rightarrow> 'i inst list \<Rightarrow> 'i frame list \<Rightarrow> 'i frame list \<Rightarrow> bool" where
  "stack_rel r p [] [] \<longleftrightarrow> p = []"
| "stack_rel r p (fr # st) (fr' # st') \<longleftrightarrow> frame_rel r p fr fr' \<and> list_all2 (frame_rel r []) st st'"
| "stack_rel r p _ _ \<longleftrightarrow> False"

definition pending :: "'i inst list \<Rightarrow> bool" where
  "pending p \<longleftrightarrow> p = [] \<or> (\<exists>n. p = [dummy_call n])"

lemma pending_simps [simp]: "pending []" "pending [dummy_call n]"
  by (auto simp: pending_def)

lemma stack_rel_all: "list_all2 (frame_rel r []) st st' \<Longrightarrow> stack_rel r [] st st'"
  by (cases st; cases st') simp_all

lemma find_rel:
  "list_all2 R xs ys \<Longrightarrow> (\<And>x y. R x y \<Longrightarrow> P x \<longleftrightarrow> Q y) \<Longrightarrow> rel_option R (find P xs) (find Q ys)"
  by (induction rule: list_all2_induct) auto

lemma target_rel: "module_rel r M M' \<Longrightarrow> rel_option (function_rel r) (target M co) (target M' co)"
  by (cases co) (auto simp: module_rel_def function_rel_def elim: find_rel)

lemma enter_rel:
  assumes "function_rel r f f'" "\<not> f_declaration f" "f_blocks f' \<noteq> []"
  shows "frame_rel r [] (enter f) (enter f')" "f_blocks f \<noteq> []"
proof -
  have l: "list_all2 (block_rel r) (f_blocks f) (f_blocks f')" using assms(1,2) by (simp add: function_rel_def)
  then have n: "length (f_blocks f) = length (f_blocks f')" by (rule list_all2_lengthD)
  with assms(3) show "f_blocks f \<noteq> []" by auto
  then have "block_rel r (f_blocks f ! 0) (f_blocks f' ! 0)" using l by (simp add: list_all2_nthD)
  with l show "frame_rel r [] (enter f) (enter f')" by (simp add: frame_rel_def enter_def block_rel_def)
qed

lemma enterable_rel:
  assumes "module_rel r M M'" "\<forall>f\<in>set hs'. enterable M' f"
  obtains hs where "\<forall>f\<in>set hs. enterable M f" "list_all2 (frame_rel r []) (map enter hs) (map enter hs')"
proof -
  have "\<exists>hs. (\<forall>f\<in>set hs. enterable M f) \<and> list_all2 (frame_rel r []) (map enter hs) (map enter hs')"
    using assms(2)
  proof (induction hs')
    case (Cons f' hs')
    then obtain hs where hs: "\<forall>f\<in>set hs. enterable M f" "list_all2 (frame_rel r []) (map enter hs) (map enter hs')"
      by auto
    have f': "f' \<in> set (m_functions M')" "\<not> f_declaration f'" "f_blocks f' \<noteq> []"
      using Cons.prems by (simp_all add: enterable_def)
    from f'(1) obtain j where j: "j < length (m_functions M')" "m_functions M' ! j = f'"
      by (auto simp: in_set_conv_nth)
    let ?f = "m_functions M ! j"
    have "?f \<in> set (m_functions M)" "function_rel r ?f f'"
      using assms(1) j by (auto simp: module_rel_def list_all2_conv_all_nth)
    then obtain f where f: "f \<in> set (m_functions M)" "function_rel r f f'" by blast
    have d: "\<not> f_declaration f" using f(2) f'(2) by (simp add: function_rel_def)
    from enter_rel [OF f(2) d f'(3)] f(1) d hs show ?case
      by (intro exI [of _ "f # hs"]) (simp add: enterable_def)
  qed simp
  with that show thesis by blast
qed

section \<open>The simulation\<close>

text \<open>The next instruction of the instrumented program is a guard, or that of the program.\<close>

lemma inject_next:
  assumes "p @ i # js = injectDummySyscall r is" "pending p" "plain is"
  obtains (guard) n where "p = []" "i = dummy_call n"
  | (insn) is0 where "is = i # is0" "js = injectDummySyscall r is0" "p @ [i] = injectDummySyscall r [i]"
proof -
  from assms(1) obtain h t where "is": "is = h # t" by (cases "is") auto
  with assms(3) have h: "\<not> calls_syscall h" by simp
  then have hd: "(h = dummy_call n) = False" "(dummy_call n = h) = False" for n by auto
  have e: "p @ i # js = map (\<lambda>f. dummy_call (getValueFromMap r f)) (listed_call r h) @ h # injectDummySyscall r t"
    using assms(1) by (simp add: "is" inject_Cons [of r h t] inject_one)
  have "listed_call r h = [] \<or> (\<exists>f. listed_call r h = [f])" by (cases h rule: calls_syscall.cases) auto
  then show thesis
  proof (elim disjE exE)
    assume l: "listed_call r h = []"
    with e hd assms(2) have "p = []" "i = h" "js = injectDummySyscall r t"
      by (auto simp: pending_def)
    with l "is" insn show thesis by (simp add: inject_one)
  next
    fix f assume l: "listed_call r h = [f]"
    show thesis
    proof (cases "p = []")
      case True
      with e l guard show thesis by simp
    next
      case False
      with e l assms(2) have "p = [dummy_call (getValueFromMap r f)]" "i = h" "js = injectDummySyscall r t"
        by (auto simp: pending_def)
      with l "is" insn show thesis by (simp add: inject_one)
    qed
  qed
qed

lemma inject_end:
  assumes "p = injectDummySyscall r is" "pending p" "plain is"
  shows "p = []" "is = []"
proof -
  have "is = []"
  proof (rule ccontr)
    assume "is \<noteq> []"
    then have "\<exists>h t. is = t @ [h]" by (metis rev_exhaust)
    then obtain h t where "is": "is = t @ [h]" by blast
    with assms(1) have p: "p = injectDummySyscall r t @ map (\<lambda>f. dummy_call (getValueFromMap r f)) (listed_call r h) @ [h]"
      by (simp add: inject_append inject_one)
    with assms(2) obtain n where "p = [dummy_call n]" by (auto simp: pending_def)
    with p have "h = dummy_call n" by (metis append_assoc last_snoc last_ConsL)
    with "is" assms(3) show False by simp
  qed
  with assms(1) show "p = []" "is = []" by simp_all
qed


lemma frame_next:
  assumes "frame_rel r p fr fr'" "pending p" "fr_rest fr' = i # js"
  obtains (session) "session_action (action_of i)" "frame_rel r p fr (fr'\<lparr>fr_rest := js\<rparr>)"
  | (guard) n where "p = []" "i = dummy_call n" "frame_rel r [i] fr (fr'\<lparr>fr_rest := js\<rparr>)"
  | (insn) is0 where "fr_rest fr = i # is0" "\<not> calls_syscall i" "p @ own [i] = injectDummySyscall r [i]"
      "frame_rel r [] (fr\<lparr>fr_rest := is0\<rparr>) (fr'\<lparr>fr_rest := js\<rparr>)"
proof (cases "session_action (action_of i)")
  case True
  then show thesis using session assms(1,3) by (simp add: frame_rel_def)
next
  case False
  with assms(1,3) have e: "p @ i # own js = injectDummySyscall r (fr_rest fr)" "plain (fr_rest fr)"
    by (simp_all add: frame_rel_def)
  from e(1) assms(2) e(2) show thesis
  proof (cases rule: inject_next)
    case (guard n)
    then show thesis using assms(1) e by (intro that(2)) (simp_all add: frame_rel_def)
  next
    case (insn is0)
    then show thesis using assms(1) e False by (intro that(3) [of is0]) (simp_all add: frame_rel_def)
  qed
qed

lemma to_syscall:
  "session_action (action_of (CallInst co args)) \<Longrightarrow> map_option fn_name co = Some ''syscall''"
  "CallInst co args = dummy_call n \<Longrightarrow> map_option fn_name co = Some ''syscall''"
  by (cases co; auto simp: dummy_call_def syscall_callee_def split: if_splits)+

lemma target_sim:
  assumes "module_rel r M M'" "target M' co = Some f'"
  obtains f where "target M co = Some f" "function_rel r f f'" "\<not> f_declaration f"
    "map_option fn_name co \<noteq> Some ''syscall''"
proof -
  from target_rel [OF assms(1), of co] assms(2) obtain f where
    f: "target M co = Some f" "function_rel r f f'" by (auto simp: option_rel_Some2)
  from f(1) have d: "\<not> f_declaration f" by (simp add: target_in)
  with f have "map_option fn_name co \<noteq> Some ''syscall''"
    by (cases co) (auto simp: function_rel_def find_Some_iff)
  with that f d show thesis by blast
qed

text \<open>What a step of the instrumented program is in the program: no step, or the same step.\<close>

definition sim_step ::
    "file_map_reader \<Rightarrow> 'i ir_module \<Rightarrow> 'i inst list \<Rightarrow> 'i frame list \<Rightarrow> 'i inst list \<Rightarrow> 'i frame list \<Rightarrow> bool" where
  "sim_step r M p st e st1' \<longleftrightarrow> (\<exists>es st1 p1. executes M st es st1 \<and> stack_rel r p1 st1 st1' \<and> pending p1 \<and>
     p @ own e = injectDummySyscall r es @ p1)"

lemma sim_stay: "stack_rel r q st st1' \<Longrightarrow> pending q \<Longrightarrow> p @ own e = q \<Longrightarrow> sim_step r M p st e st1'"
  unfolding sim_step_def using executes.finish [of M st] by (metis append_Nil injectDummySyscall.simps(1))

lemma sim_move:
  "istep M st e st1 \<Longrightarrow> stack_rel r [] st1 st1' \<Longrightarrow> p @ own e = injectDummySyscall r e \<Longrightarrow> sim_step r M p st e st1'"
  unfolding sim_step_def using executes_step [of M st e st1] by (metis append_Nil2 pending_simps(1))

lemma jump_sim:
  assumes "frame_rel r p fr fr'" "list_all2 (frame_rel r []) t t'" "pending p"
    and "fr_rest fr' = []" "fr_block fr' < length (fr_blocks fr')" "s < length (fr_blocks fr')"
      "s \<in> set (bb_succs (fr_blocks fr' ! fr_block fr'))"
  shows "sim_step r M p (fr # t) [] (fr'\<lparr>fr_block := s, fr_rest := bb_insts (fr_blocks fr' ! s)\<rparr> # t')"
proof -
  from assms(1,4) have i: "p = injectDummySyscall r (fr_rest fr)" "plain (fr_rest fr)"
    and b: "list_all2 (block_rel r) (fr_blocks fr) (fr_blocks fr')" "fr_block fr' = fr_block fr"
    by (simp_all add: frame_rel_def)
  from inject_end [OF i(1) assms(3) i(2)] have e: "p = []" "fr_rest fr = []" by simp_all
  let ?fr = "fr\<lparr>fr_block := s, fr_rest := bb_insts (fr_blocks fr ! s)\<rparr>"
  have l: "length (fr_blocks fr) = length (fr_blocks fr')" using b(1) by (rule list_all2_lengthD)
  with b assms(5,6) have r: "block_rel r (fr_blocks fr ! s) (fr_blocks fr' ! s)"
    "block_rel r (fr_blocks fr ! fr_block fr) (fr_blocks fr' ! fr_block fr)"
    by (simp_all add: list_all2_nthD)
  have "istep M (fr # t) [] (?fr # t)"
    using assms(5-7) b(2) e(2) l r(2) by (intro istep.jump) (simp_all add: block_rel_def)
  then show ?thesis
    by (rule sim_move) (use assms(2) b e(1) r(1) in \<open>simp_all add: frame_rel_def block_rel_def\<close>)
qed

lemma outside_sim:
  assumes "module_rel r M M'" "frame_rel r p fr fr'" "list_all2 (frame_rel r []) t t'" "pending p"
    and "fr_rest fr' = CallInst co args # js" "target M' co = None" "\<forall>f\<in>set hs'. enterable M' f"
      "hs' = [] \<or> map_option fn_name co \<noteq> Some ''syscall''"
  shows "sim_step r M p (fr # t) [CallInst co args] (map enter hs' @ fr'\<lparr>fr_rest := js\<rparr> # t')"
  using assms(2,4,5)
proof (cases rule: frame_next)
  case session
  with to_syscall(1) assms(8) have "hs' = []" by blast
  with session assms(3,4) show ?thesis by (intro sim_stay [of r p]) simp_all
next
  case (guard n)
  with to_syscall(2) assms(8) have "hs' = []" by blast
  with guard assms(3) show ?thesis by (intro sim_stay [of r "[dummy_call n]"]) simp_all
next
  case (insn is0)
  have "rel_option (function_rel r) (target M co) None"
    using target_rel [OF assms(1), of co] assms(6) by simp
  then have tg: "target M co = None" by simp
  from enterable_rel [OF assms(1,7)] obtain hs where
    hs: "\<forall>f\<in>set hs. enterable M f" "list_all2 (frame_rel r []) (map enter hs) (map enter hs')" .
  have "hs = [] \<or> map_option fn_name co \<noteq> Some ''syscall''"
    using insn(2) by (cases co) auto
  then have "istep M (fr # t) [CallInst co args] (map enter hs @ fr\<lparr>fr_rest := is0\<rparr> # t)"
    using insn(1) tg hs(1) by (simp add: istep.outside)
  moreover have "stack_rel r [] (map enter hs @ fr\<lparr>fr_rest := is0\<rparr> # t)
      (map enter hs' @ fr'\<lparr>fr_rest := js\<rparr> # t')"
    using hs(2) insn(4) assms(3) by (intro stack_rel_all) (simp add: list_all2_appendI)
  ultimately show ?thesis using insn(3) by (rule sim_move)
qed

lemma istep_sim:
  assumes "module_rel r M M'" "istep M' st' e st1'" "stack_rel r p st st'" "pending p"
  shows "sim_step r M p st e st1'"
proof -
  from assms(2,3) obtain fr' t' where st': "st' = fr' # t'" by (auto elim: istep.cases)
  with assms(3) obtain fr t where st: "st = fr # t" "frame_rel r p fr fr'" "list_all2 (frame_rel r []) t t'"
    by (cases st) auto
  from assms(2) show ?thesis
  proof (cases rule: istep.cases)
    case jump
    then show ?thesis using st st' jump_sim [OF st(2,3) assms(4)] by simp
  next
    case (ret fr0 i js)
    with st' have "fr_rest fr' = ReturnInst i # js" by simp
    from st(2) assms(4) this show ?thesis
    proof (cases rule: frame_next)
      case (insn is0)
      have "istep M st e t" using insn(1) ret(2) st(1) by (simp add: istep.ret)
      then show ?thesis by (rule sim_move) (use insn(3) ret(1,2) st' stack_rel_all [OF st(3)] in simp_all)
    qed (simp_all add: dummy_call_def)
  next
    case (other fr0 i js t0)
    with st' have "fr_rest fr' = OtherInst i # js" by simp
    from st(2) assms(4) this show ?thesis
    proof (cases rule: frame_next)
      case (insn is0)
      have "istep M st e (fr\<lparr>fr_rest := is0\<rparr> # t)" using insn(1) other(2) st(1) by (simp add: istep.other)
      then show ?thesis by (rule sim_move) (use insn(3,4) other(1-3) st' st(3) in simp_all)
    qed (simp_all add: dummy_call_def)
  next
    case (call fr0 co args js f' t0)
    from target_sim [OF assms(1) call(5)] obtain f where
      f: "target M co = Some f" "function_rel r f f'" "\<not> f_declaration f" "map_option fn_name co \<noteq> Some ''syscall''" .
    note en = enter_rel [OF f(2,3) call(6)]
    have "fr_rest fr' = CallInst co args # js" using call(1,4) st' by simp
    from st(2) assms(4) this show ?thesis
    proof (cases rule: frame_next)
      case (insn is0)
      have "istep M st e (enter f # fr\<lparr>fr_rest := is0\<rparr> # t)"
        using insn(1) call(2) st(1) f(1) en(2) by (simp add: istep.call)
      then show ?thesis by (rule sim_move) (use insn(3,4) call(1-3) st' st(3) en(1) in simp_all)
    qed (use f(4) to_syscall in blast)+
  next
    case outside
    then show ?thesis using st st' outside_sim [OF assms(1) st(2,3) assms(4)] by simp
  qed
qed

lemma executes_sim:
  assumes "module_rel r M M'"
  shows "executes M' st' es' st2' \<Longrightarrow> stack_rel r p st st' \<Longrightarrow> pending p \<Longrightarrow>
    \<exists>es st2 p2. executes M st es st2 \<and> pending p2 \<and> stack_rel r p2 st2 st2' \<and>
      p @ own es' = injectDummySyscall r es @ p2"
proof (induction arbitrary: p st rule: executes.induct)
  case (finish st')
  then have "executes M st [] st \<and> pending p \<and> stack_rel r p st st' \<and>
      p @ own [] = injectDummySyscall r [] @ p" by (simp add: executes.finish)
  then show ?case by blast
next
  case (more st' e st1' es' st2')
  from istep_sim [OF assms more.hyps(1) more.prems] obtain es st1 p1 where
    1: "executes M st es st1" "stack_rel r p1 st1 st1'" "pending p1"
    "p @ own e = injectDummySyscall r es @ p1" by (auto simp: sim_step_def)
  from more.IH [OF 1(2,3)] obtain es2 st2 p2 where
    2: "executes M st1 es2 st2" "pending p2" "stack_rel r p2 st2 st2'"
    "p1 @ own es' = injectDummySyscall r es2 @ p2" by blast
  have "p @ own (e @ es') = injectDummySyscall r (es @ es2) @ p2"
    using 1(4) 2(4) by (metis append_assoc inject_append own_simps(3))
  with executes_trans [OF 1(1) 2(1)] 2(2,3) show ?case by blast
qed

end
