(* ===== verification/Mediation.thy ===== *)
theory Mediation
  imports Execution
begin

text \<open>
  The module the pass returns is an instrumented form of the module it was given, and under the
  ideal monitor its executions make a prefix of the library calls of the program: the longest one
  the automaton allows.
\<close>

section \<open>The module of the pass\<close>

text \<open>
  A program that leaves the system calls to the pass: it does not call \<^verbatim>\<open>syscall\<close> itself, and the
  functions the pass skips because of their name make no library calls.
\<close>

definition leaves_syscalls :: "file_map_reader \<Rightarrow> 'i ir_module \<Rightarrow> bool" where
  "leaves_syscalls r M \<longleftrightarrow> (\<forall>f\<in>set (m_functions M). \<not> f_declaration f \<longrightarrow>
     f_name f \<noteq> ''syscall'' \<and> (\<forall>bb\<in>set (f_blocks f). plain (bb_insts bb)) \<and>
     (skipped f \<longrightarrow> \<not> has_library_call r f))"

lemma inject_no_library:
  assumes "\<not> has_library_call r f" "bb \<in> set (f_blocks f)"
  shows "injectDummySyscall r (bb_insts bb) = bb_insts bb"
proof -
  have "list_all (\<lambda>i. listed_call r i = []) (bb_insts bb)"
    unfolding list_all_iff
  proof
    fix i assume "i \<in> set (bb_insts bb)"
    with assms have "\<not> (case i of CallInst (Some c) _ \<Rightarrow> isStringInMap r (fn_name c) | _ \<Rightarrow> False)"
      by (auto simp: has_library_call_def)
    then show "listed_call r i = []" by (cases i rule: calls_syscall.cases) auto
  qed
  then show ?thesis
  proof (induction "bb_insts bb" arbitrary: bb)
    case (Cons i "is")
    from Cons.hyps(1) [of "bb\<lparr>bb_insts := is\<rparr>"] Cons.prems Cons.hyps(2) [symmetric] show ?case
      by (simp add: inject_Cons [of r i "is"] inject_one)
  qed simp
qed

lemma own_plain_id: "plain is \<Longrightarrow> own is = is"
  by (induction "is") (auto dest: plain_action)

lemma named_blocks_rel:
  "list_all2 (\<lambda>b b'. bb_succs b' = bb_succs b \<and> bb_insts b' = bb_insts b) bbs (name_blocks uniq n taken bbs)"
  by (induction uniq n taken bbs rule: name_blocks.induct) (simp_all add: Let_def)

lemma instrumented_rel:
  assumes "leaves_syscalls r M"
  shows "module_rel r M (instrumented uniq r M)"
proof -
  have "function_rel r f (if skipped f then f else inject_function r (nameBasicBlocks uniq f))"
    if f: "f \<in> set (m_functions M)" for f
  proof (cases "f_declaration f")
    case False
    with assms f have ok: "f_name f \<noteq> ''syscall''" "\<forall>bb\<in>set (f_blocks f). plain (bb_insts bb)"
      "skipped f \<longrightarrow> \<not> has_library_call r f" by (auto simp: leaves_syscalls_def)
    have "list_all2 (block_rel r) (f_blocks f) (f_blocks f)" if "skipped f"
      using ok that inject_no_library [of r f]
      by (auto simp: list_all2_same block_rel_def own_plain_id)
    moreover have "list_all2 (block_rel r) (f_blocks f)
        (map (\<lambda>bb. bb\<lparr>bb_insts := injectDummySyscall r (bb_insts bb)\<rparr>) (name_blocks uniq (f_name f) [] (f_blocks f)))"
      using named_blocks_rel [of "f_blocks f" uniq "f_name f" "[]"] ok(2)
      by (auto simp: list_all2_conv_all_nth block_rel_def own_plain)
    ultimately show ?thesis
      using ok(1) by (simp add: function_rel_def inject_function_def nameBasicBlocks_def)
  qed (simp add: function_rel_def skipped_def)
  then show ?thesis
    by (simp add: module_rel_def instrumented_def instrumented_functions_def list_all2_conv_all_nth)
qed

lemma block_rel_session:
  "block_rel r b b' \<Longrightarrow> own is = own (bb_insts b') \<Longrightarrow> block_rel r b (b'\<lparr>bb_insts := is\<rparr>)"
  by (simp add: block_rel_def)

lemma own_insert_at: "session_action (action_of i) \<Longrightarrow> own (insert_at k i is) = own is"
  by (simp add: insert_at_def) (metis append_take_drop_id own_simps(3))

lemma insert_first_rel:
  assumes "list_all2 (block_rel r) bs bbs" "session_action (action_of i)"
  shows "list_all2 (block_rel r) bs (insert_first i bbs)"
  using assms by (induction rule: list_all2_induct) (simp_all add: block_rel_session)

lemma section_rel:
  assumes "module_rel r M M'"
  shows "module_rel r M (SectionAddressHandler data M')"
proof -
  have "function_rel r f (f'\<lparr>f_blocks := insert_first (init_call sz) (f_blocks f')\<rparr>)"
    if "function_rel r f f'" for f f' sz
    using that by (auto simp: function_rel_def intro: insert_first_rel)
  then show ?thesis
    using assms by (auto simp: module_rel_def SectionAddressHandler_def list.rel_map elim!: list.rel_mono_strong)
qed

lemma cleanup_function_rel:
  assumes "function_rel r f f'" "cleanup_function f' = Inr f''"
  shows "function_rel r f f''"
proof (cases "is_main f'")
  case True
  with assms(2) obtain b k where
    f'': "f'' = f'\<lparr>f_blocks := (f_blocks f')[b := (f_blocks f' ! b)\<lparr>bb_insts :=
      insert_at k cleanup_call (bb_insts (f_blocks f' ! b))\<rparr>]\<rparr>"
    by (auto simp: cleanup_function_def Let_def split: option.splits)
  have "list_all2 (block_rel r) bs (bbs[b := (bbs ! b)\<lparr>bb_insts := insert_at k cleanup_call (bb_insts (bbs ! b))\<rparr>])"
    if l: "list_all2 (block_rel r) bs bbs" for bs bbs
  proof (rule list_all2_all_nthI)
    show "length bs = length (bbs[b := (bbs ! b)\<lparr>bb_insts := insert_at k cleanup_call (bb_insts (bbs ! b))\<rparr>])"
      using l by (simp add: list_all2_lengthD)
    fix j assume j: "j < length bs"
    with l show "block_rel r (bs ! j)
        (bbs[b := (bbs ! b)\<lparr>bb_insts := insert_at k cleanup_call (bb_insts (bbs ! b))\<rparr>] ! j)"
      by (cases "j = b") (auto simp: list_all2_conv_all_nth own_insert_at intro!: block_rel_session)
  qed
  then show ?thesis using assms(1) by (auto simp: f'' function_rel_def)
next
  case False
  with assms show ?thesis by (simp add: cleanup_function_def)
qed

lemma cleanup_rel:
  assumes "module_rel r M M'" "MemoryCleanupHandler M' = Inr M''"
  shows "module_rel r M M''"
proof -
  have "list_all2 (function_rel r) fs fs''"
    if "list_all2 (function_rel r) fs fs'" "cleanup_functions fs' = Inr fs''" for fs fs' fs''
    using that by (induction arbitrary: fs'' rule: list_all2_induct)
      (auto simp: res_simps intro: cleanup_function_rel)
  with assms show ?thesis by (auto simp: module_rel_def MemoryCleanupHandler_def res_simps)
qed

lemma pass_rel:
  assumes "leaves_syscalls r M"
    "MemoryCleanupHandler (SectionAddressHandler data (instrumented uniq r M)) = Inr M'"
  shows "module_rel r M M'"
  by (rule cleanup_rel [OF section_rel [OF instrumented_rel [OF assms(1)]] assms(2)])


section \<open>What the pass puts into the program\<close>

definition pass_insts :: "u64 \<Rightarrow> 'i ir_module \<Rightarrow> bool" where
  "pass_insts sz M \<longleftrightarrow> module_all (\<lambda>i. pass_action sz (action_of i)) M"

lemma plain_pass: "plain is \<Longrightarrow> list_all (\<lambda>i. pass_action sz (action_of i)) is"
  by (auto simp: list_all_iff dest!: plain_action)

lemma inject_pass: "plain is \<Longrightarrow> list_all (\<lambda>i. pass_action sz (action_of i)) (injectDummySyscall r is)"
proof (induction "is")
  case (Cons i "is")
  then have "pass_action sz (action_of i)" by (auto dest: plain_action)
  with Cons show ?case by (auto simp: inject_Cons [of r i "is"] inject_one list_all_iff)
qed simp

text \<open>
  An instruction of the module is one of the instrumented program, or a call that the pass puts in
  at the start of an entry block or before the end of \<^verbatim>\<open>main\<close>.
\<close>

lemma block_all_simps [simp]:
  "block_all P []" "block_all P (b # bbs) \<longleftrightarrow> list_all P (bb_insts b) \<and> block_all P bbs"
  by (auto simp: block_all_def)

lemma insert_first_all: "block_all P bbs \<Longrightarrow> P i \<Longrightarrow> block_all P (insert_first i bbs)"
  by (cases bbs) simp_all

lemma insert_at_all: "list_all P is \<Longrightarrow> P i \<Longrightarrow> list_all P (insert_at k i is)"
  by (auto simp: insert_at_def list_all_iff dest: in_set_takeD in_set_dropD)

lemma cleanup_function_all:
  assumes "cleanup_function f = Inr f'" "block_all P (f_blocks f)" "P cleanup_call"
  shows "block_all P (f_blocks f')"
proof (cases "f' = f")
  case False
  with assms(1) obtain b k where f': "f_blocks f' = (f_blocks f)[b := (f_blocks f ! b)\<lparr>bb_insts :=
      insert_at k cleanup_call (bb_insts (f_blocks f ! b))\<rparr>]"
    by (auto simp: cleanup_function_def Let_def split: option.splits if_splits)
  show ?thesis
  proof (cases "b < length (f_blocks f)")
    case True
    then have "list_all P (bb_insts (f_blocks f ! b))" using assms(2) by (simp add: block_all_def)
    then show ?thesis
      using assms(2,3) set_update_subset_insert [of "f_blocks f" b]
      by (fastforce simp: f' block_all_def intro: insert_at_all)
  qed (use assms(2) f' in \<open>simp add: list_update_beyond\<close>)
qed (use assms(2) in simp)


lemma cleanup_functions_all:
  assumes "cleanup_functions fs = Inr fs'" "f' \<in> set fs'" "\<not> f_declaration f'" "P cleanup_call"
    "\<And>f. f \<in> set fs \<Longrightarrow> \<not> f_declaration f \<Longrightarrow> block_all P (f_blocks f)"
  shows "block_all P (f_blocks f')"
  using assms
proof (induction fs arbitrary: fs')
  case (Cons f fs)
  then obtain f1 fs1 where f1: "cleanup_function f = Inr f1" "cleanup_functions fs = Inr fs1" "fs' = f1 # fs1"
    by (auto simp: res_simps)
  have "f_declaration f1 = f_declaration f"
    using f1(1) by (auto simp: cleanup_function_def Let_def split: if_splits option.splits)
  moreover have "block_all P (f_blocks f1)" if "\<not> f_declaration f"
    using cleanup_function_all [OF f1(1)] Cons.prems(4,5) that by simp
  ultimately show ?case using Cons f1(2,3) by auto
qed simp

lemma block_all_map: "block_all P bbs \<longleftrightarrow> list_all (list_all P) (map bb_insts bbs)"
  by (induction bbs) simp_all

lemma named_insts: "map bb_insts (name_blocks uniq n taken bbs) = map bb_insts bbs"
  by (induction uniq n taken bbs rule: name_blocks.induct) (simp_all add: Let_def)

lemma instrumented_all:
  assumes "leaves_syscalls r M" "f \<in> set (m_functions (instrumented uniq r M))" "\<not> f_declaration f"
  shows "block_all (\<lambda>i. pass_action sz (action_of i)) (f_blocks f)"
proof -
  from assms(2) obtain f0 where f0: "f0 \<in> set (m_functions M)"
    "f = (if skipped f0 then f0 else inject_function r (nameBasicBlocks uniq f0))"
    by (auto simp: instrumented_def instrumented_functions_def)
  with assms(3) have "\<not> f_declaration f0" by (auto simp: inject_function_def nameBasicBlocks_def split: if_splits)
  with assms(1) f0(1) have p: "block_all (\<lambda>i. \<not> calls_syscall i) (f_blocks f0)"
    by (auto simp: leaves_syscalls_def block_all_def)
  then have "block_all (\<lambda>i. \<not> calls_syscall i) (name_blocks uniq (f_name f0) [] (f_blocks f0))"
    by (simp add: block_all_map named_insts)
  with p f0(2) show ?thesis
    by (auto simp: block_all_def inject_function_def nameBasicBlocks_def plain_pass inject_pass)
qed

lemma pass_all:
  assumes "leaves_syscalls r M"
    "MemoryCleanupHandler (SectionAddressHandler data (instrumented uniq r M)) = Inr M'"
  shows "pass_insts (of_nat (length data)) M'"
proof -
  let ?P = "\<lambda>i. pass_action (of_nat (length data)) (action_of i)"
  have s: "block_all ?P (f_blocks f)"
    if "f \<in> set (m_functions (SectionAddressHandler data (instrumented uniq r M)))" "\<not> f_declaration f" for f
    using that instrumented_all [OF assms(1)]
    by (auto simp: SectionAddressHandler_def intro!: insert_first_all split: if_splits)
  from assms(2) obtain fs' where
    "cleanup_functions (m_functions (SectionAddressHandler data (instrumented uniq r M))) = Inr fs'"
    "m_functions M' = fs'" by (auto simp: MemoryCleanupHandler_def res_simps)
  with cleanup_functions_all [of _ fs' _ ?P] s show ?thesis
    by (auto simp: pass_insts_def module_all_def)
qed


section \<open>Calls under the ideal monitor\<close>

text \<open>The library calls of a sequence of instructions, their numbers, and how many are allowed.\<close>

definition listed_calls :: "file_map_reader \<Rightarrow> 'i inst list \<Rightarrow> string list" where
  "listed_calls r is = concat (map (listed_call r) is)"

definition call_numbers :: "file_map_reader \<Rightarrow> 'i inst list \<Rightarrow> u64 list" where
  "call_numbers r is = map (\<lambda>f. of_int (getValueFromMap r f)) (listed_calls r is)"

fun allowed :: "graph \<Rightarrow> nat \<Rightarrow> u64 list \<Rightarrow> nat" where
  "allowed g q [] = 0"
| "allowed g q (c # cs) = (case astep g q c of None \<Rightarrow> 0 | Some q' \<Rightarrow> Suc (allowed g q' cs))"

lemma allowed_le: "allowed g q cs \<le> length cs"
  by (induction g q cs rule: allowed.induct) (auto split: option.splits)

lemma allowed_run: "n \<le> length cs \<Longrightarrow> arun (astep g) q (take n cs) \<noteq> None \<longleftrightarrow> n \<le> allowed g q cs"
proof (induction g q cs arbitrary: n rule: allowed.induct)
  case (2 g q c cs)
  then show ?case by (cases n) (auto split: option.splits)
qed simp

text \<open>When \<^verbatim>\<open>syscall\<close> is not in the listing, the injected calls are no library calls.\<close>

lemma listed_calls_simps [simp]:
  "listed_calls r [] = []" "listed_calls r (i # is) = listed_call r i @ listed_calls r is"
  "listed_calls r (is @ js) = listed_calls r is @ listed_calls r js"
  by (simp_all add: listed_calls_def)

lemma listed_inject:
  assumes "\<not> isStringInMap r ''syscall''" "pending p"
  shows "listed_calls r (injectDummySyscall r is @ p) = listed_calls r is"
proof -
  have d: "listed_call r (dummy_call n) = []" for n
    using assms(1) by (simp add: dummy_call_def syscall_callee_def)
  have l: "listed_calls r (map (\<lambda>f. dummy_call (getValueFromMap r f)) fs) = []" for fs
    by (induction fs) (simp_all add: d)
  have "listed_calls r (injectDummySyscall r is) = listed_calls r is"
  proof (induction "is")
    case (Cons i "is")
    then show ?case by (simp add: inject_Cons [of r i "is"] inject_one l)
  qed simp
  with assms(2) d show ?thesis by (auto simp: pending_def)
qed

fun starts_session :: "action \<Rightarrow> bool" where
  "starts_session (Begin _) \<longleftrightarrow> True"
| "starts_session _ \<longleftrightarrow> False"

definition session_ends :: "action list \<Rightarrow> nat" where
  "session_ends as = length (filter (\<lambda>a. a = End) as)"

text \<open>Within one session, and up to one end of it, the ends have no effect on the calls.\<close>

lemma ideal_session:
  "list_all (\<lambda>a. \<not> starts_session a) as \<Longrightarrow> session_ends as + (if ended then 1 else 0) \<le> 1 \<Longrightarrow>
    ideal_run g q ended as = ideal_run g q False (filter (\<lambda>a. \<not> session_action a) as)"
  by (induction g q ended as rule: ideal_run.induct) (auto simp: session_ends_def split: option.splits)

lemma ideal_inject:
  assumes "plain is" "pending p"
  shows "\<exists>alive tr q'. ideal_run g q ended (map action_of (injectDummySyscall r is @ p)) = Inr (alive, tr, q') \<and>
    filter (isStringInMap r) tr = take (allowed g q (call_numbers r is)) (listed_calls r is) \<and>
    (alive \<longrightarrow> allowed g q (call_numbers r is) = length (listed_calls r is))"
  using assms
proof (induction "is" arbitrary: q)
  case Nil
  then show ?case by (auto simp: pending_def call_numbers_def listed_calls_def split: option.splits)
next
  case (Cons i "is")
  note IH = Cons.IH [OF _ Cons.prems(2)]
  show ?case
  proof (cases "listed_call r i")
    case Nil
    then have e: "listed_calls r (i # is) = listed_calls r is" "call_numbers r (i # is) = call_numbers r is"
      by (simp_all add: listed_calls_def call_numbers_def)
    from Cons.prems(1) have "(\<exists>f. action_of i = Calls f \<and> \<not> isStringInMap r f) \<or> action_of i = Silent"
      using Nil by (cases i rule: calls_syscall.cases) (auto split: if_splits)
    then show ?thesis
      using IH [of q] Cons.prems(1) by (auto simp: e inject_Cons [of r i "is"] inject_one Nil)
  next
    case (Cons f fs)
    then have f: "fs = []" "action_of i = Calls f" "isStringInMap r f"
      using Cons.prems(1) by (cases i rule: calls_syscall.cases; auto split: if_splits)+
    let ?n = "of_int (getValueFromMap r f) :: u64"
    have e: "listed_calls r (i # is) = f # listed_calls r is" "call_numbers r (i # is) = ?n # call_numbers r is"
      using Cons f(1) by (simp_all add: listed_calls_def call_numbers_def)
    show ?thesis
    proof (cases "astep g q ?n")
      case None
      then show ?thesis by (auto simp: e inject_Cons [of r i "is"] inject_one Cons)
    next
      case (Some q1)
      from IH [of q1] Cons.prems(1) obtain alive tr q' where
        "ideal_run g q1 ended (map action_of (injectDummySyscall r is @ p)) = Inr (alive, tr, q')"
        "filter (isStringInMap r) tr = take (allowed g q1 (call_numbers r is)) (listed_calls r is)"
        "alive \<longrightarrow> allowed g q1 (call_numbers r is) = length (listed_calls r is)" by auto
      then show ?thesis using Some f
        by (auto simp: e inject_Cons [of r i "is"] inject_one Cons)
    qed
  qed
qed


section \<open>The beginning of main\<close>

text \<open>The \<^verbatim>\<open>main\<close> functions do something before they return.\<close>

definition main_starts :: "'i ir_module \<Rightarrow> bool" where
  "main_starts M \<longleftrightarrow> (\<forall>f\<in>set (m_functions M). is_main f \<longrightarrow>
     (\<exists>bb bbs i is. f_blocks f = bb # bbs \<and> bb_insts bb = i # is \<and> \<not> is_return i))"

lemma last_inst_found_at:
  "last_inst b0 bbs found = Some (b, k) \<Longrightarrow>
    found = Some (b, k) \<or>
    b0 \<le> b \<and> k = length (takeWhile (\<lambda>i. \<not> is_return i) (bb_insts (bbs ! (b - b0)))) - 1"
proof (induction b0 bbs found rule: last_inst.induct)
  case (2 b0 bb bbs found)
  from 2(1) [OF refl] 2(2) show ?case
    by (auto simp: Let_def nth_Cons' Suc_diff_le split: if_splits)
qed simp

lemma cleanup_keeps_start:
  assumes "cleanup_function f = Inr f'" "f_blocks f = bb # bbs" "bb_insts bb = i # j # is"
    "\<not> is_return i" "\<not> is_return j"
  shows "\<exists>bb' bbs' is'. f_blocks f' = bb' # bbs' \<and> bb_insts bb' = i # is'"
proof (cases "is_main f")
  case True
  with assms(1) obtain b k where l: "last_inst 0 (f_blocks f) None = Some (b, k)"
    "f_blocks f' = (f_blocks f)[b := (f_blocks f ! b)\<lparr>bb_insts :=
      insert_at k cleanup_call (bb_insts (f_blocks f ! b))\<rparr>]"
    by (auto simp: cleanup_function_def Let_def split: option.splits)
  show ?thesis
  proof (cases b)
    case 0
    with last_inst_found_at [OF l(1)] assms(2-5) have "\<exists>k'. k = Suc k'" by auto
    with l(2) 0 assms(2,3) show ?thesis by (auto simp: insert_at_def)
  next
    case (Suc b')
    with l(2) assms(2,3) show ?thesis by simp
  qed
next
  case False
  with assms show ?thesis by (simp add: cleanup_function_def)
qed

lemma instrumented_start:
  assumes "main_starts M" "f \<in> set (m_functions (instrumented uniq r M))" "is_main f"
  shows "\<exists>bb bbs i is. f_blocks f = bb # bbs \<and> bb_insts bb = i # is \<and> \<not> is_return i"
proof -
  from assms(2) obtain f0 where f0: "f0 \<in> set (m_functions M)"
    "f = (if skipped f0 then f0 else inject_function r (nameBasicBlocks uniq f0))"
    by (auto simp: instrumented_def instrumented_functions_def)
  with assms(3) have "is_main f0"
    by (auto simp: is_main_def inject_function_def nameBasicBlocks_def split: if_splits)
  with assms(1) f0(1) obtain bb bbs i "is" where m: "f_blocks f0 = bb # bbs" "bb_insts bb = i # is"
    "\<not> is_return i" by (auto simp: main_starts_def)
  have "\<exists>j js. injectDummySyscall r (i # is) = j # js \<and> \<not> is_return j"
  proof (cases i)
    case (CallInst co args)
    then show ?thesis by (cases co) (auto simp: dummy_call_def)
  qed (use m(3) in simp_all)
  with f0(2) m show ?thesis
    by (auto simp: inject_function_def nameBasicBlocks_def Let_def)
qed

lemma main_begins:
  assumes "MemoryCleanupHandler (SectionAddressHandler data (instrumented uniq r M)) = Inr M'"
    "main_starts M" "f' \<in> set (m_functions M')" "is_main f'"
  shows "\<exists>bb bbs is. f_blocks f' = bb # bbs \<and> bb_insts bb = init_call (of_nat (length data)) # is"
proof -
  let ?i = "init_call (of_nat (length data))"
  from assms(1) have c: "cleanup_functions (m_functions (SectionAddressHandler data (instrumented uniq r M))) =
      Inr (m_functions M')" by (auto simp: MemoryCleanupHandler_def res_simps)
  have *: "\<exists>f\<in>set fs. cleanup_function f = Inr f'" if "cleanup_functions fs = Inr fs'" "f' \<in> set fs'" for fs fs'
    using that by (induction fs arbitrary: fs') (auto simp: res_simps)
  from * [OF c assms(3)] obtain f where f: "f \<in> set (m_functions (SectionAddressHandler data (instrumented uniq r M)))"
    "cleanup_function f = Inr f'" by blast
  from f(2) assms(4) have "is_main f"
    by (auto simp: cleanup_function_def is_main_def Let_def split: if_splits option.splits)
  then obtain f0 where f0: "f0 \<in> set (m_functions (instrumented uniq r M))" "is_main f0"
    "f = f0\<lparr>f_blocks := insert_first ?i (f_blocks f0)\<rparr>"
    using f(1) by (auto simp: SectionAddressHandler_def is_main_def split: if_splits)
  from instrumented_start [OF assms(2) f0(1,2)] obtain bb bbs i "is" where
    "f_blocks f0 = bb # bbs" "bb_insts bb = i # is" "\<not> is_return i" by blast
  with f0(3) have "f_blocks f = bb\<lparr>bb_insts := ?i # i # is\<rparr> # bbs" by simp
  from cleanup_keeps_start [OF f(2) this] \<open>\<not> is_return i\<close> show ?thesis by (simp add: init_call_def)
qed

lemma executes_first:
  assumes "executes M (fr # st) es st'" "fr_rest fr = i # is"
  shows "es = [] \<or> (\<exists>es'. es = i # es')"
  using assms
proof (cases rule: executes.cases)
  case (more e st1 es')
  from more(2) assms(2) have "e = [i]" by (cases rule: istep.cases) auto
  with more show ?thesis by simp
qed simp


section \<open>An execution of the compiled program\<close>

text \<open>
  The execution of the compiled program is that of the program, and it begins a session unless it
  is empty.
\<close>

lemma compiled_execution:
  assumes "leaves_syscalls r M" "main_starts M"
    and "MemoryCleanupHandler (SectionAddressHandler data (instrumented uniq r M)) = Inr M'"
    and "f' \<in> set (m_functions M')" "is_main f'" "executes M' [enter f'] es st"
  obtains f es0 st0 p where "f \<in> set (m_functions M)" "f_name f = f_name f'"
    "executes M [enter f] es0 st0" "own es = injectDummySyscall r es0 @ p" "pending p" "plain es0"
    "es = [] \<or> (\<exists>es'. es = init_call (of_nat (length data)) # es')"
    "list_all (\<lambda>i. pass_action (of_nat (length data)) (action_of i)) es"
proof -
  note rel = pass_rel [OF assms(1,3)]
  from assms(4) rel obtain j where j: "j < length (m_functions M')" "m_functions M' ! j = f'"
    by (auto simp: in_set_conv_nth)
  let ?f = "m_functions M ! j"
  have f: "?f \<in> set (m_functions M)" "function_rel r ?f f'"
    using rel j by (auto simp: module_rel_def list_all2_conv_all_nth)
  have d: "\<not> f_declaration f'" "\<not> f_declaration ?f"
    using assms(5) f(2) by (auto simp: is_main_def function_rel_def)
  from main_begins [OF assms(3,2,4,5)] obtain bb bbs "is" where
    b: "f_blocks f' = bb # bbs" "bb_insts bb = init_call (of_nat (length data)) # is" by blast
  then have ne: "f_blocks f' \<noteq> []" by simp
  note en = enter_rel [OF f(2) d(2) ne]
  from executes_sim [OF rel assms(6), of "[]" "[enter ?f]"] en(1) obtain es0 st0 p where
    e: "executes M [enter ?f] es0 st0" "pending p" "own es = injectDummySyscall r es0 @ p" by auto
  have "module_all (\<lambda>i. \<not> calls_syscall i) M"
    using assms(1) by (auto simp: leaves_syscalls_def module_all_def block_all_def)
  from executes_all [OF e(1) this enter_all [OF this f(1) d(2) en(2)]] have pl: "plain es0" .
  have pa: "list_all (\<lambda>i. pass_action (of_nat (length data)) (action_of i)) es"
    using executes_all [OF assms(6) _ enter_all [OF _ assms(4) d(1) ne]] pass_all [OF assms(1,3)]
    by (simp add: pass_insts_def)
  have "fr_rest (enter f') = init_call (of_nat (length data)) # is" using b by (simp add: enter_def)
  from executes_first [OF assms(6) this] pl pa e f show thesis
    by (intro that [of ?f es0 st0 p]) (auto simp: function_rel_def)
qed


section \<open>Guards on the other kernel version\<close>

lemma exec_plain_fault:
  assumes "\<not> calls_syscall i" "\<And>t. exec_insts mc t is k = Inl e"
  shows "exec_insts mc t (i # is) k = Inl e"
  using assms by (cases i rule: calls_syscall.cases) simp_all

lemma older_faults:
  assumes "mc_config mc" "\<forall>j z. mc_alloc mc j z" "mc_table mc = syscall_tbl_6_8_11" "\<forall>t. mc_junk mc t 2 \<noteq> 0"
  shows "plain is \<Longrightarrow> list_all (unmapped mc) (call_numbers r is) \<Longrightarrow>
    (if kernel_buffer k = KFreed then 1 else 2) \<le> length (listed_calls r is) \<Longrightarrow>
    exec_insts mc t (injectDummySyscall r is) k = Inl Double_free"
proof (induction "is" arbitrary: t k)
  case (Cons i "is")
  show ?case
  proof (cases "listed_call r i")
    case Nil
    then have "exec_insts mc u (injectDummySyscall r is) k = Inl Double_free" for u
      using Cons by (simp add: listed_calls_def call_numbers_def)
    then show ?thesis
      using Cons.prems(1) exec_plain_fault [of i mc] by (simp add: inject_Cons [of r i "is"] inject_one Nil)
  next
    case (Cons f fs)
    then have fs: "fs = []" by (cases i rule: calls_syscall.cases) (auto split: if_splits)
    let ?n = "of_int (getValueFromMap r f) :: u64"
    have e: "listed_calls r (i # is) = f # listed_calls r is" "call_numbers r (i # is) = ?n # call_numbers r is"
      using Cons fs by (simp_all add: listed_calls_def call_numbers_def)
    have u: "unmapped mc ?n" "list_all (unmapped mc) (call_numbers r is)" using Cons.prems(2) e(2) by simp_all
    note g = older_guard [OF assms(1-3) u(1) assms(4) [rule_format], of k t]
    have i: "injectDummySyscall r (i # is) = dummy_call (getValueFromMap r f) # i # injectDummySyscall r is"
      using Cons fs by (simp add: inject_Cons [of r i "is"] inject_one)
    show ?thesis
    proof (cases "kernel_buffer k = KFreed")
      case True
      with g(2) show ?thesis unfolding i by (simp add: dummy_call_def syscall_callee_def)
    next
      case False
      with g(1) obtain v k' where k': "kernel_buffer k' = KFreed"
        "system_call mc (register mc t [Int64 336, Int64 ?n]) k = Inr (Returned v, k')" by blast
      have "exec_insts mc w (injectDummySyscall r is) k' = Inl Double_free" for w
        using Cons.IH [OF _ u(2), of k' w] Cons.prems(1,3) False k'(1) by (simp add: Cons fs)
      then have "exec_insts mc (Suc t) (i # injectDummySyscall r is) k' = Inl Double_free"
        using Cons.prems(1) exec_plain_fault [of i mc] by simp
      with k'(2) show ?thesis unfolding i by (simp add: dummy_call_def syscall_callee_def)
    qed
  qed
qed (simp add: listed_calls_def split: if_splits)


section \<open>Up to the first guard\<close>

text \<open>A kernel whose automaton, in its present state, refuses every call but those in \<open>H\<close>.\<close>

definition refuses :: "u64 set \<Rightarrow> ksys \<Rightarrow> bool" where
  "refuses H k \<longleftrightarrow> (\<forall>c k'. c \<notin> H \<longrightarrow> ks_graph k' = ks_graph k \<longrightarrow> sandbox_dummycall True c k' = Inr (Killed, k'))"

definition unguarded :: "'i inst list \<Rightarrow> 'i inst list" where
  "unguarded is = takeWhile (\<lambda>i. guard_number i = []) is"

lemma unguarded_simps [simp]:
  "unguarded [] = []" "unguarded (i # is) = (if guard_number i = [] then i # unguarded is else [])"
  by (simp_all add: unguarded_def)

lemma guard_action: "guard_number i = (case action_of i of Guard n \<Rightarrow> [n] | _ \<Rightarrow> [])"
proof (cases i rule: called.cases)
  case (1 c args)
  then show ?thesis
    by (cases "CallInst (Some c) args" rule: guard_number.cases) (auto split: list.splits operand.splits)
qed simp_all

lemma session_called: "session_action (action_of i) \<Longrightarrow> called i = [] \<and> guard_number i = []"
  by (cases i rule: called.cases) (auto simp: guard_action split: if_splits list.splits operand.splits)

lemma unguarded_own: "concat (map called (unguarded (own is))) = concat (map called (unguarded is))"
  by (induction "is") (simp_all add: session_called)

lemma unguarded_inject:
  assumes "plain is" "pending p"
  shows "filter (isStringInMap r) (concat (map called (unguarded (injectDummySyscall r is @ p)))) = []"
  using assms(1)
proof (induction "is")
  case Nil
  then show ?case using assms(2) by (auto simp: pending_def guard_dummy_call)
next
  case (Cons i "is")
  show ?case
  proof (cases "listed_call r i")
    case Nil
    then have "filter (isStringInMap r) (called i) = []" by (cases i rule: called.cases) (auto split: if_splits)
    with Cons Nil show ?thesis by (simp add: inject_Cons [of r i "is"] inject_one)
  qed (simp add: inject_Cons [of r i "is"] inject_one guard_dummy_call)
qed

lemma system_refusing:
  assumes "mc_config mc" "mc_table mc = syscall_tbl_6_11_9" "refuses H k" "fn_name c = ''syscall''"
  shows "action_of (CallInst (Some c) args) = Guard w \<Longrightarrow> w \<notin> H \<Longrightarrow>
      system_call mc (register mc t args) k = Inr (Killed, k)"
    and "action_of (CallInst (Some c) args) = End \<Longrightarrow> kernel_buffer k \<noteq> KFreed \<Longrightarrow>
      \<exists>b. system_call mc (register mc t args) k = Inr (Returned 0, k\<lparr>kernel_buffer := b\<rparr>)"
proof -
  assume a: "action_of (CallInst (Some c) args) = Guard w" "w \<notin> H"
  then have "action_of (CallInst (Some c) args) \<noteq> Foreign" by simp
  from this assms(4) show "system_call mc (register mc t args) k = Inr (Killed, k)"
  proof (cases rule: action_cases)
    case (Guard w')
    with a assms(3) have "sandbox_dummycall True w' k = Inr (Killed, k)" by (simp add: refuses_def)
    then show ?thesis using Guard(1) assms(1,2) by (simp add: system_call_def register_def table_entries)
  qed (use a in simp_all)
next
  assume a: "action_of (CallInst (Some c) args) = End" "kernel_buffer k \<noteq> KFreed"
  then have "action_of (CallInst (Some c) args) \<noteq> Foreign" by simp
  from this assms(4) show "\<exists>b. system_call mc (register mc t args) k = Inr (Returned 0, k\<lparr>kernel_buffer := b\<rparr>)"
  proof (cases rule: action_cases)
    case End
    obtain b where "kfree (kernel_buffer k) = Inr b" using a(2) by (cases "kernel_buffer k") simp_all
    then show ?thesis using End(1) assms(1,2)
      by (auto simp: system_call_def register_def table_entries sandbox_cleanup_def)
  qed (use a in simp_all)
qed

lemma exec_refusing:
  assumes "mc_config mc" "mc_table mc = syscall_tbl_6_11_9"
  shows "list_all (\<lambda>i. action_of i \<noteq> Foreign \<and> \<not> starts_session (action_of i)) is \<Longrightarrow> refuses H k \<Longrightarrow>
    (kernel_buffer k = KFreed \<longrightarrow> session_ends (map action_of is) = 0) \<Longrightarrow> session_ends (map action_of is) \<le> 1 \<Longrightarrow>
    guard_numbers is = [] \<or> hd (guard_numbers is) \<notin> H \<Longrightarrow>
    \<exists>k'. exec_insts mc t is k = Inr (guard_numbers is = [], concat (map called (unguarded is)), k')"
proof (induction "is" arbitrary: t k)
  case (Cons i "is")
  note prems = Cons.prems
  consider (silent) "\<nexists>c args. i = CallInst (Some c) args"
    | (calls) c args where "i = CallInst (Some c) args" "fn_name c \<noteq> ''syscall''"
    | (kernel) c args where "i = CallInst (Some c) args" "fn_name c = ''syscall''" by blast
  then show ?case
  proof cases
    case silent
    then have "called i = []" by (cases i rule: called.cases) auto
    with Cons silent show ?thesis
      by (simp add: exec_silent guard_action guard_numbers_def session_ends_def)
  next
    case calls
    then have a: "action_of i = Calls (fn_name c)" by simp
    then have n: "guard_number i = []" by (simp add: guard_action)
    from prems have "\<exists>k'. exec_insts mc (Suc t) is k = Inr (guard_numbers is = [], concat (map called (unguarded is)), k')"
      by (intro Cons.IH) (simp_all add: a guard_action guard_numbers_def session_ends_def)
    with calls n show ?thesis by (auto simp: guard_numbers_def simp del: guard_number.simps)
  next
    case (kernel c args)
    note sc = system_refusing [OF assms prems(2) kernel(2), of args]
    have "action_of (CallInst (Some c) args) \<noteq> Foreign" using prems(1) kernel(1) by simp
    from this kernel(2) show ?thesis
    proof (cases rule: action_cases)
      case (Begin w)
      with prems(1) kernel(1) show ?thesis by simp
    next
      case End
      then have a: "action_of i = End" using kernel(1) by simp
      with prems(3) have live: "kernel_buffer k \<noteq> KFreed" by (auto simp: session_ends_def)
      from sc(2) [OF a [unfolded kernel(1)] this] obtain b where
        "system_call mc (register mc t args) k = Inr (Returned 0, k\<lparr>kernel_buffer := b\<rparr>)" by blast
      moreover have "\<exists>k'. exec_insts mc (Suc t) is (k\<lparr>kernel_buffer := b\<rparr>) =
          Inr (guard_numbers is = [], concat (map called (unguarded is)), k')"
        using prems by (intro Cons.IH) (simp_all add: a guard_action guard_numbers_def session_ends_def refuses_def)
      moreover have "guard_number i = []" using a by (simp add: guard_action)
      ultimately show ?thesis using kernel by (auto simp: guard_numbers_def simp del: guard_number.simps)
    next
      case (Guard w)
      then have n: "guard_number i = [w]" using kernel(1) by (simp add: guard_action)
      with prems(5) have "system_call mc (register mc t args) k = Inr (Killed, k)"
        using sc(1) [OF Guard(2)] n by (simp add: guard_numbers_def)
      with kernel n show ?thesis by (simp add: guard_numbers_def)
    qed
  qed
qed (simp add: guard_numbers_def)


section \<open>A session that ends twice\<close>

fun guard_of :: "action \<Rightarrow> u64 list" where
  "guard_of (Guard n) = [n]"
| "guard_of _ = []"

lemma guard_numbers_actions: "guard_numbers is = concat (map guard_of (map action_of is))"
proof -
  have "guard_number i = guard_of (action_of i)" for i :: "'a inst"
    by (cases "action_of i") (simp_all add: guard_action)
  then have "guard_number = guard_of \<circ> (action_of :: 'a inst \<Rightarrow> action)" by auto
  then show ?thesis by (simp add: guard_numbers_def)
qed

lemma ideal_two_ends:
  "list_all (\<lambda>a. \<not> starts_session a) as \<Longrightarrow> 2 \<le> session_ends as + (if ended then 1 else 0) \<Longrightarrow>
    allowed g q (concat (map guard_of as)) = length (concat (map guard_of as)) \<Longrightarrow>
    ideal_run g q ended as = Inl Double_free"
  by (induction g q ended as rule: ideal_run.induct)
    (auto simp: session_ends_def split: option.splits if_splits)

end
