(* ===== verification/Plugin.thy ===== *)
theory Plugin
  imports ProgramProperties
begin

text \<open>
  The pass as a plugin of \<^verbatim>\<open>opt\<close>: the command-line options of \<^verbatim>\<open>LibcCallGraphGen.cpp\<close>, the output
  macros of \<^verbatim>\<open>LibcCallGraphDebug.h\<close>, the method \<^verbatim>\<open>run\<close> with what it reports to LLVM, writes to a file
  and prints, and the registration under the name \<^verbatim>\<open>libc-sandboxing\<close>.
\<close>

section \<open>Options\<close>

record options =
  libcCallGraphDebug :: bool
  OuputFilenamePrefix :: string
  OuputFilepathPrefix :: string
  InputLibFuncsPath :: string
  PrintControlflowGraph :: bool
  PrintLibcCallGraph :: bool

definition default_options :: options where
  "default_options =
     \<lparr>libcCallGraphDebug = False, OuputFilenamePrefix = [], OuputFilepathPrefix = [],
      InputLibFuncsPath = [], PrintControlflowGraph = False, PrintLibcCallGraph = False\<rparr>"

section \<open>Coloured output\<close>

datatype ansi =
    RESET | BLACK | RED | GREEN | YELLOW | BLUE | MAGENTA | CYAN | WHITE | GREY
  | BOLD_BLACK | BOLD_RED | BOLD_GREEN | BOLD_YELLOW | BOLD_BLUE | BOLD_MAGENTA | BOLD_CYAN
  | BOLD_WHITE | BOLD_GREY

definition escape :: "string \<Rightarrow> string" where
  "escape n = CHR 0x1B # CHR 0x5B # n @ ''m''"

fun ansi_code :: "ansi \<Rightarrow> string" where
  "ansi_code RESET = escape ''0''"
| "ansi_code BLACK = escape ''30''"
| "ansi_code RED = escape ''31''"
| "ansi_code GREEN = escape ''32''"
| "ansi_code YELLOW = escape ''33''"
| "ansi_code BLUE = escape ''34''"
| "ansi_code MAGENTA = escape ''35''"
| "ansi_code CYAN = escape ''36''"
| "ansi_code WHITE = escape ''37''"
| "ansi_code GREY = escape ''90''"
| "ansi_code BOLD_BLACK = escape ''1'' @ escape ''30''"
| "ansi_code BOLD_RED = escape ''1'' @ escape ''31''"
| "ansi_code BOLD_GREEN = escape ''1'' @ escape ''32''"
| "ansi_code BOLD_YELLOW = escape ''1'' @ escape ''33''"
| "ansi_code BOLD_BLUE = escape ''1'' @ escape ''34''"
| "ansi_code BOLD_MAGENTA = escape ''1'' @ escape ''35''"
| "ansi_code BOLD_CYAN = escape ''1'' @ escape ''36''"
| "ansi_code BOLD_WHITE = escape ''1'' @ escape ''37''"
| "ansi_code BOLD_GREY = escape ''1'' @ escape ''90''"

definition tab :: string where "tab = [CHR 0x09]"

text \<open>
  The macros give what they append to \<^verbatim>\<open>errs()\<close>.  The two macros for basic blocks have the same
  expansion: \<open>depth\<close> is the depth of the block in the loops of the function, \<open>first\<close> its first
  instruction as text.  Their last statement is outside the condition.
\<close>

definition DEBUG_PRINT :: "options \<Rightarrow> string \<Rightarrow> string" where
  "DEBUG_PRINT opt x = (if libcCallGraphDebug opt then x else [])"

definition DEBUG_BRANCH_TARGET_INSN :: "options \<Rightarrow> string \<Rightarrow> string \<Rightarrow> string" where
  "DEBUG_BRANCH_TARGET_INSN opt pre first_non_phi =
     (if libcCallGraphDebug opt then pre @ first_non_phi @ [newline] else [])"

definition PRINT_INDENT :: "32 word \<Rightarrow> string" where
  "PRINT_INDENT PrintAlignment = concat (replicate (unat PrintAlignment) tab)"

definition INCREMENT_INDENT :: "32 word \<Rightarrow> 32 word" where
  "INCREMENT_INDENT PrintAlignment = PrintAlignment + 1"

definition DECREMENT_INDENT :: "32 word \<Rightarrow> 32 word" where
  "DECREMENT_INDENT PrintAlignment = (if PrintAlignment > 0 then PrintAlignment - 1 else PrintAlignment)"

definition ERROR_PRINT :: "string \<Rightarrow> string" where
  "ERROR_PRINT x = x"

definition DEBUG_PRINT_BB :: "options \<Rightarrow> 32 word \<Rightarrow> nat \<Rightarrow> string \<Rightarrow> string \<Rightarrow> string" where
  "DEBUG_PRINT_BB opt PrintAlignment depth name first =
     (if libcCallGraphDebug opt
      then PRINT_INDENT PrintAlignment @ concat (replicate depth tab) @
           ansi_code BOLD_YELLOW @ ''Basic Block: '' @ ansi_code BOLD_MAGENTA @ name @
           ansi_code GREY @ '' - '' @ first @ ansi_code RESET @ '' , ''
      else []) @ ansi_code RESET @ [newline]"

definition DEBUG_PRINT_BB_PTR :: "options \<Rightarrow> 32 word \<Rightarrow> nat \<Rightarrow> string \<Rightarrow> string \<Rightarrow> string" where
  "DEBUG_PRINT_BB_PTR opt PrintAlignment depth name first = DEBUG_PRINT_BB opt PrintAlignment depth name first"

lemma indent_returns:
  "unat a < 2 ^ 32 - 1 \<Longrightarrow> PRINT_INDENT (INCREMENT_INDENT a) = PRINT_INDENT a @ tab \<and>
     DECREMENT_INDENT (INCREMENT_INDENT a) = a"
proof -
  assume a: "unat a < 2 ^ 32 - 1"
  then have "unat (a + 1) = Suc (unat a)" by (simp add: unat_word_ariths)
  then have "PRINT_INDENT (a + 1) = PRINT_INDENT a @ tab" "0 < a + 1"
    by (simp_all add: PRINT_INDENT_def word_less_nat_alt replicate_append_same [symmetric])
  then show ?thesis by (simp add: INCREMENT_INDENT_def DECREMENT_INDENT_def)
qed

section \<open>The method \<^verbatim>\<open>run\<close>\<close>

text \<open>What \<^verbatim>\<open>readFileToMap\<close> prints: a message for a missing file, and one for every line without a colon.\<close>

definition reader_messages :: "string \<Rightarrow> string option \<Rightarrow> string" where
  "reader_messages path listing =
     (case listing of
        None \<Rightarrow> ''Error opening file: '' @ path @ [newline]
      | Some content \<Rightarrow>
          concat (map (\<lambda>l. if CHR '':'' \<in> set l then []
            else ''Invalid line format: '' @ l @ [newline]) (getlines content)))"

text \<open>What \<^verbatim>\<open>CombineLibcgGraph\<close> prints after it has written the drawing.\<close>

definition final_messages :: "options \<Rightarrow> string \<Rightarrow> 'g final_graph \<Rightarrow> string" where
  "final_messages opt file fg =
     DEBUG_PRINT opt (ansi_code BOLD_GREEN @ ''Output filename: '' @ ansi_code BOLD_WHITE @ file @
       ansi_code RESET @ [newline]) @
     DEBUG_PRINT opt (ansi_code BOLD_GREEN @ tab @ ''Entry Node: '' @ ansi_code BOLD_WHITE @
       finalGraphEntryNode fg @ ansi_code RESET @ [newline]) @
     DEBUG_PRINT opt (ansi_code BOLD_GREEN @ tab @ ''Exit Node: '' @ ansi_code BOLD_WHITE @
       finalGraphExitNode fg @ ansi_code RESET @ [newline])"

text \<open>
  What \<^verbatim>\<open>GenerateInMemoryGraph\<close> prints: the graph library it calls reports \<^verbatim>\<open>initialize_graph\<close> and
  \<^verbatim>\<open>finalize_graph\<close> on the standard error stream, with the macro of its user-space build, which
  ends what it is given with another newline.  No option turns this off.
\<close>

definition PRINT_DEBUG :: "string \<Rightarrow> string" where
  "PRINT_DEBUG msg = msg @ [newline]"

definition generation_messages :: string where
  "generation_messages =
     PRINT_DEBUG (''Graph initialized.'' @ [newline]) @ PRINT_DEBUG (''Graph finalized'' @ [newline])"

text \<open>\<^verbatim>\<open>PreservedAnalyses\<close>: LLVM may keep all results of analyses, or none.\<close>

datatype preserved_analyses = PreservedAll | PreservedNone

record 'i pass_output =
  preserved :: preserved_analyses
  out_module :: "'i ir_module"
  dot_file :: "string \<times> string"
  messages :: string

type_synonym graph_writer = "(vertex_id \<times> string) list \<Rightarrow> (edge_id \<times> string) list \<Rightarrow> string"

text \<open>\<open>disk\<close> gives the contents of the files that can be opened.\<close>

definition run ::
    "'g graaf \<Rightarrow> env \<Rightarrow> (string list \<Rightarrow> string \<Rightarrow> string) \<Rightarrow> (string \<Rightarrow> 64 word) \<Rightarrow>
     64 word list \<times> 64 word list \<Rightarrow> graph_writer \<Rightarrow> nat \<Rightarrow> options \<Rightarrow> (string \<rightharpoonup> string) \<Rightarrow>
     file_map_reader \<Rightarrow> 'i ir_module \<Rightarrow> 'g metas \<Rightarrow> memgraph \<Rightarrow> ('i pass_output \<times> memgraph) res option" where
  "run L e uniq hash junk to_dot fuel opt disk r M ms s =
     (let listing = disk (InputLibFuncsPath opt)
      in map_option (\<lambda>outcome. and_then outcome (\<lambda>(Changed, M', fg, s').
           let (file, fg') = dump_final L to_dot (OuputFilepathPrefix opt) (OuputFilenamePrefix opt) fg
           in Inr (\<lparr>preserved = (if Changed then PreservedNone else PreservedAll), out_module = M',
                    dot_file = file,
                    messages = reader_messages (InputLibFuncsPath opt) listing @
                      final_messages opt (fst file) fg @ generation_messages\<rparr>, s')))
         (pass_run L e uniq hash junk fuel listing r M ms s))"

section \<open>Registration\<close>

text \<open>
  The passes of a pipeline are what the callbacks of the plugins add for their names; \<open>others\<close> are
  the names LLVM and other plugins know.  A pipeline with an unknown name is refused.
\<close>

datatype pipeline_pass = LibcSandboxing | Other_pass string

definition parse_callback :: "string \<Rightarrow> pipeline_pass list \<Rightarrow> bool \<times> pipeline_pass list" where
  "parse_callback name mpm =
     (if name = ''libc-sandboxing'' then (True, mpm @ [LibcSandboxing]) else (False, mpm))"

fun parse_pipeline :: "string set \<Rightarrow> string list \<Rightarrow> pipeline_pass list \<Rightarrow> pipeline_pass list option" where
  "parse_pipeline others [] mpm = Some mpm"
| "parse_pipeline others (n # ns) mpm =
     (case parse_callback n mpm of
        (True, mpm') \<Rightarrow> parse_pipeline others ns mpm'
      | (False, mpm') \<Rightarrow> if n \<in> others then parse_pipeline others ns (mpm' @ [Other_pass n]) else None)"

lemma pipeline_kept:
  "parse_pipeline others ns mpm = Some mpm' \<Longrightarrow>
     mpm' = mpm @ map (\<lambda>n. if n = ''libc-sandboxing'' then LibcSandboxing else Other_pass n) ns"
  by (induction others ns mpm rule: parse_pipeline.induct)
     (auto simp: parse_callback_def split: if_splits)

section \<open>What a run reports\<close>

lemma cleanup_keeps_globals: "MemoryCleanupHandler M = Inr M' \<Longrightarrow> m_globals M' = m_globals M"
  by (cases "cleanup_functions (m_functions M)") (auto simp: MemoryCleanupHandler_def)

lemma section_globals:
  "m_globals (SectionAddressHandler data M) =
     m_globals M @ [(''SanboxInitData'', ''sandbox_init_data_section'', data)]"
  by (simp add: SectionAddressHandler_def)

lemma quiet_messages: "\<not> libcCallGraphDebug opt \<Longrightarrow> final_messages opt file fg = []"
  by (simp add: final_messages_def DEBUG_PRINT_def)

lemma run_of_module:
  assumes "readFileToMap (disk (InputLibFuncsPath opt)) r = Inr (b, r1)"
    and "runOnModule L e uniq hash junk fuel r1 M ms s = Some (Inr (ch, M', fg, s'))"
  shows "\<exists>out. run L e uniq hash junk to_dot fuel opt disk r M ms s = Some (Inr (out, s')) \<and>
    preserved out = (if ch then PreservedNone else PreservedAll) \<and> out_module out = M' \<and>
    fst (dot_file out) = OuputFilepathPrefix opt @ ''/'' @ OuputFilenamePrefix opt @ ''final.dot'' \<and>
    messages out = reader_messages (InputLibFuncsPath opt) (disk (InputLibFuncsPath opt)) @
      final_messages opt (fst (dot_file out)) fg @ generation_messages"
  using assms by (simp add: run_def pass_run_def dump_final_def split: prod.split)

text \<open>
  C36. What the pass reports.  Whatever the options, \<^verbatim>\<open>run\<close> comes to an end, with the failed
  assertion or with a new module; without \<^verbatim>\<open>-cg-debug\<close> it prints what the reader of the listing and
  the graph library have to say.  It tells LLVM that all analyses are preserved exactly when no library call was found, although the
  module has changed in either case: the pool is a new global array.
\<close>

theorem run_misreports_changes:
  assumes "graaf_lib L ok" "block_namer uniq" "well_formed M" "ample e"
    and "length (fst junk) = 1000" "length (snd junk) = 1000"
    and "readFileToMap (disk (InputLibFuncsPath opt)) r = Inr (b, r1)"
  shows "\<exists>n. \<forall>fuel>n. case run L e uniq hash junk to_dot fuel opt disk r M [] memgraph_init of
      None \<Rightarrow> False
    | Some (Inl x) \<Rightarrow> x = Assert_failed
    | Some (Inr (out, s')) \<Rightarrow>
        (preserved out = PreservedAll \<longleftrightarrow> \<not> (\<exists>f\<in>processed uniq M. has_library_call r1 f)) \<and>
        (\<exists>m. m_globals (out_module out) =
           m_globals M @ [(''SanboxInitData'', ''sandbox_init_data_section'', map m [0..<1024 * 1024])]) \<and>
        out_module out \<noteq> M \<and>
        fst (dot_file out) = OuputFilepathPrefix opt @ ''/'' @ OuputFilenamePrefix opt @ ''final.dot'' \<and>
        (\<not> libcCallGraphDebug opt \<longrightarrow>
           messages out = reader_messages (InputLibFuncsPath opt) (disk (InputLibFuncsPath opt)) @
             generation_messages)"
    (is "\<exists>n. \<forall>fuel>n. ?good fuel")
proof -
  note ok = block_namer.well_formed_ok [OF assms(2,3)]
  obtain n res fg where res:
    "\<forall>fuel>n. runOnModule L e uniq hash junk fuel r1 M [] memgraph_init = Some res"
    "graaf_lib.pass_result L ok uniq hash junk r1 M res fg"
    using graaf_lib.run_inv [OF assms(1) ok assms(4-6)] by blast
  note result = res(2) [unfolded graaf_lib.pass_result_def [OF assms(1)]]
  show ?thesis
  proof (cases "length (get_vertices L (finalGraph fg)) < 32")
    case False
    with result have "res = Inl Assert_failed" by simp
    with res(1) assms(7) show ?thesis by (auto simp: run_def pass_run_def intro!: exI [of _ n])
  next
    case True
    with result obtain m M' s' where m:
      "res = Inr (\<exists>f\<in>processed uniq M. has_library_call r1 f, M', fg, s')"
      "MemoryCleanupHandler (SectionAddressHandler (map m [0..<1024 * 1024]) (instrumented uniq r1 M)) = Inr M'"
      by auto
    from cleanup_keeps_globals [OF m(2)] have M': "m_globals M' =
        m_globals M @ [(''SanboxInitData'', ''sandbox_init_data_section'', map m [0..<1024 * 1024])]"
      by (simp add: section_globals instrumented_def del: upt.simps)
    then have "M' \<noteq> M" by (auto dest: arg_cong [of _ _ "\<lambda>M. length (m_globals M)"])
    show ?thesis
    proof (intro exI [of _ n] allI impI)
      fix fuel assume "n < fuel"
      with res(1) m(1) have r: "runOnModule L e uniq hash junk fuel r1 M [] memgraph_init =
        Some (Inr (\<exists>f\<in>processed uniq M. has_library_call r1 f, M', fg, s'))" by blast
      from run_of_module [where disk = disk and opt = opt, OF assms(7) r, of to_dot] M' \<open>M' \<noteq> M\<close>
      show "?good fuel" by (auto simp: quiet_messages simp del: upt.simps)
    qed
  qed
qed

text \<open>
  Two options that nobody reads.  \<^verbatim>\<open>-cg-print-cfg\<close> and \<^verbatim>\<open>-cg-print-libc-cg\<close> change nothing.
\<close>

lemma print_options_unread:
  "run L e uniq hash junk to_dot fuel (opt\<lparr>PrintControlflowGraph := a, PrintLibcCallGraph := b\<rparr>) disk r M ms s =
   run L e uniq hash junk to_dot fuel opt disk r M ms s"
  by (simp add: run_def final_messages_def DEBUG_PRINT_def)

text \<open>A program that calls no library function, compiled with the default options.\<close>

definition plain_fun :: "unit ir_function" where
  "plain_fun = \<lparr>f_name = ''main'', f_declaration = False, f_blocks =
     [\<lparr>bb_operand = ''a'', bb_name = ''[main]a'', bb_insts = [OtherInst (), ReturnInst ()], bb_succs = []\<rparr>]\<rparr>"

definition plain_module :: "unit ir_module" where
  "plain_module = \<lparr>m_functions = [plain_fun], m_globals = []\<rparr>"

lemma plain_module_ok: "well_formed plain_module"
  by (auto simp: well_formed_def plain_module_def plain_fun_def flow_ok_def plain_function_def)

lemma plain_module_unlisted:
  "\<not> (\<exists>f\<in>processed counting_namer plain_module. has_library_call r f)"
  by (auto simp: processed_def plain_module_def plain_fun_def has_library_call_def nameBasicBlocks_def Let_def)

definition plain_graph :: "agraph callgraph" where
  "plain_graph = snd (CallGraph.add_vertex assoc_graaf ''[main]a'' False (cg_empty assoc_graaf))"

lemma plain_run:
  "runOnModule assoc_graaf e counting_namer hash junk 3 reader_init plain_module [] s =
     Some (and_then (GenerateInMemoryGraph assoc_graaf e hash junk reader_init plain_graph plain_module s) (\<lambda>(M1, s1).
       and_then (MemoryCleanupHandler M1) (\<lambda>M2. Inr (False, M2, \<lparr>finalGraph = plain_graph,
         finalGraphEntryNode = ''[main]a'', finalGraphExitNode = ''[main]a''\<rparr>, s1))))"
  by (simp add: runOnModule_def plain_module_def plain_fun_def skipped_def starts_with_def nameBasicBlocks_def
      counting_namer_def analyse_function_def meta_init_def add_block_def returns_def no_predecessors_def
      getLibraryCalls_def CombineLibcgGraph_def map_index_def eval_nat_numeral get_vertices_def
      labelled_neighbors_def inject_function_def has_library_call_def plain_graph_def
      get_outgoing_edges_def ag_eval)

lemma plain_runs:
  "\<exists>out s'. \<forall>fuel\<ge>3. run assoc_graaf (ample_env User) counting_namer demo_hash demo_junk to_dot fuel
     default_options Map.empty reader_init plain_module [] memgraph_init = Some (Inr (out, s'))"
proof -
  have "cg_inv assoc_graaf ag_ok plain_graph"
    unfolding plain_graph_def using assoc.add_vertex_inv [OF assoc.empty_inv(1)] by (metis prod.collapse)
  moreover have "length (get_vertices assoc_graaf plain_graph) = 1"
    by (simp add: get_vertices_def plain_graph_def ag_eval)
  ultimately obtain m s' where gen: "GenerateInMemoryGraph assoc_graaf (ample_env User) demo_hash demo_junk
      reader_init plain_graph plain_module memgraph_init =
      Inr (SectionAddressHandler (map m [0..<1024 * 1024]) plain_module, s')"
    using assoc.generate_inv [OF _ ample_ample_env demo_junk_length refl, of plain_graph User demo_hash reader_init
        plain_module] by auto
  have "\<forall>f\<in>set (m_functions plain_module). is_main f \<longrightarrow> f_blocks f \<noteq> []"
    by (simp add: plain_module_def plain_fun_def)
  from cleanup_after_section [OF this] obtain M' where
    "MemoryCleanupHandler (SectionAddressHandler (map m [0..<1024 * 1024]) plain_module) = Inr M'" by blast
  with gen have "runOnModule assoc_graaf (ample_env User) counting_namer demo_hash demo_junk 3 reader_init
      plain_module [] memgraph_init = Some (Inr (False, M', \<lparr>finalGraph = plain_graph,
        finalGraphEntryNode = ''[main]a'', finalGraphExitNode = ''[main]a''\<rparr>, s'))"
    unfolding plain_run by simp
  from run_more [OF this] obtain ch M' fg s' where r: "\<And>fuel. 3 \<le> fuel \<Longrightarrow>
      runOnModule assoc_graaf (ample_env User) counting_namer demo_hash demo_junk fuel reader_init
        plain_module [] memgraph_init = Some (Inr (ch, M', fg, s'))" by blast
  have "readFileToMap None reader_init = Inr (False, reader_init)"
    by (simp add: readFileToMap_def reader_init_def)
  then show ?thesis using r by (simp add: run_def pass_run_def dump_final_def split: prod.split)
qed

theorem run_misreports_changes_witness:
  "\<exists>fuel out s'. run assoc_graaf (ample_env User) counting_namer demo_hash demo_junk (\<lambda>_ _. [])
      fuel default_options Map.empty reader_init plain_module [] memgraph_init = Some (Inr (out, s')) \<and>
    preserved out = PreservedAll \<and> out_module out \<noteq> plain_module \<and> fst (dot_file out) = ''/final.dot''"
proof -
  have rd: "readFileToMap (Map.empty (InputLibFuncsPath default_options)) reader_init = Inr (False, reader_init)"
    by (simp add: readFileToMap_def reader_init_def)
  note main = run_misreports_changes [OF assoc.graaf_lib_axioms counting.block_namer_axioms plain_module_ok
      ample_ample_env [of User] demo_junk_length, where hash = demo_hash and to_dot = "\<lambda>_ _. []"
      and opt = default_options and disk = Map.empty, OF rd]
  obtain out s' where out: "\<And>fuel. 3 \<le> fuel \<Longrightarrow>
      run assoc_graaf (ample_env User) counting_namer demo_hash demo_junk (\<lambda>_ _. []) fuel default_options
        Map.empty reader_init plain_module [] memgraph_init = Some (Inr (out, s'))"
    using plain_runs [of "\<lambda>_ _. []"] by blast
  show ?thesis
    using main
  proof (elim exE, goal_cases)
    case (1 n)
    from 1 [rule_format, of "Suc (max 3 n)"] out [of "Suc (max 3 n)"]
    have "preserved out = PreservedAll \<and> out_module out \<noteq> plain_module \<and> fst (dot_file out) = ''/final.dot''"
      by (simp add: plain_module_unlisted del: upt.simps) (simp add: default_options_def)
    with out [of 3] show ?thesis by blast
  qed
qed

end
