(* ===== verification/MachineProperties.thy ===== *)
theory MachineProperties
  imports Mediation Demo ExactProperties Plugin
begin

text \<open>
  The properties of a compiled program in execution on a patched kernel: which of its library
  calls are made, on the kernel version the pass was written for and on the other.
\<close>

section \<open>A compiled loop\<close>

text \<open>
  The loop of two calls that merging is exact for, compiled: the cleanup call is in the loop.
\<close>

definition loop_module :: "unit ir_module" where
  "loop_module = \<lparr>m_functions = [loop_fun], m_globals = []\<rparr>"

definition loop_body :: "unit inst list" where
  "loop_body = [dummy_call 7, CallInst (Some (lib_callee ''read'')) [], dummy_call 9,
     CallInst (Some (lib_callee ''write'')) [], cleanup_call, OtherInst ()]"

definition loop_main :: "u64 \<Rightarrow> unit ir_function" where
  "loop_main sz = fun_of
     [(call_block ''a'' [] [1])\<lparr>bb_insts := [init_call sz, OtherInst ()]\<rparr>,
      (call_block ''b'' [] [1, 2])\<lparr>bb_insts := loop_body\<rparr>, call_block ''c'' [] []]"

definition loop_compiled :: "8 word list \<Rightarrow> unit ir_module" where
  "loop_compiled data = \<lparr>m_functions = [loop_main (of_nat (length data))],
     m_globals = [(''SanboxInitData'', ''sandbox_init_data_section'', data)]\<rparr>"

lemma loop_compiles:
  "MemoryCleanupHandler (SectionAddressHandler data (instrumented counting_namer demo_reader loop_module)) =
     Inr (loop_compiled data)"
proof -
  have "is_main loop_fun" "\<not> skipped loop_fun"
    by (simp_all add: is_main_def skipped_def loop_fun_def fun_of_def starts_with_def)
  then have "instrumented counting_namer demo_reader loop_module = \<lparr>m_functions = [inject_function demo_reader loop_fun], m_globals = []\<rparr>"
    by (simp add: instrumented_def instrumented_functions_def loop_module_def loop_fun_named)
  then show ?thesis
    by (simp add: MemoryCleanupHandler_def SectionAddressHandler_def is_main_def starts_with_def
        inject_function_def loop_fun_def demo_blocks getValueFromMap_def cleanup_function_def insert_at_def loop_compiled_def
        loop_main_def loop_body_def dummy_call_def init_call_def cleanup_call_def Let_def)
qed

lemma loop_leaves: "leaves_syscalls demo_reader loop_module" "main_starts loop_module"
  by (simp_all add: leaves_syscalls_def main_starts_def loop_module_def loop_fun_def demo_blocks skipped_def
      starts_with_def)

lemma loop_main_ok: "loop_main (of_nat (length data)) \<in> set (m_functions (loop_compiled data))" "is_main (loop_main sz)"
  by (simp_all add: loop_compiled_def loop_main_def is_main_def fun_of_def starts_with_def)

definition loop_events :: "u64 \<Rightarrow> nat \<Rightarrow> unit inst list" where
  "loop_events sz n = init_call sz # OtherInst () # concat (replicate n loop_body) @ [ReturnInst ()]"

lemma loop_executes:
  "executes (loop_compiled data) [enter (loop_main (of_nat (length data)))] (loop_events (of_nat (length data)) (Suc n)) []"
proof -
  let ?M = "loop_compiled data" and ?sz = "of_nat (length data) :: u64"
  let ?fr = "\<lambda>b is. \<lparr>fr_blocks = f_blocks (loop_main ?sz), fr_block = b, fr_rest = is\<rparr>"
  have t: "target ?M (Some (lib_callee ''read'')) = None" "target ?M (Some (lib_callee ''write'')) = None"
    "target ?M (Some syscall_callee) = None"
    by (simp_all add: loop_compiled_def loop_main_def fun_of_def lib_callee_def syscall_callee_def)
  have pass: "list_all (proceeds ?M) loop_body" "list_all (proceeds ?M) [init_call ?sz, OtherInst ()]"
    using t by (simp_all add: loop_body_def dummy_call_def init_call_def cleanup_call_def)
  have body: "executes ?M [?fr 1 loop_body] loop_body [?fr 1 []]"
    using executes_passing [OF pass(1), of "?fr 1 loop_body" "[]" "[]"] by simp
  have jump: "istep ?M [?fr b []] [] [?fr c (bb_insts (f_blocks (loop_main ?sz) ! c))]"
    if "(b, c) \<in> {(0, 1), (1, 1), (1, 2)}" for b c
    using that istep.jump [of "?fr b []" c ?M "[]"] by (auto simp: loop_main_def fun_of_def call_block_def)
  have b: "bb_insts (f_blocks (loop_main ?sz) ! 1) = loop_body"
    "bb_insts (f_blocks (loop_main ?sz) ! 2) = [ReturnInst ()]"
    by (simp_all add: loop_main_def fun_of_def call_block_def)
  have loop: "executes ?M [?fr 1 loop_body] (concat (replicate (Suc n) loop_body) @ [ReturnInst ()]) []" for n
  proof (induction n)
    case 0
    have "executes ?M [?fr 2 [ReturnInst ()]] [ReturnInst ()] []"
      using istep.ret [of "?fr 2 [ReturnInst ()]" "()" "[]" ?M "[]"] by (simp add: executes_step)
    from executes.more [OF jump [of 1 2, unfolded b] this] executes_trans [OF body] show ?case by simp
  next
    case (Suc n)
    from executes.more [OF jump [of 1 1, unfolded b] Suc.IH] executes_trans [OF body] show ?case by simp
  qed
  have "executes ?M [?fr 0 [init_call ?sz, OtherInst ()]] [init_call ?sz, OtherInst ()] [?fr 0 []]"
    using executes_passing [OF pass(2), of "?fr 0 [init_call ?sz, OtherInst ()]" "[]" "[]"] by simp
  from executes_trans [OF this executes.more [OF jump [of 0 1, unfolded b] loop [of n]]]
  show ?thesis by (simp add: loop_events_def enter_def loop_main_def fun_of_def)
qed

section \<open>A process with an automaton\<close>

text \<open>The embedded data in the memory of the process.\<close>

definition data_buffer :: "8 word list \<Rightarrow> buffer" where
  "data_buffer data = \<lparr>buf_len = length data, buf_bytes = (\<lambda>i. data ! i)\<rparr>"

lemma embedded_sealed:
  assumes "sealed m g" "fits g" "data = map m [0..<1024 * 1024]"
  shows "sealed (buf_bytes (data_buffer data)) g" "unat (of_nat (length data) :: u64) = MEMORY_POOL_SIZE"
    "buf_len (data_buffer data) = MEMORY_POOL_SIZE"
proof -
  have len: "length data = MEMORY_POOL_SIZE" by (simp add: assms(3) layout_simps)
  then show "unat (of_nat (length data) :: u64) = MEMORY_POOL_SIZE"
    "buf_len (data_buffer data) = MEMORY_POOL_SIZE" by (simp_all add: layout_simps data_buffer_def)
  have "sealed (\<lambda>i. data ! i) g"
  proof (rule sealed_cong [OF assms(1)])
    fix i assume "i < NODE_TABLE_OFFSET + graph_size g"
    with assms(2) have "i < 1024 * 1024" by (simp add: fits_def layout_simps)
    then show "data ! i = m i" by (simp add: assms(3))
  qed
  then show "sealed (buf_bytes (data_buffer data)) g" by (simp add: data_buffer_def)
qed

lemma embedded_installs:
  assumes "sealed m g" "fits g" "g \<noteq> []" "data = map m [0..<1024 * 1024]"
    and "\<forall>j z. al j z" "table_large (ks_graph k) (length g)" "kernel_buffer k \<noteq> KFreed"
  obtains k' where "sandbox_init True al (Some (data_buffer data)) (of_nat (length data)) k = Inr (Returned 0, k')"
    "kernel_buffer k' \<noteq> KFreed" "refuses (fst ` set (ps_edges (g ! 0))) k'"
proof -
  let ?d = "data_buffer data"
  note d = embedded_sealed [OF assms(1,2,4)]
  have "NODE_TABLE_OFFSET + graph_size g \<le> unat (of_nat (length data) :: u64)"
    "unat (of_nat (length data) :: u64) \<le> buf_len ?d" "unat (of_nat (length data) :: u64) \<le> MEMORY_POOL_SIZE"
    using assms(2) unfolding d(2,3) by (simp_all add: fits_def)
  from init_any_graph [OF assms(5) d(1) assms(2,3) this assms(6,7)] obtain k' where
    k': "sandbox_init True al (Some ?d) (of_nat (length data)) k = Inr (Returned 0, k')"
    "kernel_buffer k' = KLive \<lparr>buf_len = unat (of_nat (length data) :: u64), buf_bytes = buf_bytes ?d\<rparr>"
    "\<And>c k''. map_of (ps_edges (g ! 0)) c = None \<Longrightarrow> ks_graph k'' = ks_graph k' \<Longrightarrow>
       sandbox_dummycall True c k'' = Inr (Killed, k'')" by metis
  have "refuses (fst ` set (ps_edges (g ! 0))) k'"
    using k'(3) by (simp add: refuses_def map_of_eq_None_iff)
  with that k'(1,2) show thesis by simp
qed

definition cycle_graph :: graph where
  "cycle_graph = [\<lparr>ps_id = 0, ps_edges = [(7, 1)]\<rparr>, \<lparr>ps_id = 1, ps_edges = [(9, 2)]\<rparr>,
     \<lparr>ps_id = 2, ps_edges = [(7, 1)]\<rparr>]"

lemma cycle_graph_ok: "wf_graph cycle_graph" "cycle_graph \<noteq> []" "fits cycle_graph" "room_for cycle_graph"
  by (simp_all add: cycle_graph_def wf_graph_def fits_def room_for_def node_size_def layout_simps
      all_less_Suc_split less_Suc_eq numeral_3_eq_3)

definition loop_machine :: "(u64 \<Rightarrow> sysent option) \<Rightarrow> 8 word list \<Rightarrow> unit machine" where
  "loop_machine tbl data = \<lparr>mc_config = True, mc_alloc = (\<lambda>_ _. True), mc_table = tbl,
     mc_memory = (\<lambda>a. if a = 4096 then data_buffer data else \<lparr>buf_len = 0, buf_bytes = (\<lambda>_. 0)\<rparr>),
     mc_image = 4096, mc_value = (\<lambda>_. 0), mc_junk = (\<lambda>_ _. 1)\<rparr>"

lemma loop_hosted:
  "\<exists>data. hosts (loop_machine syscall_tbl_6_11_9 data) (of_nat (length data)) cycle_graph"
proof -
  obtain s m where m: "sealed m cycle_graph" using build_graph_spec [OF cycle_graph_ok(4)] by metis
  define data where "data = map m [0..<1024 * 1024]"
  note d = embedded_sealed [OF m cycle_graph_ok(3) data_def]
  have "carries (data_buffer data) (of_nat (length data)) cycle_graph"
    unfolding carries_def d(2,3) using d(1) cycle_graph_ok by (simp add: fits_def)
  then have "hosts (loop_machine syscall_tbl_6_11_9 data) (of_nat (length data)) cycle_graph"
    by (simp add: hosts_def loop_machine_def)
  then show ?thesis by blast
qed

section \<open>The kernel as the ideal monitor\<close>

text \<open>
  C10. The injected system calls mean what they should.  On a kernel of version 6.11.9 whose
  process carries an automaton, the instructions of a program, from its call of
  \<^verbatim>\<open>sandbox_init\<close> on, have the outcome of the ideal monitor: the same faults, the same calls made,
  alive or killed at the same place, and in the end the kernel enforces the automaton at the
  monitor's state.  Sessions may begin and end anywhere in between.
\<close>

theorem machine_is_ideal_monitor:
  assumes "hosts mc sz g" "table_large (ks_graph k) (length g)" "kernel_buffer k \<noteq> KFreed"
    and "list_all (pass_action sz) (map action_of is)"
  shows "matches g (ideal_run g q False (Begin sz # map action_of is)) (exec_insts mc t (init_call sz # is) k)"
  using assms by (rule session_ideal)

theorem machine_is_ideal_monitor_witness:
  "\<exists>data k'. exec_insts (loop_machine syscall_tbl_6_11_9 data) 0
     (init_call (of_nat (length data)) # loop_body @ loop_body) ksys_init = Inl Double_free \<and>
   exec_insts (loop_machine syscall_tbl_6_11_9 data) 0
     [init_call (of_nat (length data)), dummy_call 7, CallInst (Some (lib_callee ''read'')) [],
      dummy_call 7, CallInst (Some (lib_callee ''read'')) []] ksys_init = Inr (False, [''read''], k')"
proof -
  obtain data where h: "hosts (loop_machine syscall_tbl_6_11_9 data) (of_nat (length data)) cycle_graph"
    using loop_hosted by blast
  note machine_is_ideal_monitor [OF h ksys_init_ready, of _ 0 0]
  from this [of "loop_body @ loop_body"] this [of "[dummy_call 7, CallInst (Some (lib_callee ''read'')) [],
      dummy_call 7, CallInst (Some (lib_callee ''read'')) []]"]
  show ?thesis
    by (simp add: loop_body_def lib_callee_def cycle_graph_def astep_def) blast
qed

section \<open>Compiled programs\<close>

text \<open>
  C3. A compiled program makes the calls its automaton allows, and no others.  Take a module the
  pass has instrumented, around the data of an automaton, and an execution of it from the start of
  a \<^verbatim>\<open>main\<close> function that begins one session and ends at most one.  The execution is one of the
  original module with the injected calls; on a ready kernel it does not fault, the library calls
  made are the first ones of the original execution, up to the first that the automaton does not
  allow, and the process is alive at the end only if that is all of them.
\<close>

theorem compiled_program_is_mediated:
  assumes "leaves_syscalls r M" "main_starts M"
    and "MemoryCleanupHandler (SectionAddressHandler data (instrumented uniq r M)) = Inr M'"
    and "f' \<in> set (m_functions M')" "is_main f'" "executes M' [enter f'] es st"
    and "list_all (\<lambda>i. \<not> starts_session (action_of i)) (tl es)" "session_ends (map action_of es) \<le> 1"
    and "hosts mc (of_nat (length data)) g"
      "table_large (ks_graph k) (length g)" "kernel_buffer k \<noteq> KFreed"
  shows "\<exists>f es0 st0 p alive tr k'. f \<in> set (m_functions M) \<and> f_name f = f_name f' \<and>
    executes M [enter f] es0 st0 \<and> own es = injectDummySyscall r es0 @ p \<and> pending p \<and>
    exec_insts mc t es k = Inr (alive, tr, k') \<and>
    filter (isStringInMap r) tr = take (allowed g 0 (call_numbers r es0)) (listed_calls r es0) \<and>
    (alive \<longrightarrow> allowed g 0 (call_numbers r es0) = length (listed_calls r es0))"
proof -
  let ?sz = "of_nat (length data)"
  from compiled_execution [OF assms(1-6)] obtain f es0 st0 p where
    e: "f \<in> set (m_functions M)" "f_name f = f_name f'" "executes M [enter f] es0 st0"
    "own es = injectDummySyscall r es0 @ p" "pending p" "plain es0"
    "es = [] \<or> (\<exists>es'. es = init_call ?sz # es')"
    "list_all (\<lambda>i. pass_action ?sz (action_of i)) es" .
  have "\<exists>alive tr k'. exec_insts mc t es k = Inr (alive, tr, k') \<and>
      filter (isStringInMap r) tr = take (allowed g 0 (call_numbers r es0)) (listed_calls r es0) \<and>
      (alive \<longrightarrow> allowed g 0 (call_numbers r es0) = length (listed_calls r es0))"
    using e(7)
  proof (elim disjE exE)
    assume "es = []"
    then show ?thesis using ideal_inject [OF e(6,5), of g 0 False r] e(4) by simp
  next
    fix es' assume es: "es = init_call ?sz # es'"
    let ?as = "map action_of es'"
    have "ideal_run g 0 False (Begin ?sz # ?as) = ideal_run g 0 False (map action_of (own es'))"
      using ideal_session [of ?as False g 0] assms(7,8) es
      by (simp add: own_def filter_map o_def list_all_iff session_ends_def)
    also have "own es' = injectDummySyscall r es0 @ p" using e(4) es by simp
    finally have r: "ideal_run g 0 False (Begin ?sz # ?as) =
      ideal_run g 0 False (map action_of (injectDummySyscall r es0 @ p))" .
    have "list_all (pass_action ?sz) ?as" using e(8) es by (simp add: list_all_iff)
    from session_ideal [OF assms(9-11) this, of 0 t] ideal_inject [OF e(6,5), of g 0 False r]
    show ?thesis unfolding r es by (elim exE conjE) auto
  qed
  with e(1-5) show ?thesis by blast
qed


lemma loop_session:
  "list_all (\<lambda>i. \<not> starts_session (action_of i)) (tl (loop_events sz n))"
  "session_ends (map action_of (loop_events sz n)) = n"
proof -
  have "list_all (\<lambda>i. \<not> starts_session (action_of i)) (concat (replicate n loop_body))"
    by (induction n) (simp_all add: loop_body_def lib_callee_def)
  then show "list_all (\<lambda>i. \<not> starts_session (action_of i)) (tl (loop_events sz n))"
    by (simp add: loop_events_def)
  have "session_ends (map action_of (concat (replicate n loop_body))) = n"
    by (induction n) (simp_all add: loop_body_def lib_callee_def session_ends_def)
  then show "session_ends (map action_of (loop_events sz n)) = n"
    by (simp add: loop_events_def session_ends_def)
qed

theorem compiled_program_is_mediated_witness:
  "\<exists>data alive tr k'. exec_insts (loop_machine syscall_tbl_6_11_9 data) 0
     (loop_events (of_nat (length data)) 1) ksys_init = Inr (alive, tr, k') \<and>
   filter (isStringInMap demo_reader) tr = [''read'', ''write'']"
proof -
  obtain data where h: "hosts (loop_machine syscall_tbl_6_11_9 data) (of_nat (length data)) cycle_graph"
    using loop_hosted by blast
  let ?es = "loop_events (of_nat (length data)) (Suc 0)"
  have "session_ends (map action_of ?es) \<le> 1" by (simp add: loop_session)
  from compiled_program_is_mediated [OF loop_leaves loop_compiles loop_main_ok loop_executes loop_session(1) this
      h ksys_init_ready, of 0] obtain es0 p alive tr k' where
    e: "own ?es = injectDummySyscall demo_reader es0 @ p" "pending p"
    "exec_insts (loop_machine syscall_tbl_6_11_9 data) 0 ?es ksys_init = Inr (alive, tr, k')"
    "filter (isStringInMap demo_reader) tr =
       take (allowed cycle_graph 0 (call_numbers demo_reader es0)) (listed_calls demo_reader es0)" by metis
  have "\<not> isStringInMap demo_reader ''syscall''" by (simp add: demo_reader_def isStringInMap_def)
  from listed_inject [OF this e(2), of es0] have "listed_calls demo_reader es0 = listed_calls demo_reader (own ?es)"
    by (simp only: e(1))
  also have "\<dots> = [''read'', ''write'']"
    by (simp add: loop_events_def loop_body_def lib_callee_def demo_reader_def isStringInMap_def
        dummy_call_def syscall_callee_def)
  finally have l: "listed_calls demo_reader es0 = [''read'', ''write'']" .
  have "allowed cycle_graph 0 (call_numbers demo_reader es0) = 2"
    unfolding call_numbers_def l by (simp add: cycle_graph_def astep_def demo_reader_def getValueFromMap_def)
  with e(3,4) l show ?thesis by auto
qed

text \<open>
  C11. A session that ends twice corrupts the kernel.  The pass puts one call of
  \<^verbatim>\<open>sandbox_cleanup\<close> before the last instruction that precedes a return in the order of the blocks.
  Where that place is in a loop, and the execution proceeds it a second time with all its library
  calls allowed, the kernel frees its buffer twice.
\<close>

theorem second_cleanup_double_frees:
  assumes "leaves_syscalls r M" "main_starts M"
    and "MemoryCleanupHandler (SectionAddressHandler data (instrumented uniq r M)) = Inr M'"
    and "f' \<in> set (m_functions M')" "is_main f'" "executes M' [enter f'] es st"
    and "list_all (\<lambda>i. \<not> starts_session (action_of i)) (tl es)" "2 \<le> session_ends (map action_of es)"
    and "hosts mc (of_nat (length data)) g"
      "table_large (ks_graph k) (length g)" "kernel_buffer k \<noteq> KFreed"
    and "allowed g 0 (guard_numbers es) = length (guard_numbers es)"
  shows "exec_insts mc t es k = Inl Double_free"
proof -
  let ?sz = "of_nat (length data)"
  from compiled_execution [OF assms(1-6)] have
    "(es = [] \<or> (\<exists>es'. es = init_call ?sz # es')) \<and> list_all (\<lambda>i. pass_action ?sz (action_of i)) es"
    by metis
  moreover have "es \<noteq> []" using assms(8) by (auto simp: session_ends_def)
  ultimately obtain es' where
    es: "es = init_call ?sz # es'" "list_all (\<lambda>i. pass_action ?sz (action_of i)) es" by blast
  let ?as = "map action_of es'"
  have "ideal_run g 0 False ?as = Inl Double_free"
  proof (rule ideal_two_ends)
    show "list_all (\<lambda>a. \<not> starts_session a) ?as" using assms(7) es(1) by (simp add: list_all_iff)
    show "2 \<le> session_ends ?as + (if False then 1 else 0)" using assms(8) es(1) by (simp add: session_ends_def)
    show "allowed g 0 (concat (map guard_of ?as)) = length (concat (map guard_of ?as))"
      using assms(12) by (simp add: guard_numbers_actions es(1))
  qed
  moreover have "list_all (pass_action ?sz) ?as" using es by (simp add: list_all_iff)
  ultimately show ?thesis using session_ideal [OF assms(9-11), of es' 0 t] es(1) by simp
qed

theorem second_cleanup_double_frees_witness:
  "\<exists>data. executes (loop_compiled data) [enter (loop_main (of_nat (length data)))]
     (loop_events (of_nat (length data)) 2) [] \<and>
   exec_insts (loop_machine syscall_tbl_6_11_9 data) 0 (loop_events (of_nat (length data)) 2) ksys_init =
     Inl Double_free"
proof -
  obtain data where h: "hosts (loop_machine syscall_tbl_6_11_9 data) (of_nat (length data)) cycle_graph"
    using loop_hosted by blast
  let ?es = "loop_events (of_nat (length data)) (Suc 1)"
  have x: "executes (loop_compiled data) [enter (loop_main (of_nat (length data)))] ?es []"
    by (rule loop_executes)
  have s: "2 \<le> session_ends (map action_of ?es)" by (simp add: loop_session)
  have "guard_numbers ?es = [7, 9, 7, 9]"
    by (simp add: guard_numbers_actions loop_events_def loop_body_def lib_callee_def)
  then have "allowed cycle_graph 0 (guard_numbers ?es) = length (guard_numbers ?es)"
    by (simp add: cycle_graph_def astep_def)
  from second_cleanup_double_frees [OF loop_leaves loop_compiles loop_main_ok x loop_session(1) s
      h ksys_init_ready this, of 0] x
  show ?thesis by (auto simp: numeral_2_eq_2)
qed

section \<open>The program the pass makes\<close>

definition loaded :: "'i machine \<Rightarrow> 'i ir_module \<Rightarrow> bool" where
  "loaded mc M \<longleftrightarrow> mc_image mc \<noteq> 0 \<and> m_globals M \<noteq> [] \<and>
     mc_memory mc (mc_image mc) = data_buffer (snd (snd (last (m_globals M))))"

text \<open>A session that starts, and is refused at its first guard.\<close>

lemma refused_session:
  assumes "mc_config mc" "mc_table mc = syscall_tbl_6_11_9" "user_pointer mc (mc_image mc) = Some d"
    and "sandbox_init True (mc_alloc mc) (Some d) sz k = Inr (Returned 0, k1)" "kernel_buffer k1 \<noteq> KFreed" "refuses H k1"
    and "own es = injectDummySyscall r es0 @ p" "pending p" "plain es0"
    and "es = [] \<or> (\<exists>es'. es = init_call sz # es')" "list_all (\<lambda>i. pass_action sz (action_of i)) es"
    and "list_all (\<lambda>i. \<not> starts_session (action_of i)) (tl es)" "session_ends (map action_of es) \<le> 1"
    and "guard_numbers es = [] \<or> hd (guard_numbers es) \<notin> H"
  shows "\<exists>tr k'. exec_insts mc t es k = Inr (guard_numbers es = [], tr, k') \<and> filter (isStringInMap r) tr = []"
  using assms(10)
proof (elim disjE exE)
  assume "es = []"
  then show ?thesis by (simp add: guard_numbers_def)
next
  fix es' assume es: "es = init_call sz # es'"
  have g: "guard_numbers es = guard_numbers es'" by (simp add: es guard_numbers_def guard_action)
  have "list_all (\<lambda>i. action_of i \<noteq> Foreign \<and> \<not> starts_session (action_of i)) es'"
    using assms(11,12) by (auto simp: es list_all_iff)
  moreover have "session_ends (map action_of es') \<le> 1" using assms(13) by (simp add: es session_ends_def)
  ultimately obtain k' where k': "exec_insts mc (Suc t) es' k1 =
      Inr (guard_numbers es' = [], concat (map called (unguarded es')), k')"
    using exec_refusing [OF assms(1,2) _ assms(6), of es' "Suc t"] assms(5,14) g by auto
  have "own es' = injectDummySyscall r es0 @ p" using assms(7) by (simp add: es)
  then have "filter (isStringInMap r) (concat (map called (unguarded es'))) = []"
    using unguarded_inject [OF assms(9,8), of r] by (metis unguarded_own)
  moreover have "system_call mc (register mc t [Int64 337, BufferPtr, Int64 sz]) k = Inr (Returned 0, k1)"
    using assms(1-4) by (simp add: system_call_def register_def table_entries)
  then have "exec_insts mc t es k = exec_insts mc (Suc t) es' k1"
    by (simp add: es init_call_def syscall_callee_def)
  ultimately show ?thesis using k' g by simp
qed

text \<open>
  C17. A compiled program is killed before its first library call.  Take a module that the pass
  has compiled, with a graph that is not empty, and any execution of it from the start of a
  \<^verbatim>\<open>main\<close> function, in one session, on a kernel of version 6.11.9.  Unless the number of the first
  guard happens to be a vertex hash of the first node, the process makes no library call at all:
  it is killed at the first guard, if the execution has one.
\<close>

theorem compiled_program_stops:
  assumes "graaf_lib L ok" "block_namer uniq" "well_formed M" "ample e"
    and "length (fst junk) = 1000" "length (snd junk) = 1000"
    and "runOnModule L e uniq hash junk fuel r M [] memgraph_init = Some (Inr (ch, M', fg, s'))"
    and "0 < length (get_vertices L (finalGraph fg))"
    and "leaves_syscalls r M" "main_starts M"
    and "mc_config mc" "\<forall>j z. mc_alloc mc j z" "mc_table mc = syscall_tbl_6_11_9" "loaded mc M'"
    and "f' \<in> set (m_functions M')" "is_main f'" "executes M' [enter f'] es st"
    and "list_all (\<lambda>i. \<not> starts_session (action_of i)) (tl es)" "session_ends (map action_of es) \<le> 1"
    and "guard_numbers es = [] \<or>
      hd (guard_numbers es) \<notin> fst ` set (ps_edges (generated_graph L hash junk r (finalGraph fg) ! 0))"
    and "table_large (ks_graph k) (length (get_vertices L (finalGraph fg)))" "kernel_buffer k \<noteq> KFreed"
  shows "\<exists>tr k'. exec_insts mc t es k = Inr (guard_numbers es = [], tr, k') \<and>
    filter (isStringInMap r) tr = []"
proof -
  let ?G = "generated_graph L hash junk r (finalGraph fg)"
  note ok = block_namer.well_formed_ok [OF assms(2,3), of r]
  from graaf_lib.run_outcome [OF assms(1) ok assms(4-6,7)] obtain m where m: "length (get_vertices L (finalGraph fg)) < 32"
    "sealed m ?G" "MemoryCleanupHandler (SectionAddressHandler (map m [0..<1024 * 1024]) (instrumented uniq r M)) = Inr M'"
    by (auto simp: graaf_lib.pass_result_def [OF assms(1)] split: if_splits)
  define data where "data = map m [0..<1024 * 1024]"
  note M' = m(3) [folded data_def]
  have "length (get_vertices L (finalGraph fg)) * length (get_vertices L (finalGraph fg)) \<le> 31 * 31"
    using m(1) by (intro mult_le_mono) auto
  then have "length (get_vertices L (finalGraph fg)) * length (get_vertices L (finalGraph fg)) < 1000" by linarith
  from generated_fits [OF assms(5,6) refl this] have fits: "fits ?G" .
  have ne: "?G \<noteq> []" using assms(8) generated_graph_length [of L hash junk r "finalGraph fg"] by auto
  have "m_globals M' = m_globals M @ [(''SanboxInitData'', ''sandbox_init_data_section'', data)]"
    using cleanup_keeps_globals [OF M'] by (simp add: section_globals instrumented_def)
  then have img: "user_pointer mc (mc_image mc) = Some (data_buffer data)"
    using assms(14) by (simp add: loaded_def user_pointer_def)
  from compiled_execution [OF assms(9,10) M' assms(15-17)] obtain es0 p where
    e: "own es = injectDummySyscall r es0 @ p" "pending p" "plain es0"
    "es = [] \<or> (\<exists>es'. es = init_call (of_nat (length data)) # es')"
    "list_all (\<lambda>i. pass_action (of_nat (length data)) (action_of i)) es" by metis
  have "table_large (ks_graph k) (length ?G)" using assms(21) by (simp add: generated_graph_length)
  from embedded_installs [OF m(2) fits ne data_def assms(12) this assms(22)] obtain k1 where
    k1: "sandbox_init True (mc_alloc mc) (Some (data_buffer data)) (of_nat (length data)) k = Inr (Returned 0, k1)"
    "kernel_buffer k1 \<noteq> KFreed" "refuses (fst ` set (ps_edges (?G ! 0))) k1" .
  show ?thesis by (rule refused_session [OF assms(11,13) img k1 e assms(18,19,20)])
qed


lemma loop_module_formed: "well_formed loop_module"
  by (auto simp: loop_module_def well_formed_def loop_fun_def fun_of_def call_block_def flow_ok_def plain_function_def)

lemma loop_module_vertices: "length (module_vertices counting_namer demo_reader loop_module) < 32"
proof -
  have "\<not> skipped loop_fun" by (simp add: skipped_def loop_fun_def fun_of_def starts_with_def)
  then show ?thesis by (simp add: module_vertices_def loop_module_def loop_fun_named loop_fun_ok)
qed

lemma loop_final_graph:
  assumes "runOnModule assoc_graaf e counting_namer hash junk fuel demo_reader loop_module [] memgraph_init =
      Some (Inr (ch, M', fg, s'))" "cg_inv assoc_graaf ag_ok (finalGraph fg)"
  shows "0 < length (get_vertices assoc_graaf (finalGraph fg))"
proof -
  have m: "distinct (map f_name (m_functions loop_module))" "loop_fun \<in> set (m_functions loop_module)"
    "f_name loop_fun = ''main''" "\<not> skipped loop_fun"
    by (simp_all add: loop_module_def loop_fun_def fun_of_def skipped_def starts_with_def)
  have u: "\<forall>l\<in>call_labels demo_reader loop_fun. \<not> is_user l"
    by (simp add: call_labels_def loop_fun_def demo_blocks is_user_def starts_with_def)
  from assoc.run_main [OF assms(1) m loop_fun_named [symmetric] loop_fun_ok(1,2) loop_fun_merging u] obtain q where
    q: "exact_quotient is_control (expanded_map demo_reader loop_fun) (cg_edges assoc_graaf (finalGraph fg)) q"
    by blast
  have "expanded_map demo_reader loop_fun (''[main]b'', ''[main]b-libc_1'') = Some ''libc:read''"
    by (auto simp: expanded_map_def loop_fun_calls expand_map_def map_add_def flow_map_def flow_edge_def
        loop_fun_def demo_blocks split: option.splits)
  moreover have "\<not> is_control ''libc:read''" by (simp add: is_control_def)
  ultimately have "cg_edges assoc_graaf (finalGraph fg) (q ''[main]b'', q ''[main]b-libc_1'') = Some ''libc:read''"
    using q unfolding exact_quotient_def by blast
  from assoc.edge_ends [OF assms(2) this] assoc.get_vertices_inv(2) [OF assms(2)]
  show ?thesis by (metis length_greater_0_conv list.set(1) empty_iff)
qed

theorem compiled_program_stops_witness:
  "\<exists>fuel data ch fg s'. runOnModule assoc_graaf (ample_env User) counting_namer (\<lambda>_. 0) demo_junk fuel
       demo_reader loop_module [] memgraph_init = Some (Inr (ch, loop_compiled data, fg, s')) \<and>
     executes (loop_compiled data) [enter (loop_main (of_nat (length data)))] (loop_events (of_nat (length data)) 1) [] \<and>
     (\<exists>tr k'. exec_insts (loop_machine syscall_tbl_6_11_9 data) 0 (loop_events (of_nat (length data)) 1) ksys_init =
       Inr (False, tr, k') \<and> filter (isStringInMap demo_reader) tr = [])"
proof -
  obtain n m M' fg s' where run:
    "\<forall>fuel>n. runOnModule assoc_graaf (ample_env User) counting_namer (\<lambda>_. 0) demo_junk fuel demo_reader loop_module
       [] memgraph_init = Some (Inr (\<exists>f\<in>processed counting_namer loop_module. has_library_call demo_reader f, M', fg, s'))"
    "MemoryCleanupHandler (SectionAddressHandler (map m [0..<1024 * 1024])
       (instrumented counting_namer demo_reader loop_module)) = Inr M'"
    "cg_inv assoc_graaf ag_ok (finalGraph fg)"
    by (rule small_module_run [OF assoc.graaf_lib_axioms counting.block_namer_axioms loop_module_formed
        ample_ample_env [of User] demo_junk_length loop_module_vertices, where hash = "\<lambda>_. 0"]) blast
  define data where "data = map m [0..<1024 * 1024]"
  have M': "M' = loop_compiled data" using run(2) loop_compiles [of data] by (simp add: data_def)
  let ?ch = "\<exists>f\<in>processed counting_namer loop_module. has_library_call demo_reader f"
  have r: "runOnModule assoc_graaf (ample_env User) counting_namer (\<lambda>_. 0) demo_junk (Suc n) demo_reader loop_module
       [] memgraph_init = Some (Inr (?ch, loop_compiled data, fg, s'))" using run(1) M' by simp
  let ?G = "generated_graph assoc_graaf (\<lambda>_. 0) demo_junk demo_reader (finalGraph fg)"
    and ?es = "loop_events (of_nat (length data)) (Suc 0)"
  note v = loop_final_graph [OF r run(3)]
  have "fst ` set (ps_edges (?G ! 0)) \<subseteq> {0}"
    using generated_calls [of 0 assoc_graaf "\<lambda>_. 0" demo_junk demo_reader "finalGraph fg"] v
    by (auto simp: generated_graph_length demo_junk_def)
  moreover have g: "guard_numbers ?es = [7, 9]"
    by (simp add: guard_numbers_actions loop_events_def loop_body_def lib_callee_def)
  ultimately have refused: "guard_numbers ?es = [] \<or> hd (guard_numbers ?es) \<notin> fst ` set (ps_edges (?G ! 0))"
    by auto
  have mc: "mc_config (loop_machine syscall_tbl_6_11_9 data)" "\<forall>j z. mc_alloc (loop_machine syscall_tbl_6_11_9 data) j z"
    "mc_table (loop_machine syscall_tbl_6_11_9 data) = syscall_tbl_6_11_9"
    "loaded (loop_machine syscall_tbl_6_11_9 data) (loop_compiled data)"
    by (simp_all add: loop_machine_def loaded_def loop_compiled_def)
  have s: "session_ends (map action_of ?es) \<le> 1" by (simp add: loop_session)
  from compiled_program_stops [OF assoc.graaf_lib_axioms counting.block_namer_axioms loop_module_formed ample_ample_env
      demo_junk_length r v loop_leaves mc loop_main_ok loop_executes loop_session(1) s refused ksys_init_ready, of 0] g
  have "\<exists>tr k'. exec_insts (loop_machine syscall_tbl_6_11_9 data) 0 ?es ksys_init = Inr (False, tr, k') \<and>
      filter (isStringInMap demo_reader) tr = []" by simp
  with r loop_executes [of data 0] show ?thesis
    unfolding One_nat_def by (intro exI [of _ "Suc n"] exI [of _ data] exI [of _ ?ch] exI [of _ fg] exI [of _ s'] conjI)
qed

section \<open>The other kernel version\<close>

text \<open>A fault of a process on a kernel in a reachable state is a fault of one of its system calls.\<close>

lemma exec_stop:
  "kernel_reach (mc_config mc) (mc_alloc mc) k \<Longrightarrow> exec_insts mc t is k = Inl e \<Longrightarrow>
     memory_fault e \<or> e = Double_free"
proof (induction mc t "is" k rule: exec_insts.induct)
  case (2 mc t c args "is" k)
  show ?case
  proof (cases "fn_name c = ''syscall'' \<and> (\<exists>x k1. system_call mc (register mc t args) k = Inr (x, k1))")
    case True
    then obtain x k1 where x: "system_call mc (register mc t args) k = Inr (x, k1)" by blast
    then have "kernel_reach (mc_config mc) (mc_alloc mc) k1" using 2(3)
      by (auto simp: system_call_def split: option.splits intro: kernel_reach.step kernel_step.call)
    with 2 True x show ?thesis by (cases x) auto
  next
    case False
    then show ?thesis
      using 2 do_syscall_stop [OF reach_pointers_ok [OF 2(3)]]
      by (auto simp: res_simps system_call_def split: if_splits option.splits)
  qed
qed simp_all

lemma called_listed:
  assumes "plain is" "pending p"
  shows "filter (isStringInMap r) (concat (map called (injectDummySyscall r is @ p))) = listed_calls r is"
proof -
  have d: "called (dummy_call n) = []" for n by (simp add: dummy_call_def syscall_callee_def)
  then have p: "concat (map called p) = []" using assms(2) by (auto simp: pending_def)
  have i: "filter (isStringInMap r) (called i) = listed_call r i" if "\<not> calls_syscall i" for i
    using that by (cases i rule: called.cases) auto
  have "filter (isStringInMap r) (concat (map called (injectDummySyscall r is))) = listed_calls r is"
    using assms(1)
    by (induction "is") (simp_all add: inject_Cons [of r _ "_ :: 'a inst list"] inject_one listed_calls_def o_def d i)
  with p show ?thesis by simp
qed

lemma called_own: "concat (map called (own is)) = concat (map called is)"
proof (induction "is")
  case (Cons i "is")
  have "session_action (action_of i) \<Longrightarrow> calls_syscall i" using plain_action [of i] by (cases "calls_syscall i") auto
  moreover have "calls_syscall i \<Longrightarrow> called i = []" by (cases i rule: calls_syscall.cases) auto
  ultimately have "session_action (action_of i) \<Longrightarrow> called i = []" by blast
  with Cons show ?case by simp
qed simp

text \<open>
  C12. On a kernel of version 6.8.11 no compiled program is confined.  The patch for that version
  numbers the system calls from 335, the pass from 336, so that its guards are no guards there.
  Take a module that the pass has instrumented, around any data, and any execution of it from the start of
  a \<^verbatim>\<open>main\<close> function, on any reachable state of such a kernel.  Either a system call faults, in one of
  the three ways a kernel can, or the process is alive at the end and has made all library calls of the
  original execution, whatever the automaton.
\<close>

theorem older_kernel_never_refuses:
  assumes "leaves_syscalls r M" "main_starts M"
    and "MemoryCleanupHandler (SectionAddressHandler data (instrumented uniq r M)) = Inr M'"
    and "f' \<in> set (m_functions M')" "is_main f'" "executes M' [enter f'] es st"
    and "mc_table mc = syscall_tbl_6_8_11" "kernel_reach (mc_config mc) (mc_alloc mc) k"
  shows "\<exists>f es0 st0 p. f \<in> set (m_functions M) \<and> f_name f = f_name f' \<and>
    executes M [enter f] es0 st0 \<and> own es = injectDummySyscall r es0 @ p \<and> pending p \<and>
    (case exec_insts mc t es k of
       Inl e \<Rightarrow> e = Null_deref \<or> e = Out_of_bounds \<or> e = Double_free
     | Inr (alive, tr, k') \<Rightarrow> alive \<and> filter (isStringInMap r) tr = listed_calls r es0)"
proof -
  from compiled_execution [OF assms(1-6)] obtain f es0 st0 p where
    e: "f \<in> set (m_functions M)" "f_name f = f_name f'" "executes M [enter f] es0 st0"
    "own es = injectDummySyscall r es0 @ p" "pending p" "plain es0"
    "list_all (\<lambda>i. pass_action (of_nat (length data)) (action_of i)) es" by metis
  have "list_all (\<lambda>i. action_of i \<noteq> Foreign) es" using e(7) by (auto simp: list_all_iff)
  note older = older_exec [OF assms(7) this]
  have "case exec_insts mc t es k of
       Inl e \<Rightarrow> e = Null_deref \<or> e = Out_of_bounds \<or> e = Double_free
     | Inr (alive, tr, k') \<Rightarrow> alive \<and> filter (isStringInMap r) tr = listed_calls r es0"
  proof (cases "exec_insts mc t es k")
    case (Inl x)
    with exec_stop [OF assms(8) Inl] show ?thesis by (auto simp: memory_fault_def)
  next
    case (Inr y)
    obtain alive tr k' where y: "y = (alive, tr, k')" by (metis surj_pair)
    have "alive \<and> tr = concat (map called es)" using older [of t k alive tr k'] Inr y by simp
    with called_own [of es] called_listed [OF e(6,5), of r] e(4) show ?thesis by (simp add: Inr y)
  qed
  with e(1-5) show ?thesis by blast
qed

text \<open>The unset register is zero: the guards are refused as requests for empty sessions.\<close>

definition older_machine :: "8 word list \<Rightarrow> unit machine" where
  "older_machine data = (loop_machine syscall_tbl_6_8_11 data)\<lparr>mc_junk := \<lambda>_ _. 0\<rparr>"

lemma older_loop:
  "exec_insts (older_machine data) 0 (loop_events sz 1) ksys_init = Inr (True, [''read'', ''write''], ksys_init)"
  by (simp add: older_machine_def loop_machine_def loop_events_def loop_body_def dummy_call_def init_call_def
      cleanup_call_def syscall_callee_def lib_callee_def system_call_def register_def table_entries
      user_pointer_def sandbox_init_def sandbox_cleanup_def ksys_init_def)

theorem older_kernel_never_refuses_witness:
  "\<exists>es0 st0 tr k'. executes loop_module [enter loop_fun] es0 st0 \<and>
     exec_insts (older_machine []) 0 (loop_events 0 1) ksys_init = Inr (True, tr, k') \<and>
     listed_calls demo_reader es0 = [''read'', ''write'']"
proof -
  have x: "executes (loop_compiled []) [enter (loop_main (of_nat (length ([] :: 8 word list))))]
      (loop_events (of_nat (length ([] :: 8 word list))) (Suc 0)) []" by (rule loop_executes)
  have mc: "mc_table (older_machine []) = syscall_tbl_6_8_11"
    by (simp add: older_machine_def loop_machine_def)
  from older_kernel_never_refuses [OF loop_leaves loop_compiles loop_main_ok x mc kernel_reach.boot, of 0]
    older_loop [of "[]" 0]
  show ?thesis by (auto simp: loop_module_def demo_reader_def isStringInMap_def)
qed

text \<open>
  C13. On a kernel of version 6.8.11 two library calls corrupt the kernel.  A guard asks there for
  a new session, with the number of the call as the address of the data and an unset register as
  their size.  Where nothing is mapped at the numbers and the register is not zero, an instrumented
  program that makes two library calls has the kernel free a buffer twice.
\<close>

theorem older_kernel_double_frees:
  assumes "mc_config mc" "\<forall>j z. mc_alloc mc j z" "mc_table mc = syscall_tbl_6_8_11" "\<forall>t. mc_junk mc t 2 \<noteq> 0"
    and "plain is" "list_all (unmapped mc) (call_numbers r is)" "2 \<le> length (listed_calls r is)"
  shows "exec_insts mc t (injectDummySyscall r is) k = Inl Double_free"
  using older_faults [OF assms(1-6)] assms(7) by simp


theorem older_kernel_double_frees_witness:
  "exec_insts (loop_machine syscall_tbl_6_8_11 []) 0 (injectDummySyscall demo_reader
     [CallInst (Some (lib_callee ''read'')) [], CallInst (Some (lib_callee ''write'')) []]) ksys_init =
   Inl Double_free"
  by (rule older_kernel_double_frees)
    (simp_all add: loop_machine_def unmapped_def call_numbers_def demo_reader_def lib_callee_def
      isStringInMap_def getValueFromMap_def)

end
