(* ===== verification/Spec2Isabelle.thy ===== *)
theory Spec2Isabelle
  imports Applet GraphBounds CalleeProperties ThreadProperties TestProperties MachineProperties
begin

text \<open>
  A sandbox for library calls, verified.  The program is a tool chain and a kernel module.
  \<^verbatim>\<open>LibcListGen\<close> lists the functions of the C library with their numbers.  A compiler pass
  (\<^verbatim>\<open>LLVM/\<close>, over the graph container \<^verbatim>\<open>GraphLib\<close>) builds the graph of the library calls a program
  can make, inserts a system call before each of them, and embeds the graph in the program.  The
  module (\<^verbatim>\<open>kernel/e0256-sandboxing\<close>) loads the graph when \<^verbatim>\<open>main\<close> starts and kills the process
  at the first call that the graph does not allow.  The library \<^verbatim>\<open>memgraphlib\<close>, compiled into the
  pass and into the kernel, writes, verifies and queries the graph in a one-megabyte pool.

  \<^bold>\<open>Theories and sources.\<close>
  \<^item> \<open>Prelude\<close>: errors as values (\<open>stop\<close>, \<open>res\<close>, \<open>and_then\<close>), C structure layout, casts.
  \<^item> \<open>PoolMemory\<close>: the bytes of the pool, little-endian words, \<^verbatim>\<open>memset\<close> and \<^verbatim>\<open>memcpy\<close>; the locale
    of memory cells, interpreted for bytes and for words.
  \<^item> \<open>MemGraph\<close>: all functions of \<^verbatim>\<open>memgraph.c\<close>, with the module's static variables as the record
    \<open>memgraph\<close>.  The build (kernel or user space) and the allocator are the record \<open>env\<close>.
  \<^item> \<open>Automaton\<close>: the abstract automaton and its runs, the encoding of a graph as words, the
    decoder, and the locale \<open>monitor\<close> of something that enforces an automaton.
  \<^item> \<open>GraphVerify\<close>, \<open>GraphBuild\<close>, \<open>GraphTransfer\<close>, \<open>GraphQuery\<close>: verification, construction
    (the invariant \<open>building\<close>, as a locale of graph builders), transfer of whole pools, and the
    refinement of the automaton by the query functions (an interpretation of \<open>monitor\<close>).
  \<^item> \<open>Sandboxing\<close>: the three system calls of \<^verbatim>\<open>sandboxing.c\<close> over the state of the whole kernel
    (\<open>ksys\<close>), and the kernel as a \<open>monitor\<close>.  \<open>KernelSafety\<close>: the step relation of
    arbitrary system calls, the reachable states and the invariant of their pointers.
    \<open>GraphFaults\<close>: corrupted, unfinished, too large and ill-formed graphs.
    \<open>GraphBounds\<close>: what \<^verbatim>\<open>alloc_node\<close> does at the end of the pool and of the table.
  \<^item> \<open>Graaf\<close>: the interface of the third-party graph library, a record of its functions and the
    locale \<open>graaf_lib\<close> of the documented behaviour, with an instance on association lists.  The
    field \<open>gr_reached\<close> says where a loop over the edges comes to an edge that is inserted while it runs,
    if it does; no law restricts it.
    \<open>OrderedMap\<close>: the ordered map \<^verbatim>\<open>std::map\<close> of the container.  \<open>CallGraph\<close>: the class of
    \<^verbatim>\<open>GraphLib.cpp\<close>.  \<open>CallGraphSpec\<close>: its invariant and its operations on the map of labelled
    edges.  \<open>GraphDump\<close>: its drawing in the dot language.  \<open>CallGraphProperties\<close>: its properties.
  \<^item> \<open>Listing\<close>: \<^verbatim>\<open>LibcFuncDump.cpp\<close> and the class \<^verbatim>\<open>FileToMapReader\<close>.  \<open>LlvmIR\<close>: the part of the
    IR the pass touches, the classification of calls and the injected system calls.
  \<^item> \<open>CallGraphGen\<close>: the pass itself, from \<^verbatim>\<open>runOnModule\<close> to \<^verbatim>\<open>GenerateInMemoryGraph\<close>.
    \<open>AnalyseSpec\<close>, \<open>ExpandSpec\<close>, \<open>MergeSpec\<close>, \<open>CombineSpec\<close>, \<open>GenerateSpec\<close>: the effect of each
    of its steps on edge maps.  \<open>PassSpec\<close>: their composition over a module.  \<open>PathSpec\<close>: the walks
    of the expanded graph.  \<open>LineSpec\<close>: merging of a straight-line function.  \<open>QuotientSpec\<close>: when
    merging is exact.  \<open>MainSpec\<close>: the graph of a program that is its \<^verbatim>\<open>main\<close>.  \<open>CalleeSpec\<close>: the
    graph of a \<^verbatim>\<open>main\<close> that calls one other function; \<open>SplicedSpec\<close>: the same from the expanded graphs
    of the two functions through all steps.  \<open>Naming\<close>: the names
    of blocks, as a locale of what LLVM promises, interpreted by a counting namer.
    \<open>PassProperties\<close>: the properties of the steps and of the listing.  \<open>ProgramProperties\<close>: those
    of the pass as a whole.  \<open>ExactProperties\<close>: the conditions under which its policy is exact.
    \<open>CalleeProperties\<close>: the policy of a \<^verbatim>\<open>main\<close> that calls another function.
  \<^item> \<open>Plugin\<close>: the pass as LLVM sees it, from \<^verbatim>\<open>LibcCallGraphGen.cpp\<close> and \<^verbatim>\<open>LibcCallGraphDebug.h\<close>:
    the command-line options (\<open>options\<close>), the coloured output macros, the method \<open>run\<close> with the
    file it writes, what it prints and what it reports, and the registration.
  \<^item> \<open>Machine\<close>: the system call tables of the two kernel patches, the dispatch of a system call from
    its registers to the handlers of \<^verbatim>\<open>sandboxing.c\<close> (\<open>system_call\<close>), the effect of executed
    instructions (\<open>exec_insts\<close>), and the ideal monitor they are compared with (\<open>ideal_run\<close>).
    \<open>Execution\<close>: the steps of a module over a stack of frames (\<open>istep\<close>), and the simulation of the
    instrumented program by the original.  \<open>Mediation\<close>: that the module the pass returns is an
    instrumented form of its input, and which calls its executions make.  \<open>MachineProperties\<close>: the
    properties of compiled programs on both kernel versions.
  \<^item> \<open>Applet\<close>: the test program \<^verbatim>\<open>syscalltest\<close> of busybox over the system calls.
  \<^item> \<open>Demo\<close>: graphs built with the library in user space (\<open>build_graph\<close>) and two small instances
    that kernels are set up with.
  \<^item> \<open>Interleave\<close>: the system calls of \<^verbatim>\<open>sandboxing.c\<close> again, cut into statements, those of
    \<^verbatim>\<open>is_state_transition_valid\<close> and \<^verbatim>\<open>transition_to_state\<close> included (\<open>stmt\<close>, \<open>exec_stmt\<close>), run by
    several threads over one kernel (\<open>thread_step\<close>), since the module takes no lock.
    \<open>ThreadProperties\<close>: what the missing lock allows.
  \<^item> \<open>TestData\<close>: the reader of test data files of \<^verbatim>\<open>tests/test_utils.h\<close> over an input stream with
    its failure flag, and the printer of the same format.  \<open>LibraryTests\<close>, \<open>UnitTests\<close>: the test
    cases of \<^verbatim>\<open>tests/test_memgraph.cc\<close>, an \<^verbatim>\<open>EXPECT\<close> or \<^verbatim>\<open>ASSERT\<close> being a value of \<open>verdict\<close>.
    \<open>TestProperties\<close>: what they decide, with the data files of the repository as constants.
  \<^item> This theory: the properties of the kernel and of the library, and those that span them.

  \<^bold>\<open>What is shown.\<close>  Building is a round trip with decoding; verification is sound, accepts every
  finished graph and finds every corrupted magic number; the queries and the guarded system call
  refine one step of the automaton, so that a graph that was built with the library and installed
  is enforced exactly.  In the kernel no reachable state holds a dangling pointer; the faults that
  remain (null, out of bounds, double free) are exhibited: sizes above the pool, a second larger
  graph, cleaning up twice, unfinished graphs.  For the pass: for any graph library with
  the documented behaviour the container keeps its invariant, merging ends and yields a quotient of
  the expanded flow graph, the calls of a block are spelt in order, guards and labels agree; the
  generated pool is exactly \<open>generated_graph\<close>.  The walks of the expanded graph are the paths of
  the control-flow graph with the calls of their blocks spelt out; for a function without branches
  the merged graph is its sequence of calls and nothing else.  In general merging is exact, and
  accepts the calls of every path, if the control edges form a forest (\<open>forest\<close>) and calls lead
  between different classes with one label each (\<open>lossless\<close>); for a \<^verbatim>\<open>main\<close> that calls no other
  function this carries over to the graph of the program.  A function that \<^verbatim>\<open>main\<close> calls at one
  place is spliced in: the ends of the call, the entry and the exit of the function become one
  vertex, so its calls may be made, skipped or repeated there.  From the module on, the graph of such a
  program is exactly the quotient of the two expanded graphs joined at the call, if the edges that are
  merged form a forest and the others are \<open>lossless\<close> in it.  The whole pass ends with one outcome,
  the failed assertion exactly when the final graph has 32 vertices or more, which it cannot have
  when the module has fewer than 32 blocks and calls; the labels of the
  final graph are calls of the module; the names of calls, blocks and functions never meet; drawing
  a graph does not change it.  The theorems also show where the policy is not the program's: loops
  and parallel labels lost in merging, functions two levels deep left
  out, the two fields of an edge exchanged, the assertion that fails from 32 vertices on.
  \<^verbatim>\<open>alloc_node\<close> is bounded by the pool only if its caller sees to it, and by its table only for the
  first graph; the busybox applet dereferences a null table in a kernel that never saw a graph, and
  runs an automaton left by another process otherwise.  \<^verbatim>\<open>run\<close> reports to LLVM that nothing changed
  for a program without library calls, though it always adds the pool; what it prints without
  \<^verbatim>\<open>-cg-debug\<close> comes from the reader of the listing and from the graph library.

  Programs in execution.  Every execution of the module the pass returns, with calls of functions,
  call-backs and jumps between blocks, is an execution of the original module with the
  injected calls.  On the kernel version the pass was written for the injected calls behave as the
  ideal monitor of the embedded automaton: the library calls made are the first ones up to the
  first that is refused.  With the data the pass itself generates that is none: the process is
  killed at its first guard.  A cleanup call in a loop frees the kernel's buffer twice.  On the
  other kernel version the numbers mean other calls: every execution of a compiled module that does not
  fault makes all its library calls, and where the registers say so the second guard frees a
  buffer twice.

  Threads.  A thread that is not interrupted performs exactly the system calls of \<open>Sandboxing\<close>
  (\<open>run_alone\<close>).  Two threads can both pass the check before either moves: the one that comes second is
  let through with an error code as the result of its call, or, when both have decided before either
  writes, both succeed with calls that exclude each other.  A thread that is overtaken between the two
  reads of the current node can be killed for a call that is allowed all the time.  A second
  \<^verbatim>\<open>sandbox_init\<close> between the allocation and the copy of a first makes the copy overrun the smaller
  buffer.

  Tests.  Data files are read back as they are printed; the parameterised test passes exactly when
  the expected results are those of the automaton; the fixed unit tests pass; a listing that is
  shorter than announced makes the test read past the end of a vector; the expected results of an
  earlier file are kept, and the cases of a later one are compared with them.

  \<^bold>\<open>Choices and bounds.\<close>  Machine words keep their width; an \<^verbatim>\<open>int\<close> is a 32-bit word read with
  \<open>sint\<close>.  Pointers into the pool carry the generation of the pool, so a stale one is told from a
  live one; a read or write outside an allocation, through null or through an indeterminate pointer
  is an error value.  The merging loops of the pass have no bound in the code: they take fuel and
  return \<open>None\<close> without enough of it; each pass that merges removes a vertex, so any fuel above the
  number of vertices suffices, which is part of the theorems.  A graph below 32 vertices needs less
  than 744 kilobytes of the pool.

  \<^bold>\<open>Parameters.\<close>  The graph library and its dot writer, the allocator, the naming of values by LLVM
  (\<open>uniq\<close>, with the locale \<open>block_namer\<close> of what LLVM documents), \<^verbatim>\<open>std::hash\<close>, the contents of the
  uninitialised arrays of \<^verbatim>\<open>GenerateInMemoryGraph\<close> (\<open>junk\<close>), the file system, what libelf
  reports of a file, and of a machine (\<open>machine\<close>) the memory of the process, where its data are
  loaded, and the registers a system call leaves unset.  The dispatch of a system call by its
  number, with an error for a number without an entry, is Linux's; the meaning of blocks, jumps
  and calls is that of LLVM's IR.

  \<^bold>\<open>Not modelled.\<close>  The log macros of the library and of the kernel module, except for the two lines
  the library prints in every complete run of the pass (what a run prints before the assertion fails is
  left out); the declaration of \<^verbatim>\<open>syscall\<close> that \<^verbatim>\<open>setupDummySyscall\<close> adds to a module; \<^verbatim>\<open>print\<close> of the
  container, whose loops have no effect; LLVM's parser of the command line; the build files and the
  sample programs.  Threads are interleaved at statements; preemption inside one (an allocation, a copy,
  \<^verbatim>\<open>initialize_graph\<close>, the search through the edges of a node), and the memory model of the processor,
  are left out.  \<^verbatim>\<open>combine_vertex\<close> inserts edges into the container it iterates over: that the
  container may rehash under the iterator, which is undefined in C++, is left out.
  Assertions are enabled.  Executions of a compiled program have one thread, no signal handlers and
  no exceptions; what a function outside the module does is left open, except that it makes no
  system call of the sandbox.
\<close>

section \<open>The sandbox end to end\<close>

text \<open>
  C1. The whole chain.  A process builds a well-formed automaton in user space with
  \<^verbatim>\<open>initialize_graph(NULL, 0)\<close>, one \<^verbatim>\<open>alloc_node\<close> per state and \<^verbatim>\<open>finalize_graph\<close>, and passes the
  whole pool to \<^verbatim>\<open>sandbox_init\<close>.  The system call succeeds, and from then on a sequence of
  guarded library calls is let through exactly when it is a run of the automaton from its entry
  state; a process is killed at the first call that leaves it.
\<close>

theorem sandbox_enforces_built_graph:
  assumes "wf_graph g" "g \<noteq> []" "fits g" "room_for g"
    and "\<forall>j z. al j z" "table_large (ks_graph k) (length g)" "kernel_buffer k \<noteq> KFreed"
  shows "\<exists>s m k'. build_graph (ample_env User) g memgraph_init = Inr s \<and> pool s = Some m \<and>
    sandbox_init True al (Some \<lparr>buf_len = MEMORY_POOL_SIZE, buf_bytes = m\<rparr>)
      (of_nat MEMORY_POOL_SIZE) k = Inr (Returned 0, k') \<and>
    (\<forall>cs. \<exists>k''. run_calls guard_call k' cs = Inr (arun (astep g) 0 cs \<noteq> None, k''))"
proof -
  obtain s m where s: "build_graph (ample_env User) g memgraph_init = Inr s" "pool s = Some m"
    "sealed m g"
    using build_graph_spec [OF assms(4)] by metis
  let ?d = "\<lparr>buf_len = MEMORY_POOL_SIZE, buf_bytes = m\<rparr>"
  have "carries ?d (of_nat MEMORY_POOL_SIZE) g"
    using assms(1-3) s(3) by (simp add: carries_def fits_def layout_simps unat_of_nat_small)
  from init_installs [OF assms(5) this assms(6,7)] obtain k' where
    "sandbox_init True al (Some ?d) (of_nat MEMORY_POOL_SIZE) k = Inr (Returned 0, k')"
    "enforces g k' 0" by metis
  with s kernel_guard.run_exact show ?thesis by blast
qed

theorem sandbox_enforces_built_graph_witness:
  "\<exists>s m k'. build_graph (ample_env User) demo memgraph_init = Inr s \<and> pool s = Some m \<and>
    sandbox_init True (\<lambda>_ _. True) (Some \<lparr>buf_len = MEMORY_POOL_SIZE, buf_bytes = m\<rparr>)
      (of_nat MEMORY_POOL_SIZE) ksys_init = Inr (Returned 0, k') \<and>
    (\<forall>cs. \<exists>k''. run_calls guard_call k' cs = Inr (arun (astep demo) 0 cs \<noteq> None, k''))"
  by (rule sandbox_enforces_built_graph) (simp_all add: demo_ok ksys_init_ready)

section \<open>The kernel\<close>

text \<open>
  C2. One guarded call.  In a kernel that enforces an automaton and is in state \<open>q\<close>, a call the
  automaton allows returns the number of the next state and moves there; any other call kills
  the caller and leaves the kernel as it was.
\<close>

theorem dummycall_enforces:
  assumes "enforces g k q"
  shows "case astep g q c of
      None \<Rightarrow> sandbox_dummycall True c k = Inr (Killed, k)
    | Some q' \<Rightarrow> \<exists>k'. sandbox_dummycall True c k = Inr (Returned (of_nat q'), k') \<and> enforces g k' q'"
proof (cases "astep g q c")
  case None
  with dummycall_refused [OF assms] show ?thesis by simp
next
  case (Some q')
  obtain k' where "sandbox_dummycall True c k = Inr (Returned (of_nat q'), k')" "enforces g k' q'"
    using dummycall_allowed [OF assms Some] by blast
  with Some show ?thesis by auto
qed

theorem dummycall_enforces_witness:
  "\<exists>k. (case astep demo 0 7 of
      None \<Rightarrow> sandbox_dummycall True 7 k = Inr (Killed, k)
    | Some q' \<Rightarrow> \<exists>k'. sandbox_dummycall True 7 k = Inr (Returned (of_nat q'), k') \<and> enforces demo k' q')"
  using demo_enforced dummycall_enforces [of demo _ 0 7] by blast

text \<open>
  An edge back to the entry state is never taken: the code returns the number of the next
  state and uses 0 for "no such transition", so the call is treated as invalid and the process
  killed although the graph has the edge.
\<close>

theorem edge_to_entry_is_refused:
  assumes "enforces g k q" "map_of (ps_edges (g ! q)) c = Some 0"
  shows "sandbox_dummycall True c k = Inr (Killed, k)"
  by (rule dummycall_refused [OF assms(1)]) (simp add: astep_def assms(2))

theorem edge_to_entry_is_refused_witness:
  "\<exists>k. enforces looping k 0 \<and> sandbox_dummycall True 7 k = Inr (Killed, k)"
proof -
  obtain k where "enforces looping k 0" using looping_enforced by blast
  moreover from this have "sandbox_dummycall True 7 k = Inr (Killed, k)"
    by (rule edge_to_entry_is_refused) (simp add: looping_def)
  ultimately show ?thesis by blast
qed

text \<open>
  C15. Memory safety of the reachable kernel states.  Whatever system calls were made before, with
  whatever data, a further call can only go wrong by reading through the null pointer, by leaving
  an allocation, or by freeing the buffer twice: no pointer the module keeps is dangling, foreign
  or uninitialised.
\<close>

theorem kernel_faults:
  assumes "kernel_reach cfg al k" "do_syscall cfg al ev k = Inl e"
  shows "e = Null_deref \<or> e = Out_of_bounds \<or> e = Double_free"
  using do_syscall_stop [OF reach_pointers_ok [OF assms(1)] assms(2)] by (auto simp: memory_fault_def)

theorem kernel_faults_witness:
  "do_syscall True (\<lambda>_ _. True) (Sandbox_dummycall 1) ksys_init = Inl Null_deref \<and>
   (Null_deref = Null_deref \<or> Null_deref = Out_of_bounds \<or> Null_deref = Double_free)"
proof -
  have f: "do_syscall True (\<lambda>_ _. True) (Sandbox_dummycall 1) ksys_init = Inl Null_deref"
    by (simp add: sandbox_dummycall_def is_state_transition_valid_def ptr_load_def deref_def
        ksys_init_def memgraph_init_def)
  with kernel_faults [OF kernel_reach.boot f] show ?thesis by blast
qed

text \<open>
  C38. Once the kernel has a lookup table, no system call ever changes its size, and every table
  entry, the current node included, is null or points into the live pool.
\<close>

theorem kernel_table_frozen:
  assumes "kernel_reach cfg al k" "kernel_step cfg al k er k'" "nodes (ks_graph k) = Some t"
  shows "pointers_ok (ks_graph k') \<and> (\<exists>t'. nodes (ks_graph k') = Some t' \<and> tbl_cap t' = tbl_cap t)"
  using kernel_step_keeps [OF assms(2) reach_pointers_ok [OF assms(1)]] assms(3) by (simp add: keeps_def)

theorem kernel_table_frozen_witness:
  "\<exists>k k' t'. kernel_step True (\<lambda>_ _. True) k (Sandbox_dummycall 5, Killed) k' \<and>
     nodes (ks_graph k') = Some t' \<and> tbl_cap t' = 2"
proof -
  obtain k t where k: "enforces demo k 0" "kernel_reach True (\<lambda>_ _. True) k"
    "nodes (ks_graph k) = Some t" "tbl_cap t = 2" using demo_enforced by blast
  have "sandbox_dummycall True 5 k = Inr (Killed, k)"
    by (rule dummycall_refused [OF k(1)]) (simp add: astep_def demo_def)
  then have st: "kernel_step True (\<lambda>_ _. True) k (Sandbox_dummycall 5, Killed) k"
    by (intro kernel_step.call) simp
  from kernel_table_frozen [OF k(2) st k(3)] st show ?thesis unfolding k(4) by blast
qed

text \<open>
  The kernel has one graph for all processes.  When a second process initialises its sandbox,
  the automaton in force becomes the second one's, in its entry state, for every process: the
  calls of the first process are judged by it from then on.
\<close>

theorem sandbox_is_shared:
  assumes "enforces g k q" "nodes (ks_graph k) = Some t" "length g' \<le> tbl_cap t"
    and "\<forall>j z. al j z" "carries d sz g'" "kernel_buffer k \<noteq> KFreed"
  shows "\<exists>k'. sandbox_init True al (Some d) sz k = Inr (Returned 0, k') \<and> enforces g' k' 0 \<and>
    (\<forall>c. astep g' 0 c = None \<longrightarrow> sandbox_dummycall True c k' = Inr (Killed, k'))"
proof -
  have "table_large (ks_graph k) (length g')" using assms(2,3) by (simp add: table_large_def)
  then obtain k' where "sandbox_init True al (Some d) sz k = Inr (Returned 0, k')" "enforces g' k' 0"
    using init_installs [OF assms(4,5) _ assms(6)] by blast
  with dummycall_refused show ?thesis by blast
qed

theorem sandbox_is_shared_witness:
  "\<exists>k d k'. enforces demo k 0 \<and>
     sandbox_init True (\<lambda>_ _. True) (Some d) (of_nat MEMORY_POOL_SIZE) k = Inr (Returned 0, k') \<and>
     enforces looping k' 0"
proof -
  obtain k t where k: "enforces demo k 0" "nodes (ks_graph k) = Some t" "tbl_cap t = 2"
    "kernel_buffer k \<noteq> KFreed" using demo_enforced by blast
  obtain s m where "sealed m looping" using build_graph_spec [OF looping_ok(4)] by metis
  then have c: "carries (whole_buffer m) (of_nat MEMORY_POOL_SIZE) looping"
    by (rule whole_carries) (simp_all add: looping_ok)
  have "length looping \<le> tbl_cap t" "\<forall>j z. (\<lambda>_ _. True) (j :: nat) (z :: u64)"
    using k(3) looping_ok(5) by simp_all
  from sandbox_is_shared [OF k(1,2) this c k(4)] k(1) show ?thesis by blast
qed

text \<open>
  A lookup table that is too small.  On a fresh kernel a first process initialises its
  sandbox; when a later one initialises it with a graph that has more states, the system call
  writes past the end of the table, which still has the size of the first graph.
\<close>

theorem second_larger_graph_overflows:
  assumes "\<forall>j z. al j z" "carries d1 sz1 g1" "carries d2 sz2 g2" "length g1 < length g2"
  shows "\<exists>k. sandbox_init True al (Some d1) sz1 ksys_init = Inr (Returned 0, k) \<and>
    sandbox_init True al (Some d2) sz2 k = Inl Out_of_bounds"
proof -
  have "nodes (ks_graph ksys_init) = None" by (simp add: ksys_init_def memgraph_init_def)
  from first_init_table [OF assms(1,2) this ksys_init_ready(2)] obtain k t where
    k: "sandbox_init True al (Some d1) sz1 ksys_init = Inr (Returned 0, k)"
    "kernel_buffer k \<noteq> KFreed" "nodes (ks_graph k) = Some t" "tbl_cap t = length g1"
    by blast
  with init_overflow [OF assms(1,3) k(3) _ k(2)] assms(4) show ?thesis by auto
qed

theorem second_larger_graph_overflows_witness:
  "\<exists>d1 d2 k. sandbox_init True (\<lambda>_ _. True) (Some d1) (of_nat MEMORY_POOL_SIZE) ksys_init =
      Inr (Returned 0, k) \<and>
    sandbox_init True (\<lambda>_ _. True) (Some d2) (of_nat MEMORY_POOL_SIZE) k = Inl Out_of_bounds"
proof -
  obtain s m where "sealed m looping" using build_graph_spec [OF looping_ok(4)] by metis
  then have c1: "carries (whole_buffer m) (of_nat MEMORY_POOL_SIZE) looping"
    by (rule whole_carries) (simp_all add: looping_ok)
  obtain d2 where c2: "carries d2 (of_nat MEMORY_POOL_SIZE) demo" using demo_carried by blast
  have "\<forall>j z. (\<lambda>_ _. True) (j :: nat) (z :: u64)" "length looping < length demo"
    by (simp_all add: looping_ok demo_ok)
  from second_larger_graph_overflows [OF this(1) c1 c2 this(2)] show ?thesis by blast
qed

text \<open>
  The buffer is freed twice.  \<^verbatim>\<open>sandbox_cleanup\<close> frees \<^verbatim>\<open>kernel_buffer\<close> and keeps the pointer,
  so after the first sandboxed process has ended, the next cleanup and the next initialisation
  both free the same memory again.
\<close>

theorem cleanup_then_double_free:
  assumes "kernel_buffer k = KLive b" "sz \<noteq> 0"
  shows "\<exists>k'. sandbox_cleanup True k = Inr (Returned 0, k') \<and>
    sandbox_cleanup True k' = Inl Double_free \<and>
    sandbox_init True al (Some d) sz k' = Inl Double_free"
  using assms by (simp add: sandbox_cleanup_def sandbox_init_def)

theorem cleanup_then_double_free_witness:
  "\<exists>k'. sandbox_cleanup True (ksys_init\<lparr>kernel_buffer := KLive (whole_buffer (\<lambda>_. 0))\<rparr>) =
      Inr (Returned 0, k') \<and>
    sandbox_cleanup True k' = Inl Double_free \<and>
    sandbox_init True (\<lambda>_ _. True) (Some (whole_buffer (\<lambda>_. 0))) 64 k' = Inl Double_free"
  by (rule cleanup_then_double_free) simp_all

text \<open>
  \<^verbatim>\<open>sandbox_init\<close> does not report that the graph was refused.  For data whose graph is not
  finalised it dereferences a null pointer when the kernel has no lookup table yet; when it has
  one, the system call returns 0 although the graph it leaves behind fails verification.
\<close>

theorem init_with_unfinished_graph:
  assumes "\<forall>j z. al j z" "32 < unat sz" "unat sz \<le> MEMORY_POOL_SIZE" "unat sz \<le> buf_len d"
    "buf_bytes d 32 = 0" "kernel_buffer k \<noteq> KFreed"
  shows "(nodes (ks_graph k) = None \<longrightarrow> sandbox_init True al (Some d) sz k = Inl Null_deref) \<and>
    (\<forall>t. nodes (ks_graph k) = Some t \<longrightarrow> 0 < tbl_cap t \<longrightarrow>
       (\<exists>k'. sandbox_init True al (Some d) sz k = Inr (Returned 0, k') \<and>
          verify_graph (kernel_env al) (ks_graph k') = Inr (ERROR_INVALID_STATE, ks_graph k')))"
  by (rule init_not_final [OF assms])

theorem init_with_unfinished_graph_witness:
  "sandbox_init True (\<lambda>_ _. True) (Some (whole_buffer (\<lambda>_. 0))) 64 ksys_init = Inl Null_deref \<and>
   (\<exists>k. enforces demo k 0 \<and> (\<exists>k'.
      sandbox_init True (\<lambda>_ _. True) (Some (whole_buffer (\<lambda>_. 0))) 64 k = Inr (Returned 0, k') \<and>
      verify_graph (kernel_env (\<lambda>_ _. True)) (ks_graph k') = Inr (ERROR_INVALID_STATE, ks_graph k')))"
proof -
  obtain k t where k: "enforces demo k 0" "nodes (ks_graph k) = Some t" "tbl_cap t = 2"
    "kernel_buffer k \<noteq> KFreed" using demo_enforced by blast
  note th = init_with_unfinished_graph [of "\<lambda>_ _. True" 64 "whole_buffer (\<lambda>_. 0)"]
  have "nodes (ks_graph ksys_init) = None" by (simp add: ksys_init_def memgraph_init_def)
  with th [of ksys_init] ksys_init_ready(2) th [of k] k show ?thesis
    by (simp add: whole_buffer_def layout_simps) blast
qed

text \<open>
  \<^verbatim>\<open>initialize_graph\<close> compares the size with the pool's only after clearing that many bytes
  of the pool: a larger size makes the system call write past the pool, whatever the data.
\<close>

theorem oversized_init_overruns:
  assumes "\<forall>j z. al j z" "MEMORY_POOL_SIZE < unat sz" "unat sz \<le> buf_len d" "kernel_buffer k \<noteq> KFreed"
  shows "sandbox_init True al (Some d) sz k = Inl Out_of_bounds"
proof -
  have "ample (kernel_env al)" using assms(1) by (simp add: ample_kernel_env)
  moreover have sz: "sz \<noteq> 0" "20 \<le> unat sz" using assms(2) by (auto simp: layout_simps)
  ultimately show ?thesis
    using sandbox_init_run [OF assms(1) sz assms(3,4)] initialize_too_big assms(2) by simp
qed

theorem oversized_init_overruns_witness:
  "sandbox_init True (\<lambda>_ _. True) (Some \<lparr>buf_len = 1048577, buf_bytes = (\<lambda>_. 0)\<rparr>) 1048577 ksys_init =
     Inl Out_of_bounds"
  by (rule oversized_init_overruns) (simp_all add: layout_simps ksys_init_ready)

section \<open>The busybox applet\<close>

text \<open>
  The applet on a fresh kernel.  Its data is a text, and verification refuses it; the system
  call goes on and dereferences the lookup table that was never allocated, so running
  \<^verbatim>\<open>syscalltest\<close> on a kernel in which no process has been sandboxed is a null dereference in the
  kernel.
\<close>

theorem applet_crashes_fresh_kernel:
  assumes "\<forall>j z. al j z" "kernel_buffer k \<noteq> KFreed" "nodes (ks_graph k) = None"
  shows "syscalltest_main True al k = Inl Null_deref"
  using text_init_fresh [OF assms] by (simp add: syscalltest_main_def)

theorem applet_crashes_fresh_kernel_witness:
  "syscalltest_main True (\<lambda>_ _. True) ksys_init = Inl Null_deref"
  by (rule applet_crashes_fresh_kernel) (simp_all add: ksys_init_def memgraph_init_def)

text \<open>
  The applet under an earlier automaton.  The sixty bytes of the text end before the number of
  nodes in the pool's header, so when the kernel enforces a graph of an earlier process, the
  refused initialisation returns 0 and leaves that graph in force, from its entry: the applet
  prints the states the calls 1 to 19 lead to and is killed at the first one the graph does not
  allow.
\<close>

theorem applet_runs_old_automaton:
  assumes "\<forall>j z. al j z" "kernel_buffer k \<noteq> KFreed" "enforces g k q"
  shows "\<exists>k'. syscalltest_main True al k =
    Inr (fst (applet_run g 0 19 1 0), snd (applet_run g 0 19 1 0), k')"
proof -
  obtain k1 where k1: "sandbox_init True al (Some sandbox_data) sandbox_init_data_size k =
      Inr (Returned 0, k1)" "enforces g k1 0"
    by (rule text_init_old [OF assms])
  have "syscall_result 0 = int 0" using syscall_result_small [of 0] by simp
  with k1(1) issue_calls_run [OF k1(2), of 19 1 0] show ?thesis by (simp add: syscalltest_main_def)
qed

theorem applet_runs_old_automaton_witness:
  "\<exists>k k'. enforces demo k 0 \<and> syscalltest_main True (\<lambda>_ _. True) k = Inr (Died, [], k')"
proof -
  obtain k where k: "enforces demo k 0" "kernel_buffer k \<noteq> KFreed" using demo_enforced by blast
  have "astep demo 0 1 = None" by (simp add: demo_def astep_def)
  moreover have "(19 :: nat) = Suc 18" by simp
  ultimately have "applet_run demo 0 19 1 0 = (Died, [])"
    by (simp only: applet_run.simps of_nat_1 option.case)
  with applet_runs_old_automaton [of "\<lambda>_ _. True", OF _ k(2,1)] k(1) show ?thesis by auto
qed

text \<open>
  The applet on a kernel without the sandbox.  The initialisation fails and is not looked at;
  every dummy call returns 0, and the applet prints twenty zeros and reports success.
\<close>

theorem applet_ignores_missing_sandbox:
  "syscalltest_main False al k = Inr (Exited 0, replicate 20 0, k)"
proof -
  have "sandbox_init False al (Some sandbox_data) sandbox_init_data_size k = Inr (Returned (- ENOSYS), k)"
    by (simp add: sandbox_init_def)
  moreover have "replicate 20 (0 :: int) = replicate 19 0 @ [0]"
    by (simp add: replicate_append_same eval_nat_numeral)
  ultimately show ?thesis by (simp add: syscalltest_main_def issue_calls_off)
qed

section \<open>The graph library\<close>

text \<open>
  C24. \<^verbatim>\<open>alloc_node\<close> implements appending a state.  While the graph \<open>g\<close> is under construction and
  there is room, the call succeeds, returns the address right behind the graph, and the pool then
  encodes \<open>g\<close> with one more state, whose edges pair the two argument arrays; the counters, the
  allocation pointer and the lookup table again describe the longer graph.
\<close>

theorem alloc_node_appends:
  assumes "building s g" "ample e" "room_for (g @ [node_of nid k succs calls])"
    "k \<le> length calls" "k \<le> length succs"
  shows "\<exists>s'. alloc_node e nid (of_nat k) succs calls s =
      Inr (PoolP (pool_gen s) (NODE_TABLE_OFFSET + graph_size g), s') \<and>
    building s' (g @ [node_of nid k succs calls])"
  using assms by (rule alloc_node_spec)

theorem alloc_node_appends_witness:
  "\<exists>s s'. building s [] \<and> alloc_node (ample_env User) 0 (of_nat 2) [1, 0] [7, 9] s =
      Inr (PoolP (pool_gen s) (NODE_TABLE_OFFSET + graph_size []), s') \<and>
    building s' ([] @ [node_of 0 2 [1, 0] [7, 9]])"
proof -
  obtain s where s: "building s []" using empty_graph by blast
  have "room_for ([] @ [node_of 0 2 [1, 0] [7, 9]])"
    by (simp add: room_for_def node_of_def node_size_def layout_simps)
  moreover have "2 \<le> length [7 :: u64, 9]" "2 \<le> length [1 :: u64, 0]" by simp_all
  ultimately show ?thesis using alloc_node_appends [OF s ample_ample_env] s by blast
qed

text \<open>
  \<^verbatim>\<open>alloc_node\<close> checks no bound.  A node that does not fit behind the graph is written past the
  end of the pool, and an identifier more than 4096 above the number of nodes is stored past the
  end of the lookup table.
\<close>

theorem alloc_node_is_unchecked:
  assumes "building s g" "ample e" "room_for g" "k < 2 ^ 31" "k \<le> length calls" "k \<le> length succs"
    and "MEMORY_POOL_SIZE < NODE_TABLE_OFFSET + graph_size (g @ [node_of nid k succs calls]) \<or>
      length g + 4096 < unat nid"
  shows "alloc_node e nid (of_nat k) succs calls s = Inl Out_of_bounds"
  using assms by (rule alloc_node_overflow)

theorem alloc_node_is_unchecked_witness:
  "\<exists>s. building s [] \<and> alloc_node (ample_env User) 5000 (of_nat 1) [1] [7] s = Inl Out_of_bounds \<and>
     alloc_node (ample_env User) 0 (of_nat 50000) (replicate 50000 0) (replicate 50000 7) s = Inl Out_of_bounds"
proof -
  obtain s where s: "building s []" using empty_graph by blast
  have r: "room_for []" by (simp add: room_for_def layout_simps)
  have "length (ps_edges (node_of 0 50000 (replicate 50000 0) (replicate 50000 7))) = 50000"
    by (rule node_of_simps(1)) simp_all
  then have "MEMORY_POOL_SIZE < NODE_TABLE_OFFSET +
      graph_size ([] @ [node_of 0 50000 (replicate 50000 0) (replicate 50000 7)])"
    by (simp add: node_size_def layout_simps)
  with s alloc_node_is_unchecked [OF s ample_ample_env r, of 1 "[7]" "[1]" 5000]
    alloc_node_is_unchecked [OF s ample_ample_env r, of 50000 "replicate 50000 7" "replicate 50000 0" 0]
  show ?thesis by auto
qed

text \<open>A graph of \<open>n\<close> states without edges.\<close>

definition rows :: "nat \<Rightarrow> graph" where
  "rows n = map (\<lambda>i. \<lparr>ps_id = of_nat i, ps_edges = []\<rparr>) [0..<n]"

lemma rows_room: "n \<le> 4097 \<Longrightarrow> room_for (rows n)"
proof -
  assume n: "n \<le> 4097"
  have "graph_size (rows n) = 24 * n" by (induction n) (simp_all add: rows_def node_size_def)
  with n show ?thesis
    by (simp add: room_for_def rows_def layout_simps unat_of_nat_small)
qed

lemma rows_split: "rows 4097 = rows 4096 @ [node_of 4096 0 [] []]"
proof -
  have "[0..<4097] = [0..<4096] @ [4096::nat]" using upt_Suc [of 0 4096] by simp
  then show ?thesis by (simp add: rows_def node_of_def)
qed

text \<open>
  C25. The capacity outlives the table.  \<^verbatim>\<open>destroy_graph\<close> frees the lookup table and keeps
  \<^verbatim>\<open>num_nodes_listings\<close>.  After a graph of more than 4096 states has been built and destroyed, the
  next graph gets a table of 4096 entries that is not grown: its first 4096 states are stored, and
  the state with identifier 4096 is stored past the end of the table, although it has room.
\<close>

theorem stale_capacity_overflows:
  assumes "building s h" "4096 < length h" "ample e" "length g = 4096"
    and "room_for (g @ [node_of nid k succs calls])" "k \<le> length calls" "k \<le> length succs" "unat nid = 4096"
  shows "\<exists>s1 s2. initialize_graph e None 0 (destroy_graph s) = Inr s1 \<and>
    add_all (alloc_progstate e) g s1 = Inr s2 \<and>
    alloc_node e nid (of_nat k) succs calls s2 = Inl Out_of_bounds"
  using assms by (rule stale_overflow)

theorem stale_capacity_overflows_witness:
  "\<exists>s s1 s2. building s (rows 4097) \<and>
    initialize_graph (ample_env User) None 0 (destroy_graph s) = Inr s1 \<and>
    add_all (alloc_progstate (ample_env User)) (rows 4096) s1 = Inr s2 \<and>
    alloc_node (ample_env User) 4096 0 [] [] s2 = Inl Out_of_bounds"
proof -
  obtain s0 where "building s0 []" using empty_graph by blast
  with pool_builder.add_all_nodes [of s0 "[]" "ample_env User" "rows 4097"] rows_room [of 4097]
  obtain s where s: "building s (rows 4097)" by auto
  have l: "4096 < length (rows 4097)" "length (rows 4096) = 4096" by (simp_all add: rows_def)
  have r: "room_for (rows 4096 @ [node_of 4096 0 [] []])"
    using rows_room [of 4097] unfolding rows_split by simp
  from stale_capacity_overflows [OF s l(1) ample_ample_env l(2) r] s show ?thesis by auto
qed

text \<open>
  C23. Building a graph and decoding the pool gives the graph back: what \<^verbatim>\<open>initialize_graph\<close>, one
  \<^verbatim>\<open>alloc_node\<close> per state and \<^verbatim>\<open>finalize_graph\<close> leave in the pool is an encoding from which every
  state, its identifier and its edges are recovered.
\<close>

theorem build_decode_roundtrip:
  assumes "room_for g"
  shows "\<exists>s m. build_graph (ample_env User) g memgraph_init = Inr s \<and> pool s = Some m \<and>
    decode_graph m NODE_TABLE_OFFSET (length g) = g"
proof -
  obtain s m where s: "build_graph (ample_env User) g memgraph_init = Inr s" "pool s = Some m" "sealed m g"
    using build_graph_spec [OF assms] by metis
  have "graph_size g < 2 ^ 64" using assms by (simp add: room_for_def layout_simps)
  moreover have "words_at m NODE_TABLE_OFFSET (graph_words g)"
    using s(3) by (simp add: sealed_def encodes_def)
  ultimately show ?thesis using s decode_graph_words by blast
qed

theorem build_decode_roundtrip_witness:
  "\<exists>s m. build_graph (ample_env User) demo memgraph_init = Inr s \<and> pool s = Some m \<and>
    decode_graph m NODE_TABLE_OFFSET (length demo) = demo"
  by (rule build_decode_roundtrip) (rule demo_ok)

text \<open>
  C22. \<^verbatim>\<open>verify_graph\<close> accepts every finished graph that fits: it returns 1 and leaves a lookup
  table whose entry for each state is the address of that state in the pool.
\<close>

theorem verify_accepts:
  assumes "pool s = Some m" "sealed m g" "fits g" "table_ready e s (length g)"
  shows "\<exists>s'. verify_graph e s = Inr (1, s') \<and> holds NODE_TABLE_OFFSET g s'"
  using verify_complete [OF assms] by metis

lemma demo_state: "\<exists>s m. pool s = Some m \<and> sealed m demo \<and> table_ready (ample_env User) s (length demo)"
proof -
  obtain s m where "pool s = Some m" "sealed m demo" "table_inv s (length demo)"
    using build_graph_spec [OF demo_ok(4)] by metis
  with table_inv_ready ample_ample_env show ?thesis by blast
qed

theorem verify_accepts_witness:
  "\<exists>s s'. verify_graph (ample_env User) s = Inr (1, s') \<and> holds NODE_TABLE_OFFSET demo s'"
  using demo_state verify_accepts [OF _ _ demo_ok(3)] by blast

text \<open>
  C21. \<^verbatim>\<open>verify_graph\<close> is sound: if it returns 1, the pool is finalised, has the magic number, and
  its contents from the node table on are the encoding of the graph one decodes there, so every
  node and every edge up to the counts the pool states carries its magic number.
\<close>

theorem verify_is_sound:
  assumes "verify_graph e s = Inr (1, s')"
  shows "\<exists>m. pool s = Some m \<and>
    load8 m (offset_of graph_metadata ''graph_finalized'') \<noteq> 0 \<and>
    load64 m (offset_of graph_metadata ''magic'') = GRAPH_META_MAGIC_NUMBER \<and>
    (let off = unat (load64 m (offset_of graph_metadata ''nodes_table_offset''));
         n = unat (load64 m (offset_of graph_metadata ''num_nodes''))
     in words_at m off (graph_words (decode_graph m off n)))"
  using verify_sound [OF assms] by (metis (no_types, lifting))

theorem verify_is_sound_witness:
  "\<exists>s s' m. verify_graph (ample_env User) s = Inr (1, s') \<and> pool s = Some m \<and>
    load64 m (offset_of graph_metadata ''magic'') = GRAPH_META_MAGIC_NUMBER"
proof -
  obtain s m where s: "pool s = Some m" "sealed m demo" "table_ready (ample_env User) s (length demo)"
    using demo_state by blast
  from verify_complete [OF s(1,2) demo_ok(3) s(3)] obtain s' where
    v: "verify_graph (ample_env User) s = Inr (1, s')" by metis
  from verify_is_sound [OF v] v show ?thesis by blast
qed

text \<open>
  A corrupted node is found: if the magic number of any one state of a finished graph is
  overwritten with another value, \<^verbatim>\<open>verify_graph\<close> returns \<^verbatim>\<open>ERROR_INVALID_NODE\<close>.
\<close>

theorem corrupted_node_is_found:
  assumes "sealed m g" "fits g" "q < length g" "w \<noteq> NODE_MAGIC_NUMBER"
    "pool s = Some (store64 m (node_pos NODE_TABLE_OFFSET g q) w)" "table_ready e s (length g)"
  shows "\<exists>s'. verify_graph e s = Inr (ERROR_INVALID_NODE, s')"
  using corrupted_node [of s m g q w e] assms by (simp add: layout_simps)

lemma demo_corrupted: "\<exists>(s :: memgraph) m. sealed m demo \<and> pool s = Some (store64 m a w) \<and> nodes s = None"
proof -
  obtain m where "sealed m demo" using demo_state by blast
  then show ?thesis
    by (intro exI [of _ "memgraph_init\<lparr>pool := Some (store64 m a w)\<rparr>"] exI [of _ m])
      (simp add: memgraph_init_def)
qed

theorem corrupted_node_is_found_witness:
  "\<exists>s m s'. sealed m demo \<and> pool s = Some (store64 m (node_pos NODE_TABLE_OFFSET demo 1) 0) \<and>
     verify_graph (ample_env User) s = Inr (ERROR_INVALID_NODE, s')"
proof -
  obtain s :: memgraph and m where s: "sealed m demo"
    "pool s = Some (store64 m (node_pos NODE_TABLE_OFFSET demo 1) 0)"
    "nodes s = None" using demo_corrupted by blast
  have "table_ready (ample_env User) s (length demo)" using s(3) by (simp add: table_ready_def ample_env_def)
  moreover have "1 < length demo" "0 \<noteq> NODE_MAGIC_NUMBER"
    by (simp_all add: demo_ok NODE_MAGIC_NUMBER_def)
  ultimately show ?thesis using corrupted_node_is_found [OF s(1) demo_ok(3) _ _ s(2)] s by blast
qed

text \<open>
  A corrupted edge is found: if the magic number of any one edge is overwritten,
  \<^verbatim>\<open>verify_graph\<close> returns \<^verbatim>\<open>ERROR_INVALID_EDGE\<close>.
\<close>

theorem corrupted_edge_is_found:
  assumes "sealed m g" "fits g" "q < length g" "j < length (ps_edges (g ! q))" "w \<noteq> EDGE_MAGIC_NUMBER"
    "pool s = Some (store64 m (node_pos NODE_TABLE_OFFSET g q + 24 + 24 * j) w)"
    "table_ready e s (length g)"
  shows "\<exists>s'. verify_graph e s = Inr (ERROR_INVALID_EDGE, s')"
  using corrupted_edge [of s m g q j w e] assms by (simp add: layout_simps)

theorem corrupted_edge_is_found_witness:
  "\<exists>s m s'. sealed m demo \<and> pool s = Some (store64 m (node_pos NODE_TABLE_OFFSET demo 1 + 24 + 24 * 0) 0) \<and>
     verify_graph (ample_env User) s = Inr (ERROR_INVALID_EDGE, s')"
proof -
  obtain s :: memgraph and m where s: "sealed m demo"
    "pool s = Some (store64 m (node_pos NODE_TABLE_OFFSET demo 1 + 24 + 24 * 0) 0)"
    "nodes s = None" using demo_corrupted by blast
  have "table_ready (ample_env User) s (length demo)" using s(3) by (simp add: table_ready_def ample_env_def)
  moreover have "1 < length demo" "0 < length (ps_edges (demo ! 1))" "0 \<noteq> EDGE_MAGIC_NUMBER"
    by (simp_all add: demo_def EDGE_MAGIC_NUMBER_def)
  ultimately show ?thesis using corrupted_edge_is_found [OF s(1) demo_ok(3) _ _ _ s(2)] s by blast
qed

text \<open>
  Verification only reads the pool: whatever it returns, the pool, the allocation pointer, the
  current state and the capacity counter are as before; only the lookup table may change.
\<close>

theorem verify_keeps_pool:
  assumes "verify_graph e s = Inr (rc, s')"
  shows "pool s' = pool s \<and> pool_gen s' = pool_gen s \<and> pool_edge s' = pool_edge s \<and>
    current_progstate s' = current_progstate s \<and> start_node s' = start_node s \<and>
    num_nodes_listings s' = num_nodes_listings s"
  using verify_frame [OF assms] by auto

theorem verify_keeps_pool_witness:
  "\<exists>s'. verify_graph (ample_env User) memgraph_init = Inr (ERROR_INVALID_GRAPH, s') \<and>
    pool s' = pool memgraph_init"
proof -
  have "verify_graph (ample_env User) memgraph_init = Inr (ERROR_INVALID_GRAPH, memgraph_init)"
    by (simp add: verify_graph_def memgraph_init_def)
  with verify_keeps_pool [OF this] show ?thesis by blast
qed

text \<open>
  Storing and loading.  A finished graph written with \<^verbatim>\<open>store_graph\<close> and read back with
  \<^verbatim>\<open>load_graph\<close>, by a process whose lookup table is absent or large enough, is accepted, is held
  by the new module state, and every byte of the pool is restored.
\<close>

theorem store_load_roundtrip:
  assumes "pool s = Some m" "sealed m g" "fits g"
    and "can_write fs f" "MEMORY_POOL_SIZE \<le> accepts fs f" "ample e" "table_large s2 (length g)"
  shows "\<exists>fs' s' m'. store_graph e f s fs = Inr fs' \<and> load_graph e f fs' s2 = Inr s' \<and>
    holds NODE_TABLE_OFFSET g s' \<and> pool s' = Some m' \<and> (\<forall>k<MEMORY_POOL_SIZE. m' k = m k)"
proof -
  let ?fs = "fs\<lparr>files := (files fs)(f \<mapsto> \<lparr>buf_len = MEMORY_POOL_SIZE, buf_bytes = m\<rparr>)\<rparr>"
  have "files ?fs f = Some \<lparr>buf_len = MEMORY_POOL_SIZE, buf_bytes = m\<rparr>" by simp
  from load_spec [OF assms(6,7,2,3) this] store_spec [OF assms(4,5,1), of e] show ?thesis by metis
qed

theorem store_load_roundtrip_witness:
  "\<exists>s fs fs' s'. store_graph (ample_env User) ''g.bin'' s fs = Inr fs' \<and>
    load_graph (ample_env User) ''g.bin'' fs' memgraph_init = Inr s' \<and> holds NODE_TABLE_OFFSET demo s'"
proof -
  let ?fs = "\<lparr>files = (\<lambda>_. None), can_write = (\<lambda>_. True), accepts = (\<lambda>_. MEMORY_POOL_SIZE)\<rparr>"
  obtain s :: memgraph and m where "pool s = Some m" "sealed m demo" using demo_state by blast
  from store_load_roundtrip [OF this demo_ok(3), of ?fs "''g.bin''" "ample_env User" memgraph_init]
  show ?thesis by (simp add: memgraph_init_def table_large_def) blast
qed

text \<open>
  C26. The queries implement the automaton.  In a state that stands at \<open>q\<close>,
  \<^verbatim>\<open>is_state_transition_valid\<close> returns the number of the next state, or 0 when the call is not
  allowed; \<^verbatim>\<open>transition_to_state\<close> moves to the next state and returns its number, or returns
  \<^verbatim>\<open>ERROR_INVALID_STATE\<close> and changes nothing.
\<close>

theorem queries_follow_automaton:
  assumes "at_state b g s q"
  shows "case astep g q c of
      None \<Rightarrow> is_state_transition_valid s c = Inr 0 \<and>
        transition_to_state s c = Inr (ERROR_INVALID_STATE, s)
    | Some q' \<Rightarrow> is_state_transition_valid s c = Inr (of_nat q') \<and>
        (\<exists>s'. transition_to_state s c = Inr (of_nat q', s') \<and> at_state b g s' q')"
proof (cases "astep g q c")
  case None
  with transition_refused [OF assms] show ?thesis by simp
next
  case (Some q')
  have "q' < length g" using assms astep_bound [of g q c q'] Some by (simp add: at_state_def)
  with Some transition_allowed [OF assms Some] at_state_step [OF assms] show ?thesis by auto
qed

theorem queries_follow_automaton_witness:
  "\<exists>s. case astep demo 0 7 of
      None \<Rightarrow> is_state_transition_valid s 7 = Inr 0 \<and>
        transition_to_state s 7 = Inr (ERROR_INVALID_STATE, s)
    | Some q' \<Rightarrow> is_state_transition_valid s 7 = Inr (of_nat q') \<and>
        (\<exists>s'. transition_to_state s 7 = Inr (of_nat q', s') \<and> at_state NODE_TABLE_OFFSET demo s' q')"
  using demo_enforced queries_follow_automaton [of NODE_TABLE_OFFSET demo _ 0 7]
  unfolding enforces_def by blast

text \<open>
  The traversal of the library's tests: after \<^verbatim>\<open>reset_progstate\<close>, trying the calls of a
  sequence one by one ends with all accepted exactly when the sequence is a run of the automaton
  from the entry state, and never stops with a memory error.
\<close>

theorem traversal_is_exact:
  assumes "wf_graph g" "g \<noteq> []" "holds b g s"
  shows "\<exists>s0. reset_progstate s = Inr s0 \<and>
    (\<forall>cs. \<exists>s'. run_calls try_call s0 cs = Inr (arun (astep g) 0 cs \<noteq> None, s'))"
proof -
  obtain s0 where "reset_progstate s = Inr s0" "at_state b g s0 0"
    using reset_spec [OF assms(1,3,2)] by blast
  with driver.run_exact show ?thesis by blast
qed

theorem traversal_is_exact_witness:
  "\<exists>s s0. reset_progstate s = Inr s0 \<and>
    (\<forall>cs. \<exists>s'. run_calls try_call s0 cs = Inr (arun (astep demo) 0 cs \<noteq> None, s'))"
proof -
  obtain k where "enforces demo k 0" using demo_enforced by blast
  then have "holds NODE_TABLE_OFFSET demo (ks_graph k)" by (simp add: enforces_def at_state_def)
  from traversal_is_exact [OF demo_ok(1,2) this] show ?thesis by blast
qed

section \<open>From the compiler to the kernel\<close>

lemma generate_then_init:
  assumes "graaf_lib L ok" "cg_inv L ok g" "ample e"
    and "length (fst junk) = 1000" "length (snd junk) = 1000"
    and "n = length (get_vertices L g)" "0 < n" "n * n < 1000"
    and "\<forall>j z. al j z" "table_large (ks_graph k) n" "kernel_buffer k \<noteq> KFreed"
  obtains data s' k' where
    "GenerateInMemoryGraph L e hash junk r g M memgraph_init = Inr (SectionAddressHandler data M, s')"
    "sandbox_init True al (Some \<lparr>buf_len = length data, buf_bytes = (\<lambda>i. data ! i)\<rparr>)
       (of_nat (length data)) k = Inr (Returned 0, k')"
    "\<And>c. map_of (ps_edges (generated_graph L hash junk r g ! 0)) c = None \<Longrightarrow>
       sandbox_dummycall True c k' = Inr (Killed, k')"
proof -
  let ?G = "generated_graph L hash junk r g"
  from graaf_lib.generate_inv [OF assms(1-6), of hash r M] assms(8) obtain m s' where
    m: "GenerateInMemoryGraph L e hash junk r g M memgraph_init =
          Inr (SectionAddressHandler (map m [0..<1024 * 1024]) M, s')" "sealed m ?G"
    by auto
  define data where "data = map m [0..<1024 * 1024]"
  have fits: "fits ?G" by (rule generated_fits [OF assms(4-6,8)])
  have G: "?G \<noteq> []" "table_large (ks_graph k) (length ?G)"
    using assms(6,7,10) generated_graph_length [of L hash junk r g] by auto
  from embedded_installs [OF m(2) fits G(1) data_def assms(9) G(2) assms(11)] obtain k' where
    "sandbox_init True al (Some (data_buffer data)) (of_nat (length data)) k = Inr (Returned 0, k')"
    "refuses (fst ` set (ps_edges (?G ! 0))) k'" .
  with m(1) that show thesis unfolding data_def by (simp add: data_buffer_def refuses_def map_of_eq_None_iff)
qed

text \<open>
  The generated sandbox kills the program it was made for.  The kernel accepts the pool that
  the pass places in the program, although its edges have a hash in the place of the library
  call; the first guarded call whose number is none of the hashes in the edges of the first node
  is then refused and the process killed, whether or not the program makes the call rightly.
\<close>

theorem generated_program_is_killed:
  assumes "graaf_lib L ok" "cg_inv L ok g" "ample e"
    and "length (fst junk) = 1000" "length (snd junk) = 1000"
    and "n = length (get_vertices L g)" "0 < n" "n * n < 1000"
    and "\<forall>j z. al j z" "table_large (ks_graph k) n" "kernel_buffer k \<noteq> KFreed"
    and "call \<notin> fst ` set (ps_edges (generated_graph L hash junk r g ! 0))"
  shows "\<exists>data s' k'.
    GenerateInMemoryGraph L e hash junk r g M memgraph_init = Inr (SectionAddressHandler data M, s') \<and>
    sandbox_init True al (Some \<lparr>buf_len = length data, buf_bytes = (\<lambda>i. data ! i)\<rparr>)
      (of_nat (length data)) k = Inr (Returned 0, k') \<and>
    sandbox_dummycall True call k' = Inr (Killed, k')"
proof -
  have "map_of (ps_edges (generated_graph L hash junk r g ! 0)) call = None"
    using assms(12) by (simp add: map_of_eq_None_iff)
  with generate_then_init [OF assms(1-11), of hash r M] show ?thesis by metis
qed

lemma demo_junk_starts: "snd demo_junk = 0 # 0 # 0 # replicate 997 0"
proof -
  have "snd demo_junk = replicate (3 + 997) 0" by (simp add: demo_junk_def)
  also have "\<dots> = replicate 3 0 @ replicate 997 0" by (rule replicate_add)
  finally show ?thesis by (simp add: numeral_3_eq_3)
qed

lemma fork_first_calls:
  "(7 :: u64) \<notin> fst ` set (ps_edges (generated_graph assoc_graaf demo_hash demo_junk demo_reader fork_graph ! 0))"
proof -
  have n: "get_neighbors assoc_graaf ''u'' fork_graph = Inr [''v'', ''y'']"
    "get_neighbors assoc_graaf ''v'' fork_graph = Inr [''y'']"
    "get_neighbors assoc_graaf ''y'' fork_graph = Inr []"
    by (simp_all add: fork_graph_def ag_eval get_neighbors_def)
  have h: "demo_hash ''y'' mod MODULUS = 338" by (simp add: demo_hash_def MODULUS_def)
  have sub: "x \<in> fst ` set (zip a b) \<Longrightarrow> x \<in> set a" for x :: u64 and a and b :: "u64 list"
    by (auto dest: set_zip_leftD)
  show ?thesis
    by (rule notI)
      (simp add: generated_graph_def fork_graph_vertices out_names_def node_of_def n h,
       drule sub, simp add: set_last_def demo_junk_starts)
qed

theorem generated_program_is_killed_witness:
  "\<exists>data s' k'.
    GenerateInMemoryGraph assoc_graaf (ample_env User) demo_hash demo_junk demo_reader fork_graph
      \<lparr>m_functions = [demo_fun], m_globals = []\<rparr> memgraph_init =
      Inr (SectionAddressHandler data \<lparr>m_functions = [demo_fun], m_globals = []\<rparr>, s') \<and>
    sandbox_init True (\<lambda>_ _. True) (Some \<lparr>buf_len = length data, buf_bytes = (\<lambda>i. data ! i)\<rparr>)
      (of_nat (length data)) ksys_init = Inr (Returned 0, k') \<and>
    sandbox_dummycall True 7 k' = Inr (Killed, k')"
  by (rule generated_program_is_killed [OF assoc.graaf_lib_axioms fork_graph_inv ample_ample_env
        demo_junk_length refl]) (simp_all add: fork_graph_vertices ksys_init_ready fork_first_calls)

end
